(* ===== verification/Prelude.thy ===== *)
theory Prelude
  imports Complex_Main "HOL-Library.Word" "HOL-Library.Char_ord" "HOL-Library.List_Lexorder"
begin

unbundle bit_operations_syntax

text \<open>
  Shared vocabulary of the development: the machine integers of the engine as words, bytes and
  byte strings, the little-endian codecs that the WAL, the Raft log and the SST files all use,
  the zero-padded decimal names of WAL segments with \<open>std::stoull\<close>, and generic facts on lists
  and words.  The collections \<open>codec_simps\<close> and \<open>len_simps\<close> carry the round-trip laws and the
  fixed widths that the component proofs rewrite with.
\<close>

named_theorems codec_simps \<open>round-trip laws of the byte codecs\<close>
named_theorems len_simps \<open>lengths of encoded fields\<close>

section \<open>Machine integers and byte strings\<close>

type_synonym byte = "8 word"
type_synonym u16 = "16 word"
type_synonym u32 = "32 word"
type_synonym u64 = "64 word"
type_synonym bytes = "byte list"

text \<open>A \<open>std::string\<close> that holds text is a \<open>string\<close>; its bytes are the character codes.\<close>

definition bytes_of :: "string \<Rightarrow> bytes" where
  "bytes_of s = map of_char s"

lemma length_bytes_of [simp]: "length (bytes_of s) = length s"
  by (simp add: bytes_of_def)

lemma xor_cancel_right: "x XOR c = y XOR c \<longleftrightarrow> x = (y :: 'a::len word)"
  by (auto simp: bit_eq_iff bit_xor_iff)

lemma xor_cancel_left: "c XOR x = c XOR y \<longleftrightarrow> x = (y :: 'a::len word)"
  by (auto simp: bit_eq_iff bit_xor_iff)

lemma ucast_byte_inject:
  assumes "8 \<le> LENGTH('a::len)"
  shows "(ucast (a :: byte) :: 'a word) = ucast b \<longleftrightarrow> a = b"
proof
  assume eq: "(ucast a :: 'a word) = ucast b"
  show "a = b"
  proof (rule bit_word_eqI)
    fix n
    assume "n < LENGTH(8)"
    then have "n < LENGTH('a)"
      using assms by simp
    moreover have "bit (ucast a :: 'a word) n = bit (ucast b :: 'a word) n"
      using eq by simp
    ultimately show "bit a n = bit b n"
      by (simp add: bit_ucast_iff)
  qed
qed simp

section \<open>Little-endian codecs\<close>

text \<open>
  The C++ writes \<open>(value >> shift) & 0xff\<close> for \<open>shift = 0, 8, \<dots>\<close> and reads the bytes back with
  \<open>value |= byte << shift\<close>; the recursion below produces and consumes the same bytes in order.
\<close>

fun le_bytes :: "nat \<Rightarrow> 'a::len word \<Rightarrow> bytes" where
  "le_bytes 0 w = []"
| "le_bytes (Suc n) w = ucast (w AND 255) # le_bytes n (drop_bit 8 w)"

fun le_word :: "bytes \<Rightarrow> 'a::len word" where
  "le_word [] = 0"
| "le_word (b # bs) = ucast b OR push_bit 8 (le_word bs)"

lemma length_le_bytes [simp, len_simps]: "length (le_bytes n w) = n"
  by (induction n arbitrary: w) auto

lemma and_255_take_bit: "w AND 255 = take_bit 8 (w :: 'a::len word)"
proof -
  have "(255 :: 'a word) = mask 8"
    by (simp add: mask_eq_exp_minus_1)
  then show ?thesis
    by (simp add: take_bit_eq_mask)
qed

lemma le_word_Cons_bytes:
  "ucast (ucast (w AND 255) :: byte) OR push_bit 8 (take_bit n (drop_bit 8 w))
     = take_bit (8 + n) (w :: 'a::len word)"
  by (rule bit_eqI) (auto simp: and_255_take_bit bit_simps)

theorem le_word_le_bytes: "le_word (le_bytes n w) = take_bit (8 * n) (w :: 'a::len word)"
proof (induction n arbitrary: w)
  case 0
  then show ?case by simp
next
  case (Suc n)
  then show ?case
    using le_word_Cons_bytes [of w "8 * n"] by simp
qed

lemma le_word_roundtrip [codec_simps]:
  assumes "LENGTH('a) \<le> 8 * n"
  shows "le_word (le_bytes n w) = (w :: 'a::len word)"
  by (simp add: le_word_le_bytes take_bit_word_eq_self assms)

lemma le_bytes_le_word:
  assumes "8 * length bs \<le> LENGTH('a)"
  shows "le_bytes (length bs) (le_word bs :: 'a::len word) = bs"
  using assms
proof (induction bs)
  case Nil
  then show ?case by simp
next
  case (Cons b bs)
  let ?w = "le_word bs :: 'a word"
  have hd: "ucast ((ucast b OR push_bit 8 ?w) AND 255) = b"
    using Cons.prems by (intro bit_eqI) (auto simp: and_255_take_bit bit_simps)
  have tl: "drop_bit 8 (ucast b OR push_bit 8 ?w) = (take_bit (LENGTH('a) - 8) ?w)"
    using Cons.prems by (intro bit_eqI) (auto simp: bit_simps dest: bit_imp_le_length)
  have "take_bit (LENGTH('a) - 8) ?w = ?w"
  proof (rule bit_eqI)
    fix n
    have "\<not> bit (le_word bs :: 'a word) n" if "8 * length bs \<le> n"
      using that
      by (induction bs arbitrary: n) (auto simp: bit_simps dest: bit_imp_le_length)
    then show "bit (take_bit (LENGTH('a) - 8) ?w) n = bit ?w n"
      using Cons.prems by (force simp: bit_simps)
  qed
  then show ?case
    using Cons hd tl by simp
qed

section \<open>Decimal names\<close>

text \<open>
  \<open>std::setw(k) << std::setfill('0') << n\<close> prints \<open>n\<close> in decimal padded with zeros to \<open>k\<close> digits;
  \<open>pad_dec k n\<close> is that string for the numbers of at most \<open>k\<close> digits, which is all the engine prints
  this way (20 digits hold every 64-bit number).
\<close>

definition digit_char :: "nat \<Rightarrow> char" where
  "digit_char d = char_of (48 + d)"

fun pad_dec :: "nat \<Rightarrow> nat \<Rightarrow> string" where
  "pad_dec 0 n = []"
| "pad_dec (Suc k) n = pad_dec k (n div 10) @ [digit_char (n mod 10)]"

definition is_digit :: "char \<Rightarrow> bool" where
  "is_digit c \<longleftrightarrow> 48 \<le> (of_char c :: nat) \<and> (of_char c :: nat) \<le> 57"

definition digit_val :: "char \<Rightarrow> nat" where
  "digit_val c = of_char c - 48"

definition dec_val :: "string \<Rightarrow> nat" where
  "dec_val s = foldl (\<lambda>acc c. 10 * acc + digit_val c) 0 s"

definition is_space :: "char \<Rightarrow> bool" where
  "is_space c \<longleftrightarrow> (of_char c :: nat) = 32 \<or> (9 \<le> (of_char c :: nat) \<and> (of_char c :: nat) \<le> 13)"

text \<open>
  \<open>std::stoull\<close> in base ten: leading white space, an optional sign, then the longest run of digits;
  no digits raise \<open>invalid_argument\<close> and a magnitude beyond 64 bits \<open>out_of_range\<close>, both \<open>None\<close> here.
  A leading minus negates in the unsigned type.
\<close>

definition stoull :: "string \<Rightarrow> u64 option" where
  "stoull s =
     (let s1 = dropWhile is_space s;
          neg = (case s1 of c # _ \<Rightarrow> c = CHR ''-'' | [] \<Rightarrow> False);
          s2 = (case s1 of c # r \<Rightarrow> if c = CHR ''-'' \<or> c = CHR ''+'' then r else s1 | [] \<Rightarrow> []);
          ds = takeWhile is_digit s2; n = dec_val ds
      in if ds = [] then None
         else if 2 ^ 64 \<le> n then None
         else Some (if neg then - of_nat n else of_nat n))"

lemma of_char_digit_char [simp]: "d < 10 \<Longrightarrow> (of_char (digit_char d) :: nat) = 48 + d"
  by (simp add: digit_char_def)

lemma digit_val_digit_char [simp]: "d < 10 \<Longrightarrow> digit_val (digit_char d) = d"
  by (simp add: digit_val_def)

lemma is_digit_digit_char [simp]: "d < 10 \<Longrightarrow> is_digit (digit_char d)"
  by (simp add: is_digit_def)

lemma length_pad_dec [simp, len_simps]: "length (pad_dec k n) = k"
  by (induction k arbitrary: n) auto

lemma set_pad_dec_digits: "c \<in> set (pad_dec k n) \<Longrightarrow> is_digit c"
  by (induction k arbitrary: n) auto

lemma dec_val_snoc [simp]: "dec_val (s @ [c]) = 10 * dec_val s + digit_val c"
  by (simp add: dec_val_def)

lemma dec_val_pad_dec: "n < 10 ^ k \<Longrightarrow> dec_val (pad_dec k n) = n"
proof (induction k arbitrary: n)
  case 0
  then show ?case by (simp add: dec_val_def)
next
  case (Suc k)
  then have "n div 10 < 10 ^ k"
    by (simp add: less_mult_imp_div_less mult.commute)
  then show ?case
    using Suc.IH by simp
qed

lemma is_digit_not_special:
  assumes "is_digit c"
  shows "\<not> is_space c" "c \<noteq> CHR ''-''" "c \<noteq> CHR ''+''"
  using assms by (auto simp: is_digit_def is_space_def)

lemma takeWhile_all_id: "(\<And>x. x \<in> set xs \<Longrightarrow> P x) \<Longrightarrow> takeWhile P xs = xs"
  by (simp add: takeWhile_eq_all_conv)

lemma stoull_pad_dec [codec_simps]:
  assumes "n < 10 ^ k" "n < 2 ^ 64" "0 < k"
  shows "stoull (pad_dec k n) = Some (of_nat n)"
proof -
  obtain c r where cr: "pad_dec k n = c # r"
    using assms(3) length_pad_dec [of k n] by (cases "pad_dec k n") auto
  have c: "is_digit c"
    using set_pad_dec_digits [of c k n] cr by simp
  have tw: "takeWhile is_digit r = r"
    using set_pad_dec_digits [of _ k n] cr by (intro takeWhile_all_id) simp
  have "dec_val (c # r) = n"
    using dec_val_pad_dec [OF assms(1)] cr by simp
  then show ?thesis
    using assms(2) is_digit_not_special [OF c] c
    by (simp add: stoull_def cr Let_def tw)
qed

text \<open>
  File names are compared as strings.  For names padded to one width the lexicographic order is the
  numeric order, so the directory listing, sorted by name, is sorted by segment number.
\<close>

lemma snoc_less_snoc:
  fixes xs ys :: "char list"
  assumes "length xs = length ys"
  shows "xs @ [a] < ys @ [b] \<longleftrightarrow> xs < ys \<or> (xs = ys \<and> a < b)"
  using assms by (induction xs ys rule: list_induct2) (auto simp: less_list_code)

lemma digit_char_less [simp]: "a < 10 \<Longrightarrow> b < 10 \<Longrightarrow> digit_char a < digit_char b \<longleftrightarrow> a < b"
  by (simp add: less_char_def)

lemma pad_dec_inject: "m < 10 ^ k \<Longrightarrow> n < 10 ^ k \<Longrightarrow> pad_dec k m = pad_dec k n \<longleftrightarrow> m = n"
  by (metis dec_val_pad_dec)

lemma div_mod_less_iff:
  "m div 10 < n div 10 \<or> (m div 10 = n div 10 \<and> m mod 10 < n mod 10) \<longleftrightarrow> m < (n :: nat)"
proof -
  have "m = 10 * (m div 10) + m mod 10" "n = 10 * (n div 10) + n mod 10"
    "m mod 10 < 10" "n mod 10 < 10"
    by simp_all
  then show ?thesis
    by linarith
qed

lemma pad_dec_less: "m < 10 ^ k \<Longrightarrow> n < 10 ^ k \<Longrightarrow> pad_dec k m < pad_dec k n \<longleftrightarrow> m < n"
proof (induction k arbitrary: m n)
  case 0
  then show ?case by simp
next
  case (Suc k)
  have lt: "m div 10 < 10 ^ k" "n div 10 < 10 ^ k"
    using Suc.prems by (simp_all add: less_mult_imp_div_less mult.commute)
  have "pad_dec (Suc k) m < pad_dec (Suc k) n
      \<longleftrightarrow> m div 10 < n div 10 \<or> (m div 10 = n div 10 \<and> m mod 10 < n mod 10)"
    using Suc.IH [OF lt] pad_dec_inject [OF lt] by (simp add: snoc_less_snoc)
  also have "\<dots> \<longleftrightarrow> m < n"
    by (rule div_mod_less_iff)
  finally show ?case .
qed

end
