(* ===== verification/Json.thy ===== *)
theory Json
  imports Prelude
begin

text \<open>
  The JSON value the engine passes around (\<open>nlohmann::json\<close>, vendored under
  \<open>engine/include/nlohmann\<close>) and the accessors the modelled code calls on it.  Objects are
  \<open>std::map<std::string, json>\<close>: association lists kept sorted by key, one entry per key.  The
  library distinguishes signed integers, unsigned integers and doubles; integers are 64-bit words.
  An accessor that throws (\<open>type_error\<close>, \<open>out_of_range\<close>) returns \<open>None\<close>.

  The text parser, the printer and the MessagePack codec of the library are not modelled: the
  definitions that call them take them in a record \<open>json_codec\<close>, and the theorems name what they
  rely on (decoding what was encoded gives the value back) as \<open>codec_ok\<close>.
\<close>

datatype dbl = Fin rat | PosInf | NegInf | NaN

datatype json =
    JNull
  | JBool bool
  | JInt u64 \<comment> \<open>\<open>number_integer\<close>: read by \<open>sint\<close>\<close>
  | JUInt u64 \<comment> \<open>\<open>number_unsigned\<close>: read by \<open>unat\<close>\<close>
  | JFloat dbl
  | JStr string
  | JArr "json list"
  | JObj "(string \<times> json) list"

record json_codec =
  to_msgpack :: "json \<Rightarrow> bytes"
  from_msgpack :: "bytes \<Rightarrow> json option"
  jdump :: "json \<Rightarrow> bytes"
  jparse :: "bytes \<Rightarrow> json option"

text \<open>What the engine relies on: both encodings are decoded back to the value they came from.\<close>

definition codec_ok :: "json_codec \<Rightarrow> json \<Rightarrow> bool" where
  "codec_ok c j \<longleftrightarrow> from_msgpack c (to_msgpack c j) = Some j \<and> jparse c (jdump c j) = Some j"

section \<open>Objects\<close>

fun obj_insert :: "string \<Rightarrow> 'v \<Rightarrow> (string \<times> 'v) list \<Rightarrow> (string \<times> 'v) list" where
  "obj_insert k v [] = [(k, v)]"
| "obj_insert k v ((a, b) # xs) =
     (if k < a then (k, v) # (a, b) # xs
      else if k = a then (k, v) # xs
      else (a, b) # obj_insert k v xs)"

definition obj_erase :: "string \<Rightarrow> (string \<times> 'v) list \<Rightarrow> (string \<times> 'v) list" where
  "obj_erase k xs = filter (\<lambda>(a, b). a \<noteq> k) xs"

definition obj_wf :: "(string \<times> 'v) list \<Rightarrow> bool" where
  "obj_wf xs \<longleftrightarrow> sorted_wrt (<) (map fst xs)"

lemma map_of_obj_insert [simp]:
  "obj_wf xs \<Longrightarrow> map_of (obj_insert k v xs) = (map_of xs)(k \<mapsto> v)"
proof (induction xs)
  case Nil
  then show ?case by simp
next
  case (Cons ab xs)
  then show ?case
    by (cases ab) (auto simp: obj_wf_def fun_eq_iff)
qed

lemma set_keys_obj_insert: "fst ` set (obj_insert k v xs) = insert k (fst ` set xs)"
  by (induction k v xs rule: obj_insert.induct) auto

lemma obj_wf_obj_insert [simp]: "obj_wf xs \<Longrightarrow> obj_wf (obj_insert k v xs)"
proof (induction xs)
  case Nil
  then show ?case by (simp add: obj_wf_def)
next
  case (Cons ab xs)
  obtain a b where ab: "ab = (a, b)" by (cases ab)
  have tl: "obj_wf xs" and hd: "\<forall>x \<in> fst ` set xs. a < x"
    using Cons.prems by (auto simp: ab obj_wf_def)
  show ?case
    using Cons.IH [OF tl] tl hd set_keys_obj_insert [of k v xs]
    by (auto simp: ab obj_wf_def)
qed

lemma map_of_obj_erase [simp]: "map_of (obj_erase k xs) = (map_of xs)(k := None)"
  by (induction xs) (auto simp: obj_erase_def fun_eq_iff)

section \<open>Accessors\<close>

fun is_object :: "json \<Rightarrow> bool" where
  "is_object (JObj _) = True"
| "is_object _ = False"

fun jlookup :: "json \<Rightarrow> string \<Rightarrow> json option" where
  "jlookup (JObj xs) k = map_of xs k"
| "jlookup _ k = None"

definition jcontains :: "json \<Rightarrow> string \<Rightarrow> bool" where
  "jcontains j k \<longleftrightarrow> jlookup j k \<noteq> None"

text \<open>\<open>j[k] = v\<close>: a null becomes an object, any other non-object throws.\<close>

fun jset :: "json \<Rightarrow> string \<Rightarrow> json \<Rightarrow> json option" where
  "jset (JObj xs) k v = Some (JObj (obj_insert k v xs))"
| "jset JNull k v = Some (JObj [(k, v)])"
| "jset _ k v = None"

text \<open>The same on a value known to be an object.\<close>

fun jput :: "json \<Rightarrow> string \<Rightarrow> json \<Rightarrow> json" where
  "jput (JObj xs) k v = JObj (obj_insert k v xs)"
| "jput j k v = j"

fun jerase :: "json \<Rightarrow> string \<Rightarrow> json" where
  "jerase (JObj xs) k = JObj (obj_erase k xs)"
| "jerase j k = j"

fun is_number_unsigned :: "json \<Rightarrow> bool" where
  "is_number_unsigned (JUInt _) = True"
| "is_number_unsigned _ = False"

text \<open>\<open>is_number_integer\<close> is true of both integer kinds.\<close>

fun is_number_integer :: "json \<Rightarrow> bool" where
  "is_number_integer (JInt _) = True"
| "is_number_integer (JUInt _) = True"
| "is_number_integer _ = False"

fun is_string :: "json \<Rightarrow> bool" where
  "is_string (JStr _) = True"
| "is_string _ = False"

text \<open>
  Truncation of a double to an integer type; outside the range of the type the C++ conversion is
  undefined, which the model treats like the throwing case.
\<close>

definition trunc_rat :: "rat \<Rightarrow> int" where
  "trunc_rat r = (if 0 \<le> r then floor r else - floor (- r))"

fun get_u64 :: "json \<Rightarrow> u64 option" where
  "get_u64 (JUInt w) = Some w"
| "get_u64 (JInt w) = Some w"
| "get_u64 (JFloat (Fin r)) =
     (let i = trunc_rat r in if 0 \<le> i \<and> i < 2 ^ 64 then Some (of_int i) else None)"
| "get_u64 _ = None"

text \<open>\<open>get<uint32_t>()\<close>: the low bits of a number, and booleans too.\<close>

fun get_u32 :: "json \<Rightarrow> u32 option" where
  "get_u32 (JBool b) = Some (if b then 1 else 0)"
| "get_u32 j = map_option ucast (get_u64 j)"

text \<open>\<open>get<long long>()\<close>; for this type the library also accepts booleans.\<close>

fun get_ll :: "json \<Rightarrow> int option" where
  "get_ll (JUInt w) = Some (sint w)"
| "get_ll (JInt w) = Some (sint w)"
| "get_ll (JBool b) = Some (if b then 1 else 0)"
| "get_ll (JFloat (Fin r)) =
     (let i = trunc_rat r in if - (2 ^ 63) \<le> i \<and> i < 2 ^ 63 then Some i else None)"
| "get_ll _ = None"

fun get_str :: "json \<Rightarrow> string option" where
  "get_str (JStr s) = Some s"
| "get_str _ = None"

fun get_bool :: "json \<Rightarrow> bool option" where
  "get_bool (JBool b) = Some b"
| "get_bool _ = None"

text \<open>\<open>j.value(k, d)\<close>: the default when the key is absent; throws on a non-object or a wrong type.\<close>

definition jvalue :: "(json \<Rightarrow> 'a option) \<Rightarrow> json \<Rightarrow> string \<Rightarrow> 'a \<Rightarrow> 'a option" where
  "jvalue get j k d =
     (if \<not> is_object j then None
      else case jlookup j k of None \<Rightarrow> Some d | Some v \<Rightarrow> get v)"

lemma is_object_iff: "is_object j \<longleftrightarrow> (\<exists>xs. j = JObj xs)"
  by (cases j) auto

lemma is_object_jput [simp]: "is_object (jput j k v) = is_object j"
  by (cases j) auto

fun json_wf :: "json \<Rightarrow> bool" where
  "json_wf (JObj xs) = obj_wf xs"
| "json_wf _ = True"

lemma json_wf_jput [simp]: "json_wf j \<Longrightarrow> json_wf (jput j k v)"
  by (cases j) auto

lemma jlookup_jput:
  "json_wf j \<Longrightarrow> is_object j \<Longrightarrow> jlookup (jput j k v) k' = (if k' = k then Some v else jlookup j k')"
  by (cases j) auto

lemma jlookup_jerase [simp]: "jlookup (jerase j k) k' = (if k' = k then None else jlookup j k')"
  by (cases j) auto

lemma jvalue_jput_other:
  "json_wf j \<Longrightarrow> k' \<noteq> k \<Longrightarrow> jvalue get (jput j k v) k' d = jvalue get j k' d"
  by (cases j) (auto simp: jvalue_def)

end
