(* ===== verification/Checksum.thy ===== *)
theory Checksum
  imports Prelude
begin

unbundle bit_operations_syntax

text \<open>
  The hashes of the storage layer: \<open>ChecksumCalculator::crc32\<close> (\<open>data_durability.cpp\<close>) with its
  generated table, its incremental variant, and the FNV-1a loop that the WAL uses for namespace
  identities and the Bloom filters for their probes.
\<close>

section \<open>CRC-32\<close>

text \<open>One table entry: eight reflected shifts with the polynomial \<open>0xEDB88320\<close>.\<close>

definition crc32_shift :: "u32 \<Rightarrow> u32" where
  "crc32_shift crc = drop_bit 1 crc XOR (if crc AND 1 \<noteq> 0 then 0xEDB88320 else 0)"

definition crc32_entry :: "u32 \<Rightarrow> u32" where
  "crc32_entry i = (crc32_shift ^^ 8) i"

definition crc32_table :: "u32 list" where
  "crc32_table = map (\<lambda>i. crc32_entry (of_nat i)) [0..<256]"

definition crc32_step :: "u32 \<Rightarrow> byte \<Rightarrow> u32" where
  "crc32_step crc b = drop_bit 8 crc XOR crc32_table ! unat ((crc XOR ucast b) AND 0xFF)"

definition crc32 :: "bytes \<Rightarrow> u32" where
  "crc32 bs = foldl crc32_step 0xFFFFFFFF bs XOR 0xFFFFFFFF"

text \<open>\<open>IncrementalCRC32\<close>: a running state, fed in pieces.\<close>

definition crc32_init :: u32 where
  "crc32_init = 0xFFFFFFFF"

definition crc32_update :: "u32 \<Rightarrow> bytes \<Rightarrow> u32" where
  "crc32_update st bs = foldl crc32_step st bs"

definition crc32_finalize :: "u32 \<Rightarrow> u32" where
  "crc32_finalize st = st XOR 0xFFFFFFFF"

lemma unat_and_255_less: "unat ((x :: u32) AND 0xFF) < 256"
proof -
  have "x AND 0xFF \<le> (0xFF :: u32)"
    by (rule word_and_le1)
  then show ?thesis
    by (simp add: word_le_nat_alt)
qed

text \<open>The table is only an optimisation: each step looks up what the shifts compute.\<close>

lemma crc32_step_entry: "crc32_step crc b = drop_bit 8 crc XOR crc32_entry ((crc XOR ucast b) AND 0xFF)"
  using unat_and_255_less [of "crc XOR ucast b"]
  by (simp add: crc32_step_def crc32_table_def)

lemma crc32_code [code]:
  "crc32 bs = foldl (\<lambda>crc b. drop_bit 8 crc XOR crc32_entry ((crc XOR ucast b) AND 0xFF))
                    0xFFFFFFFF bs XOR 0xFFFFFFFF"
proof -
  have "crc32_step = (\<lambda>crc b. drop_bit 8 crc XOR crc32_entry ((crc XOR ucast b) AND 0xFF))"
    by (intro ext) (rule crc32_step_entry)
  then show ?thesis
    by (simp add: crc32_def)
qed

lemma crc32_update_append: "crc32_update st (xs @ ys) = crc32_update (crc32_update st xs) ys"
  by (simp add: crc32_update_def)

lemma crc32_incremental: "crc32_finalize (foldl crc32_update crc32_init chunks) = crc32 (concat chunks)"
proof -
  have "foldl crc32_update st chunks = crc32_update st (concat chunks)" for st
    by (induction chunks arbitrary: st) (simp_all add: crc32_update_append, simp add: crc32_update_def)
  then show ?thesis
    by (simp add: crc32_finalize_def crc32_init_def crc32_def crc32_update_def)
qed

text \<open>
  One step is eight shifts of the state with the byte mixed in (the shifts are linear over XOR), and
  a shift can be undone because the polynomial has its top bit set.  So a step is injective in the
  state and in the byte, and two messages that differ in one byte never share a checksum.
\<close>

lemma crc32_shift_xor: "crc32_shift (x XOR y) = crc32_shift x XOR crc32_shift y"
proof -
  have odd: "(z AND 1 \<noteq> 0) = bit z 0" for z :: u32
    by (simp add: and_one_eq bit_0 odd_iff_mod_2_eq_one)
  show ?thesis
    by (intro bit_eqI) (auto simp: crc32_shift_def odd bit_simps)
qed

lemma crc32_shift_inj: "crc32_shift x = crc32_shift y \<Longrightarrow> x = y"
proof -
  assume eq: "crc32_shift x = crc32_shift y"
  have odd: "(z AND 1 \<noteq> 0) = bit z 0" for z :: u32
    by (simp add: and_one_eq bit_0 odd_iff_mod_2_eq_one)
  have top: "bit (crc32_shift z) 31 = bit z 0" for z
    by (auto simp: crc32_shift_def odd bit_simps dest: bit_imp_le_length)
  have b0: "bit x 0 = bit y 0"
    using top [of x] top [of y] eq by simp
  then have "drop_bit 1 x = drop_bit 1 y"
    using eq by (auto simp: crc32_shift_def odd xor_cancel_right)
  then have "bit x (Suc n) = bit y (Suc n)" for n
    by (metis bit_drop_bit_eq comp_apply plus_1_eq_Suc)
  then show "x = y"
    using b0 by (intro bit_eqI) (metis not0_implies_Suc)
qed

lemma crc32_entry_xor: "crc32_entry (x XOR y) = crc32_entry x XOR crc32_entry y"
proof -
  have "(crc32_shift ^^ n) (x XOR y) = (crc32_shift ^^ n) x XOR (crc32_shift ^^ n) y" for n
    by (induction n) (simp_all add: crc32_shift_xor)
  then show ?thesis
    by (simp add: crc32_entry_def)
qed

lemma crc32_entry_inj: "crc32_entry x = crc32_entry y \<Longrightarrow> x = y"
proof -
  have "(crc32_shift ^^ n) x = (crc32_shift ^^ n) y \<Longrightarrow> x = y" for n
    by (induction n) (auto dest: crc32_shift_inj)
  then show "crc32_entry x = crc32_entry y \<Longrightarrow> x = y"
    by (simp add: crc32_entry_def)
qed

lemma crc32_shift_even: "\<not> bit x 0 \<Longrightarrow> crc32_shift x = drop_bit 1 x"
  by (simp add: crc32_shift_def and_one_eq bit_0 even_iff_mod_2_eq_zero)

lemma crc32_shift_zeros:
  assumes "take_bit n x = 0"
  shows "(crc32_shift ^^ n) x = drop_bit n x"
  using assms
proof (induction n arbitrary: x)
  case 0
  then show ?case by simp
next
  case (Suc n)
  have nb: "\<not> bit x i" if "i < Suc n" for i
    using Suc.prems that by (metis bit_0_eq bit_take_bit_iff bot_apply bot_bool_def)
  have "take_bit n (drop_bit 1 x) = 0"
    using nb by (intro bit_eqI) (simp add: bit_simps)
  moreover have "crc32_shift x = drop_bit 1 x"
    using nb [of 0] by (simp add: crc32_shift_even)
  ultimately show ?case
    using Suc.IH [of "drop_bit 1 x"] by (simp add: funpow_Suc_right del: funpow.simps)
qed

lemma crc32_step_eq_entry: "crc32_step crc b = crc32_entry (crc XOR ucast b)"
proof -
  let ?x = "crc XOR ucast b :: u32"
  let ?hi = "push_bit 8 (drop_bit 8 crc) :: u32"
  have split: "?x = (?x AND 0xFF) XOR ?hi"
  proof (rule bit_eqI)
    fix n
    have "bit (0xFF :: u32) n \<longleftrightarrow> n < 8"
      using bit_mask_iff [of 8 n, where 'a = u32]
      by (auto simp: mask_eq_exp_minus_1 dest: bit_imp_le_length)
    then show "bit ?x n = bit ((?x AND 0xFF) XOR ?hi) n"
      by (auto simp: bit_and_iff bit_xor_iff bit_ucast_iff bit_push_bit_iff bit_drop_bit_eq
          dest: bit_imp_le_length)
  qed
  have "take_bit 8 ?hi = 0"
    by (intro bit_eqI) (simp add: bit_simps)
  then have "crc32_entry ?hi = drop_bit 8 ?hi"
    by (simp add: crc32_entry_def crc32_shift_zeros)
  also have "\<dots> = drop_bit 8 crc"
    by (intro bit_eqI) (auto simp: bit_simps dest: bit_imp_le_length)
  finally have hi: "crc32_entry ?hi = drop_bit 8 crc" .
  have "crc32_entry ?x = crc32_entry (?x AND 0xFF) XOR crc32_entry ?hi"
    using split crc32_entry_xor by metis
  then show ?thesis
    using hi by (simp add: crc32_step_entry ac_simps)
qed

lemma crc32_step_inj_state: "crc32_step x b = crc32_step y b \<longleftrightarrow> x = y"
proof
  assume "crc32_step x b = crc32_step y b"
  then have "x XOR ucast b = y XOR ucast b"
    by (simp only: crc32_step_eq_entry) (rule crc32_entry_inj)
  then show "x = y"
    by (simp only: xor_cancel_right)
qed simp

lemma crc32_step_inj_byte: "crc32_step x a = crc32_step x b \<longleftrightarrow> a = b"
proof
  assume "crc32_step x a = crc32_step x b"
  then have "x XOR ucast a = x XOR (ucast b :: u32)"
    by (simp only: crc32_step_eq_entry) (rule crc32_entry_inj)
  then have "(ucast a :: u32) = ucast b"
    by (simp only: xor_cancel_left)
  then show "a = b"
    by (simp add: ucast_byte_inject)
qed simp

lemma crc32_fold_inj_state: "foldl crc32_step x bs = foldl crc32_step y bs \<longleftrightarrow> x = y"
  by (induction bs arbitrary: x y) (simp_all add: crc32_step_inj_state)

lemma crc32_single_byte:
  assumes "a \<noteq> b"
  shows "crc32 (xs @ a # ys) \<noteq> crc32 (xs @ b # ys)"
proof
  assume "crc32 (xs @ a # ys) = crc32 (xs @ b # ys)"
  then have "foldl crc32_step 0xFFFFFFFF (xs @ a # ys) = foldl crc32_step 0xFFFFFFFF (xs @ b # ys)"
    unfolding crc32_def by (simp only: xor_cancel_right)
  then show False
    using assms by (simp add: crc32_fold_inj_state crc32_step_inj_byte)
qed

section \<open>FNV-1a\<close>

definition fnv1a_from :: "u64 \<Rightarrow> bytes \<Rightarrow> u64" where
  "fnv1a_from h bs = foldl (\<lambda>h b. (h XOR ucast b) * 1099511628211) h bs"

lemma fnv1a_from_append: "fnv1a_from h (xs @ ys) = fnv1a_from (fnv1a_from h xs) ys"
  by (simp add: fnv1a_from_def)

end
