(* ===== verification/Wal_Format.thy ===== *)
theory Wal_Format
  imports Json Checksum
begin

unbundle bit_operations_syntax

text \<open>
  The on-disk format of the collection write-ahead log (\<open>engine/src/wal.cpp\<close>, \<open>wal_integrity.cpp\<close>):
  operation codes, the payload codecs with their checksums, the framing of prepared records, segment
  headers and names, namespace identities and the LSN of an entry.  The environment switches the code
  reads (\<open>WAL_BINARY_ENCODING\<close>, \<open>WAL_CRC_ENABLED\<close>, \<open>WAL_SEGMENT_MAX_BYTES\<close>, \<open>WAL_MAX_RECORD_BYTES\<close>,
  \<open>WAL_FSYNC\<close>) are fields of \<open>wal_config\<close>; the clock is an argument.
\<close>

section \<open>Configuration and data\<close>

record wal_config =
  wc_binary :: bool
  wc_crc :: bool
  wc_segment_max :: nat
  wc_record_max :: nat
  wc_fsync :: bool

definition kSegmentHeaderBytes :: nat where
  "kSegmentHeaderBytes = 32"

definition kSegmentVersion :: byte where
  "kSegmentVersion = 3"

definition kPreparedPayloadHeaderBytes :: nat where
  "kPreparedPayloadHeaderBytes = 26"

definition segmentMaxBytes :: "wal_config \<Rightarrow> nat" where
  "segmentMaxBytes cfg = max (kSegmentHeaderBytes + 1024) (wc_segment_max cfg)"

definition maxRecordBytes :: "wal_config \<Rightarrow> nat" where
  "maxRecordBytes cfg = max 1024 (wc_record_max cfg)"

datatype wal_op = INSERT | UPDATE | DELETE | BATCH_COMPRESSED | COMPRESSED_ZLIB | SEGMENT_HEADER

fun op_code :: "wal_op \<Rightarrow> byte" where
  "op_code INSERT = 1"
| "op_code UPDATE = 2"
| "op_code DELETE = 3"
| "op_code BATCH_COMPRESSED = 4"
| "op_code COMPRESSED_ZLIB = 5"
| "op_code SEGMENT_HEADER = 6"

text \<open>The operation byte read back: \<open>isValidWalOp\<close> accepts exactly the declared enumerators.\<close>

definition op_of_code :: "byte \<Rightarrow> wal_op option" where
  "op_of_code b =
     (if b = 1 then Some INSERT else if b = 2 then Some UPDATE else if b = 3 then Some DELETE
      else if b = 4 then Some BATCH_COMPRESSED else if b = 5 then Some COMPRESSED_ZLIB
      else if b = 6 then Some SEGMENT_HEADER else None)"

lemma op_of_code_op_code [simp, codec_simps]: "op_of_code (op_code x) = Some x"
  by (cases x) (simp_all add: op_of_code_def)

record pending_entry =
  p_op :: wal_op
  p_entry :: json
  p_payload :: bytes
  p_crc :: u32
  p_hasCrc :: bool
  p_logical :: nat

record wal_record =
  r_op :: wal_op
  r_lsn :: u64
  r_entry :: json

section \<open>Payloads\<close>

definition is_space_byte :: "byte \<Rightarrow> bool" where
  "is_space_byte b \<longleftrightarrow> b = 32 \<or> (9 \<le> b \<and> b \<le> 13)"

definition looksLikeJsonText :: "bytes \<Rightarrow> bool" where
  "looksLikeJsonText payload =
     (case dropWhile is_space_byte payload of [] \<Rightarrow> False
      | ch # _ \<Rightarrow> ch = of_char CHR ''{'' \<or> ch = of_char CHR ''['' \<or> ch = of_char CHR ''\"'')"

definition encodeWalPayload :: "wal_config \<Rightarrow> json_codec \<Rightarrow> json \<Rightarrow> bytes" where
  "encodeWalPayload cfg c entry = (if wc_binary cfg then to_msgpack c entry else jdump c entry)"

text \<open>Text first when it looks like text, MessagePack otherwise; a decoder that throws falls back to
  the text parser once.\<close>

definition decodeWalPayload :: "json_codec \<Rightarrow> bytes \<Rightarrow> json option" where
  "decodeWalPayload c payload =
     (case (if looksLikeJsonText payload then jparse c payload else from_msgpack c payload) of
        Some j \<Rightarrow> Some j
      | None \<Rightarrow> jparse c payload)"

definition verifyWalPayloadCrc :: "json_codec \<Rightarrow> json \<Rightarrow> bool" where
  "verifyWalPayloadCrc c entry =
     (if \<not> is_object entry then False
      else case jlookup entry ''_wal_crc32'' of
        None \<Rightarrow> True
      | Some v \<Rightarrow>
         if \<not> is_number_unsigned v \<and> \<not> is_number_integer v then False
         else
           (let forCrc = jerase entry ''_wal_crc32''; want = map_option (\<lambda>w. ucast w :: u32) (get_u64 v)
            in case jvalue get_str forCrc ''_wal_crc_encoding'' '''' of
                 None \<Rightarrow> False
               | Some enc \<Rightarrow>
                  if enc = ''msgpack-v1'' then want = Some (crc32 (to_msgpack c forCrc))
                  else want = Some (crc32 (jdump c forCrc))))"

text \<open>\<open>stampWalIntegrityFields\<close>: sequence, LSN, time and, when enabled, the checksum of everything else.\<close>

definition stampWalIntegrityFields :: "wal_config \<Rightarrow> json_codec \<Rightarrow> u64 \<Rightarrow> u64 \<Rightarrow> json \<Rightarrow> json" where
  "stampWalIntegrityFields cfg c ts lsn entry =
     (if \<not> is_object entry then entry
      else
        let e1 = jput (jput (jput entry ''_wal_seq'' (JUInt lsn)) ''_wal_lsn'' (JUInt lsn))
                      ''_wal_ts_ms'' (JUInt ts)
        in if \<not> wc_crc cfg then e1
           else
             let e2 = jput e1 ''_wal_crc_encoding'' (JStr ''msgpack-v1'');
                 crc = crc32 (to_msgpack c (jerase e2 ''_wal_crc32''))
             in jput e2 ''_wal_crc32'' (JUInt (ucast crc)))"

definition preparePendingEntry :: "wal_config \<Rightarrow> json_codec \<Rightarrow> wal_op \<Rightarrow> json \<Rightarrow> nat \<Rightarrow> pending_entry" where
  "preparePendingEntry cfg c op entry logicalEntries =
     (let payload = encodeWalPayload cfg c entry
      in \<lparr>p_op = op, p_entry = entry, p_payload = payload,
          p_crc = (if wc_crc cfg then crc32 payload else 0),
          p_hasCrc = wc_crc cfg, p_logical = logicalEntries\<rparr>)"

section \<open>Frames\<close>

definition magic_prepared :: bytes where
  "magic_prepared = bytes_of ''PDBB1''"

definition prepared_payload :: "pending_entry \<Rightarrow> u64 \<Rightarrow> u64 \<Rightarrow> bytes" where
  "prepared_payload p lsn ts =
     magic_prepared @ [if p_hasCrc p then 1 else 0] @ le_bytes 8 lsn @ le_bytes 8 ts
       @ le_bytes 4 (p_crc p) @ p_payload p"

text \<open>\<open>framePreparedRecord\<close>: operation byte, 32-bit payload size, prepared payload; \<open>None\<close> is the throw.\<close>

definition framePreparedRecord :: "wal_config \<Rightarrow> u64 \<Rightarrow> pending_entry \<Rightarrow> u64 \<Rightarrow> bytes option" where
  "framePreparedRecord cfg ts p lsn =
     (let payloadSize = kPreparedPayloadHeaderBytes + length (p_payload p)
      in if maxRecordBytes cfg < payloadSize \<or> 2 ^ 32 - 1 < payloadSize then None
         else Some (op_code (p_op p) # le_bytes 4 (of_nat payloadSize :: u32)
                      @ prepared_payload p lsn ts))"

definition wal_stamp :: "json \<Rightarrow> u64 \<Rightarrow> u64 \<Rightarrow> json" where
  "wal_stamp entry lsn ts =
     jput (jput (jput entry ''_wal_lsn'' (JUInt lsn)) ''_wal_seq'' (JUInt lsn))
          ''_wal_ts_ms'' (JUInt ts)"

definition decodePreparedPayload :: "json_codec \<Rightarrow> bytes \<Rightarrow> json option" where
  "decodePreparedPayload c payload =
     (if length payload < kPreparedPayloadHeaderBytes \<or> take 5 payload \<noteq> magic_prepared then None
      else
        let hasCrc = (payload ! 5 AND 1 \<noteq> 0);
            lsn = (le_word (take 8 (drop 6 payload)) :: u64);
            timestampMs = (le_word (take 8 (drop 14 payload)) :: u64);
            expectedCrc = (le_word (take 4 (drop 22 payload)) :: u32);
            encoded = drop kPreparedPayloadHeaderBytes payload
        in if encoded = [] \<or> (\<not> hasCrc \<and> expectedCrc \<noteq> 0) \<or> (hasCrc \<and> crc32 encoded \<noteq> expectedCrc)
           then None
           else case decodeWalPayload c encoded of
                  None \<Rightarrow> None
                | Some entry \<Rightarrow> if \<not> is_object entry then None
                                else Some (wal_stamp entry lsn timestampMs))"

section \<open>Namespace identity and LSN of an entry\<close>

definition walIdentityHash :: "json \<Rightarrow> u64" where
  "walIdentityHash entry =
     (if \<not> is_object entry then 0
      else case (jvalue get_str entry ''userId'' '''', jvalue get_str entry ''db'' '''',
                 jvalue get_str entry ''collection'' '''') of
        (Some u, Some d, Some k) \<Rightarrow>
          (let identity = u @ [CHR 0x0A] @ d @ [CHR 0x0A] @ k
           in if identity = [CHR 0x0A, CHR 0x0A] then 0
              else fnv1a_from 1469598103934665603 (bytes_of identity))
      | _ \<Rightarrow> 0)"

definition readEntryLsn :: "json \<Rightarrow> bool \<Rightarrow> u64 \<Rightarrow> u64 option" where
  "readEntryLsn entry legacy fallback =
     (if \<not> is_object entry then None
      else
        let field = (if jcontains entry ''_wal_lsn'' then ''_wal_lsn'' else ''_wal_seq'')
        in if \<not> legacy \<and> \<not> jcontains entry ''_wal_lsn'' then None
           else case jlookup entry field of
                  None \<Rightarrow> if legacy then Some fallback else None
                | Some v \<Rightarrow> if \<not> is_number_unsigned v \<and> \<not> is_number_integer v then None
                            else get_u64 v)"

section \<open>Segment headers and names\<close>

definition magic_segment :: bytes where
  "magic_segment = bytes_of ''PDBW3''"

definition segmentHeader :: "u64 \<Rightarrow> u64 \<Rightarrow> u64 \<Rightarrow> bytes" where
  "segmentHeader segmentId firstLsn identityHash =
     magic_segment @ [kSegmentVersion] @ le_bytes 2 (of_nat kSegmentHeaderBytes :: u16)
       @ le_bytes 8 segmentId @ le_bytes 8 firstLsn @ le_bytes 8 identityHash"

text \<open>\<open>segmentPath\<close>: the stem of the file name inside \<open><log>.segments\<close>.\<close>

definition segment_stem :: "u64 \<Rightarrow> string" where
  "segment_stem segmentId = pad_dec 20 (unat segmentId)"

section \<open>Laws of the format\<close>

lemma length_magic [simp, len_simps]: "length magic_prepared = 5" "length magic_segment = 5"
  by (simp_all add: magic_prepared_def magic_segment_def)

lemma length_prepared_payload [simp, len_simps]:
  "length (prepared_payload p lsn ts) = kPreparedPayloadHeaderBytes + length (p_payload p)"
  by (simp add: prepared_payload_def kPreparedPayloadHeaderBytes_def)

lemma length_segmentHeader [simp, len_simps]: "length (segmentHeader i f h) = kSegmentHeaderBytes"
  by (simp add: segmentHeader_def kSegmentHeaderBytes_def)

text \<open>The fields of a prepared payload sit where the decoder looks for them.\<close>

lemma prepared_payload_fields:
  "take 5 (prepared_payload p lsn ts) = magic_prepared"
  "prepared_payload p lsn ts ! 5 = (if p_hasCrc p then 1 else 0)"
  "take 8 (drop 6 (prepared_payload p lsn ts)) = le_bytes 8 lsn"
  "take 8 (drop 14 (prepared_payload p lsn ts)) = le_bytes 8 ts"
  "take 4 (drop 22 (prepared_payload p lsn ts)) = le_bytes 4 (p_crc p)"
  "drop kPreparedPayloadHeaderBytes (prepared_payload p lsn ts) = p_payload p"
  by (simp_all add: prepared_payload_def nth_append kPreparedPayloadHeaderBytes_def)

lemma segmentHeader_fields:
  "take 5 (segmentHeader i f h @ r) = magic_segment"
  "(segmentHeader i f h @ r) ! 5 = kSegmentVersion"
  "take 2 (drop 6 (segmentHeader i f h @ r)) = le_bytes 2 (of_nat kSegmentHeaderBytes :: u16)"
  "take 8 (drop 8 (segmentHeader i f h @ r)) = le_bytes 8 i"
  "take 8 (drop 16 (segmentHeader i f h @ r)) = le_bytes 8 f"
  "take 8 (drop 24 (segmentHeader i f h @ r)) = le_bytes 8 h"
  "drop kSegmentHeaderBytes (segmentHeader i f h @ r) = r"
  by (simp_all add: segmentHeader_def nth_append kSegmentHeaderBytes_def)

lemma unat_u64_lt: "unat (w :: u64) < 2 ^ 64"
  using unsigned_less [of w, where 'a = nat] by simp

lemma unat_segment_lt: "unat (w :: u64) < 10 ^ 20"
  using unat_u64_lt [of w] by simp

lemma stoull_segment_stem [simp]: "stoull (segment_stem w) = Some w"
proof -
  have "stoull (pad_dec 20 (unat w)) = Some (of_nat (unat w))"
    using unat_segment_lt [of w] unat_u64_lt [of w] by (intro stoull_pad_dec) simp_all
  then show ?thesis
    by (simp add: segment_stem_def)
qed

lemma segment_stem_less: "segment_stem v < segment_stem w \<longleftrightarrow> v < w"
  unfolding segment_stem_def
  using pad_dec_less [OF unat_segment_lt unat_segment_lt, of v w] by (simp add: word_less_nat_alt)

lemma segment_stem_inject [simp]: "segment_stem v = segment_stem w \<longleftrightarrow> v = w"
  by (metis option.inject stoull_segment_stem)

text \<open>
  An entry the log can round-trip: an object (with the key order of a \<open>std::map\<close>), which both encodings
  give back, whose MessagePack starts with a map header (a byte of at least \<open>0x80\<close>) and whose text
  starts with a brace, as the MessagePack and JSON formats fix.
\<close>

definition codec_entry_ok :: "json_codec \<Rightarrow> json \<Rightarrow> bool" where
  "codec_entry_ok c j \<longleftrightarrow> is_object j \<and> json_wf j \<and> codec_ok c j
     \<and> (case to_msgpack c j of [] \<Rightarrow> False | b # _ \<Rightarrow> 128 \<le> b)
     \<and> (case jdump c j of [] \<Rightarrow> False | b # _ \<Rightarrow> b = of_char CHR ''{'')"

lemma decode_encodeWalPayload [codec_simps]:
  assumes "codec_entry_ok c j"
  shows "decodeWalPayload c (encodeWalPayload cfg c j) = Some j"
proof (cases "wc_binary cfg")
  case True
  obtain b r where br: "to_msgpack c j = b # r" "128 \<le> b"
    using assms by (auto simp: codec_entry_ok_def split: list.splits)
  then have "\<not> looksLikeJsonText (to_msgpack c j)"
    by (auto simp: looksLikeJsonText_def is_space_byte_def word_le_nat_alt)
  then show ?thesis
    using assms True
    by (simp add: decodeWalPayload_def encodeWalPayload_def codec_entry_ok_def codec_ok_def)
next
  case False
  obtain r where r: "jdump c j = of_char CHR ''{'' # r"
    using assms by (auto simp: codec_entry_ok_def split: list.splits)
  then have "looksLikeJsonText (jdump c j)"
    by (simp add: looksLikeJsonText_def is_space_byte_def word_le_nat_alt)
  then show ?thesis
    using assms False
    by (simp add: decodeWalPayload_def encodeWalPayload_def codec_entry_ok_def codec_ok_def)
qed

lemma encodeWalPayload_nonempty: "codec_entry_ok c j \<Longrightarrow> encodeWalPayload cfg c j \<noteq> []"
  by (auto simp: encodeWalPayload_def codec_entry_ok_def split: list.splits)

text \<open>A pending entry as \<open>preparePendingEntry\<close> makes it: payload and checksum belong to the entry.\<close>

definition pending_ok :: "wal_config \<Rightarrow> json_codec \<Rightarrow> pending_entry \<Rightarrow> bool" where
  "pending_ok cfg c p \<longleftrightarrow>
     p = preparePendingEntry cfg c (p_op p) (p_entry p) (p_logical p)
     \<and> codec_entry_ok c (p_entry p) \<and> p_op p \<noteq> SEGMENT_HEADER"

lemma pending_ok_fields:
  assumes "pending_ok cfg c p"
  shows "p_payload p = encodeWalPayload cfg c (p_entry p)"
    and "p_hasCrc p = wc_crc cfg"
    and "p_crc p = (if wc_crc cfg then crc32 (p_payload p) else 0)"
    and "codec_entry_ok c (p_entry p)"
proof -
  have eq: "p = preparePendingEntry cfg c (p_op p) (p_entry p) (p_logical p)"
    using assms by (simp add: pending_ok_def)
  show pl: "p_payload p = encodeWalPayload cfg c (p_entry p)"
    by (subst eq) (simp add: preparePendingEntry_def Let_def)
  show "p_hasCrc p = wc_crc cfg"
    by (subst eq) (simp add: preparePendingEntry_def Let_def)
  have "p_crc p = (if wc_crc cfg then crc32 (encodeWalPayload cfg c (p_entry p)) else 0)"
    by (subst eq) (simp add: preparePendingEntry_def Let_def)
  then show "p_crc p = (if wc_crc cfg then crc32 (p_payload p) else 0)"
    by (simp add: pl)
  show "codec_entry_ok c (p_entry p)"
    using assms by (simp add: pending_ok_def)
qed

lemma decodePreparedPayload_prepared [codec_simps]:
  assumes "pending_ok cfg c p"
  shows "decodePreparedPayload c (prepared_payload p lsn ts) = Some (wal_stamp (p_entry p) lsn ts)"
proof -
  note pf = pending_ok_fields [OF assms]
  have ne: "p_payload p \<noteq> []"
    using pf encodeWalPayload_nonempty by metis
  have dec: "decodeWalPayload c (p_payload p) = Some (p_entry p)"
    using pf decode_encodeWalPayload by metis
  have obj: "is_object (p_entry p)"
    using pf(4) by (simp add: codec_entry_ok_def)
  show ?thesis
    using ne dec obj pf(2,3)
    by (simp add: decodePreparedPayload_def prepared_payload_fields codec_simps)
qed

lemma length_framePreparedRecord [len_simps]:
  "framePreparedRecord cfg ts p lsn = Some fr
     \<Longrightarrow> length fr = 5 + kPreparedPayloadHeaderBytes + length (p_payload p)"
  by (auto simp: framePreparedRecord_def Let_def split: if_splits)

text \<open>Stamping changes neither the namespace of an entry nor, of course, hides its LSN.\<close>

lemma wal_stamp_lookup:
  assumes "json_wf j" "is_object j"
  shows "jlookup (wal_stamp j lsn ts) k =
     (if k = ''_wal_ts_ms'' then Some (JUInt ts)
      else if k = ''_wal_seq'' \<or> k = ''_wal_lsn'' then Some (JUInt lsn) else jlookup j k)"
  using assms by (simp add: wal_stamp_def jlookup_jput)

lemma is_object_wal_stamp [simp]: "is_object (wal_stamp j lsn ts) = is_object j"
  by (simp add: wal_stamp_def)

lemma readEntryLsn_wal_stamp [simp]:
  assumes "json_wf j" "is_object j"
  shows "readEntryLsn (wal_stamp j lsn ts) legacy fb = Some lsn"
  using assms by (simp add: readEntryLsn_def jcontains_def wal_stamp_lookup)

lemma walIdentityHash_wal_stamp [simp]:
  assumes "json_wf j" "is_object j"
  shows "walIdentityHash (wal_stamp j lsn ts) = walIdentityHash j"
  using assms by (simp add: walIdentityHash_def jvalue_def wal_stamp_lookup)

end
