(* ===== verification/Wal_Record.thy ===== *)
theory Wal_Record
  imports Wal_Format
begin

unbundle bit_operations_syntax

text \<open>
  The older JSON-lines WAL record of \<open>engine/src/wal_integrity.cpp\<close> (\<open>WALRecord\<close>).  Its checksum runs
  over a table spelled out in the source, transcribed here: the array is declared with 256 entries and
  initialised with 208, so the rest are zero.
\<close>

section \<open>The record checksum\<close>

definition CRC32_TABLE :: "u32 list" where
  "CRC32_TABLE =
     [0x00000000, 0x77073096, 0xee0e612c, 0x990951ba, 0x076dc419, 0x706af48f, 0xe963a535, 0x9e6495a3,
      0x0edb8832, 0x79dcb8a4, 0xe0d5e91e, 0x97d2d988, 0x09b64c2b, 0x7eb17cbd, 0xe7b82d07, 0x90bf1d91,
      0x1db71642, 0x6ab020f2, 0xf3b97148, 0x84be41de, 0x1adad47d, 0x6ddde4eb, 0xf4d4b551, 0x83d385c7,
      0x136c9856, 0x646ba8c0, 0xfd62f97a, 0x8a65c9ec, 0x14015c4f, 0x63066cd9, 0xfa44e5d6, 0x8d79e1d3,
      0x29b8c6e0, 0x5eead776, 0xc2007e8c, 0xb58c1c1a, 0x28f7dd59, 0x5f0e5ccf, 0xc6bdc035, 0xb1d6d6a3,
      0x2b0af5d2, 0x5cba3944, 0xc5ba4c2e, 0xb2bd0b8b, 0x2e909d28, 0x596f5bbc, 0xc0ba0146, 0xb7a881d0,
      0x3cfc5a8f, 0x4b97ac19, 0xd2d7a9e3, 0xa5c88f75, 0x3c88e6d6, 0x4b49c140, 0xd293c8ba, 0xa5a65c0c,
      0x3d58b23d, 0x4a948fab, 0xd3d27c51, 0xa4d9fdc7, 0x389d9364, 0x4f4d47f2, 0xd6d8dd08, 0xa1d1d59e,
      0x79da4d0a, 0x0ececd9c, 0x97ddd066, 0xe0801d0f, 0x7dc7cdac, 0x0ad94d3a, 0x93d0d980, 0xe40f1816,
      0x7d7b6267, 0x0ac542f1, 0x9df99c0b, 0xeae1e69d, 0x7737367e, 0x0a5d56e8, 0x9d0e6f12, 0xeacaef84,
      0x607f3b9b, 0x17b0abb0, 0x8eb1515a, 0xf94ccc0c, 0x647c4aaf, 0x13ca3a39, 0x8ad0c383, 0xfd04cd15,
      0x67c0cc44, 0x10fad0d2, 0x89d8e028, 0xfe6f60be, 0x69d0e41d, 0x1eaa548b, 0x87f7e971, 0xf0368e7,
      0x3dc7d0d2, 0x4a5e5044, 0xd37aabe3, 0xa45aaf75, 0x393b0e3c, 0x4e458eaa, 0xd7d8e50, 0x7a89e5c6,
      0x405e1f57, 0x37c9ffc1, 0xaea1873b, 0xd96c94ad, 0x45e4d20e, 0x329f5c98, 0xab7f84c2, 0xdce14454,
      0x5c1c6d4b, 0x2b2fdcdd, 0xb2d59227, 0xc5c612b1, 0x587c3a12, 0x2fbaba84, 0xb63c317e, 0xc1b3b3e8,
      0x5f45fc19, 0x283e2b8f, 0xb1f37c75, 0xc6a53ce3, 0x5a2bb1c0, 0x2dd3b756, 0xb40d3dac, 0xc39dfdda,
      0x7bab4d9a, 0x0c5bcddc, 0x95d89226, 0xe2b712b0, 0x7f96db13, 0x085e5b85, 0x917f3f7f, 0xe6bfafe9,
      0x7d5f8d38, 0x0ae0daae, 0x935f1054, 0xe49c6f82, 0x79988921, 0x0ed5a0b7, 0x975f564d, 0xe04d36db,
      0xb4f1d4c4, 0xc3a55452, 0x5a3e3ea8, 0x2dbebea3, 0xb0c8a40e, 0xc76b4498, 0x5e2f2f62, 0x296fafea,
      0xb3aba23b, 0xc0602262, 0x595d4898, 0x2edb480e, 0xb2768ead, 0xc5644a3b, 0x5c2a4ac1, 0x2b7a0a57,
      0x8e08e08c, 0xf9802c1a, 0x60c8ae00, 0x17a50e96, 0x8a3a9835, 0xfd3e58a3, 0x64e73359, 0x13aa3dcf,
      0x8d040c1e, 0xfa8c8c88, 0x63a78c72, 0x140e7ce4, 0x89a6eaa7, 0xfe6fca31, 0x6d0e01cb, 0x1a8d3c5d,
      0xd9ed0672, 0xaec486e4, 0x37adf1e, 0x70489788, 0xdd9c5bcb, 0xaa8db75d, 0x33dc2ba7, 0x44eebf31,
      0xdefc5c0, 0x7b17a056, 0xe2c74aac, 0x9551833a, 0x08f7f099, 0x7f86310f, 0xe62c35f5, 0x9163b583,
      0xc1eaf252, 0xb6a27e24, 0x2f5445de, 0x58c45c48, 0xcfb8a00b, 0xb8af209d, 0x21a0b667, 0x568b56f1,
      0xc6dde720, 0xb1ed8aa6, 0x2843e05c, 0x5f4080ca, 0xc2ab5669, 0xb59256ff, 0x2c917d05, 0x5bfbffb3] @ replicate 48 0"

definition computeCRC32Internal :: "bytes \<Rightarrow> u32" where
  "computeCRC32Internal data =
     foldl (\<lambda>crc b. drop_bit 8 crc XOR CRC32_TABLE ! unat ((crc XOR ucast b) AND 0xFF)) 0xFFFFFFFF data
       XOR 0xFFFFFFFF"

text \<open>Decimal output of an unsigned integer (\<open>std::ostream <<\<close>).\<close>

fun to_dec :: "nat \<Rightarrow> string" where
  "to_dec n = (if n < 10 then [digit_char n] else to_dec (n div 10) @ [digit_char (n mod 10)])"

declare to_dec.simps [simp del]

record WALRecord =
  w_lsn :: u64
  w_txnId :: u64
  w_type :: string
  w_payload :: json
  w_timestamp :: u64
  w_checksum :: u32
  w_isCommitted :: bool

definition record_text :: "json_codec \<Rightarrow> WALRecord \<Rightarrow> bytes" where
  "record_text c r =
     bytes_of (to_dec (unat (w_lsn r))) @ bytes_of (to_dec (unat (w_txnId r))) @ bytes_of (w_type r)
       @ jdump c (w_payload r) @ bytes_of (to_dec (unat (w_timestamp r)))
       @ bytes_of (if w_isCommitted r then ''1'' else ''0'')"

definition computeChecksum :: "json_codec \<Rightarrow> WALRecord \<Rightarrow> WALRecord" where
  "computeChecksum c r = r\<lparr>w_checksum := computeCRC32Internal (record_text c r)\<rparr>"

definition verifyChecksum :: "json_codec \<Rightarrow> WALRecord \<Rightarrow> bool" where
  "verifyChecksum c r \<longleftrightarrow> computeCRC32Internal (record_text c r) = w_checksum r"

section \<open>JSON form\<close>

definition toJson :: "WALRecord \<Rightarrow> json" where
  "toJson r =
     JObj (obj_insert ''isCommitted'' (JBool (w_isCommitted r))
          (obj_insert ''checksum'' (JUInt (ucast (w_checksum r)))
          (obj_insert ''timestamp'' (JUInt (w_timestamp r))
          (obj_insert ''payload'' (w_payload r)
          (obj_insert ''type'' (JStr (w_type r))
          (obj_insert ''txnId'' (JUInt (w_txnId r))
          (obj_insert ''lsn'' (JUInt (w_lsn r)) [])))))))"

text \<open>\<open>fromJson\<close>: every field by \<open>value(key, default)\<close>, any type mismatch throws.\<close>

definition fromJson :: "json \<Rightarrow> WALRecord option" where
  "fromJson j =
     (case (jvalue get_u64 j ''lsn'' 0, jvalue get_u64 j ''txnId'' 0, jvalue get_str j ''type'' [],
            jvalue Some j ''payload'' JNull, jvalue get_u64 j ''timestamp'' 0,
            jvalue get_u32 j ''checksum'' 0, jvalue get_bool j ''isCommitted'' False) of
        (Some l, Some t, Some ty, Some p, Some ts, Some ck, Some ic) \<Rightarrow>
          Some \<lparr>w_lsn = l, w_txnId = t, w_type = ty, w_payload = p, w_timestamp = ts,
                w_checksum = ck, w_isCommitted = ic\<rparr>
      | _ \<Rightarrow> None)"

lemma obj_wf_Nil [simp]: "obj_wf []"
  by (simp add: obj_wf_def)

lemma ucast_ucast_u32 [simp]: "ucast (ucast (w :: u32) :: u64) = w"
  by (intro bit_word_eqI) (simp add: bit_ucast_iff)

lemma fromJson_toJson: "fromJson (toJson r) = Some r"
  by (simp add: fromJson_def toJson_def jvalue_def)

lemma verifyChecksum_computeChecksum: "verifyChecksum c (computeChecksum c r)"
  by (simp add: verifyChecksum_def computeChecksum_def record_text_def)

end
