(* ===== verification/Wal_Scan.thy ===== *)
theory Wal_Scan
  imports Wal_Record
begin

unbundle bit_operations_syntax

text \<open>
  The scanner of the collection WAL (\<open>scanWalFiles\<close> in \<open>engine/src/wal.cpp\<close>).  A logical WAL is an
  optional legacy file and the segment files of its directory, listed in the order of their names; a
  scan walks every file, checks headers, frames, checksums, namespace identities and LSNs, and calls the
  visitor on each record.  \<open>Inl\<close> is the early return of the C++, \<open>Inr\<close> the fall-through.  The visitor
  may depend on what it has seen; the null visitor accepts everything.  The records it was called on
  are kept in \<open>ss_visited\<close>.  Offsets and counts are natural numbers, LSNs and segment ids 64-bit words.
\<close>

section \<open>Files and results\<close>

datatype wal_path = LegacyPath | SegPath string

record wal_fs =
  fs_legacy :: "bytes option"
  fs_segments :: "(string \<times> bytes) list"

text \<open>Which of the system calls of a scan fail.\<close>

record scan_env =
  se_inspect_ok :: bool
  se_type_ok :: bool
  se_list_ok :: bool
  se_open_ok :: "wal_path \<Rightarrow> bool"

definition env_ok :: scan_env where
  "env_ok = \<lparr>se_inspect_ok = True, se_type_ok = True, se_list_ok = True, se_open_ok = (\<lambda>_. True)\<rparr>"

datatype scan_status = OK | PARTIAL_TAIL | CORRUPT | IO_ERROR

datatype scan_error =
    NoError | InspectLegacy | InspectLegacyType | EnumerateSegments | OpenFailed wal_path
  | InvalidJsonRecord wal_path | LegacyNotObject | JsonChecksumMismatch | InvalidJsonFields
  | LegacyIdentityChanged | InvalidLegacyPayloadOrLsn | PartialSegmentHeader wal_path
  | InvalidSegmentHeader wal_path | InconsistentSegment | PartialFrameHeader | InvalidFrame
  | PartialPayload | InvalidPayload | InvalidLsn | RecoveryInProgress | RecoveryRequiresIdle

record scanned_file =
  sf_path :: wal_path
  sf_legacy :: bool
  sf_segmentId :: u64
  sf_firstLsn :: u64
  sf_endLsn :: u64
  sf_validBytes :: nat
  sf_identity :: u64

record scan_state =
  ss_status :: scan_status
  ss_error :: scan_error
  ss_records :: nat
  ss_lastLsn :: u64
  ss_validBytes :: nat
  ss_files :: "scanned_file list"
  ss_visited :: "wal_record list"
  ss_segmentIdentity :: u64
  ss_previousSegmentId :: u64

definition scan_init :: scan_state where
  "scan_init = \<lparr>ss_status = OK, ss_error = NoError, ss_records = 0, ss_lastLsn = 0, ss_validBytes = 0,
     ss_files = [], ss_visited = [], ss_segmentIdentity = 0, ss_previousSegmentId = 0\<rparr>"

type_synonym visitor = "wal_record list \<Rightarrow> wal_record \<Rightarrow> bool"

abbreviation visit_all :: visitor where
  "visit_all \<equiv> \<lambda>_ _. True"

definition sortedSegmentFiles :: "wal_fs \<Rightarrow> (string \<times> bytes) list" where
  "sortedSegmentFiles fs = sort_key (\<lambda>(stem, _). stem @ ''.wal'') (fs_segments fs)"

definition setScanFailure :: "scan_state \<Rightarrow> scan_status \<Rightarrow> scan_error \<Rightarrow> scan_state" where
  "setScanFailure scan status err = scan\<lparr>ss_status := status, ss_error := err\<rparr>"

definition setFileScanFailure ::
    "scan_state \<Rightarrow> scanned_file \<Rightarrow> scan_status \<Rightarrow> scan_error \<Rightarrow> scan_state" where
  "setFileScanFailure scan file status err =
     setScanFailure
       (if status = PARTIAL_TAIL
        then scan\<lparr>ss_validBytes := ss_validBytes scan + sf_validBytes file,
                  ss_files := ss_files scan @ [file]\<rparr>
        else scan) status err"

definition tail_status :: "bool \<Rightarrow> scan_status" where
  "tail_status finalFile = (if finalFile then PARTIAL_TAIL else CORRUPT)"

section \<open>Legacy JSON lines\<close>

definition looksLikeJsonLines :: "bytes \<Rightarrow> bool" where
  "looksLikeJsonLines content =
     (case dropWhile is_space_byte content of [] \<Rightarrow> False
      | b # _ \<Rightarrow> b = of_char CHR ''{'' \<or> b = of_char CHR ''['')"

text \<open>\<open>std::getline\<close>: the line, the rest of the stream, and whether the end of file was hit instead of a
  newline.\<close>

definition getline :: "bytes \<Rightarrow> bytes \<times> bytes \<times> bool" where
  "getline bs =
     (let line = takeWhile (\<lambda>b. b \<noteq> 10) bs; rest = drop (length line) bs
      in (line, drop 1 rest, rest = []))"

text \<open>
  The end of both loop bodies: the file's range and the running totals are updated and the visitor is
  called; when it refuses, the scan returns.
\<close>

definition deliver ::
    "visitor \<Rightarrow> wal_op \<Rightarrow> u64 \<Rightarrow> json \<Rightarrow> nat \<Rightarrow> scan_state \<Rightarrow> scanned_file
       \<Rightarrow> scan_state + scan_state \<times> scanned_file" where
  "deliver vis op lsn entry pos scan meta =
     (let rec = \<lparr>r_op = op, r_lsn = lsn, r_entry = entry\<rparr>;
          scan1 = scan\<lparr>ss_lastLsn := lsn, ss_records := ss_records scan + 1,
                       ss_visited := ss_visited scan @ [rec]\<rparr>;
          meta1 = meta\<lparr>sf_firstLsn := (if sf_firstLsn meta = 0 then lsn else sf_firstLsn meta),
                        sf_endLsn := lsn, sf_validBytes := pos\<rparr>
      in if vis (ss_visited scan) rec then Inr (scan1, meta1) else Inl scan1)"

text \<open>A legacy file belongs to one namespace: its first identified entry fixes it.\<close>

definition adopt_identity :: "u64 \<Rightarrow> scanned_file \<Rightarrow> scanned_file" where
  "adopt_identity entryIdentity meta =
     (if entryIdentity \<noteq> 0 \<and> sf_identity meta = 0 then meta\<lparr>sf_identity := entryIdentity\<rparr> else meta)"

definition legacy_identity_clash :: "u64 \<Rightarrow> scanned_file \<Rightarrow> bool" where
  "legacy_identity_clash entryIdentity meta \<longleftrightarrow>
     entryIdentity \<noteq> 0 \<and> sf_identity (adopt_identity entryIdentity meta) \<noteq> entryIdentity"

definition json_line_entry :: "json \<Rightarrow> json" where
  "json_line_entry wrapper = (case jlookup wrapper ''payload'' of Some p \<Rightarrow> p | None \<Rightarrow> wrapper)"

definition json_line_lsn :: "json \<Rightarrow> json \<Rightarrow> u64 \<Rightarrow> u64" where
  "json_line_lsn wrapper entry lastLsn =
     (case jlookup wrapper ''lsn'' of
        Some v \<Rightarrow> (case get_u64 v of Some l \<Rightarrow> l | None \<Rightarrow> 0)
      | None \<Rightarrow> (case readEntryLsn entry True (lastLsn + 1) of Some l \<Rightarrow> l | None \<Rightarrow> 0))"

text \<open>The optional \<open>WALRecord\<close> checksum of a line.\<close>

definition json_line_checksum :: "json_codec \<Rightarrow> json \<Rightarrow> scan_error option" where
  "json_line_checksum c wrapper =
     (if \<not> jcontains wrapper ''checksum'' then None
      else case fromJson wrapper of
             None \<Rightarrow> Some InvalidJsonFields
           | Some rec \<Rightarrow> if w_checksum rec \<noteq> 0 \<and> \<not> verifyChecksum c rec
                         then Some JsonChecksumMismatch else None)"

text \<open>The body of the loop on one non-empty line.\<close>

definition scan_json_line ::
    "json_codec \<Rightarrow> visitor \<Rightarrow> bool \<Rightarrow> nat \<Rightarrow> bool \<Rightarrow> bytes \<Rightarrow> scan_state \<Rightarrow> scanned_file
       \<Rightarrow> scan_state + scan_state \<times> scanned_file" where
  "scan_json_line c vis finalFile afterLine eof line scan meta =
     (case jparse c line of
        None \<Rightarrow> Inl (setFileScanFailure scan meta (if finalFile \<and> eof then PARTIAL_TAIL else CORRUPT)
                       (InvalidJsonRecord (sf_path meta)))
      | Some wrapper \<Rightarrow>
         if \<not> is_object wrapper then Inl (setScanFailure scan CORRUPT LegacyNotObject)
         else case json_line_checksum c wrapper of
                Some e \<Rightarrow> Inl (setScanFailure scan CORRUPT e)
              | None \<Rightarrow>
                 (let entry = json_line_entry wrapper; entryIdentity = walIdentityHash entry;
                      lsn = json_line_lsn wrapper entry (ss_lastLsn scan)
                  in if legacy_identity_clash entryIdentity meta
                     then Inl (setScanFailure scan CORRUPT LegacyIdentityChanged)
                     else if lsn = 0 \<or> lsn \<le> ss_lastLsn scan \<or> \<not> verifyWalPayloadCrc c entry
                     then Inl (setScanFailure scan CORRUPT InvalidLegacyPayloadOrLsn)
                     else deliver vis INSERT lsn entry afterLine scan (adopt_identity entryIdentity meta)))"

lemma getline_shorter:
  assumes "(line, rest, eof) = getline bs" "bs \<noteq> []"
  shows "length rest < length bs"
  using assms by (cases bs) (auto simp: getline_def Let_def)

function scan_json_lines ::
    "json_codec \<Rightarrow> visitor \<Rightarrow> bool \<Rightarrow> nat \<Rightarrow> nat \<Rightarrow> bytes \<Rightarrow> scan_state \<Rightarrow> scanned_file
       \<Rightarrow> scan_state + scan_state \<times> scanned_file" where
  "scan_json_lines c vis finalFile fileSize pos bs scan meta =
     (if bs = [] then Inr (scan, meta)
      else
        let (line, rest, eof) = getline bs;
            after = (if eof then fileSize else pos + length line + 1)
        in if line = [] then scan_json_lines c vis finalFile fileSize after rest scan meta
           else case scan_json_line c vis finalFile after eof line scan meta of
                  Inl r \<Rightarrow> Inl r
                | Inr (scan1, meta1) \<Rightarrow> scan_json_lines c vis finalFile fileSize after rest scan1 meta1)"
  by pat_completeness auto
termination
  by (relation "measure (\<lambda>(_, _, _, _, _, bs, _, _). length bs)") (auto dest: getline_shorter)

declare scan_json_lines.simps [simp del]

section \<open>Frames\<close>

text \<open>The payload of a frame: prepared payloads carry their own checksum, older ones a checksum field.\<close>

definition decode_frame_payload :: "json_codec \<Rightarrow> bytes \<Rightarrow> json option" where
  "decode_frame_payload c payload =
     (if take 5 payload = magic_prepared then decodePreparedPayload c payload
      else case decodeWalPayload c payload of
             None \<Rightarrow> None
           | Some e \<Rightarrow> if verifyWalPayloadCrc c e then Some e else None)"

text \<open>The checks on a decoded entry: namespace, LSN order, and the first LSN of a segment.\<close>

definition scan_entry ::
    "visitor \<Rightarrow> bool \<Rightarrow> bool \<Rightarrow> nat \<Rightarrow> wal_op \<Rightarrow> json \<Rightarrow> scan_state \<Rightarrow> scanned_file
       \<Rightarrow> scan_state + scan_state \<times> scanned_file" where
  "scan_entry vis legacy firstSegmentRecord pos op entry scan meta =
     (let entryIdentity = walIdentityHash entry
      in if legacy \<and> legacy_identity_clash entryIdentity meta
         then Inl (setScanFailure scan CORRUPT LegacyIdentityChanged)
         else
           let meta1 = (if legacy then adopt_identity entryIdentity meta else meta)
           in case readEntryLsn entry legacy (ss_lastLsn scan + 1) of
                None \<Rightarrow> Inl (setScanFailure scan CORRUPT InvalidLsn)
              | Some lsn \<Rightarrow>
                 if lsn = 0 \<or> lsn \<le> ss_lastLsn scan
                    \<or> (\<not> legacy \<and> sf_identity meta1 \<noteq> 0 \<and> entryIdentity \<noteq> 0
                         \<and> entryIdentity \<noteq> sf_identity meta1)
                    \<or> (firstSegmentRecord \<and> lsn \<noteq> sf_firstLsn meta1)
                 then Inl (setScanFailure scan CORRUPT InvalidLsn)
                 else deliver vis op lsn entry pos scan meta1)"

text \<open>
  The body of the frame loop on a non-empty rest of the file: one operation byte, the size, the payload,
  the checks, the visitor.  \<open>pos\<close> is the stream position; the payload size is returned with the result.
\<close>

definition scan_frame ::
    "wal_config \<Rightarrow> json_codec \<Rightarrow> visitor \<Rightarrow> bool \<Rightarrow> bool \<Rightarrow> nat \<Rightarrow> byte \<Rightarrow> bytes
       \<Rightarrow> scan_state \<Rightarrow> scanned_file \<Rightarrow> bool
       \<Rightarrow> scan_state + (scan_state \<times> scanned_file) \<times> nat" where
  "scan_frame cfg c vis legacy finalFile pos opByte rest scan meta firstSegmentRecord =
     (if length rest < 4
      then Inl (setFileScanFailure scan meta (tail_status finalFile) PartialFrameHeader)
      else
        let payloadSize = unat (le_word (take 4 rest) :: u32);
            payload = take payloadSize (drop 4 rest)
        in case op_of_code opByte of
             None \<Rightarrow> Inl (setScanFailure scan CORRUPT InvalidFrame)
           | Some op \<Rightarrow>
              if op = SEGMENT_HEADER \<or> payloadSize = 0 \<or> maxRecordBytes cfg < payloadSize
              then Inl (setScanFailure scan CORRUPT InvalidFrame)
              else if length payload < payloadSize
              then Inl (setFileScanFailure scan meta (tail_status finalFile) PartialPayload)
              else case decode_frame_payload c payload of
                     None \<Rightarrow> Inl (setScanFailure scan CORRUPT InvalidPayload)
                   | Some entry \<Rightarrow>
                      (case scan_entry vis legacy firstSegmentRecord (pos + 5 + payloadSize) op entry
                              scan meta of
                         Inl r \<Rightarrow> Inl r
                       | Inr x \<Rightarrow> Inr (x, payloadSize)))"

function scan_frames ::
    "wal_config \<Rightarrow> json_codec \<Rightarrow> visitor \<Rightarrow> bool \<Rightarrow> bool \<Rightarrow> nat \<Rightarrow> bytes
       \<Rightarrow> scan_state \<Rightarrow> scanned_file \<Rightarrow> bool \<Rightarrow> scan_state + scan_state \<times> scanned_file" where
  "scan_frames cfg c vis legacy finalFile pos bs scan meta first =
     (case bs of
        [] \<Rightarrow> Inr (scan, meta)
      | opByte # rest \<Rightarrow>
         (case scan_frame cfg c vis legacy finalFile pos opByte rest scan meta first of
            Inl r \<Rightarrow> Inl r
          | Inr ((scan1, meta1), payloadSize) \<Rightarrow>
              scan_frames cfg c vis legacy finalFile (pos + 5 + payloadSize)
                (drop (4 + payloadSize) rest) scan1 meta1 False))"
  by pat_completeness auto
termination
  by (relation "measure (\<lambda>(_, _, _, _, _, _, bs, _, _, _). length bs)") auto

declare scan_frames.simps [simp del]

section \<open>Files\<close>

text \<open>The header of a segment file, checked against its name, its predecessor and the namespace.\<close>

definition scan_segment_header ::
    "bool \<Rightarrow> string \<Rightarrow> bytes \<Rightarrow> scan_state \<Rightarrow> scanned_file \<Rightarrow> scan_state + scan_state \<times> scanned_file" where
  "scan_segment_header finalFile stem content scan meta =
     (if length content < kSegmentHeaderBytes
      then Inl (setFileScanFailure scan meta (tail_status finalFile) (PartialSegmentHeader (sf_path meta)))
      else if take 5 content \<noteq> magic_segment \<or> content ! 5 \<noteq> kSegmentVersion
              \<or> unat (le_word (take 2 (drop 6 content)) :: u16) \<noteq> kSegmentHeaderBytes
      then Inl (setScanFailure scan CORRUPT (InvalidSegmentHeader (sf_path meta)))
      else
        let segmentId = (le_word (take 8 (drop 8 content)) :: u64);
            firstLsn = (le_word (take 8 (drop 16 content)) :: u64);
            identityHash = (le_word (take 8 (drop 24 content)) :: u64);
            namedSegmentId = (case stoull stem of Some n \<Rightarrow> n | None \<Rightarrow> 0);
            meta1 = meta\<lparr>sf_segmentId := segmentId, sf_firstLsn := firstLsn, sf_identity := identityHash\<rparr>
        in if segmentId = 0 \<or> segmentId \<noteq> namedSegmentId \<or> segmentId \<le> ss_previousSegmentId scan
              \<or> firstLsn = 0 \<or> (ss_segmentIdentity scan \<noteq> 0 \<and> identityHash \<noteq> ss_segmentIdentity scan)
           then Inl (setScanFailure scan CORRUPT InconsistentSegment)
           else Inr (scan\<lparr>ss_previousSegmentId := segmentId, ss_segmentIdentity := identityHash\<rparr>,
                     meta1\<lparr>sf_validBytes := kSegmentHeaderBytes\<rparr>))"

definition new_meta :: "wal_path \<Rightarrow> scanned_file" where
  "new_meta path = \<lparr>sf_path = path, sf_legacy = (path = LegacyPath), sf_segmentId = 0, sf_firstLsn = 0,
     sf_endLsn = 0, sf_validBytes = 0, sf_identity = 0\<rparr>"

text \<open>After the records of a file: an empty segment still raises the LSN floor to its first LSN.\<close>

definition finish_file :: "scan_state \<Rightarrow> scanned_file \<Rightarrow> scan_state" where
  "finish_file scan meta =
     (let scan1 = (if \<not> sf_legacy meta \<and> sf_endLsn meta = 0 \<and> 0 < sf_firstLsn meta
                   then scan\<lparr>ss_lastLsn := max (ss_lastLsn scan) (sf_firstLsn meta - 1)\<rparr> else scan)
      in scan1\<lparr>ss_validBytes := ss_validBytes scan1 + sf_validBytes meta,
               ss_files := ss_files scan1 @ [meta]\<rparr>)"

definition scan_file ::
    "wal_config \<Rightarrow> json_codec \<Rightarrow> scan_env \<Rightarrow> visitor \<Rightarrow> bool \<Rightarrow> wal_path \<Rightarrow> bytes \<Rightarrow> scan_state
       \<Rightarrow> scan_state + scan_state" where
  "scan_file cfg c env vis finalFile path content scan =
     (if \<not> se_open_ok env path then Inl (setScanFailure scan IO_ERROR (OpenFailed path))
      else
        case path of
          LegacyPath \<Rightarrow>
            if looksLikeJsonLines content
            then (case scan_json_lines c vis finalFile (length content) 0 content scan (new_meta path) of
                    Inl r \<Rightarrow> Inl r
                  | Inr (scan1, meta1) \<Rightarrow>
                      Inr (scan1\<lparr>ss_validBytes := ss_validBytes scan1 + sf_validBytes meta1,
                                 ss_files := ss_files scan1 @ [meta1]\<rparr>))
            else (case scan_frames cfg c vis True finalFile 0 content scan (new_meta path) False of
                    Inl r \<Rightarrow> Inl r
                  | Inr (scan1, meta1) \<Rightarrow> Inr (finish_file scan1 meta1))
        | SegPath stem \<Rightarrow>
            (case scan_segment_header finalFile stem content scan (new_meta path) of
               Inl r \<Rightarrow> Inl r
             | Inr (scan0, meta0) \<Rightarrow>
                 (case scan_frames cfg c vis False finalFile kSegmentHeaderBytes
                         (drop kSegmentHeaderBytes content) scan0 meta0 True of
                    Inl r \<Rightarrow> Inl r
                  | Inr (scan1, meta1) \<Rightarrow> Inr (finish_file scan1 meta1))))"

fun scan_files ::
    "wal_config \<Rightarrow> json_codec \<Rightarrow> scan_env \<Rightarrow> visitor \<Rightarrow> (wal_path \<times> bytes) list \<Rightarrow> scan_state
       \<Rightarrow> scan_state" where
  "scan_files cfg c env vis [] scan = scan"
| "scan_files cfg c env vis ((path, content) # files) scan =
     (case scan_file cfg c env vis (files = []) path content scan of
        Inl r \<Rightarrow> r
      | Inr scan1 \<Rightarrow> scan_files cfg c env vis files scan1)"

definition physical_files :: "wal_fs \<Rightarrow> (wal_path \<times> bytes) list" where
  "physical_files fs =
     (case fs_legacy fs of None \<Rightarrow> [] | Some b \<Rightarrow> [(LegacyPath, b)])
       @ map (\<lambda>(stem, b). (SegPath stem, b)) (sortedSegmentFiles fs)"

definition scanWalFiles ::
    "wal_config \<Rightarrow> json_codec \<Rightarrow> scan_env \<Rightarrow> visitor \<Rightarrow> wal_fs \<Rightarrow> scan_state" where
  "scanWalFiles cfg c env vis fs =
     (if \<not> se_inspect_ok env then setScanFailure scan_init IO_ERROR InspectLegacy
      else if \<not> se_type_ok env then setScanFailure scan_init IO_ERROR InspectLegacyType
      else if \<not> se_list_ok env then setScanFailure scan_init IO_ERROR EnumerateSegments
      else scan_files cfg c env vis (physical_files fs) scan_init)"

end
