(* ===== verification/Wal_Log.thy ===== *)
theory Wal_Log
  imports Wal_Scan_Laws
begin

text \<open>
  The state of one logical WAL and its operations (\<open>engine/src/wal.cpp\<close>): admission, lazy initialisation
  with truncation of a torn tail, group append with segment rotation, flush, recovery scan, reclaim and
  clear.  The file system of the log is a \<open>wal_fs\<close>.  What the operating system does is a parameter: a
  write of a chunk either completes or fails after some bytes, a sync succeeds or not.  Statistics and
  timings are not part of the state.  An operation returns the new files, the new state and its outcome.
\<close>

section \<open>State\<close>

datatype wal_error =
    WRecoveryInProgress | WClearing | WPoisoned | WScanFailed scan_error | WTruncateFailed | WSyncFailed
  | WMkdir | WIdentityChanged | WRecordTooLarge | WAppendFailed | WSyncDataFailed | WLsnExhausted
  | WAnchorFailed | WRemoveFailed

record wal_state =
  ws_admission :: u64
  ws_clearing :: bool
  ws_initialized :: bool
  ws_poisoned :: bool
  ws_nextLsn :: u64
  ws_activeSegment :: u64
  ws_activeBytes :: nat
  ws_identity :: u64

definition wal_state_init :: wal_state where
  "wal_state_init = \<lparr>ws_admission = 0, ws_clearing = False, ws_initialized = False, ws_poisoned = False,
     ws_nextLsn = 1, ws_activeSegment = 0, ws_activeBytes = 0, ws_identity = 0\<rparr>"

text \<open>The outcome of one \<open>appendWalBytes\<close>: everything written, the file not opened, or an error after some
  bytes reached the (created) file.\<close>

datatype write_result = Written | NotOpened | Short nat

record wal_io =
  io_truncate_ok :: bool
  io_mkdir_ok :: bool
  io_dirsync_ok :: bool
  io_write :: "nat \<Rightarrow> write_result"
  io_sync_ok :: "nat \<Rightarrow> bool"
  io_remove_ok :: "wal_path \<Rightarrow> bool"

definition io_good :: wal_io where
  "io_good = \<lparr>io_truncate_ok = True, io_mkdir_ok = True, io_dirsync_ok = True, io_write = (\<lambda>_. Written),
     io_sync_ok = (\<lambda>_. True), io_remove_ok = (\<lambda>_. True)\<rparr>"

section \<open>Admission\<close>

text \<open>\<open>WalOperation\<close>: the high bit marks an exclusive recovery, the rest counts admitted operations.\<close>

definition recovery_bit :: u64 where
  "recovery_bit = 2 ^ 63"

definition wal_admit :: "wal_state \<Rightarrow> wal_state option" where
  "wal_admit st =
     (if ws_admission st < recovery_bit - 1 then Some (st\<lparr>ws_admission := ws_admission st + 1\<rparr>) else None)"

definition wal_release :: "wal_state \<Rightarrow> wal_state" where
  "wal_release st = st\<lparr>ws_admission := ws_admission st - 1\<rparr>"

definition recovery_begin :: "wal_state \<Rightarrow> scan_error + wal_state" where
  "recovery_begin st =
     (if ws_admission st = 0 then Inr (st\<lparr>ws_admission := recovery_bit\<rparr>)
      else if ws_admission st AND recovery_bit \<noteq> 0 then Inl RecoveryInProgress
      else Inl RecoveryRequiresIdle)"

definition recovery_end :: "wal_state \<Rightarrow> wal_state" where
  "recovery_end st = st\<lparr>ws_admission := 0\<rparr>"

section \<open>Files\<close>

text \<open>\<open>appendWalBytes\<close>: the file is created when missing.\<close>

fun seg_append :: "string \<Rightarrow> bytes \<Rightarrow> (string \<times> bytes) list \<Rightarrow> (string \<times> bytes) list" where
  "seg_append stem bs [] = [(stem, bs)]"
| "seg_append stem bs ((s, b) # xs) = (if s = stem then (s, b @ bs) # xs else (s, b) # seg_append stem bs xs)"

definition fs_append :: "u64 \<Rightarrow> bytes \<Rightarrow> wal_fs \<Rightarrow> wal_fs" where
  "fs_append seg bs fs = fs\<lparr>fs_segments := seg_append (segment_stem seg) bs (fs_segments fs)\<rparr>"

fun fs_remove :: "wal_path \<Rightarrow> wal_fs \<Rightarrow> wal_fs" where
  "fs_remove LegacyPath fs = fs\<lparr>fs_legacy := None\<rparr>"
| "fs_remove (SegPath stem) fs = fs\<lparr>fs_segments := filter (\<lambda>(s, _). s \<noteq> stem) (fs_segments fs)\<rparr>"

fun fs_resize :: "wal_path \<Rightarrow> nat \<Rightarrow> wal_fs \<Rightarrow> wal_fs" where
  "fs_resize LegacyPath n fs = fs\<lparr>fs_legacy := map_option (take n) (fs_legacy fs)\<rparr>"
| "fs_resize (SegPath stem) n fs =
     fs\<lparr>fs_segments := map (\<lambda>(s, b). if s = stem then (s, take n b) else (s, b)) (fs_segments fs)\<rparr>"

section \<open>Initialisation\<close>

text \<open>The newest segment of a clean scan becomes the active one.\<close>

definition activate :: "wal_state \<Rightarrow> scanned_file \<Rightarrow> wal_state" where
  "activate st file =
     (if \<not> sf_legacy file \<and> ws_activeSegment st \<le> sf_segmentId file
      then st\<lparr>ws_activeSegment := sf_segmentId file, ws_activeBytes := sf_validBytes file,
              ws_identity := sf_identity file\<rparr>
      else st)"

definition truncate_tail :: "scanned_file \<Rightarrow> wal_fs \<Rightarrow> wal_fs" where
  "truncate_tail tail fs =
     (if sf_validBytes tail = 0 then fs_remove (sf_path tail) fs
      else fs_resize (sf_path tail) (sf_validBytes tail) fs)"

definition initializeLogicalWal ::
    "wal_config \<Rightarrow> json_codec \<Rightarrow> scan_env \<Rightarrow> wal_io \<Rightarrow> wal_fs \<Rightarrow> wal_state
       \<Rightarrow> wal_fs \<times> (wal_error + wal_state)" where
  "initializeLogicalWal cfg c env io fs st =
     (if ws_initialized st then (fs, Inr st)
      else
        let scan0 = scanWalFiles cfg c env visit_all fs;
            torn = (ss_status scan0 = PARTIAL_TAIL \<and> ss_files scan0 \<noteq> [])
        in if torn \<and> \<not> io_truncate_ok io then (fs, Inl WTruncateFailed)
           else
             let fs1 = (if torn then truncate_tail (last (ss_files scan0)) fs else fs)
             in if torn \<and> \<not> io_dirsync_ok io then (fs1, Inl WSyncFailed)
                else
                  let scan1 = (if torn then scanWalFiles cfg c env visit_all fs1 else scan0)
                  in if ss_status scan1 \<noteq> OK then (fs1, Inl (WScanFailed (ss_error scan1)))
                     else (fs1, Inr ((foldl activate (st\<lparr>ws_nextLsn := ss_lastLsn scan1 + 1\<rparr>)
                                             (ss_files scan1))\<lparr>ws_initialized := True\<rparr>)))"

section \<open>Append\<close>

text \<open>
  The loop that assigns LSNs, frames the entries and cuts the segments, before anything is written:
  \<open>chunks\<close> collects the bytes per segment file.  The clock is read once per record, so each entry
  comes with its timestamp.
\<close>

record append_plan =
  ap_nextLsn :: u64
  ap_segment :: u64
  ap_bytes :: nat
  ap_identity :: u64
  ap_chunks :: "(u64 \<times> bytes) list"

definition add_chunk :: "u64 \<Rightarrow> bytes \<Rightarrow> (u64 \<times> bytes) list \<Rightarrow> (u64 \<times> bytes) list" where
  "add_chunk seg bs chunks =
     (if chunks = [] \<or> fst (last chunks) \<noteq> seg then chunks @ [(seg, bs)]
      else butlast chunks @ [(seg, snd (last chunks) @ bs)])"

definition plan_entry ::
    "wal_config \<Rightarrow> append_plan \<Rightarrow> pending_entry \<times> u64 \<Rightarrow> wal_error + append_plan" where
  "plan_entry cfg pl e =
     (let (p, ts) = e;
          entryIdentity = walIdentityHash (p_entry p);
          identityHash = (if ap_identity pl = 0 then entryIdentity else ap_identity pl)
      in if entryIdentity \<noteq> 0 \<and> identityHash \<noteq> 0 \<and> entryIdentity \<noteq> identityHash
         then Inl WIdentityChanged
         else
           let lsn = ap_nextLsn pl
           in case framePreparedRecord cfg ts p lsn of
                None \<Rightarrow> Inl WRecordTooLarge
              | Some frame \<Rightarrow>
                 (let rotate = (ap_segment pl = 0
                                \<or> (kSegmentHeaderBytes < ap_bytes pl
                                   \<and> segmentMaxBytes cfg < ap_bytes pl + length frame));
                      seg = (if rotate then ap_segment pl + 1 else ap_segment pl);
                      used = (if rotate then 0 else ap_bytes pl);
                      header = (if used = 0 then segmentHeader seg lsn identityHash else []);
                      used1 = (if used = 0 then kSegmentHeaderBytes else used)
                  in Inr \<lparr>ap_nextLsn = lsn + 1, ap_segment = seg, ap_bytes = used1 + length frame,
                          ap_identity = identityHash,
                          ap_chunks = add_chunk seg (header @ frame) (ap_chunks pl)\<rparr>))"

fun plan_entries ::
    "wal_config \<Rightarrow> append_plan \<Rightarrow> (pending_entry \<times> u64) list \<Rightarrow> wal_error + append_plan" where
  "plan_entries cfg pl [] = Inr pl"
| "plan_entries cfg pl (e # es) =
     (case plan_entry cfg pl e of Inl err \<Rightarrow> Inl err | Inr pl1 \<Rightarrow> plan_entries cfg pl1 es)"

text \<open>The chunks are written in order; the first failing write ends the loop with a short file.\<close>

fun write_chunks :: "wal_io \<Rightarrow> nat \<Rightarrow> (u64 \<times> bytes) list \<Rightarrow> wal_fs \<Rightarrow> wal_fs \<times> bool" where
  "write_chunks io i [] fs = (fs, True)"
| "write_chunks io i ((seg, bs) # chunks) fs =
     (case io_write io i of
        Written \<Rightarrow> write_chunks io (Suc i) chunks (fs_append seg bs fs)
      | NotOpened \<Rightarrow> (fs, False)
      | Short n \<Rightarrow> (fs_append seg (take n bs) fs, False))"

definition sync_chunks :: "wal_io \<Rightarrow> (u64 \<times> bytes) list \<Rightarrow> bool" where
  "sync_chunks io chunks = list_all (io_sync_ok io) [0..<length chunks]"

text \<open>\<open>appendEntries\<close> under the append mutex, after admission.\<close>

definition append_locked ::
    "wal_config \<Rightarrow> json_codec \<Rightarrow> scan_env \<Rightarrow> wal_io \<Rightarrow> bool \<Rightarrow> (pending_entry \<times> u64) list
       \<Rightarrow> wal_fs \<Rightarrow> wal_state \<Rightarrow> wal_fs \<times> wal_state \<times> (wal_error + unit)" where
  "append_locked cfg c env io forceFsync entries fs st =
     (if ws_clearing st then (fs, st, Inl WClearing)
      else
        case initializeLogicalWal cfg c env io fs st of
          (fs1, Inl e) \<Rightarrow> (fs1, st, Inl e)
        | (fs1, Inr st1) \<Rightarrow>
           if ws_poisoned st1 then (fs1, st1, Inl WPoisoned)
           else if \<not> io_mkdir_ok io then (fs1, st1, Inl WMkdir)
           else
             case plan_entries cfg \<lparr>ap_nextLsn = ws_nextLsn st1, ap_segment = ws_activeSegment st1,
                     ap_bytes = ws_activeBytes st1, ap_identity = ws_identity st1, ap_chunks = []\<rparr> entries of
               Inl e \<Rightarrow> (fs1, st1, Inl e)
             | Inr pl \<Rightarrow>
                (case write_chunks io 0 (ap_chunks pl) fs1 of
                   (fs2, False) \<Rightarrow> (fs2, st1\<lparr>ws_poisoned := True\<rparr>, Inl WAppendFailed)
                 | (fs2, True) \<Rightarrow>
                    if (forceFsync \<or> wc_fsync cfg) \<and> \<not> sync_chunks io (ap_chunks pl)
                    then (fs2, st1\<lparr>ws_poisoned := True\<rparr>, Inl WSyncDataFailed)
                    else (fs2, st1\<lparr>ws_nextLsn := ap_nextLsn pl, ws_activeSegment := ap_segment pl,
                                   ws_activeBytes := ap_bytes pl, ws_identity := ap_identity pl\<rparr>, Inr ())))"

definition appendEntries ::
    "wal_config \<Rightarrow> json_codec \<Rightarrow> scan_env \<Rightarrow> wal_io \<Rightarrow> bool \<Rightarrow> (pending_entry \<times> u64) list
       \<Rightarrow> wal_fs \<Rightarrow> wal_state \<Rightarrow> wal_fs \<times> wal_state \<times> (wal_error + unit)" where
  "appendEntries cfg c env io forceFsync entries fs st =
     (if entries = [] then (fs, st, Inr ())
      else
        case wal_admit st of
          None \<Rightarrow> (fs, st, Inl WRecoveryInProgress)
        | Some st1 \<Rightarrow>
           (case append_locked cfg c env io forceFsync entries fs st1 of
              (fs2, st2, res) \<Rightarrow> (fs2, wal_release st2, res)))"

section \<open>Scans\<close>

text \<open>\<open>WAL::scan\<close> and \<open>WAL::scanRecovery\<close>: the latter needs an idle log and excludes everything else
  while the visitor runs.\<close>

definition refused :: "scan_error \<Rightarrow> scan_state" where
  "refused e = setScanFailure scan_init IO_ERROR e"

definition wal_scan :: "wal_config \<Rightarrow> json_codec \<Rightarrow> scan_env \<Rightarrow> visitor \<Rightarrow> wal_fs \<Rightarrow> wal_state \<Rightarrow> scan_state" where
  "wal_scan cfg c env vis fs st =
     (case wal_admit st of None \<Rightarrow> refused RecoveryInProgress
      | Some _ \<Rightarrow> scanWalFiles cfg c env vis fs)"

definition scanRecovery ::
    "wal_config \<Rightarrow> json_codec \<Rightarrow> scan_env \<Rightarrow> visitor \<Rightarrow> wal_fs \<Rightarrow> wal_state \<Rightarrow> scan_state \<times> wal_state" where
  "scanRecovery cfg c env vis fs st =
     (case recovery_begin st of
        Inl e \<Rightarrow> (refused e, st)
      | Inr st1 \<Rightarrow> (scanWalFiles cfg c env vis fs, recovery_end st1))"

section \<open>Reclaim and clear\<close>

definition covered_legacy :: "u64 \<Rightarrow> scanned_file \<Rightarrow> bool" where
  "covered_legacy coveredLsn file \<longleftrightarrow> sf_legacy file \<and> sf_endLsn file \<noteq> 0 \<and> sf_endLsn file \<le> coveredLsn"

definition covered_sealed :: "u64 \<Rightarrow> u64 \<Rightarrow> scanned_file \<Rightarrow> bool" where
  "covered_sealed highestSegment coveredLsn file \<longleftrightarrow>
     \<not> sf_legacy file \<and> sf_segmentId file < highestSegment \<and> sf_endLsn file \<noteq> 0
       \<and> sf_endLsn file \<le> coveredLsn"

fun remove_files :: "wal_io \<Rightarrow> wal_path list \<Rightarrow> wal_fs \<Rightarrow> wal_fs \<times> bool" where
  "remove_files io [] fs = (fs, True)"
| "remove_files io (p # ps) fs =
     (if io_remove_ok io p then remove_files io ps (fs_remove p fs) else (fs, False))"

text \<open>
  \<open>WAL::reclaimThrough\<close>: files whose records are all covered by a checkpoint go, except the newest
  segment; when the whole log was a legacy file, a header-only segment first anchors the LSN.
\<close>

definition reclaim_locked ::
    "wal_config \<Rightarrow> json_codec \<Rightarrow> scan_env \<Rightarrow> wal_io \<Rightarrow> u64 \<Rightarrow> wal_fs \<Rightarrow> wal_state
       \<Rightarrow> wal_fs \<times> wal_state \<times> (wal_error + unit)" where
  "reclaim_locked cfg c env io coveredLsn fs st =
     (let scan = scanWalFiles cfg c env visit_all fs
      in if ss_status scan \<noteq> OK then (fs, st, Inl (WScanFailed (ss_error scan)))
         else
           let highestSegment = foldl (\<lambda>m f. max m (sf_segmentId f)) 0 (ss_files scan);
               legacies = filter (covered_legacy coveredLsn) (ss_files scan);
               anchor = (legacies \<noteq> [] \<and> highestSegment = 0)
           in if anchor \<and> coveredLsn = - 1 then (fs, st, Inl WLsnExhausted)
              else if anchor \<and> \<not> io_mkdir_ok io then (fs, st, Inl WMkdir)
              else
                let (fs1, written) =
                      (if anchor
                       then write_chunks io 0
                              [(1, segmentHeader 1 (coveredLsn + 1) (sf_identity (last legacies)))] fs
                       else (fs, True))
                in if \<not> written \<or> (anchor \<and> \<not> (io_sync_ok io 0 \<and> io_dirsync_ok io)) then (fs1, st, Inl WAnchorFailed)
                   else
                     case remove_files io
                            (map sf_path (filter (\<lambda>f. covered_legacy coveredLsn f
                                                     \<or> covered_sealed highestSegment coveredLsn f)
                                            (ss_files scan))) fs1 of
                       (fs2, False) \<Rightarrow> (fs2, st, Inl WRemoveFailed)
                     | (fs2, True) \<Rightarrow>
                        if \<not> io_dirsync_ok io then (fs2, st, Inl WSyncFailed)
                        else (fs2, st\<lparr>ws_initialized := False\<rparr>, Inr ()))"

definition reclaimThrough ::
    "wal_config \<Rightarrow> json_codec \<Rightarrow> scan_env \<Rightarrow> wal_io \<Rightarrow> u64 \<Rightarrow> wal_fs \<Rightarrow> wal_state
       \<Rightarrow> wal_fs \<times> wal_state \<times> (wal_error + unit)" where
  "reclaimThrough cfg c env io coveredLsn fs st =
     (case wal_admit st of
        None \<Rightarrow> (fs, st, Inl WRecoveryInProgress)
      | Some st1 \<Rightarrow>
         (case reclaim_locked cfg c env io coveredLsn fs st1 of
            (fs2, st2, res) \<Rightarrow> (fs2, wal_release st2, res)))"

text \<open>\<open>WAL::clear\<close>: removal errors are only logged, the state is reset in any case.\<close>

definition wal_clear :: "wal_io \<Rightarrow> wal_fs \<Rightarrow> wal_state \<Rightarrow> wal_fs \<times> wal_state \<times> (wal_error + unit)" where
  "wal_clear io fs st =
     (case wal_admit st of
        None \<Rightarrow> (fs, st, Inl WRecoveryInProgress)
      | Some st1 \<Rightarrow>
         (\<lparr>fs_legacy = (if io_remove_ok io LegacyPath then None else fs_legacy fs),
           fs_segments = filter (\<lambda>(s, _). \<not> io_remove_ok io (SegPath s)) (fs_segments fs)\<rparr>,
          wal_release (st1\<lparr>ws_initialized := False, ws_poisoned := False, ws_nextLsn := 1,
                           ws_activeSegment := 0, ws_activeBytes := 0, ws_identity := 0,
                           ws_clearing := False\<rparr>), Inr ()))"

end
