(* ===== verification/Wal_Layout.thy ===== *)
theory Wal_Layout
  imports Wal_Log
begin

text \<open>
  The layout the writer keeps: a sequence of segments, each a header and the frames of consecutive LSNs.
  A scan of a layout delivers exactly its items; a scan of a layout whose last frame is cut short reports
  a partial tail that ends after the last complete frame.
\<close>

section \<open>Items and their frames\<close>

type_synonym item = "pending_entry \<times> u64"

definition item_ok :: "wal_config \<Rightarrow> json_codec \<Rightarrow> item \<Rightarrow> bool" where
  "item_ok cfg c it \<longleftrightarrow> pending_ok cfg c (fst it)
     \<and> kPreparedPayloadHeaderBytes + length (p_payload (fst it)) \<le> maxRecordBytes cfg
     \<and> kPreparedPayloadHeaderBytes + length (p_payload (fst it)) \<le> 2 ^ 32 - 1"

definition item_size :: "item \<Rightarrow> nat" where
  "item_size it = kPreparedPayloadHeaderBytes + length (p_payload (fst it))"

definition frame_tail :: "item \<Rightarrow> u64 \<Rightarrow> bytes" where
  "frame_tail it lsn =
     le_bytes 4 (of_nat (item_size it) :: u32) @ prepared_payload (fst it) lsn (snd it)"

definition frame_of :: "item \<Rightarrow> u64 \<Rightarrow> bytes" where
  "frame_of it lsn = op_code (p_op (fst it)) # frame_tail it lsn"

definition item_rec :: "item \<Rightarrow> u64 \<Rightarrow> wal_record" where
  "item_rec it lsn = \<lparr>r_op = p_op (fst it), r_lsn = lsn, r_entry = wal_stamp (p_entry (fst it)) lsn (snd it)\<rparr>"

definition item_identity :: "item \<Rightarrow> u64" where
  "item_identity it = walIdentityHash (p_entry (fst it))"

definition identity_fits :: "u64 \<Rightarrow> item \<Rightarrow> bool" where
  "identity_fits h it \<longleftrightarrow> h = 0 \<or> item_identity it = 0 \<or> item_identity it = h"

fun enc_items :: "u64 \<Rightarrow> item list \<Rightarrow> bytes" where
  "enc_items lsn [] = []"
| "enc_items lsn (it # its) = frame_of it lsn @ enc_items (lsn + 1) its"

fun recs_from :: "u64 \<Rightarrow> item list \<Rightarrow> wal_record list" where
  "recs_from lsn [] = []"
| "recs_from lsn (it # its) = item_rec it lsn # recs_from (lsn + 1) its"

lemma framePreparedRecord_item:
  "item_ok cfg c it \<Longrightarrow> framePreparedRecord cfg (snd it) (fst it) lsn = Some (frame_of it lsn)"
  by (simp add: item_ok_def framePreparedRecord_def frame_of_def frame_tail_def item_size_def)

lemma length_frame_tail [simp, len_simps]: "length (frame_tail it lsn) = 4 + item_size it"
  by (simp add: frame_tail_def item_size_def)

lemma length_frame_of [simp, len_simps]: "length (frame_of it lsn) = 5 + item_size it"
  by (simp add: frame_of_def)

lemma unat_of_nat_size:
  assumes "item_ok cfg c it"
  shows "unat (of_nat (item_size it) :: u32) = item_size it"
proof -
  have "item_size it < 2 ^ 32"
    using assms by (simp add: item_ok_def item_size_def)
  then show ?thesis
    by (simp add: unat_of_nat)
qed

lemma frame_tail_size:
  assumes "item_ok cfg c it"
  shows "unat (le_word (take 4 (frame_tail it lsn @ suf)) :: u32) = item_size it"
  using unat_of_nat_size [OF assms] by (simp add: frame_tail_def codec_simps)

lemma decode_frame_payload_item:
  assumes "item_ok cfg c it"
  shows "decode_frame_payload c (prepared_payload (fst it) lsn (snd it))
     = Some (wal_stamp (p_entry (fst it)) lsn (snd it))"
  using assms decodePreparedPayload_prepared [of cfg c "fst it"]
  by (simp add: decode_frame_payload_def prepared_payload_fields item_ok_def)

lemma item_entry_wf:
  assumes "item_ok cfg c it"
  shows "json_wf (p_entry (fst it))" "is_object (p_entry (fst it))"
  using assms by (simp_all add: item_ok_def pending_ok_def codec_entry_ok_def)

section \<open>Scanning frames\<close>

definition adv_scan :: "scan_state \<Rightarrow> item \<Rightarrow> u64 \<Rightarrow> scan_state" where
  "adv_scan s it lsn = s\<lparr>ss_lastLsn := lsn, ss_records := ss_records s + 1,
                         ss_visited := ss_visited s @ [item_rec it lsn]\<rparr>"

definition adv_meta :: "scanned_file \<Rightarrow> u64 \<Rightarrow> nat \<Rightarrow> scanned_file" where
  "adv_meta m lsn pos = m\<lparr>sf_endLsn := lsn, sf_validBytes := pos\<rparr>"

lemma scan_frame_item:
  assumes it: "item_ok cfg c it" and lsn: "ss_lastLsn s < lsn"
    and fits: "identity_fits (sf_identity m) it" and nz: "sf_firstLsn m \<noteq> 0"
    and first: "first \<longrightarrow> lsn = sf_firstLsn m"
  shows "scan_frame cfg c visit_all False fin pos (op_code (p_op (fst it))) (frame_tail it lsn @ suf) s m first
     = Inr ((adv_scan s it lsn, adv_meta m lsn (pos + 5 + item_size it)), item_size it)"
proof -
  have op: "p_op (fst it) \<noteq> SEGMENT_HEADER"
    using it by (simp add: item_ok_def pending_ok_def)
  have sz: "item_size it \<noteq> 0" "\<not> maxRecordBytes cfg < item_size it"
    using it by (simp_all add: item_ok_def item_size_def kPreparedPayloadHeaderBytes_def)
  have payload: "take (item_size it) (drop 4 (frame_tail it lsn @ suf)) = prepared_payload (fst it) lsn (snd it)"
    by (simp add: frame_tail_def item_size_def)
  have lsn0: "lsn \<noteq> 0"
    using lsn by auto
  have fits': "\<not> (sf_identity m \<noteq> 0 \<and> walIdentityHash (p_entry (fst it)) \<noteq> 0
      \<and> walIdentityHash (p_entry (fst it)) \<noteq> sf_identity m)"
    using fits by (auto simp: identity_fits_def item_identity_def)
  have "scan_entry visit_all False first (pos + 5 + item_size it) (p_op (fst it))
       (wal_stamp (p_entry (fst it)) lsn (snd it)) s m
     = Inr (adv_scan s it lsn, adv_meta m lsn (pos + 5 + item_size it))"
    using lsn lsn0 fits' nz first item_entry_wf [OF it]
    by (auto simp: scan_entry_def Let_def deliver_def adv_scan_def adv_meta_def item_rec_def not_le)
  then show ?thesis
    using op sz length_prepared_payload [of "fst it" lsn "snd it"]
    unfolding scan_frame_def frame_tail_size [OF it] payload Let_def
    by (simp add: decode_frame_payload_item [OF it] flip: item_size_def)
qed

lemma scan_frame_torn:
  assumes it: "item_ok cfg c it" and k: "k < length (frame_tail it lsn)"
  shows "\<exists>e. scan_frame cfg c vis legacy fin pos (op_code (p_op (fst it))) (take k (frame_tail it lsn)) s m first
     = Inl (setFileScanFailure s m (tail_status fin) e)"
proof (cases "k < 4")
  case True
  then show ?thesis
    using k by (auto simp: scan_frame_def)
next
  case False
  have op: "p_op (fst it) \<noteq> SEGMENT_HEADER"
    using it by (simp add: item_ok_def pending_ok_def)
  have sz: "item_size it \<noteq> 0" "\<not> maxRecordBytes cfg < item_size it"
    using it by (simp_all add: item_ok_def item_size_def kPreparedPayloadHeaderBytes_def)
  have "take 4 (take k (frame_tail it lsn)) = take 4 (frame_tail it lsn)"
    using False by (simp add: min_def)
  then have size: "unat (le_word (take 4 (take k (frame_tail it lsn))) :: u32) = item_size it"
    using frame_tail_size [OF it, of lsn "[]"] by simp
  have len: "length (take k (frame_tail it lsn)) = k"
    using k by simp
  have "length (take (item_size it) (drop 4 (take k (frame_tail it lsn)))) < item_size it"
    using k False by simp
  then show ?thesis
    using False op sz unfolding scan_frame_def len size Let_def by auto
qed

text \<open>A run of frames: the scanner state and the file's meta data after it.\<close>

fun adv_scans :: "scan_state \<Rightarrow> u64 \<Rightarrow> item list \<Rightarrow> scan_state" where
  "adv_scans s lsn [] = s"
| "adv_scans s lsn (it # its) = adv_scans (adv_scan s it lsn) (lsn + 1) its"

fun adv_metas :: "scanned_file \<Rightarrow> u64 \<Rightarrow> nat \<Rightarrow> item list \<Rightarrow> scanned_file" where
  "adv_metas m lsn pos [] = m"
| "adv_metas m lsn pos (it # its) =
     adv_metas (adv_meta m lsn (pos + 5 + item_size it)) (lsn + 1) (pos + 5 + item_size it) its"

definition lsn_room :: "u64 \<Rightarrow> nat \<Rightarrow> bool" where
  "lsn_room lsn n \<longleftrightarrow> 0 < lsn \<and> unat lsn + n \<le> 2 ^ 64"

lemma lsn_room_Suc:
  assumes "lsn_room lsn (Suc n)" "0 < n"
  shows "lsn < lsn + 1" "lsn_room (lsn + 1) n"
proof -
  have "unat lsn + 1 < 2 ^ 64"
    using assms by (simp add: lsn_room_def)
  then have "unat (lsn + 1) = unat lsn + 1"
    by (simp add: unat_word_ariths)
  then show "lsn < lsn + 1" "lsn_room (lsn + 1) n"
    using assms by (simp_all add: word_less_nat_alt lsn_room_def)
qed

lemma adv_simps [simp]:
  "ss_lastLsn (adv_scan s it lsn) = lsn" "sf_identity (adv_meta m lsn pos) = sf_identity m"
  "sf_firstLsn (adv_meta m lsn pos) = sf_firstLsn m" "sf_validBytes (adv_meta m lsn pos) = pos"
  by (simp_all add: adv_scan_def adv_meta_def)

lemma scan_frames_items:
  assumes "list_all (item_ok cfg c) its" "list_all (identity_fits (sf_identity m)) its"
    and "its \<noteq> [] \<longrightarrow> ss_lastLsn s < lsn \<and> lsn_room lsn (length its)" "sf_firstLsn m \<noteq> 0"
    and "first \<longrightarrow> lsn = sf_firstLsn m"
  shows "scan_frames cfg c visit_all False fin pos (enc_items lsn its @ suf) s m first
     = scan_frames cfg c visit_all False fin (pos + length (enc_items lsn its)) suf
         (adv_scans s lsn its) (adv_metas m lsn pos its) (first \<and> its = [])"
  using assms
proof (induction its arbitrary: lsn pos s m first)
  case Nil
  then show ?case by simp
next
  case (Cons it its)
  have it: "item_ok cfg c it" "ss_lastLsn s < lsn" "identity_fits (sf_identity m) it"
    using Cons.prems by simp_all
  have nxt: "its \<noteq> [] \<longrightarrow> lsn < lsn + 1 \<and> lsn_room (lsn + 1) (length its)"
    using Cons.prems(3) lsn_room_Suc [of lsn "length its"] by auto
  have "scan_frames cfg c visit_all False fin pos (enc_items lsn (it # its) @ suf) s m first
      = scan_frames cfg c visit_all False fin (pos + 5 + item_size it) (enc_items (lsn + 1) its @ suf)
          (adv_scan s it lsn) (adv_meta m lsn (pos + 5 + item_size it)) False"
    using scan_frame_item [OF it Cons.prems(4,5), of fin pos "enc_items (lsn + 1) its @ suf"]
    by (subst scan_frames.simps) (simp add: frame_of_def)
  also have "\<dots> = scan_frames cfg c visit_all False fin
      (pos + 5 + item_size it + length (enc_items (lsn + 1) its)) suf
      (adv_scans s lsn (it # its)) (adv_metas m lsn pos (it # its)) False"
    using Cons.IH [of "adv_meta m lsn (pos + 5 + item_size it)" "adv_scan s it lsn" "lsn + 1" False]
      Cons.prems nxt
    by simp
  finally show ?case
    by (simp add: algebra_simps)
qed

lemma adv_scans_fields:
  "ss_visited (adv_scans s lsn its) = ss_visited s @ recs_from lsn its"
  "ss_records (adv_scans s lsn its) = ss_records s + length its"
  "ss_lastLsn (adv_scans s lsn its) = (if its = [] then ss_lastLsn s else lsn + of_nat (length its) - 1)"
  "ss_status (adv_scans s lsn its) = ss_status s" "ss_error (adv_scans s lsn its) = ss_error s"
  "ss_files (adv_scans s lsn its) = ss_files s" "ss_validBytes (adv_scans s lsn its) = ss_validBytes s"
  "ss_previousSegmentId (adv_scans s lsn its) = ss_previousSegmentId s"
  "ss_segmentIdentity (adv_scans s lsn its) = ss_segmentIdentity s"
  by (induction its arbitrary: s lsn) (simp_all add: adv_scan_def algebra_simps)

lemma adv_metas_fields:
  "sf_path (adv_metas m lsn pos its) = sf_path m" "sf_legacy (adv_metas m lsn pos its) = sf_legacy m"
  "sf_segmentId (adv_metas m lsn pos its) = sf_segmentId m"
  "sf_firstLsn (adv_metas m lsn pos its) = sf_firstLsn m"
  "sf_identity (adv_metas m lsn pos its) = sf_identity m"
  "sf_endLsn (adv_metas m lsn pos its) = (if its = [] then sf_endLsn m else lsn + of_nat (length its) - 1)"
  "sf_validBytes (adv_metas m lsn pos its)
     = (if its = [] then sf_validBytes m else pos + length (enc_items lsn its))"
  by (induction its arbitrary: m lsn pos) (simp_all add: adv_meta_def algebra_simps)

section \<open>Segments\<close>

record layout_seg =
  lg_id :: u64
  lg_first :: u64
  lg_ident :: u64
  lg_items :: "item list"

definition seg_stem :: "layout_seg \<Rightarrow> string" where
  "seg_stem g = segment_stem (lg_id g)"

definition seg_bytes :: "layout_seg \<Rightarrow> bytes" where
  "seg_bytes g = segmentHeader (lg_id g) (lg_first g) (lg_ident g) @ enc_items (lg_first g) (lg_items g)"

definition seg_file :: "layout_seg \<Rightarrow> string \<times> bytes" where
  "seg_file g = (seg_stem g, seg_bytes g)"

definition seg_ok :: "wal_config \<Rightarrow> json_codec \<Rightarrow> layout_seg \<Rightarrow> bool" where
  "seg_ok cfg c g \<longleftrightarrow> lg_id g \<noteq> 0 \<and> list_all (item_ok cfg c) (lg_items g)
     \<and> list_all (identity_fits (lg_ident g)) (lg_items g)"

text \<open>Consecutive LSNs, increasing segment numbers that never overtake the LSNs, one namespace once it is
  known; only the newest segment may be empty.\<close>

fun chain :: "u64 \<Rightarrow> u64 \<Rightarrow> u64 \<Rightarrow> layout_seg list \<Rightarrow> bool" where
  "chain lsn prev ident [] = True"
| "chain lsn prev ident (g # gs) =
     (lg_first g = lsn \<and> prev < lg_id g \<and> lg_id g \<le> lsn \<and> (ident = 0 \<or> lg_ident g = ident)
      \<and> (gs = [] \<or> lg_items g \<noteq> [])
      \<and> chain (lsn + of_nat (length (lg_items g))) (lg_id g) (lg_ident g) gs)"

definition layout_items :: "layout_seg list \<Rightarrow> item list" where
  "layout_items gs = concat (map lg_items gs)"

definition seg_meta :: "layout_seg \<Rightarrow> scanned_file" where
  "seg_meta g = \<lparr>sf_path = SegPath (seg_stem g), sf_legacy = False, sf_segmentId = lg_id g,
     sf_firstLsn = lg_first g,
     sf_endLsn = (if lg_items g = [] then 0 else lg_first g + of_nat (length (lg_items g)) - 1),
     sf_validBytes = length (seg_bytes g), sf_identity = lg_ident g\<rparr>"

text \<open>The scan of one well-formed segment whose content may be followed by more bytes.\<close>

definition open_seg :: "scan_state \<Rightarrow> layout_seg \<Rightarrow> scan_state" where
  "open_seg s g = s\<lparr>ss_previousSegmentId := lg_id g, ss_segmentIdentity := lg_ident g\<rparr>"

definition seg_scanned :: "scan_state \<Rightarrow> layout_seg \<Rightarrow> scan_state" where
  "seg_scanned s g = adv_scans (open_seg s g) (lg_first g) (lg_items g)"

definition seg_pre :: "wal_config \<Rightarrow> json_codec \<Rightarrow> scan_state \<Rightarrow> layout_seg \<Rightarrow> bool" where
  "seg_pre cfg c s g \<longleftrightarrow> seg_ok cfg c g \<and> ss_previousSegmentId s < lg_id g
     \<and> (ss_segmentIdentity s = 0 \<or> lg_ident g = ss_segmentIdentity s)
     \<and> ss_lastLsn s < lg_first g \<and> lsn_room (lg_first g) (length (lg_items g))"

lemma unat_header_size: "unat (of_nat kSegmentHeaderBytes :: u16) = kSegmentHeaderBytes"
  by (simp add: kSegmentHeaderBytes_def)

lemma scan_segment_header_seg:
  assumes "seg_pre cfg c s g"
  shows "scan_segment_header fin (seg_stem g)
       (segmentHeader (lg_id g) (lg_first g) (lg_ident g) @ r) s (new_meta (SegPath (seg_stem g)))
     = Inr (open_seg s g, (seg_meta (g\<lparr>lg_items := []\<rparr>)))"
proof -
  have nz: "lg_id g \<noteq> 0" "lg_first g \<noteq> 0" "\<not> lg_id g \<le> ss_previousSegmentId s"
    using assms by (auto simp: seg_pre_def seg_ok_def not_le)
  have st: "stoull (seg_stem g) = Some (lg_id g)"
    by (simp add: seg_stem_def)
  have id: "\<not> (ss_segmentIdentity s \<noteq> 0 \<and> lg_ident g \<noteq> ss_segmentIdentity s)"
    using assms by (auto simp: seg_pre_def)
  show ?thesis
    using nz id
    unfolding scan_segment_header_def segmentHeader_fields
    by (simp add: st codec_simps unat_header_size Let_def open_seg_def seg_meta_def new_meta_def
        seg_bytes_def seg_stem_def)
qed

lemma scan_file_seg:
  assumes pre: "seg_pre cfg c s g"
  shows "scan_file cfg c env_ok visit_all fin (SegPath (seg_stem g)) (seg_bytes g @ suf) s
     = (case scan_frames cfg c visit_all False fin (length (seg_bytes g)) suf (seg_scanned s g)
               (seg_meta g) (lg_items g = []) of
          Inl r \<Rightarrow> Inl r | Inr (s1, m1) \<Rightarrow> Inr (finish_file s1 m1))"
proof -
  let ?m = "seg_meta (g\<lparr>lg_items := []\<rparr>)"
  have items: "list_all (item_ok cfg c) (lg_items g)" "list_all (identity_fits (sf_identity ?m)) (lg_items g)"
    "sf_firstLsn ?m \<noteq> 0" "lg_first g = sf_firstLsn ?m"
    using pre by (auto simp: seg_pre_def seg_ok_def seg_meta_def)
  have room: "ss_lastLsn (open_seg s g) < lg_first g" "lsn_room (lg_first g) (length (lg_items g))"
    using pre by (simp_all add: seg_pre_def open_seg_def)
  have meta: "adv_metas ?m (lg_first g) kSegmentHeaderBytes (lg_items g) = seg_meta g"
    by (rule scanned_file.equality)
       (simp_all add: adv_metas_fields seg_meta_def seg_bytes_def seg_stem_def)
  have "scan_frames cfg c visit_all False fin kSegmentHeaderBytes
      (enc_items (lg_first g) (lg_items g) @ suf) (open_seg s g) ?m True
    = scan_frames cfg c visit_all False fin (length (seg_bytes g)) suf (seg_scanned s g)
        (seg_meta g) (lg_items g = [])"
    using scan_frames_items [OF items(1,2), of "open_seg s g" "lg_first g" True fin kSegmentHeaderBytes suf]
      items room meta
    by (simp add: seg_scanned_def seg_bytes_def)
  then show ?thesis
    using scan_segment_header_seg [OF pre, of fin "enc_items (lg_first g) (lg_items g) @ suf"]
    by (simp add: scan_file_def env_ok_def seg_bytes_def segmentHeader_fields)
qed

definition seg_done :: "scan_state \<Rightarrow> layout_seg \<Rightarrow> scan_state" where
  "seg_done s g = finish_file (seg_scanned s g) (seg_meta g)"

lemma scan_file_seg_clean:
  assumes "seg_pre cfg c s g"
  shows "scan_file cfg c env_ok visit_all fin (SegPath (seg_stem g)) (seg_bytes g) s = Inr (seg_done s g)"
  using scan_file_seg [OF assms, of fin "[]"] by (simp add: scan_frames.simps seg_done_def)

lemma pred_max:
  assumes "l < (f :: u64)"
  shows "max l (f - 1) = f - 1"
proof -
  have "unat l < unat f"
    using assms by (simp add: word_less_nat_alt)
  then have "unat (f - 1) = unat f - 1"
    by (intro unat_minus_one) auto
  then show ?thesis
    using \<open>unat l < unat f\<close> by (simp add: max_def word_le_nat_alt) linarith
qed

lemma lsn_room_end:
  assumes "lsn_room lsn n"
  shows "unat (lsn + of_nat n - 1) = unat lsn + n - 1" "0 < n \<Longrightarrow> lsn + of_nat n - 1 \<noteq> 0"
proof -
  have "1 \<le> unat lsn + n"
    using assms unat_gt_0 [of lsn] by (auto simp: lsn_room_def)
  then have "lsn + of_nat n - 1 = of_nat (unat lsn + n - 1)"
    by (subst of_nat_diff) simp_all
  moreover have "unat lsn + n - 1 < 2 ^ 64"
    using assms by (auto simp: lsn_room_def)
  ultimately show *: "unat (lsn + of_nat n - 1) = unat lsn + n - 1"
    by (simp add: unat_of_nat)
  show "0 < n \<Longrightarrow> lsn + of_nat n - 1 \<noteq> 0"
    using * assms unat_gt_0 [of lsn] by (auto simp: lsn_room_def)
qed

lemma seg_done_fields:
  assumes "seg_pre cfg c s g"
  shows "ss_visited (seg_done s g) = ss_visited s @ recs_from (lg_first g) (lg_items g)"
    and "ss_lastLsn (seg_done s g) = lg_first g + of_nat (length (lg_items g)) - 1"
    and "ss_status (seg_done s g) = ss_status s" "ss_error (seg_done s g) = ss_error s"
    and "ss_files (seg_done s g) = ss_files s @ [seg_meta g]"
    and "ss_previousSegmentId (seg_done s g) = lg_id g" "ss_segmentIdentity (seg_done s g) = lg_ident g"
proof -
  have lt: "ss_lastLsn s < lg_first g"
    using assms by (simp add: seg_pre_def)
  then have nz: "0 < lg_first g"
    by (metis le_less_trans word_zero_le)
  have end_nz: "lg_items g \<noteq> [] \<Longrightarrow> lg_first g + of_nat (length (lg_items g)) - 1 \<noteq> 0"
    using assms lsn_room_end(2) by (simp add: seg_pre_def)
  show "ss_visited (seg_done s g) = ss_visited s @ recs_from (lg_first g) (lg_items g)"
    "ss_status (seg_done s g) = ss_status s" "ss_error (seg_done s g) = ss_error s"
    "ss_files (seg_done s g) = ss_files s @ [seg_meta g]"
    "ss_previousSegmentId (seg_done s g) = lg_id g" "ss_segmentIdentity (seg_done s g) = lg_ident g"
    by (simp_all add: seg_done_def finish_file_def seg_scanned_def adv_scans_fields open_seg_def Let_def)
  show "ss_lastLsn (seg_done s g) = lg_first g + of_nat (length (lg_items g)) - 1"
    using end_nz pred_max [OF lt] nz
    by (cases "lg_items g = []")
       (simp_all add: seg_done_def finish_file_def seg_scanned_def adv_scans_fields open_seg_def Let_def
         seg_meta_def)
qed

section \<open>Layouts\<close>

definition seg_entry :: "layout_seg \<Rightarrow> wal_path \<times> bytes" where
  "seg_entry g = (SegPath (seg_stem g), seg_bytes g)"

fun scan_layout :: "scan_state \<Rightarrow> layout_seg list \<Rightarrow> scan_state" where
  "scan_layout s [] = s"
| "scan_layout s (g # gs) = scan_layout (seg_done s g) gs"

text \<open>What a layout needs of the scan that reaches it, and what it hands on.\<close>

definition layout_pre :: "wal_config \<Rightarrow> json_codec \<Rightarrow> scan_state \<Rightarrow> u64 \<Rightarrow> layout_seg list \<Rightarrow> bool" where
  "layout_pre cfg c s lsn gs \<longleftrightarrow>
     list_all (seg_ok cfg c) gs \<and> chain lsn (ss_previousSegmentId s) (ss_segmentIdentity s) gs
     \<and> ss_lastLsn s < lsn \<and> unat lsn + length (layout_items gs) < 2 ^ 64"

lemma unat_add_of_nat:
  assumes "unat (lsn :: u64) + n < 2 ^ 64"
  shows "unat (lsn + of_nat n) = unat lsn + n"
proof -
  have "lsn + of_nat n = of_nat (unat lsn + n)"
    by simp
  then show ?thesis
    using assms by (simp add: unat_of_nat del: of_nat_add)
qed

lemma layout_pre_Cons:
  assumes "layout_pre cfg c s lsn (g # gs)"
  shows "seg_pre cfg c s g" "lg_first g = lsn"
    and "layout_pre cfg c (seg_done s g) (lsn + of_nat (length (lg_items g))) gs"
proof -
  let ?n = "length (lg_items g)"
  have room: "unat lsn + ?n < 2 ^ 64"
    using assms by (simp add: layout_pre_def layout_items_def)
  have pos: "0 < lsn"
    using assms by (auto simp: layout_pre_def intro: le_less_trans [OF word_zero_le])
  show first: "lg_first g = lsn"
    using assms by (simp add: layout_pre_def)
  show pre: "seg_pre cfg c s g"
    using assms room pos by (auto simp: layout_pre_def seg_pre_def lsn_room_def)
  have "lsn_room lsn ?n"
    using room pos by (simp add: lsn_room_def)
  then have "lsn + of_nat ?n - 1 < lsn + of_nat ?n"
    using lsn_room_end(1) [of lsn ?n] unat_add_of_nat [OF room] pos unat_gt_0 [of lsn]
    by (simp add: word_less_nat_alt)
  then show "layout_pre cfg c (seg_done s g) (lsn + of_nat ?n) gs"
    using assms seg_done_fields [OF pre] first unat_add_of_nat [OF room]
    by (simp add: layout_pre_def layout_items_def)
qed

lemma scan_files_layout:
  assumes "layout_pre cfg c s lsn gs"
  shows "scan_files cfg c env_ok visit_all (map seg_entry gs @ rest) s
     = scan_files cfg c env_ok visit_all rest (scan_layout s gs)"
  using assms
proof (induction gs arbitrary: s lsn)
  case Nil
  then show ?case by simp
next
  case (Cons g gs)
  note pre = layout_pre_Cons [OF Cons.prems]
  show ?case
    using Cons.IH [OF pre(3)] scan_file_seg_clean [OF pre(1)] by (simp add: seg_entry_def)
qed

lemma recs_from_append:
  "recs_from lsn (xs @ ys) = recs_from lsn xs @ recs_from (lsn + of_nat (length xs)) ys"
  by (induction xs arbitrary: lsn) (simp_all add: algebra_simps)

lemma scan_layout_fields:
  assumes "layout_pre cfg c s lsn gs"
  shows "ss_visited (scan_layout s gs) = ss_visited s @ recs_from lsn (layout_items gs)"
    and "ss_status (scan_layout s gs) = ss_status s" "ss_error (scan_layout s gs) = ss_error s"
    and "ss_files (scan_layout s gs) = ss_files s @ map seg_meta gs"
    and "gs \<noteq> [] \<Longrightarrow> ss_lastLsn (scan_layout s gs) = lsn + of_nat (length (layout_items gs)) - 1"
    and "ss_lastLsn (scan_layout s gs) < lsn + of_nat (length (layout_items gs))"
    and "ss_previousSegmentId (scan_layout s gs)
           = (if gs = [] then ss_previousSegmentId s else lg_id (last gs))"
    and "ss_segmentIdentity (scan_layout s gs)
           = (if gs = [] then ss_segmentIdentity s else lg_ident (last gs))"
proof -
  have "ss_visited (scan_layout s gs) = ss_visited s @ recs_from lsn (layout_items gs)
     \<and> ss_status (scan_layout s gs) = ss_status s \<and> ss_error (scan_layout s gs) = ss_error s
     \<and> ss_files (scan_layout s gs) = ss_files s @ map seg_meta gs
     \<and> (gs \<noteq> [] \<longrightarrow> ss_lastLsn (scan_layout s gs) = lsn + of_nat (length (layout_items gs)) - 1)
     \<and> ss_previousSegmentId (scan_layout s gs)
           = (if gs = [] then ss_previousSegmentId s else lg_id (last gs))
     \<and> ss_segmentIdentity (scan_layout s gs)
           = (if gs = [] then ss_segmentIdentity s else lg_ident (last gs))"
    using assms
  proof (induction gs arbitrary: s lsn)
    case Nil
    then show ?case by (simp add: layout_items_def layout_pre_def)
  next
    case (Cons g gs)
    note pre = layout_pre_Cons [OF Cons.prems]
    show ?case
      using Cons.IH [OF pre(3)] seg_done_fields [OF pre(1)] pre(2)
      by (cases gs) (simp_all add: layout_items_def recs_from_append add.assoc)
  qed
  then show "ss_visited (scan_layout s gs) = ss_visited s @ recs_from lsn (layout_items gs)"
    "ss_status (scan_layout s gs) = ss_status s" "ss_error (scan_layout s gs) = ss_error s"
    "ss_files (scan_layout s gs) = ss_files s @ map seg_meta gs"
    and last: "gs \<noteq> [] \<Longrightarrow> ss_lastLsn (scan_layout s gs) = lsn + of_nat (length (layout_items gs)) - 1"
    and "ss_previousSegmentId (scan_layout s gs)
           = (if gs = [] then ss_previousSegmentId s else lg_id (last gs))"
    "ss_segmentIdentity (scan_layout s gs)
           = (if gs = [] then ss_segmentIdentity s else lg_ident (last gs))"
    by auto
  have room: "lsn_room lsn (length (layout_items gs))" "unat lsn + length (layout_items gs) < 2 ^ 64"
    using assms by (auto simp: layout_pre_def lsn_room_def intro: le_less_trans [OF word_zero_le])
  have "lsn + of_nat (length (layout_items gs)) - 1 < lsn + of_nat (length (layout_items gs))"
    using lsn_room_end(1) [OF room(1)] unat_add_of_nat [OF room(2)] room(1) unat_gt_0 [of lsn]
    by (simp add: word_less_nat_alt lsn_room_def)
  then show "ss_lastLsn (scan_layout s gs) < lsn + of_nat (length (layout_items gs))"
    using assms last by (cases "gs = []") (simp_all add: layout_pre_def layout_items_def)
qed

end
