(* ===== verification/Wal_Recovery.thy ===== *)
theory Wal_Recovery
  imports Wal_Layout
begin

text \<open>
  Opening a log: \<open>initializeLogicalWal\<close> on a layout reads its cursor, and on a layout whose last write was
  cut short it truncates the torn tail and leaves exactly the complete records.
\<close>

section \<open>Layouts as files\<close>

definition layout_fs :: "layout_seg list \<Rightarrow> wal_fs" where
  "layout_fs gs = \<lparr>fs_legacy = None, fs_segments = map seg_file gs\<rparr>"

definition layout_ok :: "wal_config \<Rightarrow> json_codec \<Rightarrow> u64 \<Rightarrow> layout_seg list \<Rightarrow> bool" where
  "layout_ok cfg c lsn gs \<longleftrightarrow> layout_pre cfg c scan_init lsn gs \<and> (gs = [] \<longrightarrow> lsn = 1)"

definition layout_next :: "u64 \<Rightarrow> layout_seg list \<Rightarrow> u64" where
  "layout_next lsn gs = lsn + of_nat (length (layout_items gs))"

lemma append_less_append:
  fixes xs ys :: "char list"
  assumes "length xs = length ys" "xs < ys"
  shows "xs @ zs < ys @ zs"
  using assms by (induction xs ys rule: list_induct2) (auto simp: less_list_code)

lemma chain_ids: "chain lsn prev ident gs \<Longrightarrow> sorted_wrt (<) (prev # map lg_id gs)"
  by (induction gs arbitrary: lsn prev ident) (fastforce)+

definition stem_file :: "u64 \<times> bytes \<Rightarrow> string \<times> bytes" where
  "stem_file x = (segment_stem (fst x), snd x)"

lemma sorted_stems:
  assumes "sorted_wrt (<) (map fst xs)"
  shows "sorted_wrt (<) (map (\<lambda>(stem, _). stem @ ''.wal'') (map stem_file xs))"
  using assms
  by (induction xs)
     (auto simp: stem_file_def segment_stem_less segment_stem_def pad_dec_less
       intro!: append_less_append segment_stem_less [THEN iffD2, unfolded segment_stem_def])

lemma sortedSegmentFiles_ids:
  assumes "sorted_wrt (<) (map fst xs)"
  shows "sortedSegmentFiles \<lparr>fs_legacy = l, fs_segments = map stem_file xs\<rparr> = map stem_file xs"
proof -
  have "sorted (map (\<lambda>(stem, _). stem @ ''.wal'') (map stem_file xs))"
    using sorted_stems [OF assms] by (simp only: strict_sorted_imp_sorted)
  then show ?thesis
    unfolding sortedSegmentFiles_def by (simp only: wal_fs.simps sort_key_id_if_sorted)
qed

lemma scan_ids:
  assumes "sorted_wrt (<) (map fst xs)"
  shows "scanWalFiles cfg c env_ok visit_all \<lparr>fs_legacy = None, fs_segments = map stem_file xs\<rparr>
     = scan_files cfg c env_ok visit_all (map (\<lambda>x. (SegPath (segment_stem (fst x)), snd x)) xs) scan_init"
  using sortedSegmentFiles_ids [OF assms]
  by (simp add: scanWalFiles_def env_ok_def physical_files_def stem_file_def o_def)

definition seg_pair :: "layout_seg \<Rightarrow> u64 \<times> bytes" where
  "seg_pair g = (lg_id g, seg_bytes g)"

lemma seg_pair_simps [simp]:
  "fst (seg_pair g) = lg_id g" "snd (seg_pair g) = seg_bytes g" "fst \<circ> seg_pair = lg_id"
  by (auto simp: seg_pair_def)

lemma map_seg_file: "map seg_file gs = map stem_file (map seg_pair gs)"
  by (simp add: seg_file_def stem_file_def seg_stem_def)

lemma entry_of_pair: "(\<lambda>x. (SegPath (segment_stem (fst x)), snd x)) \<circ> seg_pair = seg_entry"
  by (auto simp: seg_entry_def seg_stem_def fun_eq_iff)

lemma scan_init_fields [simp]:
  "ss_status scan_init = OK" "ss_lastLsn scan_init = 0" "ss_files scan_init = []"
  "ss_visited scan_init = []" "ss_previousSegmentId scan_init = 0" "ss_segmentIdentity scan_init = 0"
  by (simp_all add: scan_init_def)

lemma map_seg_entry:
  "map (\<lambda>x. (SegPath (segment_stem (fst x)), snd x)) (map seg_pair gs) = map seg_entry gs"
  by (simp add: seg_entry_def seg_stem_def)

lemma scan_layout_fs:
  assumes "layout_ok cfg c lsn gs"
  shows "scanWalFiles cfg c env_ok visit_all (layout_fs gs) = scan_layout scan_init gs"
proof -
  have pre: "layout_pre cfg c scan_init lsn gs"
    using assms by (simp add: layout_ok_def)
  have "sorted_wrt (<) (map fst (map seg_pair gs))"
    using pre chain_ids by (fastforce simp: layout_pre_def)
  then show ?thesis
    using scan_files_layout [OF pre, of "[]"]
    by (simp only: layout_fs_def map_seg_file scan_ids map_seg_entry append_Nil2 scan_files.simps)
qed

lemma layout_okD: "layout_ok cfg c lsn gs \<Longrightarrow> layout_pre cfg c scan_init lsn gs"
  by (simp add: layout_ok_def)

lemma layout_items_simps [simp]:
  "layout_items [] = []" "layout_items (gs @ hs) = layout_items gs @ layout_items hs"
  "layout_items (g # gs) = lg_items g @ layout_items gs"
  by (simp_all add: layout_items_def)

lemma chain_snoc:
  "chain lsn prev ident (gs @ [g]) \<longleftrightarrow>
     chain lsn prev ident gs \<and> (\<forall>h\<in>set gs. lg_items h \<noteq> [])
     \<and> lg_first g = layout_next lsn gs
     \<and> (if gs = [] then prev else lg_id (last gs)) < lg_id g \<and> lg_id g \<le> lg_first g
     \<and> ((if gs = [] then ident else lg_ident (last gs)) = 0
          \<or> lg_ident g = (if gs = [] then ident else lg_ident (last gs)))"
  by (induction gs arbitrary: lsn prev ident) (auto simp: layout_next_def add.assoc)

lemma layout_pre_snocD:
  assumes "layout_pre cfg c s lsn (gs @ [g])"
  shows "layout_pre cfg c s lsn gs" "seg_pre cfg c (scan_layout s gs) g"
proof -
  show pre: "layout_pre cfg c s lsn gs"
    using assms by (simp add: layout_pre_def chain_snoc)
  have room: "unat (layout_next lsn gs) + length (lg_items g) < 2 ^ 64"
    using assms by (simp add: layout_pre_def layout_next_def unat_add_of_nat)
  show "seg_pre cfg c (scan_layout s gs) g"
    using assms room scan_layout_fields(6-8) [OF pre]
    by (auto simp: layout_pre_def chain_snoc seg_pre_def lsn_room_def layout_next_def
        intro: le_less_trans [OF word_zero_le])
qed

lemma chain_ids_snoc:
  assumes "layout_ok cfg c lsn (gs @ [g])"
  shows "\<forall>h\<in>set gs. lg_id h < lg_id g"
  using chain_ids [of lsn 0 0 "gs @ [g]"] assms by (auto simp: layout_ok_def layout_pre_def sorted_wrt_append)

section \<open>Torn tails\<close>

text \<open>The last write of a crash: a frame cut inside the newest segment, or a segment whose header is cut.\<close>

lemma scan_torn_frame:
  assumes ok: "layout_ok cfg c lsn (gs @ [g])" and it: "item_ok cfg c it"
    and k: "0 < k" "k < length (frame_of it l)"
  shows "\<exists>e. scanWalFiles cfg c env_ok visit_all
       \<lparr>fs_legacy = None, fs_segments = map seg_file gs @ [(seg_stem g, seg_bytes g @ take k (frame_of it l))]\<rparr>
     = setFileScanFailure (seg_scanned (scan_layout scan_init gs) g) (seg_meta g) PARTIAL_TAIL e"
proof -
  let ?f = "take k (frame_of it l)"
  note pre = layout_pre_snocD(1) [OF layout_okD [OF ok]] and g = layout_pre_snocD(2) [OF layout_okD [OF ok]]
  obtain k' where k': "k = Suc k'" "k' < length (frame_tail it l)"
    using k by (cases k) (auto simp: frame_of_def)
  have "sorted_wrt (<) (map fst (map seg_pair gs @ [(lg_id g, seg_bytes g @ ?f)]))"
    using ok chain_ids [of lsn _ _ "gs @ [g]"] by (auto simp: layout_ok_def layout_pre_def)
  from scan_ids [OF this]
  have "scanWalFiles cfg c env_ok visit_all
       \<lparr>fs_legacy = None, fs_segments = map seg_file gs @ [(seg_stem g, seg_bytes g @ ?f)]\<rparr>
     = scan_files cfg c env_ok visit_all (map seg_entry gs @ [(SegPath (seg_stem g), seg_bytes g @ ?f)]) scan_init"
    by (simp add: map_seg_file stem_file_def seg_stem_def entry_of_pair)
  moreover obtain e where "scan_frame cfg c visit_all False True (length (seg_bytes g)) (op_code (p_op (fst it)))
      (take k' (frame_tail it l)) (seg_scanned (scan_layout scan_init gs) g) (seg_meta g) (lg_items g = [])
    = Inl (setFileScanFailure (seg_scanned (scan_layout scan_init gs) g) (seg_meta g) PARTIAL_TAIL e)"
    using scan_frame_torn [OF it k'(2), of visit_all False True "length (seg_bytes g)"
        "seg_scanned (scan_layout scan_init gs) g" "seg_meta g" "lg_items g = []"]
    by (auto simp: tail_status_def)
  ultimately show ?thesis
    using scan_files_layout [OF pre] scan_file_seg [OF g, of True ?f]
    by (auto simp: k'(1) frame_of_def scan_frames.simps)
qed

lemma scan_torn_header:
  assumes ok: "layout_ok cfg c lsn gs" and id: "\<forall>g\<in>set gs. lg_id g < i" and k: "length bs < kSegmentHeaderBytes"
  shows "\<exists>e. scanWalFiles cfg c env_ok visit_all
       \<lparr>fs_legacy = None, fs_segments = map seg_file gs @ [(segment_stem i, bs)]\<rparr>
     = setFileScanFailure (scan_layout scan_init gs) (new_meta (SegPath (segment_stem i))) PARTIAL_TAIL e"
proof -
  note pre = layout_okD [OF ok]
  have "sorted_wrt (<) (map fst (map seg_pair gs @ [(i, bs)]))"
    using pre chain_ids [of lsn _ _ gs] id by (auto simp: layout_pre_def sorted_wrt_append)
  from scan_ids [OF this]
  have "scanWalFiles cfg c env_ok visit_all
       \<lparr>fs_legacy = None, fs_segments = map seg_file gs @ [(segment_stem i, bs)]\<rparr>
     = scan_files cfg c env_ok visit_all (map seg_entry gs @ [(SegPath (segment_stem i), bs)]) scan_init"
    by (simp add: map_seg_file stem_file_def seg_stem_def entry_of_pair)
  then show ?thesis
    using scan_files_layout [OF pre] k
    by (auto simp: scan_file_def scan_segment_header_def env_ok_def tail_status_def new_meta_def)
qed

section \<open>Opening\<close>

text \<open>The cursor of a writer at the end of a layout.\<close>

definition cursor_ok :: "u64 \<Rightarrow> layout_seg list \<Rightarrow> u64 \<Rightarrow> u64 \<Rightarrow> nat \<Rightarrow> u64 \<Rightarrow> bool" where
  "cursor_ok lsn gs next seg used ident \<longleftrightarrow>
     next = layout_next lsn gs
     \<and> (if gs = [] then seg = 0 \<and> used = 0
        else seg = lg_id (last gs) \<and> used = length (seg_bytes (last gs))
             \<and> (lg_ident (last gs) = 0 \<or> ident = lg_ident (last gs)))"

definition wal_rep :: "wal_config \<Rightarrow> json_codec \<Rightarrow> u64 \<Rightarrow> layout_seg list \<Rightarrow> wal_fs \<Rightarrow> wal_state \<Rightarrow> bool" where
  "wal_rep cfg c lsn gs fs st \<longleftrightarrow>
     layout_ok cfg c lsn gs \<and> fs = layout_fs gs \<and> ws_initialized st \<and> \<not> ws_poisoned st \<and> \<not> ws_clearing st
     \<and> cursor_ok lsn gs (ws_nextLsn st) (ws_activeSegment st) (ws_activeBytes st) (ws_identity st)"

lemma activate_frame [simp]:
  "ws_nextLsn (activate st m) = ws_nextLsn st" "ws_poisoned (activate st m) = ws_poisoned st"
  "ws_clearing (activate st m) = ws_clearing st" "ws_admission (activate st m) = ws_admission st"
  by (simp_all add: activate_def)

lemma foldl_activate_frame [simp]:
  "ws_nextLsn (foldl activate st ms) = ws_nextLsn st"
  "ws_poisoned (foldl activate st ms) = ws_poisoned st"
  "ws_clearing (foldl activate st ms) = ws_clearing st"
  "ws_admission (foldl activate st ms) = ws_admission st"
  by (induction ms arbitrary: st) simp_all

lemma foldl_activate_le:
  assumes "ws_activeSegment st \<le> i" "\<forall>g\<in>set gs. lg_id g \<le> i"
  shows "ws_activeSegment (foldl activate st (map seg_meta gs)) \<le> i"
  using assms by (induction gs arbitrary: st) (simp_all add: activate_def seg_meta_def)

lemma foldl_activate_last:
  assumes "ws_activeSegment st \<le> lg_id g" "\<forall>h\<in>set gs. lg_id h \<le> lg_id g"
  shows "ws_activeSegment (foldl activate st (map seg_meta (gs @ [g]))) = lg_id g"
    "ws_activeBytes (foldl activate st (map seg_meta (gs @ [g]))) = length (seg_bytes g)"
    "ws_identity (foldl activate st (map seg_meta (gs @ [g]))) = lg_ident g"
  using foldl_activate_le [OF assms] by (simp_all add: activate_def seg_meta_def)

text \<open>What a (re)opened log may still have in memory: a segment number that is not ahead of the files.\<close>

definition reopenable :: "layout_seg list \<Rightarrow> wal_state \<Rightarrow> bool" where
  "reopenable gs st \<longleftrightarrow> \<not> ws_poisoned st \<and> \<not> ws_clearing st
     \<and> (if gs = [] then ws_activeSegment st = 0 \<and> ws_activeBytes st = 0
        else ws_activeSegment st \<le> lg_id (last gs))"

lemma opened_rep:
  assumes ok: "layout_ok cfg c lsn gs" and st: "reopenable gs st"
  shows "wal_rep cfg c lsn gs (layout_fs gs)
     ((foldl activate (st\<lparr>ws_nextLsn := ss_lastLsn (scan_layout scan_init gs) + 1\<rparr>)
         (ss_files (scan_layout scan_init gs)))\<lparr>ws_initialized := True\<rparr>)"
proof (cases gs rule: rev_cases)
  case Nil
  then show ?thesis
    using ok st by (auto simp: wal_rep_def cursor_ok_def reopenable_def layout_ok_def layout_next_def)
next
  case (snoc hs g)
  note f = scan_layout_fields [OF layout_okD [OF ok]]
  have "\<forall>h\<in>set hs. lg_id h \<le> lg_id g"
    using chain_ids_snoc [of cfg c lsn hs g] ok by (auto simp: snoc intro: less_imp_le)
  then show ?thesis
    using ok st f(4,5) foldl_activate_last [of "st\<lparr>ws_nextLsn := layout_next lsn gs\<rparr>" g hs]
    by (simp add: wal_rep_def cursor_ok_def reopenable_def snoc layout_next_def)
qed

definition recovers :: "wal_config \<Rightarrow> json_codec \<Rightarrow> u64 \<Rightarrow> wal_fs \<Rightarrow> wal_state \<Rightarrow> item list \<Rightarrow> bool" where
  "recovers cfg c lsn fs st its \<longleftrightarrow>
     (\<exists>gs st'. initializeLogicalWal cfg c env_ok io_good fs st = (layout_fs gs, Inr st')
        \<and> wal_rep cfg c lsn gs (layout_fs gs) st' \<and> layout_items gs = its)"

lemma recovers_clean:
  assumes "layout_ok cfg c lsn gs" "reopenable gs st" "\<not> ws_initialized st"
  shows "recovers cfg c lsn (layout_fs gs) st (layout_items gs)"
  using opened_rep [OF assms(1,2)] scan_layout_fields(2) [OF layout_okD [OF assms(1)]] assms(3)
  unfolding recovers_def initializeLogicalWal_def scan_layout_fs [OF assms(1)]
  by (intro exI [of _ gs]) (simp add: Let_def)

lemma recovers_torn:
  assumes ok: "layout_ok cfg c lsn gs" and st: "reopenable gs st" "\<not> ws_initialized st"
    and scan: "scanWalFiles cfg c env_ok visit_all fs = setFileScanFailure s m PARTIAL_TAIL e"
    and cut: "truncate_tail m fs = layout_fs gs"
  shows "recovers cfg c lsn fs st (layout_items gs)"
proof -
  have "initializeLogicalWal cfg c env_ok io_good fs st = initializeLogicalWal cfg c env_ok io_good (layout_fs gs) st"
    using st(2) cut scan_layout_fields(2) [OF layout_okD [OF ok]]
    unfolding initializeLogicalWal_def scan
    by (simp add: setFileScanFailure_def setScanFailure_def io_good_def Let_def scan_layout_fs [OF ok])
  then show ?thesis
    using recovers_clean [OF ok st] by (simp add: recovers_def)
qed

lemma truncate_torn_frame:
  assumes "\<forall>h\<in>set gs. lg_id h \<noteq> lg_id g"
  shows "truncate_tail (seg_meta g)
      \<lparr>fs_legacy = None, fs_segments = map seg_file gs @ [(seg_stem g, seg_bytes g @ r)]\<rparr> = layout_fs (gs @ [g])"
  using assms
  by (auto simp: truncate_tail_def seg_meta_def layout_fs_def seg_file_def seg_stem_def seg_bytes_def
      kSegmentHeaderBytes_def)

lemma truncate_torn_header:
  assumes "\<forall>h\<in>set gs. lg_id h \<noteq> i"
  shows "truncate_tail (new_meta (SegPath (segment_stem i)))
      \<lparr>fs_legacy = None, fs_segments = map seg_file gs @ [(segment_stem i, r)]\<rparr> = layout_fs gs"
  using assms
  by (auto simp: truncate_tail_def new_meta_def layout_fs_def seg_file_def seg_stem_def filter_id_conv)

lemma recovers_torn_frame:
  assumes ok: "layout_ok cfg c lsn (gs @ [g])" and st: "reopenable (gs @ [g]) st" "\<not> ws_initialized st"
    and it: "item_ok cfg c it" and k: "k < length (frame_of it l)"
  shows "recovers cfg c lsn
     \<lparr>fs_legacy = None, fs_segments = map seg_file gs @ [(seg_stem g, seg_bytes g @ take k (frame_of it l))]\<rparr>
     st (layout_items (gs @ [g]))"
proof (cases "k = 0")
  case True
  then show ?thesis
    using recovers_clean [OF ok st] by (simp add: layout_fs_def seg_file_def)
next
  case False
  have "\<forall>h\<in>set gs. lg_id h \<noteq> lg_id g"
    using chain_ids_snoc [OF ok] by auto
  then show ?thesis
    using recovers_torn [OF ok st _ truncate_torn_frame] scan_torn_frame [OF ok it _ k] False
    by (metis neq0_conv)
qed

lemma recovers_torn_header:
  assumes ok: "layout_ok cfg c lsn gs" and st: "reopenable gs st" "\<not> ws_initialized st"
    and id: "\<forall>h\<in>set gs. lg_id h < i" and k: "length bs < kSegmentHeaderBytes"
  shows "recovers cfg c lsn \<lparr>fs_legacy = None, fs_segments = map seg_file gs @ [(segment_stem i, bs)]\<rparr> st
     (layout_items gs)"
proof -
  have "\<forall>h\<in>set gs. lg_id h \<noteq> i"
    using id by auto
  then show ?thesis
    using recovers_torn [OF ok st _ truncate_torn_header] scan_torn_header [OF ok id k] by metis
qed

end
