(* ===== verification/Wal_Append.thy ===== *)
theory Wal_Append
  imports Wal_Recovery
begin

text \<open>
  What an append does to a layout: each planned entry extends it by one item, in the newest segment or
  in a fresh one, and a write cut at any byte recovers to the items written completely.
\<close>

section \<open>Appending to files\<close>

lemma enc_items_append:
  "enc_items lsn (xs @ ys) = enc_items lsn xs @ enc_items (lsn + of_nat (length xs)) ys"
  by (induction xs arbitrary: lsn) (simp_all add: add.assoc add.commute)

lemma seg_append_new:
  "\<forall>x\<in>set xs. fst x \<noteq> stem \<Longrightarrow> seg_append stem bs xs = xs @ [(stem, bs)]"
  by (induction xs) auto

lemma seg_append_last:
  "\<forall>x\<in>set xs. fst x \<noteq> stem \<Longrightarrow> seg_append stem bs (xs @ [(stem, b)]) = xs @ [(stem, b @ bs)]"
  by (induction xs) auto

lemma seg_append_append: "seg_append stem b2 (seg_append stem b1 xs) = seg_append stem (b1 @ b2) xs"
  by (induction xs) auto

lemma fs_append_append: "fs_append i b2 (fs_append i b1 fs) = fs_append i (b1 @ b2) fs"
  by (simp add: fs_append_def seg_append_append)

lemma fs_append_new:
  assumes "\<forall>g\<in>set gs. lg_id g \<noteq> i"
  shows "fs_append i bs (layout_fs gs) = \<lparr>fs_legacy = None, fs_segments = map seg_file gs @ [(segment_stem i, bs)]\<rparr>"
proof -
  have "\<forall>x\<in>set (map seg_file gs). fst x \<noteq> segment_stem i"
    using assms by (auto simp: seg_file_def seg_stem_def)
  then show ?thesis
    unfolding fs_append_def layout_fs_def by (simp add: seg_append_new)
qed

lemma fs_append_last:
  assumes "\<forall>h\<in>set gs. lg_id h \<noteq> lg_id g"
  shows "fs_append (lg_id g) bs (layout_fs (gs @ [g]))
     = \<lparr>fs_legacy = None, fs_segments = map seg_file gs @ [(seg_stem g, seg_bytes g @ bs)]\<rparr>"
proof -
  have "\<forall>x\<in>set (map seg_file gs). fst x \<noteq> seg_stem g"
    using assms by (auto simp: seg_file_def seg_stem_def)
  then show ?thesis
    unfolding fs_append_def layout_fs_def
    by (simp add: seg_append_last seg_file_def seg_stem_def flip: seg_stem_def)
qed

section \<open>One planned entry\<close>

definition fresh :: "wal_state \<Rightarrow> bool" where
  "fresh st \<longleftrightarrow> \<not> ws_initialized st \<and> \<not> ws_poisoned st \<and> \<not> ws_clearing st
     \<and> ws_activeSegment st = 0 \<and> ws_activeBytes st = 0"

lemma fresh_reopenable: "fresh st \<Longrightarrow> reopenable gs st" "fresh st \<Longrightarrow> \<not> ws_initialized st"
  by (simp_all add: fresh_def reopenable_def)

definition recoverable :: "wal_config \<Rightarrow> json_codec \<Rightarrow> u64 \<Rightarrow> wal_fs \<Rightarrow> item list \<Rightarrow> bool" where
  "recoverable cfg c lsn fs its \<longleftrightarrow> (\<forall>s. fresh s \<longrightarrow> recovers cfg c lsn fs s its)"

lemma recoverable_clean: "layout_ok cfg c lsn gs \<Longrightarrow> recoverable cfg c lsn (layout_fs gs) (layout_items gs)"
  using recovers_clean fresh_reopenable by (simp add: recoverable_def)

abbreviation plan_cursor :: "u64 \<Rightarrow> layout_seg list \<Rightarrow> append_plan \<Rightarrow> bool" where
  "plan_cursor lsn gs pl \<equiv> cursor_ok lsn gs (ap_nextLsn pl) (ap_segment pl) (ap_bytes pl) (ap_identity pl)"

text \<open>One write: complete, it turns one layout into another; cut short, it recovers to the first.\<close>

definition layout_step ::
    "wal_config \<Rightarrow> json_codec \<Rightarrow> u64 \<Rightarrow> layout_seg list \<Rightarrow> u64 \<times> bytes \<Rightarrow> layout_seg list \<Rightarrow> item \<Rightarrow> bool" where
  "layout_step cfg c lsn gs m gs' it \<longleftrightarrow>
     layout_ok cfg c lsn gs' \<and> layout_items gs' = layout_items gs @ [it]
     \<and> fs_append (fst m) (snd m) (layout_fs gs) = layout_fs gs'
     \<and> (\<forall>k<length (snd m). recoverable cfg c lsn (fs_append (fst m) (take k (snd m)) (layout_fs gs)) (layout_items gs))"

lemma seg_bytes_snoc:
  "seg_bytes (g\<lparr>lg_items := lg_items g @ [it]\<rparr>)
     = seg_bytes g @ frame_of it (lg_first g + of_nat (length (lg_items g)))"
  by (simp add: seg_bytes_def enc_items_append)

lemma layout_ok_new_seg:
  assumes ok: "layout_ok cfg c lsn gs" and ne: "\<forall>h\<in>set gs. lg_items h \<noteq> []"
    and g: "lg_first g = layout_next lsn gs" "seg_ok cfg c g"
    and id: "\<forall>h\<in>set gs. lg_id h < lg_id g" "lg_id g \<le> layout_next lsn gs"
    and ident: "gs = [] \<or> lg_ident (last gs) = 0 \<or> lg_ident g = lg_ident (last gs)"
    and room: "unat lsn + length (layout_items gs) + length (lg_items g) < 2 ^ 64"
  shows "layout_ok cfg c lsn (gs @ [g])"
proof -
  have "0 < lg_id g"
    using g(2) by (simp add: seg_ok_def word_gt_0)
  then show ?thesis
    using assms by (auto simp: layout_ok_def layout_pre_def chain_snoc)
qed

lemma layout_step_new:
  assumes ok: "layout_ok cfg c lsn gs" and ne: "\<forall>h\<in>set gs. lg_items h \<noteq> []"
    and it: "item_ok cfg c it" and fits: "identity_fits ident it"
    and i: "i \<noteq> 0" "\<forall>h\<in>set gs. lg_id h < i" "i \<le> layout_next lsn gs"
    and ident: "gs = [] \<or> lg_ident (last gs) = 0 \<or> ident = lg_ident (last gs)"
    and room: "unat lsn + length (layout_items gs) + 1 < 2 ^ 64"
  shows "layout_step cfg c lsn gs
     (i, segmentHeader i (layout_next lsn gs) ident @ frame_of it (layout_next lsn gs))
     (gs @ [\<lparr>lg_id = i, lg_first = layout_next lsn gs, lg_ident = ident, lg_items = [it]\<rparr>]) it"
proof -
  let ?l = "layout_next lsn gs"
  let ?g = "\<lparr>lg_id = i, lg_first = ?l, lg_ident = ident, lg_items = [it]\<rparr>"
  let ?e = "\<lparr>lg_id = i, lg_first = ?l, lg_ident = ident, lg_items = []\<rparr>"
  let ?bs = "segmentHeader i ?l ident @ frame_of it ?l"
  have idne: "\<forall>h\<in>set gs. lg_id h \<noteq> i"
    using i by auto
  have okg: "layout_ok cfg c lsn (gs @ [?g])"
    by (rule layout_ok_new_seg [OF ok ne]) (use it fits i ident room in \<open>auto simp: seg_ok_def\<close>)
  have oke: "layout_ok cfg c lsn (gs @ [?e])"
    by (rule layout_ok_new_seg [OF ok ne]) (use i ident room in \<open>auto simp: seg_ok_def\<close>)
  have torn: "recovers cfg c lsn (fs_append i (take k ?bs) (layout_fs gs)) st (layout_items gs)"
    if k: "k < length ?bs" and st: "fresh st" for k st
  proof (cases "k < kSegmentHeaderBytes")
    case True
    then show ?thesis
      using recovers_torn_header [OF ok fresh_reopenable [OF st] i(2)] unfolding fs_append_new [OF idne] by simp
  next
    case False
    have "k - kSegmentHeaderBytes < length (frame_of it ?l)"
      using k False by simp
    from recovers_torn_frame [OF oke fresh_reopenable [OF st] it this]
    show ?thesis
      using False unfolding fs_append_new [OF idne] by (simp add: seg_stem_def seg_bytes_def)
  qed
  then have torn': "\<forall>k<length ?bs. recoverable cfg c lsn (fs_append i (take k ?bs) (layout_fs gs)) (layout_items gs)"
    by (simp add: recoverable_def)
  show ?thesis
    using okg torn' unfolding layout_step_def fst_conv snd_conv fs_append_new [OF idne]
    by (simp add: layout_fs_def seg_file_def seg_stem_def seg_bytes_def)
qed

lemma layout_step_same:
  assumes ok: "layout_ok cfg c lsn (gs @ [g])" and it: "item_ok cfg c it"
    and fits: "identity_fits (lg_ident g) it"
    and room: "unat lsn + length (layout_items (gs @ [g])) + 1 < 2 ^ 64"
  shows "layout_step cfg c lsn (gs @ [g]) (lg_id g, frame_of it (layout_next lsn (gs @ [g])))
     (gs @ [g\<lparr>lg_items := lg_items g @ [it]\<rparr>]) it"
proof -
  let ?l = "layout_next lsn (gs @ [g])" and ?g = "g\<lparr>lg_items := lg_items g @ [it]\<rparr>"
  have l: "lg_first g + of_nat (length (lg_items g)) = ?l"
    using ok by (simp add: layout_ok_def layout_pre_def chain_snoc layout_next_def algebra_simps)
  have idne: "\<forall>h\<in>set gs. lg_id h \<noteq> lg_id g"
    using chain_ids_snoc [OF ok] by auto
  have okg: "layout_ok cfg c lsn (gs @ [?g])"
    using ok it fits room by (auto simp: layout_ok_def layout_pre_def chain_snoc seg_ok_def)
  have "recovers cfg c lsn (fs_append (lg_id g) (take k (frame_of it ?l)) (layout_fs (gs @ [g]))) st
      (layout_items (gs @ [g]))" if "k < length (frame_of it ?l)" "fresh st" for k st
    using recovers_torn_frame [OF ok fresh_reopenable [OF that(2)] it that(1)] unfolding fs_append_last [OF idne] .
  moreover have "fs_append (lg_id g) (frame_of it ?l) (layout_fs (gs @ [g])) = layout_fs (gs @ [?g])"
    unfolding fs_append_last [OF idne] l [symmetric] seg_bytes_snoc [symmetric]
    by (simp add: layout_fs_def seg_file_def seg_stem_def)
  ultimately show ?thesis
    using okg by (simp add: layout_step_def recoverable_def)
qed

lemma layout_items_nonempty:
  assumes "layout_ok cfg c lsn (gs @ [g])" "lg_items g \<noteq> []"
  shows "\<forall>h\<in>set (gs @ [g]). lg_items h \<noteq> []"
  using assms by (auto simp: layout_ok_def layout_pre_def chain_snoc)

lemma seg_lt_next:
  assumes ok: "layout_ok cfg c lsn (gs @ [g])" and ne: "lg_items g \<noteq> []"
  shows "lg_first g < layout_next lsn (gs @ [g])"
proof -
  have "unat (lg_first g) = unat lsn + length (layout_items gs)"
    using ok by (simp add: layout_ok_def layout_pre_def chain_snoc layout_next_def unat_add_of_nat)
  moreover have "unat (layout_next lsn (gs @ [g])) = unat lsn + length (layout_items (gs @ [g]))"
    using ok unfolding layout_next_def
    by (intro unat_add_of_nat) (simp add: layout_ok_def layout_pre_def)
  ultimately show ?thesis
    using ne by (simp add: word_less_nat_alt)
qed

lemma word_Suc_le:
  assumes "i < (j :: u64)"
  shows "i < i + 1" "i + 1 \<le> j" "i + 1 \<noteq> 0"
proof -
  have "unat i + 1 < 2 ^ 64"
    using assms unat_u64_lt [of j] by (simp add: word_less_nat_alt)
  then have "unat (i + 1) = unat i + 1"
    using unat_add_of_nat [of i 1] by simp
  then show "i < i + 1" "i + 1 \<le> j" "i + 1 \<noteq> 0"
    using assms by (auto simp: word_less_nat_alt word_le_nat_alt dest: arg_cong [of _ 0 unat])
qed

lemma rotate_facts:
  assumes ok: "layout_ok cfg c lsn gs" and cur: "plan_cursor lsn gs pl"
    and rot: "ap_segment pl = 0 \<or> (kSegmentHeaderBytes < ap_bytes pl \<and> X)"
  shows "\<forall>h\<in>set gs. lg_items h \<noteq> []"
    and "ap_segment pl < layout_next lsn gs" "\<forall>h\<in>set gs. lg_id h \<le> ap_segment pl"
    and "gs = [] \<or> lg_ident (last gs) = 0 \<or> (ap_identity pl = lg_ident (last gs) \<and> ap_identity pl \<noteq> 0)"
proof -
  have "(\<forall>h\<in>set gs. lg_items h \<noteq> []) \<and> (\<forall>h\<in>set gs. lg_id h \<le> ap_segment pl) \<and> ap_segment pl < layout_next lsn gs
    \<and> (gs = [] \<or> lg_ident (last gs) = 0 \<or> (ap_identity pl = lg_ident (last gs) \<and> ap_identity pl \<noteq> 0))"
  proof (cases gs rule: rev_cases)
    case (snoc hs g)
    have seg: "ap_segment pl = lg_id g" "ap_bytes pl = length (seg_bytes g)" "lg_id g \<noteq> 0"
      using cur ok by (auto simp: snoc cursor_ok_def layout_ok_def layout_pre_def seg_ok_def)
    then have ne: "lg_items g \<noteq> []"
      using rot by (auto simp: seg_bytes_def)
    then have "lg_first g < layout_next lsn gs"
      using seg_lt_next [of cfg c lsn hs g] ok by (simp add: snoc)
    moreover have "lg_id g \<le> lg_first g"
      using ok by (auto simp: snoc layout_ok_def layout_pre_def chain_snoc)
    ultimately show ?thesis
      using layout_items_nonempty [of cfg c lsn hs g] chain_ids_snoc [of cfg c lsn hs g] ok cur seg ne
      by (auto simp: snoc cursor_ok_def intro: less_imp_le)
  next
    case Nil
    then show ?thesis
      using ok cur by (simp add: cursor_ok_def layout_ok_def layout_next_def)
  qed
  then show "\<forall>h\<in>set gs. lg_items h \<noteq> []"
    and "ap_segment pl < layout_next lsn gs" "\<forall>h\<in>set gs. lg_id h \<le> ap_segment pl"
    and "gs = [] \<or> lg_ident (last gs) = 0 \<or> (ap_identity pl = lg_ident (last gs) \<and> ap_identity pl \<noteq> 0)"
    by auto
qed

lemma plan_entry_step:
  assumes ok: "layout_ok cfg c lsn gs" and cur: "plan_cursor lsn gs pl" and it: "item_ok cfg c it"
    and room: "unat lsn + length (layout_items gs) + 1 < 2 ^ 64"
    and plan: "plan_entry cfg pl it = Inr pl'"
  shows "\<exists>m gs'. ap_chunks pl' = add_chunk (fst m) (snd m) (ap_chunks pl) \<and> layout_step cfg c lsn gs m gs' it
     \<and> plan_cursor lsn gs' pl'"
proof -
  define e where "e = item_identity it"
  define ident where "ident = (if ap_identity pl = 0 then e else ap_identity pl)"
  let ?l = "layout_next lsn gs"
  let ?fr = "frame_of it ?l"
  have nxt: "ap_nextLsn pl = ?l"
    using cur by (simp add: cursor_ok_def)
  have guard: "e = 0 \<or> ident = 0 \<or> e = ident" and frame: "framePreparedRecord cfg (snd it) (fst it) ?l = Some ?fr"
    using plan framePreparedRecord_item [OF it, of ?l]
    by (auto simp: plan_entry_def e_def ident_def item_identity_def case_prod_beta nxt Let_def split: if_splits)
  then have fits: "identity_fits ident it"
    by (auto simp: identity_fits_def e_def)
  define rotate where "rotate = (ap_segment pl = 0 \<or> (kSegmentHeaderBytes < ap_bytes pl
      \<and> segmentMaxBytes cfg < ap_bytes pl + length ?fr))"
  have pl': "pl' = \<lparr>ap_nextLsn = ?l + 1, ap_segment = (if rotate then ap_segment pl + 1 else ap_segment pl),
      ap_bytes = (if rotate \<or> ap_bytes pl = 0 then kSegmentHeaderBytes else ap_bytes pl) + length ?fr,
      ap_identity = ident,
      ap_chunks = add_chunk (if rotate then ap_segment pl + 1 else ap_segment pl)
        ((if rotate \<or> ap_bytes pl = 0
          then segmentHeader (if rotate then ap_segment pl + 1 else ap_segment pl) ?l ident else []) @ ?fr)
        (ap_chunks pl)\<rparr>"
    using plan frame
    by (auto simp: plan_entry_def ident_def e_def item_identity_def case_prod_beta nxt rotate_def Let_def
        split: if_splits)
  show ?thesis
  proof (cases rotate)
    case True
    note rot = rotate_facts [OF ok cur True [unfolded rotate_def]]
    note suc = word_Suc_le [OF rot(2)]
    have lt: "\<forall>h\<in>set gs. lg_id h < ap_segment pl + 1"
      using rot(3) suc(1) by auto
    have id: "gs = [] \<or> lg_ident (last gs) = 0 \<or> ident = lg_ident (last gs)"
      using rot(4) by (auto simp: ident_def)
    note step = layout_step_new [OF ok rot(1) it fits suc(3) lt suc(2) id room]
    show ?thesis
      by (rule exI, rule exI, rule conjI [OF _ conjI [OF step]])
         (use True in \<open>auto simp: pl' cursor_ok_def layout_next_def seg_bytes_def algebra_simps\<close>)
  next
    case False
    obtain hs g where gs: "gs = hs @ [g]"
      using False cur by (cases gs rule: rev_cases) (auto simp: rotate_def cursor_ok_def)
    have fits': "identity_fits (lg_ident g) it"
      using guard cur by (auto simp: gs cursor_ok_def identity_fits_def e_def ident_def)
    have used: "ap_bytes pl = length (seg_bytes g)" "ap_bytes pl \<noteq> 0" "ap_segment pl = lg_id g"
      using cur by (auto simp: gs cursor_ok_def seg_bytes_def kSegmentHeaderBytes_def)
    note step = layout_step_same [OF ok [unfolded gs] it fits' room [unfolded gs], folded gs]
    show ?thesis
      by (rule exI, rule exI, rule conjI [OF _ conjI [OF step]])
         (use False used cur in \<open>auto simp: pl' gs cursor_ok_def layout_next_def seg_bytes_snoc ident_def algebra_simps\<close>)
  qed
qed

section \<open>Writing the chunks\<close>

text \<open>The files after the first writes of a list, the last of them possibly cut short.\<close>

inductive partial_write :: "(u64 \<times> bytes) list \<Rightarrow> wal_fs \<Rightarrow> wal_fs \<Rightarrow> bool" where
  none: "partial_write ms fs fs"
| cut: "partial_write ((seg, bs) # ms) fs (fs_append seg (take n bs) fs)"
| one: "partial_write ms (fs_append seg bs fs) fs' \<Longrightarrow> partial_write ((seg, bs) # ms) fs fs'"

inductive_cases partial_write_ConsE: "partial_write (m # ms) fs fs'"
inductive_cases partial_write_NilE [elim!]: "partial_write [] fs fs'"

lemma partial_write_Cons:
  "partial_write ((seg, bs) # ms) fs fs' \<longleftrightarrow>
     fs' = fs \<or> (\<exists>n. fs' = fs_append seg (take n bs) fs) \<or> partial_write ms (fs_append seg bs fs) fs'"
  by (auto elim: partial_write_ConsE intro: partial_write.intros)

definition apply_writes :: "(u64 \<times> bytes) list \<Rightarrow> wal_fs \<Rightarrow> wal_fs" where
  "apply_writes ms fs = foldl (\<lambda>f (seg, bs). fs_append seg bs f) fs ms"

lemma apply_writes_simps [simp]:
  "apply_writes [] fs = fs" "apply_writes ((seg, bs) # ms) fs = apply_writes ms (fs_append seg bs fs)"
  "apply_writes (xs @ ys) fs = apply_writes ys (apply_writes xs fs)"
  by (simp_all add: apply_writes_def)

lemma write_chunks_partial:
  "write_chunks io i chunks fs = (fs', ok) \<Longrightarrow>
     partial_write chunks fs fs' \<and> (ok \<longrightarrow> fs' = apply_writes chunks fs)"
  by (induction io i chunks fs rule: write_chunks.induct)
     (auto intro: partial_write.intros split: write_result.splits)

lemma partial_write_append:
  "partial_write (xs @ ys) fs fs' \<longleftrightarrow> partial_write xs fs fs' \<or> partial_write ys (apply_writes xs fs) fs'"
proof (induction xs arbitrary: fs)
  case Nil
  then show ?case
    by (auto intro: partial_write.none)
next
  case (Cons m xs)
  obtain seg bs where m: "m = (seg, bs)"
    by fastforce
  show ?case
    unfolding m using Cons.IH
    by (auto elim!: partial_write_ConsE intro: partial_write.intros)
qed

lemma partial_write_join:
  assumes "partial_write [(seg, b1 @ b2)] fs fs'"
  shows "partial_write [(seg, b1), (seg, b2)] fs fs'"
proof -
  have "(\<exists>m. fs_append seg (take n (b1 @ b2)) fs = fs_append seg (take m b1) fs)
    \<or> (\<exists>m. fs_append seg (take n (b1 @ b2)) fs = fs_append seg (take m b2) (fs_append seg b1 fs))" for n
    by (cases "n \<le> length b1") (auto simp: fs_append_append)
  moreover have "fs_append seg (b1 @ b2) fs = fs_append seg (take (length b2) b2) (fs_append seg b1 fs)"
    by (simp add: fs_append_append)
  ultimately show ?thesis
    using assms unfolding partial_write_Cons by (metis partial_write_NilE)
qed

lemma add_chunk_writes:
  "apply_writes (add_chunk seg bs chunks) fs = fs_append seg bs (apply_writes chunks fs)"
  "partial_write (add_chunk seg bs chunks) fs fs' \<Longrightarrow> partial_write (chunks @ [(seg, bs)]) fs fs'"
proof -
  have "apply_writes (add_chunk seg bs chunks) fs = fs_append seg bs (apply_writes chunks fs)
    \<and> (partial_write (add_chunk seg bs chunks) fs fs' \<longrightarrow> partial_write (chunks @ [(seg, bs)]) fs fs')"
  proof (cases "chunks = [] \<or> fst (last chunks) \<noteq> seg")
    case False
    then obtain cs b where cs: "chunks = cs @ [(seg, b)]"
      by (cases chunks rule: rev_cases) auto
    show ?thesis
      using partial_write_join [of seg b bs "apply_writes cs fs" fs']
      unfolding cs add_chunk_def by (auto simp: fs_append_append partial_write_append)
  qed (simp add: add_chunk_def)
  then show "apply_writes (add_chunk seg bs chunks) fs = fs_append seg bs (apply_writes chunks fs)"
    "partial_write (add_chunk seg bs chunks) fs fs' \<Longrightarrow> partial_write (chunks @ [(seg, bs)]) fs fs'"
    by auto
qed

definition join_chunks :: "(u64 \<times> bytes) list \<Rightarrow> (u64 \<times> bytes) list \<Rightarrow> (u64 \<times> bytes) list" where
  "join_chunks chunks ms = foldl (\<lambda>cs m. add_chunk (fst m) (snd m) cs) chunks ms"

lemma join_chunks_writes:
  "apply_writes (join_chunks [] ms) fs = apply_writes ms fs"
  "partial_write (join_chunks [] ms) fs fs' \<Longrightarrow> partial_write ms fs fs'"
proof (induction ms arbitrary: fs' rule: rev_induct)
  case Nil
  { case 1 show ?case by (simp add: join_chunks_def) }
  { case 2 then show ?case by (simp add: join_chunks_def) }
next
  case (snoc m ms)
  have j: "join_chunks [] (ms @ [m]) = add_chunk (fst m) (snd m) (join_chunks [] ms)"
    by (simp add: join_chunks_def)
  { case 1 show ?case
      unfolding j add_chunk_writes(1) snoc.IH(1) by (cases m) simp }
  { case 2 then show ?case
      using add_chunk_writes(2) [of "fst m" "snd m" "join_chunks [] ms" fs fs'] snoc.IH
      unfolding j by (auto simp: partial_write_append) }
qed

section \<open>A whole batch\<close>

definition batch_result ::
    "wal_config \<Rightarrow> json_codec \<Rightarrow> u64 \<Rightarrow> layout_seg list \<Rightarrow> (u64 \<times> bytes) list \<Rightarrow> layout_seg list \<Rightarrow> item list \<Rightarrow> bool" where
  "batch_result cfg c lsn gs ms gs' es \<longleftrightarrow>
     layout_ok cfg c lsn gs' \<and> layout_items gs' = layout_items gs @ es
     \<and> apply_writes ms (layout_fs gs) = layout_fs gs'
     \<and> (\<forall>fs'. partial_write ms (layout_fs gs) fs'
          \<longrightarrow> (\<exists>j\<le>length es. recoverable cfg c lsn fs' (layout_items gs @ take j es)))"

lemma batch_result_Nil: "layout_ok cfg c lsn gs \<Longrightarrow> batch_result cfg c lsn gs [] gs []"
  using recoverable_clean by (auto simp: batch_result_def)

lemma batch_result_Cons:
  assumes ok: "layout_ok cfg c lsn gs" and m: "layout_step cfg c lsn gs m gs1 e"
    and ms: "batch_result cfg c lsn gs1 ms gs2 es"
  shows "batch_result cfg c lsn gs (m # ms) gs2 (e # es)"
proof -
  obtain seg bs where m': "m = (seg, bs)"
    by fastforce
  have fs1: "fs_append seg bs (layout_fs gs) = layout_fs gs1" and its: "layout_items gs1 = layout_items gs @ [e]"
    using m by (simp_all add: layout_step_def m')
  have ok1: "layout_ok cfg c lsn gs1"
    using m by (simp add: layout_step_def)
  have "\<exists>j\<le>length (e # es). recoverable cfg c lsn fs' (layout_items gs @ take j (e # es))"
    if pw: "partial_write (m # ms) (layout_fs gs) fs'" for fs'
  proof -
    consider (none) "fs' = layout_fs gs" | (cut) n where "fs' = fs_append seg (take n bs) (layout_fs gs)"
      | (one) "partial_write ms (layout_fs gs1) fs'"
      using pw unfolding m' partial_write_Cons fs1 by blast
    then show ?thesis
    proof cases
      case none
      then show ?thesis
        using recoverable_clean [OF ok] by (intro exI [of _ 0]) simp
    next
      case (cut n)
      show ?thesis
      proof (cases "n < length bs")
        case True
        then show ?thesis
          using cut m by (intro exI [of _ 0]) (simp add: layout_step_def m')
      next
        case False
        then show ?thesis
          using cut recoverable_clean [OF ok1] fs1 its by (intro exI [of _ 1]) simp
      qed
    next
      case one
      then obtain j where "j \<le> length es" "recoverable cfg c lsn fs' (layout_items gs1 @ take j es)"
        using ms by (auto simp: batch_result_def)
      then show ?thesis
        using its by (intro exI [of _ "Suc j"]) simp
    qed
  qed
  then show ?thesis
    using ms m fs1 its by (auto simp: batch_result_def layout_step_def m')
qed

lemma plan_entries_batch:
  assumes "layout_ok cfg c lsn gs" "plan_cursor lsn gs pl" "list_all (item_ok cfg c) es"
    and "unat lsn + length (layout_items gs) + length es < 2 ^ 64"
    and "plan_entries cfg pl es = Inr pl'"
  shows "\<exists>ms gs'. ap_chunks pl' = join_chunks (ap_chunks pl) ms \<and> plan_cursor lsn gs' pl'
     \<and> batch_result cfg c lsn gs ms gs' es"
  using assms
proof (induction es arbitrary: gs pl)
  case Nil
  then show ?case
    using batch_result_Nil by (intro exI [of _ "[]"] exI [of _ gs]) (simp add: join_chunks_def)
next
  case (Cons e es)
  obtain pl1 where pl1: "plan_entry cfg pl e = Inr pl1" "plan_entries cfg pl1 es = Inr pl'"
    using Cons.prems(5) by (auto split: sum.splits)
  obtain m gs1 where m: "ap_chunks pl1 = add_chunk (fst m) (snd m) (ap_chunks pl)"
      "layout_step cfg c lsn gs m gs1 e" "plan_cursor lsn gs1 pl1"
    using plan_entry_step [OF Cons.prems(1,2) _ _ pl1(1)] Cons.prems(3,4) by auto
  have ok1: "layout_ok cfg c lsn gs1" "length (layout_items gs1) = length (layout_items gs) + 1"
    using m(2) by (simp_all add: layout_step_def)
  obtain ms gs2 where ms: "ap_chunks pl' = join_chunks (ap_chunks pl1) ms" "plan_cursor lsn gs2 pl'"
      "batch_result cfg c lsn gs1 ms gs2 es"
    using Cons.IH [OF ok1(1) m(3) _ _ pl1(2)] Cons.prems(3,4) ok1(2) by auto
  have "ap_chunks pl' = join_chunks (ap_chunks pl) (m # ms)"
    using ms(1) m(1) by (simp add: join_chunks_def)
  then show ?case
    using ms(2) batch_result_Cons [OF Cons.prems(1) m(2) ms(3)] by blast
qed

section \<open>Append on an open and on a closed log\<close>

abbreviation batch_ok :: "wal_config \<Rightarrow> json_codec \<Rightarrow> u64 \<Rightarrow> item list \<Rightarrow> item list \<Rightarrow> bool" where
  "batch_ok cfg c lsn its es \<equiv> list_all (item_ok cfg c) es \<and> unat lsn + length its + length es < 2 ^ 64"

text \<open>The states of a log process: not opened yet, refusing everything after a failed write, or open.\<close>

definition log_state ::
    "wal_config \<Rightarrow> json_codec \<Rightarrow> u64 \<Rightarrow> wal_fs \<Rightarrow> wal_state \<Rightarrow> item list \<Rightarrow> bool" where
  "log_state cfg c lsn fs st its \<longleftrightarrow>
     recoverable cfg c lsn fs its
     \<and> (fresh st \<or> (ws_initialized st \<and> ws_poisoned st) \<or> (\<exists>gs. wal_rep cfg c lsn gs fs st \<and> layout_items gs = its))"

text \<open>After an append: the disk recovers to a prefix of the batch, all of it when acknowledged.\<close>

definition appended ::
    "wal_config \<Rightarrow> json_codec \<Rightarrow> u64 \<Rightarrow> item list \<Rightarrow> item list \<Rightarrow> wal_fs \<times> wal_state \<times> (wal_error + unit) \<Rightarrow> bool" where
  "appended cfg c lsn its es r =
     (case r of (fs', st', res) \<Rightarrow>
        (\<exists>j\<le>length es. log_state cfg c lsn fs' st' (its @ take j es) \<and> (res = Inr () \<longrightarrow> j = length es))
        \<and> (res = Inr () \<and> es \<noteq> [] \<longrightarrow> (\<exists>gs. wal_rep cfg c lsn gs fs' st' \<and> layout_items gs = its @ es)))"

lemma recoverable_rep: "wal_rep cfg c lsn gs fs st \<Longrightarrow> recoverable cfg c lsn fs (layout_items gs)"
  using recoverable_clean by (auto simp: wal_rep_def)

lemma log_state_rep: "wal_rep cfg c lsn gs fs st \<Longrightarrow> log_state cfg c lsn fs st (layout_items gs)"
  using recoverable_rep by (auto simp: log_state_def)

lemma appended_unchanged: "log_state cfg c lsn fs st its \<Longrightarrow> appended cfg c lsn its es (fs, st, Inl e)"
  by (auto simp: appended_def intro!: exI [of _ 0])

lemma append_locked_open:
  assumes rep: "wal_rep cfg c lsn gs fs st" and es: "batch_ok cfg c lsn (layout_items gs) es"
  shows "appended cfg c lsn (layout_items gs) es (append_locked cfg c env_ok io force es fs st)"
proof -
  let ?pl = "\<lparr>ap_nextLsn = ws_nextLsn st, ap_segment = ws_activeSegment st, ap_bytes = ws_activeBytes st,
      ap_identity = ws_identity st, ap_chunks = []\<rparr>"
  have st: "ws_initialized st" "\<not> ws_poisoned st" "\<not> ws_clearing st" and fs: "fs = layout_fs gs"
    and ok: "layout_ok cfg c lsn gs" and cur: "plan_cursor lsn gs ?pl"
    using rep by (simp_all add: wal_rep_def)
  have same: "appended cfg c lsn (layout_items gs) es (fs, st, Inl e)" for e
    using log_state_rep [OF rep] by (rule appended_unchanged)
  show ?thesis
  proof (cases "io_mkdir_ok io")
    case True
    show ?thesis
    proof (cases "plan_entries cfg ?pl es")
      case (Inr pl)
      obtain ms gs' where ms: "ap_chunks pl = join_chunks [] ms" "plan_cursor lsn gs' pl"
          "batch_result cfg c lsn gs ms gs' es"
        using plan_entries_batch [OF ok cur _ _ Inr] es by auto
      obtain fs2 written where w: "write_chunks io 0 (ap_chunks pl) fs = (fs2, written)"
        by fastforce
      have pw: "partial_write ms (layout_fs gs) fs2" and all: "written \<longrightarrow> fs2 = layout_fs gs'"
        using write_chunks_partial [OF w] join_chunks_writes ms by (auto simp: fs batch_result_def)
      have torn: "appended cfg c lsn (layout_items gs) es (fs2, st\<lparr>ws_poisoned := True\<rparr>, Inl e)" for e
        using pw ms(3) st by (auto simp: appended_def batch_result_def log_state_def)
      have ok': "layout_ok cfg c lsn gs'" "layout_items gs' = layout_items gs @ es"
        using ms(3) by (simp_all add: batch_result_def)
      have rep': "wal_rep cfg c lsn gs' (layout_fs gs') (st\<lparr>ws_nextLsn := ap_nextLsn pl,
          ws_activeSegment := ap_segment pl, ws_activeBytes := ap_bytes pl, ws_identity := ap_identity pl\<rparr>)"
        using ok'(1) ms(2) st by (simp add: wal_rep_def)
      have acked: "appended cfg c lsn (layout_items gs) es (layout_fs gs', st\<lparr>ws_nextLsn := ap_nextLsn pl,
          ws_activeSegment := ap_segment pl, ws_activeBytes := ap_bytes pl, ws_identity := ap_identity pl\<rparr>, Inr ())"
        using rep' ok' log_state_rep [OF rep'] by (auto simp: appended_def intro!: exI [of _ "length es"])
      show ?thesis
        using st True torn acked all w
        by (cases written) (auto simp: append_locked_def initializeLogicalWal_def Inr)
    qed (use st True same in \<open>simp add: append_locked_def initializeLogicalWal_def\<close>)
  qed (use st same in \<open>simp add: append_locked_def initializeLogicalWal_def\<close>)
qed

text \<open>Opening with failing system calls leaves a recoverable disk.\<close>

lemma init_any_io:
  assumes rec: "recovers cfg c lsn fs st its" and st: "fresh st"
    and ini: "initializeLogicalWal cfg c env_ok io fs st = (fs1, r)"
  shows "recovers cfg c lsn fs1 st its"
    and "\<And>st'. r = Inr st' \<Longrightarrow> initializeLogicalWal cfg c env_ok io_good fs st = (fs1, Inr st')"
proof -
  obtain gs st1 where g: "initializeLogicalWal cfg c env_ok io_good fs st = (layout_fs gs, Inr st1)"
      "wal_rep cfg c lsn gs (layout_fs gs) st1" "layout_items gs = its"
    using rec by (auto simp: recovers_def)
  have clean: "recovers cfg c lsn (layout_fs gs) st its"
    using recovers_clean [OF _ fresh_reopenable [OF st], of cfg c lsn gs] g by (auto simp: wal_rep_def)
  have "fs1 = fs \<or> fs1 = layout_fs gs"
    using ini g(1) st
    by (auto simp: initializeLogicalWal_def fresh_def io_good_def Let_def split: if_splits)
  then show "recovers cfg c lsn fs1 st its"
    using rec clean by auto
  show "initializeLogicalWal cfg c env_ok io_good fs st = (fs1, Inr st')" if "r = Inr st'" for st'
    using ini g(1) st that
    by (auto simp: initializeLogicalWal_def fresh_def io_good_def Let_def split: if_splits)
qed

lemma append_locked_closed:
  assumes rec: "recoverable cfg c lsn fs its" and st: "fresh st" and es: "batch_ok cfg c lsn its es"
  shows "appended cfg c lsn its es (append_locked cfg c env_ok io force es fs st)"
proof -
  obtain fs1 r where ini: "initializeLogicalWal cfg c env_ok io fs st = (fs1, r)"
    by fastforce
  have "recovers cfg c lsn fs1 s its" if "fresh s" for s
  proof -
    have "fst (initializeLogicalWal cfg c env_ok io fs s) = fst (initializeLogicalWal cfg c env_ok io fs st)"
      using that st by (simp add: initializeLogicalWal_def fresh_def Let_def)
    then have "initializeLogicalWal cfg c env_ok io fs s = (fs1, snd (initializeLogicalWal cfg c env_ok io fs s))"
      using ini by (simp add: prod_eq_iff)
    then show ?thesis
      using init_any_io(1) rec that by (auto simp: recoverable_def)
  qed
  then have fs1: "log_state cfg c lsn fs1 st its"
    using st by (simp add: log_state_def recoverable_def)
  show ?thesis
  proof (cases r)
    case (Inl e)
    then show ?thesis
      using appended_unchanged [OF fs1] st ini by (simp add: append_locked_def fresh_def)
  next
    case (Inr st1)
    have "recovers cfg c lsn fs st its"
      using rec st by (simp add: recoverable_def)
    with init_any_io(2) [OF this st ini Inr]
    obtain gs where gs: "wal_rep cfg c lsn gs fs1 st1" "layout_items gs = its"
      by (auto simp: recovers_def)
    have "append_locked cfg c env_ok io force es fs st = append_locked cfg c env_ok io force es fs1 st1"
      using ini Inr st gs(1) by (simp add: append_locked_def fresh_def wal_rep_def initializeLogicalWal_def)
    then show ?thesis
      using append_locked_open [OF gs(1)] es gs(2) by simp
  qed
qed

lemma append_locked_poisoned:
  assumes "log_state cfg c lsn fs st its" "ws_initialized st" "ws_poisoned st"
  shows "appended cfg c lsn its es (append_locked cfg c env_ok io force es fs st)"
  using appended_unchanged [OF assms(1)] assms(2,3)
  by (simp add: append_locked_def initializeLogicalWal_def)

lemma wal_rep_release [simp]:
  "wal_rep cfg c lsn gs fs (wal_release st) = wal_rep cfg c lsn gs fs st"
  "wal_rep cfg c lsn gs fs (st\<lparr>ws_admission := n\<rparr>) = wal_rep cfg c lsn gs fs st"
  by (simp_all add: wal_rep_def wal_release_def)

lemma fresh_admitted [simp]: "fresh (st\<lparr>ws_admission := n\<rparr>) = fresh st"
  by (simp add: fresh_def)

lemma log_state_admitted [simp]:
  "log_state cfg c lsn fs (st\<lparr>ws_admission := n\<rparr>) its = log_state cfg c lsn fs st its"
  "log_state cfg c lsn fs (wal_release st) its = log_state cfg c lsn fs st its"
  by (simp_all add: log_state_def wal_release_def)

lemma appended_release:
  "appended cfg c lsn its es (case r of (fs2, st2, res) \<Rightarrow> (fs2, wal_release st2, res))
     = appended cfg c lsn its es r"
  by (cases r) (simp add: appended_def)

lemma appendEntries_appended:
  assumes st: "log_state cfg c lsn fs st its" and es: "batch_ok cfg c lsn its es"
  shows "appended cfg c lsn its es (appendEntries cfg c env_ok io force es fs st)"
proof (cases "es = [] \<or> wal_admit st = None")
  case True
  then show ?thesis
    using appended_unchanged [OF st] st by (auto simp: appendEntries_def appended_def)
next
  case False
  let ?st = "st\<lparr>ws_admission := ws_admission st + 1\<rparr>"
  have "appended cfg c lsn its es (append_locked cfg c env_ok io force es fs ?st)"
    using st append_locked_closed [OF _ _ es, of fs ?st io force]
      append_locked_poisoned [of cfg c lsn fs ?st its es io force]
      append_locked_open [of cfg c lsn _ fs ?st es io force] es
    by (auto simp: log_state_def)
  then show ?thesis
    using False by (auto simp: appendEntries_def wal_admit_def appended_release split: if_splits)
qed

section \<open>What a reader sees\<close>

lemma wal_rep_scan:
  assumes "wal_rep cfg c lsn gs fs st"
  shows "ss_status (scanWalFiles cfg c env_ok visit_all fs) = OK"
    and "ss_visited (scanWalFiles cfg c env_ok visit_all fs) = recs_from lsn (layout_items gs)"
    and "ws_nextLsn st = lsn + of_nat (length (layout_items gs))"
  using assms scan_layout_fs scan_layout_fields [OF layout_okD]
  by (auto simp: wal_rep_def cursor_ok_def layout_next_def)

lemma recs_from_lsns:
  assumes "unat lsn + length its < 2 ^ 64" "i < length its"
  shows "r_lsn (recs_from lsn its ! i) = lsn + of_nat i"
  using assms(2)
  by (induction its arbitrary: lsn i) (auto simp: item_rec_def nth_Cons algebra_simps split: nat.split)

end
