(* ===== verification/Wal_Reclaim.thy ===== *)
theory Wal_Reclaim
  imports Wal_Append
begin

text \<open>
  \<open>reclaimThrough\<close> on a layout: the files it removes are the oldest ones, whatever system call fails on
  the way, and every record beyond the checkpoint stays readable under its LSN.
\<close>

section \<open>Suffixes of a layout\<close>

lemma chain_weaken: "chain lsn prev ident gs \<Longrightarrow> chain lsn 0 0 gs"
  by (cases gs) (auto intro: le_less_trans [OF word_zero_le])

lemma chain_drop: "chain lsn prev ident (hs @ gs) \<Longrightarrow> chain (layout_next lsn hs) 0 0 gs"
proof (induction hs arbitrary: lsn prev ident)
  case Nil
  then show ?case
    by (simp add: layout_next_def chain_weaken)
next
  case (Cons h hs)
  have "chain (layout_next (lsn + of_nat (length (lg_items h))) hs) 0 0 gs"
    using Cons.prems by (intro Cons.IH [of _ "lg_id h" "lg_ident h"]) simp
  then show ?case
    by (simp add: layout_next_def add.assoc)
qed

lemma layout_ok_drop:
  assumes ok: "layout_ok cfg c lsn (hs @ gs)" and ne: "gs \<noteq> []"
  shows "layout_ok cfg c (layout_next lsn hs) gs"
proof -
  have room: "unat lsn + length (layout_items hs) + length (layout_items gs) < 2 ^ 64" and pos: "0 < lsn"
    using ok by (simp_all add: layout_ok_def layout_pre_def)
  then have n: "unat (layout_next lsn hs) = unat lsn + length (layout_items hs)"
    unfolding layout_next_def by (intro unat_add_of_nat) simp
  moreover have "0 < layout_next lsn hs"
    using pos unat_gt_0 [of lsn] unfolding word_less_nat_alt n by simp
  ultimately show ?thesis
    using ok ne room chain_drop [of lsn 0 0 hs gs] by (auto simp: layout_ok_def layout_pre_def)
qed

lemma layout_next_append: "layout_next lsn (hs @ gs) = layout_next (layout_next lsn hs) gs"
  by (simp add: layout_next_def add.assoc)

lemma recs_from_layout:
  "recs_from lsn (layout_items (hs @ gs))
     = recs_from lsn (layout_items hs) @ recs_from (layout_next lsn hs) (layout_items gs)"
  by (simp add: recs_from_append layout_next_def)

lemma length_recs_from [simp]: "length (recs_from lsn its) = length its"
  by (induction its arbitrary: lsn) simp_all

section \<open>The covered files\<close>

lemma chain_firsts:
  assumes "chain lsn prev ident gs" "unat lsn + length (layout_items gs) < 2 ^ 64" "h \<in> set gs"
  shows "lsn \<le> lg_first h \<and> unat (lg_first h) + length (lg_items h) < 2 ^ 64"
  using assms
proof (induction gs arbitrary: lsn prev ident)
  case Nil
  then show ?case by simp
next
  case (Cons g gs)
  have "unat (lsn + of_nat (length (lg_items g))) = unat lsn + length (lg_items g)"
    using Cons.prems(2) by (intro unat_add_of_nat) simp
  then show ?case
    using Cons.IH [of "lsn + of_nat (length (lg_items g))" "lg_id g" "lg_ident g"] Cons.prems
    by (cases "h = g") (auto simp: word_le_nat_alt)
qed

definition seg_end :: "layout_seg \<Rightarrow> u64" where
  "seg_end g = sf_endLsn (seg_meta g)"

lemma covered_sealed_iff:
  "covered_sealed high cov (seg_meta g) \<longleftrightarrow> lg_id g < high \<and> seg_end g \<noteq> 0 \<and> seg_end g \<le> cov"
  by (simp add: covered_sealed_def seg_end_def seg_meta_def)

lemma covered_end:
  assumes "covered_sealed high cov (seg_meta g)"
  shows "seg_end g \<le> cov" "lg_items g \<noteq> []"
  using assms by (auto simp: covered_sealed_def seg_end_def seg_meta_def)

lemma sf_path_seg_meta [simp]: "sf_path (seg_meta g) = SegPath (seg_stem g)"
  by (simp add: seg_meta_def)

lemma sorted_wrt_takeWhile:
  assumes "sorted_wrt (\<lambda>x y. P y \<longrightarrow> P x) xs"
  shows "filter P xs = takeWhile P xs"
  using assms by (induction xs) (auto simp: filter_empty_conv)

lemma covered_prefix:
  assumes "layout_pre cfg c s lsn gs"
  shows "sorted_wrt (\<lambda>g h. covered_sealed high cov (seg_meta h) \<longrightarrow> covered_sealed high cov (seg_meta g)) gs"
  using assms
proof (induction gs arbitrary: s lsn)
  case Nil
  then show ?case by simp
next
  case (Cons g gs)
  note pre = layout_pre_Cons [OF Cons.prems]
  let ?n = "length (lg_items g)"
  have "covered_sealed high cov (seg_meta g)" if h: "h \<in> set gs" "covered_sealed high cov (seg_meta h)" for h
  proof -
    have id: "lg_id g < lg_id h" "lg_items g \<noteq> []"
      using Cons.prems h(1) chain_ids [of lsn _ _ "g # gs"] by (auto simp: layout_pre_def)
    have "lg_items h \<noteq> []"
      using h(2) by (auto simp: covered_sealed_def seg_meta_def)
    note ne = id(2) this
    have pos: "0 < lsn"
      using Cons.prems by (auto simp: layout_pre_def intro: le_less_trans [OF word_zero_le])
    have first: "lsn + of_nat ?n \<le> lg_first h" "unat (lg_first h) + length (lg_items h) < 2 ^ 64"
      using chain_firsts [of "lsn + of_nat ?n" "lg_id g" "lg_ident g" gs h] pre(3) h(1) Cons.prems
      by (auto simp: layout_pre_def)
    have room: "unat lsn + ?n < 2 ^ 64"
      using Cons.prems by (simp add: layout_pre_def)
    have g: "unat (seg_end g) = unat lsn + ?n - 1" "seg_end g \<noteq> 0"
      using lsn_room_end [of lsn ?n] room pos ne pre(2) by (simp_all add: seg_end_def seg_meta_def lsn_room_def)
    have "unat lsn + ?n \<le> unat (lg_first h)"
      using first(1) unat_add_of_nat [OF room] by (simp add: word_le_nat_alt)
    moreover have "unat (seg_end h) = unat (lg_first h) + length (lg_items h) - 1"
      using lsn_room_end(1) [of "lg_first h" "length (lg_items h)"] first ne pos calculation unat_gt_0 [of lsn]
      by (auto simp: seg_end_def seg_meta_def lsn_room_def word_less_nat_alt)
    ultimately have "seg_end g \<le> seg_end h"
      using g by (simp add: word_le_nat_alt)
    then show ?thesis
      using h(2) id(1) g(2) by (auto simp: covered_sealed_iff)
  qed
  then show ?case
    using Cons.IH [OF pre(3)] by simp
qed

section \<open>Removing files\<close>

text \<open>The files go oldest first, so whatever removal fails leaves a suffix of the layout.\<close>

lemma fs_remove_first:
  assumes "\<forall>h\<in>set gs. lg_id h \<noteq> lg_id g"
  shows "fs_remove (SegPath (seg_stem g)) (layout_fs (g # gs)) = layout_fs gs"
  using assms by (auto simp: layout_fs_def seg_file_def seg_stem_def filter_id_conv)

lemma remove_files_prefix:
  assumes "distinct (map lg_id (rs @ gs))"
  shows "\<exists>k\<le>length rs. fst (remove_files io (map (\<lambda>g. SegPath (seg_stem g)) rs) (layout_fs (rs @ gs)))
     = layout_fs (drop k rs @ gs)"
  using assms
proof (induction rs)
  case Nil
  then show ?case by simp
next
  case (Cons r rs)
  show ?case
  proof (cases "io_remove_ok io (SegPath (seg_stem r))")
    case True
    have "\<forall>h\<in>set (rs @ gs). lg_id h \<noteq> lg_id r"
      using Cons.prems by (auto simp: image_iff)
    then have "fs_remove (SegPath (seg_stem r)) (layout_fs ((r # rs) @ gs)) = layout_fs (rs @ gs)"
      using fs_remove_first by simp
    moreover obtain k where "k \<le> length rs"
        "fst (remove_files io (map (\<lambda>g. SegPath (seg_stem g)) rs) (layout_fs (rs @ gs))) = layout_fs (drop k rs @ gs)"
      using Cons.IH Cons.prems by auto
    ultimately show ?thesis
      using True by (intro exI [of _ "Suc k"]) (simp only: list.map remove_files.simps if_True list.size drop_Suc_Cons
          Suc_le_mono, simp)
  next
    case False
    then show ?thesis
      by (intro exI [of _ 0]) simp
  qed
qed

lemma layout_distinct:
  assumes "layout_ok cfg c lsn gs"
  shows "distinct (map lg_id gs)"
proof -
  have "sorted_wrt (<) (map lg_id gs)"
    using assms chain_ids [of lsn 0 0 gs] by (simp add: layout_ok_def layout_pre_def)
  then show ?thesis
    by (simp add: strict_sorted_iff)
qed

lemma covered_records:
  assumes ok: "layout_ok cfg c lsn (hs @ gs)" and cov: "\<forall>h\<in>set hs. covered_sealed high cov (seg_meta h)"
  shows "\<forall>r\<in>set (recs_from lsn (layout_items hs)). r_lsn r \<le> cov"
proof (cases hs rule: rev_cases)
  case Nil
  then show ?thesis by simp
next
  case (snoc xs h)
  let ?n = "length (layout_items hs)"
  have room: "unat lsn + ?n < 2 ^ 64" and pos: "0 < lsn"
    using ok by (simp_all add: layout_ok_def layout_pre_def)
  have h: "seg_end h \<le> cov" "lg_items h \<noteq> []"
    using cov covered_end by (auto simp: snoc)
  have "lg_first h = layout_next lsn xs"
  proof -
    have "chain (layout_next lsn xs) 0 0 (h # gs)"
      using chain_drop [of lsn 0 0 xs "h # gs"] ok by (simp add: snoc layout_ok_def layout_pre_def)
    then show ?thesis by simp
  qed
  then have "seg_end h = lsn + of_nat ?n - 1"
    using h(2) by (simp add: seg_end_def seg_meta_def snoc layout_next_def add.assoc)
  then have last: "unat lsn + ?n - 1 \<le> unat cov"
    using h(1) lsn_room_end(1) [of lsn ?n] room pos by (simp add: lsn_room_def word_le_nat_alt)
  show ?thesis
  proof
    fix r assume "r \<in> set (recs_from lsn (layout_items hs))"
    then obtain i where i: "i < ?n" "r = recs_from lsn (layout_items hs) ! i"
      by (auto simp: in_set_conv_nth)
    then have "r_lsn r = lsn + of_nat i"
      using recs_from_lsns [OF room] by simp
    moreover have "unat (lsn + of_nat i) = unat lsn + i"
      using room i(1) by (intro unat_add_of_nat) simp
    ultimately show "r_lsn r \<le> cov"
      using last i(1) by (simp add: word_le_nat_alt)
  qed
qed

section \<open>Reclaim\<close>

lemma foldl_max_last:
  assumes "layout_ok cfg c lsn (gs @ [g])"
  shows "foldl (\<lambda>m f. max m (sf_segmentId f)) 0 (map seg_meta (gs @ [g])) = lg_id g"
proof -
  have "foldl (\<lambda>m f. max m (sf_segmentId f)) b (map seg_meta gs) \<le> lg_id g" if "b \<le> lg_id g" for b
    using that chain_ids_snoc [OF assms]
    by (induction gs arbitrary: b) (auto simp: seg_meta_def)
  from this [of 0] show ?thesis
    by (simp add: seg_meta_def max_absorb2)
qed

lemma reclaim_locked_suffix:
  assumes rep: "wal_rep cfg c lsn (gs @ [g]) fs st"
    and rec: "reclaim_locked cfg c env_ok io cov fs st = (fs', st', res)"
  shows "\<exists>hs ys. gs = hs @ ys \<and> fs' = layout_fs (ys @ [g])
     \<and> (\<forall>h\<in>set hs. covered_sealed (lg_id g) cov (seg_meta h))
     \<and> (st' = st \<or> st' = st\<lparr>ws_initialized := False\<rparr>)"
proof -
  have ok: "layout_ok cfg c lsn (gs @ [g])" and fs: "fs = layout_fs (gs @ [g])"
    using rep by (simp_all add: wal_rep_def)
  let ?P = "\<lambda>h. covered_sealed (lg_id g) cov (seg_meta h)"
  let ?rs = "takeWhile ?P gs"
  note f = scan_layout_fields [OF layout_okD [OF ok]]
  have files: "ss_files (scan_layout scan_init (gs @ [g])) = map seg_meta (gs @ [g])"
    using f(4) by simp
  have leg: "\<not> covered_legacy cov (seg_meta h)" for h
    by (simp add: covered_legacy_def seg_meta_def)
  have "filter ?P (gs @ [g]) = takeWhile ?P (gs @ [g])"
    by (rule sorted_wrt_takeWhile [OF covered_prefix [OF layout_okD [OF ok]]])
  moreover have g: "\<not> ?P g"
    by (simp add: covered_sealed_iff)
  ultimately have filt: "filter ?P gs = ?rs"
    by (simp add: takeWhile_tail)
  have paths: "map sf_path (filter (\<lambda>f. covered_legacy cov f \<or> covered_sealed (lg_id g) cov f) (map seg_meta (gs @ [g])))
      = map (\<lambda>h. SegPath (seg_stem h)) ?rs"
    using g filt by (simp add: leg filter_map o_def)
  obtain k where k: "k \<le> length ?rs"
      "fst (remove_files io (map (\<lambda>g. SegPath (seg_stem g)) ?rs) fs) = layout_fs (drop k ?rs @ dropWhile ?P gs @ [g])"
    using remove_files_prefix [of ?rs "dropWhile ?P gs @ [g]" io] layout_distinct [OF ok]
    unfolding fs append_assoc [symmetric] takeWhile_dropWhile_id by auto
  have split: "gs = take k ?rs @ (drop k ?rs @ dropWhile ?P gs)"
    unfolding append_assoc [symmetric] append_take_drop_id by simp
  have cov: "\<forall>h\<in>set (take k ?rs). ?P h"
    by (meson in_set_takeD set_takeWhileD)
  have "(fs' = fs \<or> fs' = fst (remove_files io (map (\<lambda>g. SegPath (seg_stem g)) ?rs) fs))
     \<and> (st' = st \<or> st' = st\<lparr>ws_initialized := False\<rparr>)"
    using rec f(2) unfolding reclaim_locked_def fs scan_layout_fs [OF ok] Let_def files paths foldl_max_last [OF ok]
    by (auto simp: leg filter_map o_def split: prod.splits bool.splits if_splits)
  moreover have "gs = [] @ gs" "\<forall>h\<in>set []. ?P h"
    by simp_all
  ultimately show ?thesis
    using k(2) split cov fs by (metis append_assoc)
qed

end
