(* ===== verification/Durable_Log.thy ===== *)
theory Durable_Log
  imports Wal_Reclaim "HOL-Library.Sublist"
begin

text \<open>
  The contract of a write-ahead log as its clients use it, and the collection log as an instance.  A log
  is driven by appends, each acknowledged or not, and by crashes that lose the memory of the process; the
  contract is that a step keeps the contents and adds a prefix of the batch, the whole batch when the
  append is acknowledged.
\<close>

section \<open>The contract\<close>

datatype 'e log_event = Append "'e list" bool | Crash

fun event_batch :: "'e log_event \<Rightarrow> 'e list" where
  "event_batch (Append b ack) = b"
| "event_batch Crash = []"

text \<open>What an event may leave in the log.\<close>

fun event_keeps :: "'e list \<Rightarrow> 'e log_event \<Rightarrow> bool" where
  "event_keeps ys (Append b ack) = (prefix ys b \<and> (ack \<longrightarrow> ys = b))"
| "event_keeps ys Crash = (ys = [])"

text \<open>Which disk and process a sequence of events can lead to.\<close>

fun history ::
    "('e list \<Rightarrow> 'd \<Rightarrow> 'd \<Rightarrow> bool \<Rightarrow> bool) \<Rightarrow> ('d \<Rightarrow> 'd) \<Rightarrow> 'e log_event list \<Rightarrow> 'd \<Rightarrow> 'd \<Rightarrow> bool" where
  "history app boot [] d d' = (d' = d)"
| "history app boot (Append b ack # evs) d d' = (\<exists>d1. app b d d1 ack \<and> history app boot evs d1 d')"
| "history app boot (Crash # evs) d d' = history app boot evs (boot d) d'"

fun acked :: "'e log_event list \<Rightarrow> 'e list" where
  "acked [] = []"
| "acked (Append b ack # evs) = (if ack then b @ acked evs else acked evs)"
| "acked (Crash # evs) = acked evs"

lemma subseq_append_both: "subseq xs xs' \<Longrightarrow> subseq ys ys' \<Longrightarrow> subseq (xs @ ys) (xs' @ ys')"
  by (rule list_emb_append_mono)

lemma keeps_acked: "list_all2 event_keeps yss evs \<Longrightarrow> subseq (acked evs) (concat yss)"
proof (induction yss evs rule: list_all2_induct)
  case (Cons ys yss ev evs)
  then show ?case
    by (cases ev) (auto intro: list_emb_append2 subseq_append_both)
qed simp

locale durable_log =
  fixes contents :: "'d \<Rightarrow> 'e list \<Rightarrow> bool"
    and append :: "'e list \<Rightarrow> 'd \<Rightarrow> 'd \<Rightarrow> bool \<Rightarrow> bool"
    and restart :: "'d \<Rightarrow> 'd"
    and fits :: "'e list \<Rightarrow> 'e list \<Rightarrow> bool"
  assumes append_prefix: "contents d xs \<Longrightarrow> fits xs b \<Longrightarrow> append b d d' ack
      \<Longrightarrow> \<exists>ys. contents d' (xs @ ys) \<and> prefix ys b \<and> (ack \<longrightarrow> ys = b)"
    and restart_keeps: "contents d xs \<Longrightarrow> contents (restart d) xs"
    and fits_split: "fits xs (b @ b') \<Longrightarrow> prefix ys b \<Longrightarrow> fits xs b \<and> fits (xs @ ys) b'"
begin

lemma history_contents:
  assumes "history append restart evs d d'" "contents d xs" "fits xs (concat (map event_batch evs))"
  shows "\<exists>yss. list_all2 event_keeps yss evs \<and> contents d' (xs @ concat yss)"
  using assms
proof (induction evs arbitrary: d xs)
  case Nil
  then show ?case by auto
next
  case (Cons ev evs)
  show ?case
  proof (cases ev)
    case (Append b ack)
    obtain d1 where d1: "append b d d1 ack" "history append restart evs d1 d'"
      using Cons.prems(1) Append by auto
    have "fits xs b"
      using fits_split [of xs b _ "[]"] Cons.prems(3) Append by simp
    then obtain ys where ys: "contents d1 (xs @ ys)" "prefix ys b" "ack \<longrightarrow> ys = b"
      using append_prefix [OF Cons.prems(2) _ d1(1)] by blast
    have "fits (xs @ ys) (concat (map event_batch evs))"
      using fits_split [OF _ ys(2)] Cons.prems(3) Append by simp
    then obtain yss where "list_all2 event_keeps yss evs" "contents d' (xs @ ys @ concat yss)"
      using Cons.IH [OF d1(2) ys(1)] by auto
    then show ?thesis
      using ys Append by (intro exI [of _ "ys # yss"]) simp
  next
    case Crash
    obtain yss where "list_all2 event_keeps yss evs" "contents d' (xs @ concat yss)"
      using Cons.IH [OF _ restart_keeps [OF Cons.prems(2)]] Cons.prems Crash by auto
    then show ?thesis
      using Crash by (intro exI [of _ "[] # yss"]) simp
  qed
qed

text \<open>Acknowledged batches survive, complete and in their order.\<close>

lemma acked_survive:
  assumes "history append restart evs d d'" "contents d xs" "fits xs (concat (map event_batch evs))"
  shows "\<exists>zs. contents d' (xs @ zs) \<and> subseq (acked evs) zs"
  using history_contents [OF assms] keeps_acked by blast

end

section \<open>The collection log\<close>

text \<open>The disk and the process; an append returns what \<open>appendEntries\<close> returns, under any system calls.\<close>

definition wal_append ::
    "wal_config \<Rightarrow> json_codec \<Rightarrow> item list \<Rightarrow> wal_fs \<times> wal_state \<Rightarrow> wal_fs \<times> wal_state \<Rightarrow> bool \<Rightarrow> bool" where
  "wal_append cfg c es d d' ack \<longleftrightarrow>
     (\<exists>io force res. appendEntries cfg c env_ok io force es (fst d) (snd d) = (fst d', snd d', res)
        \<and> ack = (res = Inr ()))"

definition wal_restart :: "wal_fs \<times> wal_state \<Rightarrow> wal_fs \<times> wal_state" where
  "wal_restart d = (fst d, wal_state_init)"

definition wal_contents :: "wal_config \<Rightarrow> json_codec \<Rightarrow> u64 \<Rightarrow> wal_fs \<times> wal_state \<Rightarrow> item list \<Rightarrow> bool" where
  "wal_contents cfg c lsn d its = log_state cfg c lsn (fst d) (snd d) its"

definition wal_fits :: "wal_config \<Rightarrow> json_codec \<Rightarrow> u64 \<Rightarrow> item list \<Rightarrow> item list \<Rightarrow> bool" where
  "wal_fits cfg c lsn its es = batch_ok cfg c lsn its es"

lemma fresh_init [simp]: "fresh wal_state_init"
  by (simp add: fresh_def wal_state_init_def)

lemma wal_append_prefix:
  assumes "wal_contents cfg c lsn d xs" "wal_fits cfg c lsn xs b" "wal_append cfg c b d d' ack"
  shows "\<exists>ys. wal_contents cfg c lsn d' (xs @ ys) \<and> prefix ys b \<and> (ack \<longrightarrow> ys = b)"
proof -
  obtain io force res where r: "appendEntries cfg c env_ok io force b (fst d) (snd d) = (fst d', snd d', res)"
      "ack = (res = Inr ())"
    using assms(3) by (auto simp: wal_append_def)
  have "appended cfg c lsn xs b (fst d', snd d', res)"
    using appendEntries_appended [of cfg c lsn "fst d" "snd d" xs b io force] assms r
    by (simp add: wal_contents_def wal_fits_def)
  then obtain j where "j \<le> length b" "log_state cfg c lsn (fst d') (snd d') (xs @ take j b)"
      "res = Inr () \<longrightarrow> j = length b"
    by (auto simp: appended_def)
  then show ?thesis
    using r(2) by (intro exI [of _ "take j b"]) (auto simp: wal_contents_def take_is_prefix)
qed

interpretation wal: durable_log "wal_contents cfg c lsn" "wal_append cfg c" wal_restart "wal_fits cfg c lsn"
  for cfg c lsn
proof
  show "wal_contents cfg c lsn (wal_restart d) xs" if "wal_contents cfg c lsn d xs" for d xs
    using that by (simp add: wal_contents_def wal_restart_def log_state_def)
  show "wal_fits cfg c lsn xs b \<and> wal_fits cfg c lsn (xs @ ys) b'"
    if "wal_fits cfg c lsn xs (b @ b')" "prefix ys b" for xs b b' ys
    using that prefix_length_le [OF that(2)] by (auto simp: wal_fits_def)
qed (rule wal_append_prefix)

end
