(* ===== verification/Wal_Props.thy ===== *)
theory Wal_Props
  imports Durable_Log
begin

text \<open>
  The properties of the collection write-ahead log, each with a witness on a one-entry log where it has
  hypotheses.
\<close>

section \<open>Scans after a reclaim\<close>

lemma scan_rep_last:
  assumes "layout_ok cfg c lsn gs" "gs \<noteq> []"
  shows "ss_status (scanWalFiles cfg c env_ok visit_all (layout_fs gs)) = OK"
    and "ss_visited (scanWalFiles cfg c env_ok visit_all (layout_fs gs)) = recs_from lsn (layout_items gs)"
    and "ss_lastLsn (scanWalFiles cfg c env_ok visit_all (layout_fs gs)) = layout_next lsn gs - 1"
  using scan_layout_fs [OF assms(1)] scan_layout_fields [OF layout_okD [OF assms(1)]] assms(2)
  by (simp_all add: layout_next_def)

lemma reclaim_admitted:
  "reclaimThrough cfg c env io cov fs st = (fs', st', res) \<Longrightarrow>
     fs' = fs \<or> (\<exists>n st2. reclaim_locked cfg c env io cov fs (st\<lparr>ws_admission := n\<rparr>) = (fs', st2, res))"
  by (auto simp: reclaimThrough_def wal_admit_def split: if_splits prod.splits)

lemma reclaim_locked_empty:
  assumes "wal_rep cfg c lsn [] fs st" "reclaim_locked cfg c env_ok io cov fs st = (fs', st', res)"
  shows "fs' = fs"
proof -
  have ok: "layout_ok cfg c lsn []" and fs: "fs = layout_fs []"
    using assms(1) by (simp_all add: wal_rep_def)
  show ?thesis
    using assms(2) unfolding reclaim_locked_def fs scan_layout_fs [OF ok]
    by (auto simp: Let_def split: if_splits)
qed

lemma reclaim_suffix:
  assumes "wal_rep cfg c lsn gs fs st" "reclaimThrough cfg c env_ok io cov fs st = (fs', st', res)"
  shows "fs' = fs \<or> (\<exists>hs ys. gs = hs @ ys \<and> ys \<noteq> [] \<and> fs' = layout_fs ys
      \<and> (\<forall>r\<in>set (recs_from lsn (layout_items hs)). r_lsn r \<le> cov))"
proof (cases "fs' = fs")
  case False
  then obtain n st2 where r: "reclaim_locked cfg c env_ok io cov fs (st\<lparr>ws_admission := n\<rparr>) = (fs', st2, res)"
    using reclaim_admitted [OF assms(2)] by blast
  have rep: "wal_rep cfg c lsn gs fs (st\<lparr>ws_admission := n\<rparr>)"
    using assms(1) by simp
  obtain hs g where gs: "gs = hs @ [g]"
    using reclaim_locked_empty [OF _ r] rep False by (cases gs rule: rev_cases) auto
  obtain xs ys where xs: "hs = xs @ ys" "fs' = layout_fs (ys @ [g])"
      "\<forall>h\<in>set xs. covered_sealed (lg_id g) cov (seg_meta h)"
    using reclaim_locked_suffix [OF rep [unfolded gs] r] by blast
  have "layout_ok cfg c lsn (xs @ (ys @ [g]))"
    using assms(1) by (simp add: wal_rep_def gs xs(1))
  from covered_records [OF this xs(3)] show ?thesis
    using xs gs by (intro disjI2 exI [of _ xs] exI [of _ "ys @ [g]"]) simp
qed simp

lemma reclaim_scan:
  assumes "wal_rep cfg c lsn gs fs st" "reclaimThrough cfg c env_ok io cov fs st = (fs', st', res)"
  shows "ss_status (scanWalFiles cfg c env_ok visit_all fs') = OK
    \<and> (\<exists>k. ss_visited (scanWalFiles cfg c env_ok visit_all fs')
            = drop k (ss_visited (scanWalFiles cfg c env_ok visit_all fs))
          \<and> (\<forall>r\<in>set (take k (ss_visited (scanWalFiles cfg c env_ok visit_all fs))). r_lsn r \<le> cov))
    \<and> ss_lastLsn (scanWalFiles cfg c env_ok visit_all fs') = ss_lastLsn (scanWalFiles cfg c env_ok visit_all fs)"
  using reclaim_suffix [OF assms]
proof (elim disjE exE conjE)
  assume "fs' = fs"
  then show ?thesis
    using wal_rep_scan [OF assms(1)] by (auto intro: exI [of _ 0])
next
  fix hs ys
  assume s: "gs = hs @ ys" "ys \<noteq> []" "fs' = layout_fs ys" "\<forall>r\<in>set (recs_from lsn (layout_items hs)). r_lsn r \<le> cov"
  have ok: "layout_ok cfg c lsn (hs @ ys)" and fs: "fs = layout_fs (hs @ ys)"
    using assms(1) by (simp_all add: wal_rep_def s(1))
  have ne: "hs @ ys \<noteq> []"
    using s(2) by simp
  note new = scan_rep_last [OF layout_ok_drop [OF ok s(2)] s(2)] and old = scan_rep_last [OF ok ne]
  show ?thesis
    unfolding s(3) fs new old layout_next_append recs_from_layout
    using s(4) by (intro conjI exI [of _ "length (layout_items hs)"]) simp_all
qed

section \<open>A concrete log for the witnesses\<close>

definition wit_entry :: json where
  "wit_entry = JObj []"

definition wit_codec :: json_codec where
  "wit_codec = \<lparr>to_msgpack = (\<lambda>_. [0x80]), from_msgpack = (\<lambda>_. Some wit_entry),
     jdump = (\<lambda>_. [0x7B, 0x7D]), jparse = (\<lambda>_. Some wit_entry)\<rparr>"

definition wit_cfg :: wal_config where
  "wit_cfg = \<lparr>wc_binary = True, wc_crc = False, wc_segment_max = 4096, wc_record_max = 4096, wc_fsync = True\<rparr>"

definition wit_item :: item where
  "wit_item = (preparePendingEntry wit_cfg wit_codec INSERT wit_entry 1, 7)"

lemma wit_item_ok: "item_ok wit_cfg wit_codec wit_item"
  by (simp add: item_ok_def wit_item_def pending_ok_def preparePendingEntry_def Let_def codec_entry_ok_def
      codec_ok_def wit_codec_def wit_cfg_def wit_entry_def encodeWalPayload_def kPreparedPayloadHeaderBytes_def
      maxRecordBytes_def)

definition wit_open :: wal_state where
  "wit_open = wal_state_init\<lparr>ws_initialized := True\<rparr>"

lemma wit_rep: "wal_rep wit_cfg wit_codec 1 [] (layout_fs []) wit_open"
  by (simp add: wal_rep_def layout_ok_def layout_pre_def cursor_ok_def layout_next_def wit_open_def
      wal_state_init_def)

definition wit_short :: wal_io where
  "wit_short = io_good\<lparr>io_write := (\<lambda>_. Short 40)\<rparr>"

definition wit_segment :: layout_seg where
  "wit_segment = \<lparr>lg_id = 1, lg_first = 1, lg_ident = 0, lg_items = [wit_item]\<rparr>"

definition wit_open1 :: wal_state where
  "wit_open1 = wal_state_init\<lparr>ws_initialized := True, ws_nextLsn := 2, ws_activeSegment := 1,
     ws_activeBytes := length (seg_bytes wit_segment)\<rparr>"

lemma wit_rep1: "wal_rep wit_cfg wit_codec 1 [wit_segment] (layout_fs [wit_segment]) wit_open1"
  using wit_item_ok
  by (simp add: wal_rep_def layout_ok_def layout_pre_def cursor_ok_def layout_next_def wit_open1_def
      wal_state_init_def wit_segment_def seg_ok_def identity_fits_def)

lemma wit_append_ok:
  "\<exists>fs' st'. appendEntries wit_cfg wit_codec env_ok io_good True [wit_item] (layout_fs []) wit_open = (fs', st', Inr ())"
  by (simp add: appendEntries_def wal_admit_def recovery_bit_def append_locked_def initializeLogicalWal_def
      wit_open_def wal_state_init_def io_good_def plan_entry_def wit_item_def preparePendingEntry_def Let_def
      framePreparedRecord_def kPreparedPayloadHeaderBytes_def maxRecordBytes_def wit_cfg_def sync_chunks_def
      walIdentityHash_def wit_entry_def jvalue_def encodeWalPayload_def wit_codec_def add_chunk_def)

lemma recoverable_init: "recoverable cfg c lsn fs its \<Longrightarrow> recovers cfg c lsn fs wal_state_init its"
  by (simp add: recoverable_def)

section \<open>Append\<close>

text \<open>C1: A batch appended to an open log, whatever writes and syncs fail and wherever a write is cut:
  reopening the files recovers the records the log held before followed by a prefix of the batch, with
  consecutive LSNs and the next LSN after them; an acknowledged batch is recovered completely.\<close>

theorem wal_append_crash_safe:
  assumes "wal_rep cfg c lsn gs fs st" "list_all (item_ok cfg c) es"
    and "unat lsn + length (layout_items gs) + length es < 2 ^ 64"
    and "appendEntries cfg c env_ok io force es fs st = (fs', st', res)"
  shows "\<exists>j fs2 st2. j \<le> length es \<and> (res = Inr () \<longrightarrow> j = length es)
     \<and> initializeLogicalWal cfg c env_ok io_good fs' wal_state_init = (fs2, Inr st2)
     \<and> ss_status (scanWalFiles cfg c env_ok visit_all fs2) = OK
     \<and> ss_visited (scanWalFiles cfg c env_ok visit_all fs2) = recs_from lsn (layout_items gs @ take j es)
     \<and> ws_nextLsn st2 = lsn + of_nat (length (layout_items gs) + j)"
proof -
  have "appended cfg c lsn (layout_items gs) es (fs', st', res)"
    using appendEntries_appended [OF log_state_rep [OF assms(1)], of es io force] assms(2-4) by simp
  then obtain j where j: "j \<le> length es" "res = Inr () \<longrightarrow> j = length es"
      "recovers cfg c lsn fs' wal_state_init (layout_items gs @ take j es)"
    using recoverable_init by (fastforce simp: appended_def log_state_def)
  then obtain gs2 st2 where "initializeLogicalWal cfg c env_ok io_good fs' wal_state_init = (layout_fs gs2, Inr st2)"
      "wal_rep cfg c lsn gs2 (layout_fs gs2) st2" "layout_items gs2 = layout_items gs @ take j es"
    by (auto simp: recovers_def)
  then show ?thesis
    using j wal_rep_scan by (intro exI [of _ j] exI [of _ "layout_fs gs2"] exI [of _ st2]) auto
qed

theorem wal_append_crash_safe_witness:
  "\<exists>j fs2 st2. j \<le> length [wit_item]
     \<and> (snd (snd (appendEntries wit_cfg wit_codec env_ok wit_short True [wit_item] (layout_fs []) wit_open)) = Inr ()
         \<longrightarrow> j = length [wit_item])
     \<and> initializeLogicalWal wit_cfg wit_codec env_ok io_good
          (fst (appendEntries wit_cfg wit_codec env_ok wit_short True [wit_item] (layout_fs []) wit_open))
          wal_state_init = (fs2, Inr st2)
     \<and> ss_status (scanWalFiles wit_cfg wit_codec env_ok visit_all fs2) = OK
     \<and> ss_visited (scanWalFiles wit_cfg wit_codec env_ok visit_all fs2)
          = recs_from 1 (layout_items [] @ take j [wit_item])
     \<and> ws_nextLsn st2 = 1 + of_nat (length (layout_items []) + j)"
  by (rule wal_append_crash_safe [OF wit_rep, where es = "[wit_item]" and io = wit_short and force = True
      and st' = "fst (snd (appendEntries wit_cfg wit_codec env_ok wit_short True [wit_item] (layout_fs []) wit_open))"])
     (simp_all add: wit_item_ok)

text \<open>C3: An acknowledged append leaves the process and the files in step: the state still represents the
  files, which now hold the old records followed by exactly the batch.\<close>

theorem wal_append_keeps_rep:
  assumes "wal_rep cfg c lsn gs fs st" "list_all (item_ok cfg c) es" "es \<noteq> []"
    and "unat lsn + length (layout_items gs) + length es < 2 ^ 64"
    and "appendEntries cfg c env_ok io force es fs st = (fs', st', Inr ())"
  shows "\<exists>gs'. wal_rep cfg c lsn gs' fs' st' \<and> layout_items gs' = layout_items gs @ es"
  using appendEntries_appended [OF log_state_rep [OF assms(1)], of es io force] assms(2-5)
  by (simp add: appended_def)

theorem wal_append_keeps_rep_witness:
  "\<exists>fs' st'. appendEntries wit_cfg wit_codec env_ok io_good True [wit_item] (layout_fs []) wit_open = (fs', st', Inr ())
     \<and> (\<exists>gs'. wal_rep wit_cfg wit_codec 1 gs' fs' st' \<and> layout_items gs' = layout_items [] @ [wit_item])"
proof -
  obtain fs' st' where
    "appendEntries wit_cfg wit_codec env_ok io_good True [wit_item] (layout_fs []) wit_open = (fs', st', Inr ())"
    using wit_append_ok by blast
  then show ?thesis
    using wal_append_keeps_rep [OF wit_rep, of "[wit_item]" io_good True fs' st'] by (simp add: wit_item_ok)
qed

section \<open>Histories\<close>



lemma init_admission:
  "initializeLogicalWal cfg c env io fs st = (fs', Inr st') \<Longrightarrow> ws_admission st' = ws_admission st"
  by (auto simp: initializeLogicalWal_def Let_def split: if_splits)

text \<open>Contents are what a reader gets: a log in any state of its process recovers, when reopened, to
  files whose scan is clean and delivers exactly the contents.\<close>

theorem wal_contents_readable:
  assumes "wal_contents cfg c lsn (fs, st) its"
  shows "\<exists>fs2 st2. initializeLogicalWal cfg c env_ok io_good fs wal_state_init = (fs2, Inr st2)
     \<and> ss_status (wal_scan cfg c env_ok visit_all fs2 st2) = OK
     \<and> ss_visited (wal_scan cfg c env_ok visit_all fs2 st2) = recs_from lsn its"
proof -
  have "recovers cfg c lsn fs wal_state_init its"
    using assms recoverable_init by (simp add: wal_contents_def log_state_def)
  then obtain gs st2 where o: "initializeLogicalWal cfg c env_ok io_good fs wal_state_init = (layout_fs gs, Inr st2)"
      "wal_rep cfg c lsn gs (layout_fs gs) st2" "layout_items gs = its"
    by (auto simp: recovers_def)
  have "wal_admit st2 \<noteq> None"
    using init_admission [OF o(1)] by (simp add: wal_admit_def wal_state_init_def recovery_bit_def)
  then show ?thesis
    using o wal_rep_scan [OF o(2)] by (auto simp: wal_scan_def)
qed

theorem wal_contents_readable_witness:
  "\<exists>fs2 st2. initializeLogicalWal wit_cfg wit_codec env_ok io_good (layout_fs [wit_segment]) wal_state_init = (fs2, Inr st2)
     \<and> ss_status (wal_scan wit_cfg wit_codec env_ok visit_all fs2 st2) = OK
     \<and> ss_visited (wal_scan wit_cfg wit_codec env_ok visit_all fs2 st2) = recs_from 1 (layout_items [wit_segment])"
  by (rule wal_contents_readable [where st = wit_open1])
     (use log_state_rep [OF wit_rep1] in \<open>simp add: wal_contents_def\<close>)

section \<open>Reclaim\<close>

text \<open>C4: Reclaiming a checkpointed prefix, even when a removal or sync fails on the way, only removes
  records the checkpoint covers: the scan stays clean, delivers a suffix of the records it delivered
  before, every removed record has an LSN of at most the covered one, and the last LSN is unchanged, so
  no LSN is ever handed out twice.\<close>

theorem wal_reclaim_keeps_uncovered:
  assumes "wal_rep cfg c lsn gs fs st"
    and "reclaimThrough cfg c env_ok io covered fs st = (fs', st', res)"
  shows "ss_status (scanWalFiles cfg c env_ok visit_all fs') = OK
    \<and> (\<exists>k. ss_visited (scanWalFiles cfg c env_ok visit_all fs')
            = drop k (ss_visited (scanWalFiles cfg c env_ok visit_all fs))
          \<and> (\<forall>r\<in>set (take k (ss_visited (scanWalFiles cfg c env_ok visit_all fs))). r_lsn r \<le> covered))
    \<and> ss_lastLsn (scanWalFiles cfg c env_ok visit_all fs') = ss_lastLsn (scanWalFiles cfg c env_ok visit_all fs)"
  using reclaim_scan [OF assms] .

theorem wal_reclaim_keeps_uncovered_witness:
  "ss_status (scanWalFiles wit_cfg wit_codec env_ok visit_all
     (fst (reclaimThrough wit_cfg wit_codec env_ok io_good 1 (layout_fs [wit_segment]) wit_open1))) = OK"
  using wal_reclaim_keeps_uncovered [OF wit_rep1, of io_good 1]
  by (cases "reclaimThrough wit_cfg wit_codec env_ok io_good 1 (layout_fs [wit_segment]) wit_open1") simp

section \<open>Scans of arbitrary bytes\<close>

text \<open>C5: Whatever bytes the files hold and whatever the visitor answers, a scan delivers records with
  strictly increasing, non-zero LSNs, none above the reported last LSN, and counts them.\<close>

theorem wal_scan_lsns_increase:
  "sorted_wrt (<) (map r_lsn (ss_visited (scanWalFiles cfg c env vis fs)))
   \<and> list_all (\<lambda>r. 0 < r_lsn r \<and> r_lsn r \<le> ss_lastLsn (scanWalFiles cfg c env vis fs))
       (ss_visited (scanWalFiles cfg c env vis fs))
   \<and> ss_records (scanWalFiles cfg c env vis fs) = length (ss_visited (scanWalFiles cfg c env vis fs))"
  using scanWalFiles_inv [of cfg c env vis fs] by (simp add: scan_inv_def list_all_iff)

section \<open>Exclusion of recovery\<close>

text \<open>While an exclusive recovery runs, every other operation is refused and changes nothing; while an
  operation is admitted, a recovery is refused; admission and release, and recovery begin and end,
  restore the admission word.\<close>

theorem wal_recovery_exclusive:
  assumes "recovery_begin st = Inr st1" "es \<noteq> []"
  shows "ws_admission st = 0 \<and> recovery_end st1 = st
    \<and> appendEntries cfg c env io force es fs st1 = (fs, st1, Inl WRecoveryInProgress)
    \<and> reclaimThrough cfg c env io covered fs st1 = (fs, st1, Inl WRecoveryInProgress)
    \<and> wal_clear io fs st1 = (fs, st1, Inl WRecoveryInProgress)
    \<and> wal_scan cfg c env vis fs st1 = refused RecoveryInProgress
    \<and> recovery_begin st1 = Inl RecoveryInProgress
    \<and> (\<exists>st2. wal_admit st = Some st2 \<and> recovery_begin st2 = Inl RecoveryRequiresIdle \<and> wal_release st2 = st)"
proof -
  have a: "ws_admission st = 0" "st1 = st\<lparr>ws_admission := recovery_bit\<rparr>"
    using assms(1) by (auto simp: recovery_begin_def split: if_splits)
  have "wal_admit st1 = None"
    by (simp add: a wal_admit_def recovery_bit_def)
  moreover have "recovery_end st1 = st"
    using a by (simp add: recovery_end_def)
  moreover have "recovery_begin st1 = Inl RecoveryInProgress"
    by (simp add: a recovery_begin_def recovery_bit_def)
  moreover have "wal_admit st = Some (st\<lparr>ws_admission := 1\<rparr>)" "wal_release (st\<lparr>ws_admission := 1\<rparr>) = st"
    using a(1) by (simp_all add: wal_admit_def recovery_bit_def wal_release_def)
  moreover have "recovery_begin (st\<lparr>ws_admission := 1\<rparr>) = Inl RecoveryRequiresIdle"
    by (simp add: recovery_begin_def recovery_bit_def)
  ultimately show ?thesis
    using a(1) assms(2)
    by (auto simp: appendEntries_def reclaimThrough_def wal_clear_def wal_scan_def)
qed

theorem wal_recovery_exclusive_witness:
  "wal_clear io_good (layout_fs []) (wit_open\<lparr>ws_admission := recovery_bit\<rparr>)
     = (layout_fs [], wit_open\<lparr>ws_admission := recovery_bit\<rparr>, Inl WRecoveryInProgress)"
proof -
  have "recovery_begin wit_open = Inr (wit_open\<lparr>ws_admission := recovery_bit\<rparr>)"
    by (simp add: recovery_begin_def wit_open_def wal_state_init_def)
  from wal_recovery_exclusive [OF this, of "[wit_item]"] show ?thesis
    by simp
qed

section \<open>Checksums and records\<close>

text \<open>C6: The table-driven CRC of the write-ahead log detects every change of a single byte of a payload:
  a prepared record whose encoded entry has one byte replaced no longer decodes.\<close>

theorem wal_payload_byte_flip_detected:
  assumes "p_hasCrc p" "p_crc p = crc32 (p_payload p)" "p_payload p = xs @ a # ys" "a \<noteq> b"
  shows "decodePreparedPayload c (prepared_payload (p\<lparr>p_payload := xs @ b # ys\<rparr>) lsn ts) = None"
proof -
  have "crc32 (xs @ b # ys) \<noteq> crc32 (xs @ a # ys)"
    using crc32_single_byte [of b a xs ys] assms(4) by simp
  then show ?thesis
    using assms(1-3) prepared_payload_fields [of "p\<lparr>p_payload := xs @ b # ys\<rparr>" lsn ts]
    by (simp add: decodePreparedPayload_def codec_simps)
qed

theorem wal_payload_byte_flip_detected_witness:
  "decodePreparedPayload wit_codec
     (prepared_payload (fst wit_item\<lparr>p_hasCrc := True, p_crc := crc32 [0x80], p_payload := [0x81]\<rparr>) 1 7) = None"
  using wal_payload_byte_flip_detected
      [of "fst wit_item\<lparr>p_hasCrc := True, p_crc := crc32 [0x80], p_payload := [0x80]\<rparr>" "[]" "0x80" "[]" "0x81"
        wit_codec 1 7]
  by simp

text \<open>A structured WAL record survives its JSON form unchanged, and a record whose checksum was
  computed verifies.\<close>

theorem wal_record_roundtrip:
  "fromJson (toJson (computeChecksum c r)) = Some (computeChecksum c r) \<and> verifyChecksum c (computeChecksum c r)"
  by (simp add: fromJson_toJson verifyChecksum_computeChecksum)

text \<open>The checksum of the structured WAL records is not a CRC-32: the table of \<open>wal_integrity.cpp\<close> has
  only 208 of the 256 entries, the remaining ones are zero, so different one-byte texts share a checksum
  and such a corruption passes the verification.\<close>

theorem wal_record_checksum_collides:
  "computeCRC32Internal [0] = computeCRC32Internal [1]"
  by code_simp

end
