(* ===== verification/Raft_Log.thy ===== *)
theory Raft_Log
  imports Json Checksum
begin

unbundle bit_operations_syntax

text \<open>
  The replicated log file \<open>raft/log.bin\<close> (\<open>engine/src/raft_core.cpp\<close>): the payload codec, the framing of
  records, the loops that read, compact, trim and truncate the file, the range reader used for catch-up
  and the index-to-term lookup.  Records are little-endian, as the code writes the native integers of its
  targets.  LZ4 is a parameter.
\<close>

section \<open>Payload codec\<close>

record lz4 =
  lz_bound :: "nat \<Rightarrow> int"
  lz_compress :: "bytes \<Rightarrow> bytes option"
  lz_decompress :: "bytes \<Rightarrow> nat \<Rightarrow> bytes option"

definition kMaxRaftPayloadBytes :: nat where
  "kMaxRaftPayloadBytes = 64 * 1024 * 1024"

definition kRaftFrameReserveBytes :: nat where
  "kRaftFrameReserveBytes = 64 * 1024"

definition kRaftMsgpackMagic :: bytes where
  "kRaftMsgpackMagic = bytes_of ''PDBR2''"

definition kRaftRecordMagic :: bytes where
  "kRaftRecordMagic = bytes_of ''PDBR3''"

definition kRaftRecordHeaderBytes :: nat where
  "kRaftRecordHeaderBytes = 14"

definition encodeRaftPayload :: "json_codec \<Rightarrow> json \<Rightarrow> bytes" where
  "encodeRaftPayload c value = kRaftMsgpackMagic @ to_msgpack c value"

text \<open>The compressed form is kept only when it is shorter than the packed one.\<close>

definition encodeRaftLogPayload :: "json_codec \<Rightarrow> lz4 \<Rightarrow> json \<Rightarrow> bytes option" where
  "encodeRaftLogPayload c z value =
     (let packed = to_msgpack c value
      in if packed = [] \<or> kMaxRaftPayloadBytes - kRaftFrameReserveBytes < length packed
            \<or> 2 ^ 31 - 1 < length packed
         then None
         else
           let (codec, encoded) =
                 (if lz_bound z (length packed) > 0
                  then case lz_compress z packed of
                         Some zipped \<Rightarrow> if zipped \<noteq> [] \<and> length zipped < length packed then (1, zipped) else (0, packed)
                       | None \<Rightarrow> (0, packed)
                  else (0, packed))
           in Some (kRaftRecordMagic @ [codec] @ le_bytes 4 (of_nat (length packed) :: u32)
                      @ le_bytes 4 (crc32 packed) @ encoded))"

definition decodeRaftRecord :: "json_codec \<Rightarrow> lz4 \<Rightarrow> bytes \<Rightarrow> json option" where
  "decodeRaftRecord c z payload =
     (if length payload < kRaftRecordHeaderBytes then None
      else
        let codec = payload ! 5;
            plainSize = unat (le_word (take 4 (drop 6 payload)) :: u32);
            expectedCrc = (le_word (take 4 (drop 10 payload)) :: u32);
            encoded = drop kRaftRecordHeaderBytes payload
        in if plainSize = 0 \<or> kMaxRaftPayloadBytes < plainSize \<or> 2 ^ 31 - 1 < plainSize then None
           else
             case (if codec = 0 then (if length encoded \<noteq> plainSize then None else Some encoded)
                   else if codec = 1
                   then (if encoded = [] \<or> 2 ^ 31 - 1 < length encoded then None
                         else case lz_decompress z encoded plainSize of
                                Some plain \<Rightarrow> if length plain \<noteq> plainSize then None else Some plain
                              | None \<Rightarrow> None)
                   else None) of
               None \<Rightarrow> None
             | Some plain \<Rightarrow> if crc32 plain \<noteq> expectedCrc then None else from_msgpack c plain)"

definition decodeRaftPayload :: "json_codec \<Rightarrow> lz4 \<Rightarrow> bytes \<Rightarrow> json option" where
  "decodeRaftPayload c z payload =
     (if take 5 payload = kRaftRecordMagic then decodeRaftRecord c z payload
      else if take 5 payload = kRaftMsgpackMagic then from_msgpack c (drop 5 payload)
      else jparse c payload)"

definition isRaftNoopEntry :: "json \<Rightarrow> bool option" where
  "isRaftNoopEntry entry =
     (case jvalue get_str entry ''type'' [] of
        None \<Rightarrow> None
      | Some t \<Rightarrow> if t = ''raft_noop'' then Some True
                  else map_option (\<lambda>a. a = ''raft_noop'') (jvalue get_str entry ''action'' []))"

text \<open>\<open>fitRaftEntriesFrame\<close>: halve the batch until its frame fits; \<open>None\<close> when nothing fits.\<close>

function fit_entries :: "(json list \<Rightarrow> u64 list \<Rightarrow> nat) \<Rightarrow> json list \<Rightarrow> u64 list \<Rightarrow> (json list \<times> u64 list) option" where
  "fit_entries frameSize entries terms =
     (if entries = [] then None
      else if frameSize entries terms \<le> kMaxRaftPayloadBytes - kRaftFrameReserveBytes then Some (entries, terms)
      else if length entries = 1 then None
      else let n = (length entries + 1) div 2 in fit_entries frameSize (take n entries) (take n terms))"
  by pat_completeness auto
termination
proof (relation "measure (\<lambda>(_, es, _). length es)", goal_cases)
  case (2 frameSize entries terms n)
  then have "2 \<le> length entries"
    by (cases entries) (auto simp: Suc_le_eq)
  then show ?case
    using 2 by simp
qed simp

declare fit_entries.simps [simp del]

section \<open>Records\<close>

record raft_rec =
  rr_index :: u64
  rr_term :: u64
  rr_payload :: bytes

definition raft_enc :: "raft_rec \<Rightarrow> bytes" where
  "raft_enc r = le_bytes 8 (rr_index r) @ le_bytes 8 (rr_term r)
     @ le_bytes 4 (of_nat (length (rr_payload r)) :: u32) @ rr_payload r"

definition appendRaftRecordBytes :: "bytes \<Rightarrow> u64 \<Rightarrow> u64 \<Rightarrow> bytes \<Rightarrow> bytes option" where
  "appendRaftRecordBytes bs index term payload =
     (if payload = [] \<or> kMaxRaftPayloadBytes < length payload then None
      else Some (bs @ raft_enc \<lparr>rr_index = index, rr_term = term, rr_payload = payload\<rparr>))"

text \<open>The header of the record at the start of a byte sequence.\<close>

definition rec_index :: "bytes \<Rightarrow> u64" where
  "rec_index bs = le_word (take 8 bs)"

definition rec_term :: "bytes \<Rightarrow> u64" where
  "rec_term bs = le_word (take 8 (drop 8 bs))"

definition rec_size :: "bytes \<Rightarrow> nat" where
  "rec_size bs = unat (le_word (take 4 (drop 16 bs)) :: u32)"

text \<open>The reading loop shared by compaction, trimming and truncation: a record cut short ends it.\<close>

function scan_log :: "bytes \<Rightarrow> raft_rec list" where
  "scan_log bs =
     (if length bs < 20 \<or> length (drop 20 bs) < rec_size bs then []
      else \<lparr>rr_index = rec_index bs, rr_term = rec_term bs, rr_payload = take (rec_size bs) (drop 20 bs)\<rparr>
             # scan_log (drop (20 + rec_size bs) bs))"
  by pat_completeness auto
termination
  by (relation "measure length") auto

declare scan_log.simps [simp del]

definition write_log :: "raft_rec list \<Rightarrow> bytes" where
  "write_log rs = concat (map raft_enc rs)"

definition compactRaftLog :: "u64 \<Rightarrow> bytes \<Rightarrow> bytes" where
  "compactRaftLog lastIncludedIndex bs = write_log (filter (\<lambda>r. lastIncludedIndex < rr_index r) (scan_log bs))"

definition trimRaftLog :: "u64 \<Rightarrow> bytes \<Rightarrow> bytes" where
  "trimRaftLog maxIndex bs = write_log (takeWhile (\<lambda>r. rr_index r \<le> maxIndex) (scan_log bs))"

text \<open>The JSON-lines copy rebuilt after a compaction.\<close>

definition rebuildJsonl :: "bytes \<Rightarrow> bytes" where
  "rebuildJsonl bs = concat (map (\<lambda>r. rr_payload r @ [10]) (scan_log bs))"

section \<open>Laws of the file\<close>

definition rec_fits :: "raft_rec \<Rightarrow> bool" where
  "rec_fits r \<longleftrightarrow> length (rr_payload r) < 2 ^ 32"

lemma length_raft_enc [simp, len_simps]: "length (raft_enc r) = 20 + length (rr_payload r)"
  by (simp add: raft_enc_def)

lemma raft_enc_fields:
  assumes "rec_fits r"
  shows "rec_index (raft_enc r @ bs) = rr_index r" "rec_term (raft_enc r @ bs) = rr_term r"
    and "rec_size (raft_enc r @ bs) = length (rr_payload r)"
    and "drop 20 (raft_enc r @ bs) = rr_payload r @ bs"
  using assms by (simp_all add: raft_enc_def rec_index_def rec_term_def rec_size_def codec_simps rec_fits_def
      unat_of_nat)

lemma scan_log_enc:
  assumes "rec_fits r"
  shows "scan_log (raft_enc r @ bs) = r # scan_log bs"
proof -
  have "drop (20 + length (rr_payload r)) (raft_enc r @ bs) = bs"
    by simp
  moreover have "length (raft_enc r @ bs) = 20 + length (rr_payload r) + length bs"
    by simp
  ultimately show ?thesis
    by (subst scan_log.simps) (simp only: raft_enc_fields [OF assms], simp)
qed

lemma scan_log_short: "length bs < 20 \<Longrightarrow> scan_log bs = []"
  by (subst scan_log.simps) simp

lemma scan_log_write: "list_all rec_fits rs \<Longrightarrow> scan_log (write_log rs @ bs) = rs @ scan_log bs"
  by (induction rs) (simp_all add: write_log_def scan_log_enc)

lemma scan_log_fits: "list_all rec_fits (scan_log bs)"
proof (induction bs rule: scan_log.induct)
  case (1 bs)
  have "rec_size bs < 2 ^ 32"
    using unsigned_less [of "le_word (take 4 (drop 16 bs)) :: u32", where 'a = nat] by (simp add: rec_size_def)
  then have "rec_fits \<lparr>rr_index = i, rr_term = t, rr_payload = take (rec_size bs) (drop 20 bs)\<rparr>" for i t
    by (simp add: rec_fits_def)
  then show ?case
    using 1 by (subst scan_log.simps) simp
qed

lemma scan_write_log: "list_all rec_fits rs \<Longrightarrow> scan_log (write_log rs) = rs"
  using scan_log_write [of rs "[]"] by (simp add: scan_log_short)

lemma scan_log_compact: "scan_log (compactRaftLog n bs) = filter (\<lambda>r. n < rr_index r) (scan_log bs)"
  using scan_log_fits [of bs] by (simp add: compactRaftLog_def scan_write_log list_all_iff)

lemma scan_log_trim: "scan_log (trimRaftLog n bs) = takeWhile (\<lambda>r. rr_index r \<le> n) (scan_log bs)"
proof -
  have "list_all rec_fits (takeWhile (\<lambda>r. rr_index r \<le> n) (scan_log bs))"
    using scan_log_fits [of bs] by (auto simp: list_all_iff dest: set_takeWhileD)
  then show ?thesis
    by (simp add: trimRaftLog_def scan_write_log)
qed

text \<open>A record cut anywhere is not read, and neither is anything written behind the cut.\<close>

lemma scan_log_torn:
  assumes "rec_fits r" "k < length (raft_enc r)"
  shows "scan_log (take k (raft_enc r)) = []"
proof (cases "k < 20")
  case True
  then show ?thesis
    by (intro scan_log_short) simp
next
  case False
  have "take k (raft_enc r) = take 20 (raft_enc r) @ take (k - 20) (drop 20 (raft_enc r))"
    using False by (metis le_add_diff_inverse not_less take_add)
  then have "take 4 (drop 16 (take k (raft_enc r))) = take 4 (drop 16 (raft_enc r))"
    using False by (simp add: drop_take)
  then have "rec_size (take k (raft_enc r)) = length (rr_payload r)"
    using raft_enc_fields(3) [OF assms(1), of "[]"] by (simp add: rec_size_def)
  then show ?thesis
    using assms(2) False by (subst scan_log.simps) simp
qed

end
