(* ===== verification/Raft_Apply.thy ===== *)
theory Raft_Apply
  imports Raft_Log
begin

text \<open>
  The single ordered applier \<open>applyCommittedEntries\<close> and the progress counters it advances
  (\<open>engine/src/raft_core.cpp\<close>).  The state machine the entries are applied to is a parameter: a step that
  fails (storage, visibility check or exception) returns \<open>None\<close>.  Time enters only through the batch time
  limit, a predicate on the number of collected entries.
\<close>

section \<open>Progress\<close>

record progress =
  pg_commitIndex :: u64
  pg_lastApplied :: u64
  pg_lastAppliedOffset :: nat

definition advanceLastApplied :: "bool \<Rightarrow> u64 \<Rightarrow> progress \<Rightarrow> progress \<times> bool" where
  "advanceLastApplied allowSnapshotJump newIndex p =
     (let oldIndex = pg_lastApplied p
      in if newIndex < oldIndex then (p, False)
         else if newIndex = oldIndex then (p, False)
         else if \<not> allowSnapshotJump \<and> newIndex \<noteq> oldIndex + 1 then (p, False)
         else if pg_commitIndex p < newIndex then (p, False)
         else (p\<lparr>pg_lastApplied := newIndex\<rparr>, True))"

section \<open>Collecting a batch\<close>

record apply_limits =
  al_maxEntries :: nat
  al_maxBytes :: nat
  al_timeUp :: "nat \<Rightarrow> bool"

record batch =
  bt_entries :: "(u64 \<times> json \<times> nat) list"
  bt_bytes :: nat
  bt_newOffset :: nat
  bt_expected :: u64
  bt_decodeFailed :: bool
  bt_gap :: bool

definition batch_full :: "apply_limits \<Rightarrow> batch \<Rightarrow> bool" where
  "batch_full lims b \<longleftrightarrow> bt_entries b \<noteq> []
     \<and> (al_maxEntries lims \<le> length (bt_entries b) \<or> al_maxBytes lims \<le> bt_bytes b
        \<or> al_timeUp lims (length (bt_entries b)))"

text \<open>\<open>scanFrom\<close>: a false result asks for a restart from the beginning of the file.\<close>

function scanFrom ::
    "(bytes \<Rightarrow> json option) \<Rightarrow> apply_limits \<Rightarrow> u64 \<Rightarrow> u64 \<Rightarrow> bool \<Rightarrow> nat \<Rightarrow> nat \<Rightarrow> bytes \<Rightarrow> bool \<Rightarrow> batch
       \<Rightarrow> batch \<times> bool" where
  "scanFrom dec lims startIndex upToIndex allowRestart offset pos bs firstEntry b =
     (if batch_full lims b then (b, True)
      else if length bs < 20 then (b, True)
      else if firstEntry \<and> offset \<noteq> 0 \<and> rec_index bs \<noteq> startIndex \<and> allowRestart then (b, False)
      else if rec_size bs = 0 \<or> 64 * 1024 * 1024 < rec_size bs
      then (if offset \<noteq> 0 \<and> allowRestart then (b, False)
            else (b\<lparr>bt_decodeFailed := True, bt_newOffset := pos\<rparr>, True))
      else if length (drop 20 bs) < rec_size bs then (b, True)
      else
        let idx = rec_index bs; entryEnd = pos + 20 + rec_size bs;
            rest = drop (20 + rec_size bs) bs
        in if idx < startIndex
           then scanFrom dec lims startIndex upToIndex allowRestart offset entryEnd rest False
                  (b\<lparr>bt_newOffset := entryEnd\<rparr>)
           else if upToIndex < idx then (b\<lparr>bt_newOffset := pos\<rparr>, True)
           else if idx \<noteq> bt_expected b
           then (if allowRestart then (b, False) else (b\<lparr>bt_gap := True, bt_newOffset := pos\<rparr>, True))
           else case dec (take (rec_size bs) (drop 20 bs)) of
                  None \<Rightarrow> (b\<lparr>bt_decodeFailed := True, bt_newOffset := pos\<rparr>, True)
                | Some payload \<Rightarrow>
                   scanFrom dec lims startIndex upToIndex allowRestart offset entryEnd rest False
                     (b\<lparr>bt_entries := bt_entries b @ [(idx, payload, entryEnd)],
                        bt_bytes := bt_bytes b + rec_size bs, bt_expected := bt_expected b + 1,
                        bt_newOffset := entryEnd\<rparr>))"
  by pat_completeness auto
termination
  by (relation "measure (\<lambda>(_, _, _, _, _, _, _, bs, _, _). length bs)") auto

declare scanFrom.simps [simp del]

definition empty_batch :: "u64 \<Rightarrow> nat \<Rightarrow> batch" where
  "empty_batch startIndex offset = \<lparr>bt_entries = [], bt_bytes = 0, bt_newOffset = offset,
     bt_expected = startIndex, bt_decodeFailed = False, bt_gap = False\<rparr>"

text \<open>The second attempt starts over with an empty batch, but the byte count of the first one stays.\<close>

definition collect ::
    "(bytes \<Rightarrow> json option) \<Rightarrow> apply_limits \<Rightarrow> u64 \<Rightarrow> u64 \<Rightarrow> nat \<Rightarrow> bytes \<Rightarrow> batch" where
  "collect dec lims startIndex upToIndex hint bs =
     (let offset = (if length bs < hint then 0 else hint)
      in case scanFrom dec lims startIndex upToIndex True offset offset (drop offset bs) True
                (empty_batch startIndex offset) of
           (b, True) \<Rightarrow> b
         | (b, False) \<Rightarrow>
             fst (scanFrom dec lims startIndex upToIndex False 0 0 bs True
                    (b\<lparr>bt_entries := [], bt_newOffset := 0, bt_expected := startIndex\<rparr>)))"

section \<open>Applying a batch\<close>

text \<open>The loop over the batch: a failing step stops it with the progress made so far.\<close>

fun apply_batch ::
    "(u64 \<Rightarrow> json \<Rightarrow> 's \<Rightarrow> 's option) \<Rightarrow> (u64 \<times> json \<times> nat) list \<Rightarrow> progress \<Rightarrow> 's
       \<Rightarrow> progress \<times> 's \<times> bool" where
  "apply_batch step [] p s = (p, s, True)"
| "apply_batch step ((index, payload, endOffset) # es) p s =
     (if index \<noteq> pg_lastApplied p + 1 then (p, s, False)
      else case isRaftNoopEntry payload of
             None \<Rightarrow> (p, s, False)
           | Some noop \<Rightarrow>
              (case (if noop then Some s else step index payload s) of
                 None \<Rightarrow> (p, s, False)
               | Some s1 \<Rightarrow>
                  (case advanceLastApplied False index p of
                     (p1, False) \<Rightarrow> (p1, s1, False)
                   | (p1, True) \<Rightarrow> apply_batch step es (p1\<lparr>pg_lastAppliedOffset := endOffset\<rparr>) s1)))"

definition applyCommittedEntries ::
    "(bytes \<Rightarrow> json option) \<Rightarrow> (u64 \<Rightarrow> json \<Rightarrow> 's \<Rightarrow> 's option) \<Rightarrow> apply_limits \<Rightarrow> bytes option \<Rightarrow> u64
       \<Rightarrow> progress \<Rightarrow> 's \<Rightarrow> progress \<times> 's \<times> bool" where
  "applyCommittedEntries dec step lims file upToIndex p s =
     (if upToIndex = 0 then (p, s, True)
      else if pg_commitIndex p < upToIndex then (p, s, False)
      else
        let startIndex = pg_lastApplied p + 1
        in if upToIndex < startIndex then (p, s, True)
           else case file of
                  None \<Rightarrow> (p, s, False)
                | Some bs \<Rightarrow>
                   (let b = collect dec lims startIndex upToIndex (pg_lastAppliedOffset p) bs
                    in if bt_entries b = []
                       then (p\<lparr>pg_lastAppliedOffset := bt_newOffset b\<rparr>, s, upToIndex \<le> pg_lastApplied p)
                       else case apply_batch step (bt_entries b) p s of
                              (p1, s1, False) \<Rightarrow> (p1, s1, False)
                            | (p1, s1, True) \<Rightarrow> (p1, s1, upToIndex \<le> pg_lastApplied p1)))"

section \<open>Laws of the applier\<close>

text \<open>The batch always holds consecutive indices from the first unapplied one, none beyond the target,
  whatever the file and the remembered offset hold.\<close>

definition run_batch_ok :: "u64 \<Rightarrow> u64 \<Rightarrow> batch \<Rightarrow> bool" where
  "run_batch_ok startIndex upToIndex b \<longleftrightarrow>
     map fst (bt_entries b) = map (\<lambda>k. startIndex + of_nat k) [0..<length (bt_entries b)]
     \<and> bt_expected b = startIndex + of_nat (length (bt_entries b))
     \<and> list_all (\<lambda>e. startIndex \<le> fst e \<and> fst e \<le> upToIndex) (bt_entries b)"

lemma batch_ok_snoc:
  assumes "run_batch_ok startIndex upToIndex b" "idx = bt_expected b" "startIndex \<le> idx" "idx \<le> upToIndex"
  shows "run_batch_ok startIndex upToIndex
    (b\<lparr>bt_entries := bt_entries b @ [(idx, payload, e)], bt_bytes := n, bt_expected := bt_expected b + 1,
       bt_newOffset := m\<rparr>)"
  using assms by (simp add: run_batch_ok_def algebra_simps)

lemma batch_ok_fields [simp]:
  "run_batch_ok s u (b\<lparr>bt_newOffset := n\<rparr>) = run_batch_ok s u b"
  "run_batch_ok s u (b\<lparr>bt_decodeFailed := d\<rparr>) = run_batch_ok s u b"
  "run_batch_ok s u (b\<lparr>bt_gap := d\<rparr>) = run_batch_ok s u b"
  by (simp_all add: run_batch_ok_def)

lemma scanFrom_batch_ok:
  assumes "run_batch_ok startIndex upToIndex b"
  shows "run_batch_ok startIndex upToIndex (fst (scanFrom dec lims startIndex upToIndex allow offset pos bs first b))"
  using assms
proof (induction dec lims startIndex upToIndex allow offset pos bs first b rule: scanFrom.induct)
  case (1 dec lims startIndex upToIndex allow offset pos bs first b)
  have skip: "run_batch_ok startIndex upToIndex (fst (scanFrom dec lims startIndex upToIndex allow offset
      (pos + 20 + rec_size bs) (drop (20 + rec_size bs) bs) False (b\<lparr>bt_newOffset := pos + 20 + rec_size bs\<rparr>)))"
    if "\<not> batch_full lims b" "\<not> length bs < 20" "\<not> (first \<and> offset \<noteq> 0 \<and> rec_index bs \<noteq> startIndex \<and> allow)"
      "\<not> (rec_size bs = 0 \<or> 64 * 1024 * 1024 < rec_size bs)" "\<not> length (drop 20 bs) < rec_size bs"
      "rec_index bs < startIndex"
    by (rule "1.IH"(1) [OF that(1-5) refl refl refl that(6)]) (simp add: "1.prems")
  have one: "run_batch_ok startIndex upToIndex (fst (scanFrom dec lims startIndex upToIndex allow offset
      (pos + 20 + rec_size bs) (drop (20 + rec_size bs) bs) False
      (b\<lparr>bt_entries := bt_entries b @ [(rec_index bs, payload, pos + 20 + rec_size bs)],
         bt_bytes := bt_bytes b + rec_size bs, bt_expected := bt_expected b + 1,
         bt_newOffset := pos + 20 + rec_size bs\<rparr>)))"
    if "\<not> batch_full lims b" "\<not> length bs < 20" "\<not> (first \<and> offset \<noteq> 0 \<and> rec_index bs \<noteq> startIndex \<and> allow)"
      "\<not> (rec_size bs = 0 \<or> 64 * 1024 * 1024 < rec_size bs)" "\<not> length (drop 20 bs) < rec_size bs"
      "\<not> rec_index bs < startIndex" "\<not> upToIndex < rec_index bs" "\<not> rec_index bs \<noteq> bt_expected b"
      "dec (take (rec_size bs) (drop 20 bs)) = Some payload" for payload
    by (rule "1.IH"(2) [OF that(1-5) refl refl refl that(6-9)], rule batch_ok_snoc [OF "1.prems"])
       (use that in \<open>simp_all add: not_less\<close>)
  show ?case
    using "1.prems" skip one by (subst scanFrom.simps) (auto simp: Let_def split: option.split)
qed

lemma collect_batch_ok: "run_batch_ok startIndex upToIndex (collect dec lims startIndex upToIndex hint bs)"
proof -
  have start: "run_batch_ok startIndex upToIndex (empty_batch startIndex n)" for n
    by (simp add: run_batch_ok_def empty_batch_def)
  have again: "run_batch_ok startIndex upToIndex (b\<lparr>bt_entries := [], bt_newOffset := 0, bt_expected := startIndex\<rparr>)" for b
    by (simp add: run_batch_ok_def)
  define offset where "offset = (if length bs < hint then 0 else hint)"
  obtain b ok where b: "scanFrom dec lims startIndex upToIndex True offset offset (drop offset bs) True
      (empty_batch startIndex offset) = (b, ok)"
    by fastforce
  have "run_batch_ok startIndex upToIndex b"
    using scanFrom_batch_ok [OF start, of dec lims True offset offset "drop offset bs" True offset] b by simp
  then show ?thesis
    using b scanFrom_batch_ok [OF again]
    by (cases ok) (simp_all add: collect_def Let_def flip: offset_def)
qed

text \<open>The state machine driven over the entries of a batch.\<close>

fun run_entries :: "(u64 \<Rightarrow> json \<Rightarrow> 's \<Rightarrow> 's option) \<Rightarrow> (u64 \<times> json \<times> nat) list \<Rightarrow> 's \<Rightarrow> 's option" where
  "run_entries step [] s = Some s"
| "run_entries step ((index, payload, _) # es) s =
     (case isRaftNoopEntry payload of
        None \<Rightarrow> None
      | Some noop \<Rightarrow> (case (if noop then Some s else step index payload s) of
                         None \<Rightarrow> None | Some s1 \<Rightarrow> run_entries step es s1))"

text \<open>What a loop over a batch of consecutive indices does: some prefix of it is applied, the counter is
  the index of the last applied entry, and success means the whole batch.\<close>

lemma apply_batch_prefix:
  assumes "apply_batch step es p s = (p', s', ok)"
    and "map fst es = map (\<lambda>k. pg_lastApplied p + 1 + of_nat k) [0..<length es]"
    and "list_all (\<lambda>e. fst e \<le> pg_commitIndex p) es"
    and "unat (pg_lastApplied p) + length es < 2 ^ 64"
  shows "\<exists>k\<le>length es. run_entries step (take k es) s = Some s'
     \<and> pg_lastApplied p' = pg_lastApplied p + of_nat k \<and> pg_commitIndex p' = pg_commitIndex p
     \<and> (ok \<longrightarrow> k = length es)"
  using assms
proof (induction es arbitrary: p s)
  case Nil
  then show ?case by auto
next
  case (Cons e es)
  obtain index payload off where e: "e = (index, payload, off)"
    by (cases e)
  have upt: "[0..<length (e # es)] = 0 # map Suc [0..<length es]"
    by (simp add: upt_conv_Cons map_Suc_upt del: upt_Suc)
  have idx: "index = pg_lastApplied p + 1" "index \<le> pg_commitIndex p"
    and rest: "map fst es = map (\<lambda>k. index + 1 + of_nat k) [0..<length es]"
    using Cons.prems(2,3) unfolding upt by (auto simp: e algebra_simps)
  have un: "unat index = unat (pg_lastApplied p) + 1"
    using Cons.prems(4) idx(1) by (simp add: unat_word_ariths)
  then have adv: "advanceLastApplied False index p = (p\<lparr>pg_lastApplied := index\<rparr>, True)"
    using idx by (simp add: advanceLastApplied_def word_less_nat_alt word_le_nat_alt)
  show ?case
  proof (cases "case isRaftNoopEntry payload of None \<Rightarrow> None | Some noop \<Rightarrow> if noop then Some s else step index payload s")
    case None
    then show ?thesis
      using Cons.prems(1) idx(1) by (intro exI [of _ 0]) (auto simp: e split: option.splits if_splits)
  next
    case (Some s1)
    then obtain noop where noop: "isRaftNoopEntry payload = Some noop" "(if noop then Some s else step index payload s) = Some s1"
      by (auto split: option.splits)
    let ?p = "p\<lparr>pg_lastApplied := index, pg_lastAppliedOffset := off\<rparr>"
    have "apply_batch step es ?p s1 = (p', s', ok)"
      using Cons.prems(1) noop adv unfolding e idx(1) [symmetric] apply_batch.simps by (simp add: idx(1) [symmetric])
    from Cons.IH [OF this] obtain k where k: "k \<le> length es" "run_entries step (take k es) s1 = Some s'"
        "pg_lastApplied p' = index + of_nat k" "pg_commitIndex p' = pg_commitIndex p" "ok \<longrightarrow> k = length es"
      using rest Cons.prems(3,4) un by auto
    moreover have "run_entries step (take (Suc k) (e # es)) s = Some s'"
      using noop k(2) by (simp add: e)
    ultimately show ?thesis
      using idx(1) by (intro exI [of _ "Suc k"]) (simp add: algebra_simps)
  qed
qed

lemma consecutive_bound:
  fixes startIndex upToIndex :: u64
  assumes "map fst es = map (\<lambda>k. startIndex + of_nat k) [0..<length es]" "list_all (\<lambda>e. startIndex \<le> fst e \<and> fst e \<le> upToIndex) es"
    and "startIndex \<noteq> 0" "startIndex \<le> upToIndex"
  shows "unat startIndex + length es \<le> unat upToIndex + 1"
proof -
  have le: "startIndex \<le> startIndex + of_nat k" "startIndex + of_nat k \<le> upToIndex" if "k < length es" for k
    using assms(1,2) that by (metis (no_types, lifting) length_map list_all_length map_nth nth_map nth_upt add_0)+
  have "unat startIndex + k \<le> unat upToIndex + 1" if "k \<le> length es" for k
    using that
  proof (induction k)
    case 0
    then show ?case
      using assms(4) by (simp add: word_le_nat_alt)
  next
    case (Suc k)
    have IH: "unat startIndex + k \<le> unat upToIndex + 1"
      using Suc by simp
    show ?case
    proof (cases "unat startIndex + k < 2 ^ 64")
      case True
      then have "unat (startIndex + of_nat k) = unat startIndex + k"
        by (simp add: unat_word_ariths unat_of_nat)
      then show ?thesis
        using le(2) [of k] Suc.prems by (simp add: word_le_nat_alt)
    next
      case False
      have top: "unat upToIndex < 2 ^ 64"
        using unsigned_less [of upToIndex, where 'a = nat] by simp
      then have eq: "unat startIndex + k = 2 ^ 64"
        using IH False by linarith
      have "unat (startIndex + of_nat k) = (unat startIndex + k) mod 2 ^ 64"
        by (simp add: unat_word_ariths unat_of_nat mod_simps)
      then have "startIndex + of_nat k = 0"
        using eq by (simp add: unat_eq_zero)
      then show ?thesis
        using le(1) [of k] Suc.prems assms(3) by simp
    qed
  qed
  then show ?thesis
    by blast
qed

text \<open>A whole call: whatever the log, the hint and the limits, it applies a run of consecutive entries
  that ends where the counter ends, never beyond the commit index.\<close>

lemma applyCommittedEntries_run:
  assumes call: "applyCommittedEntries dec step lims file upToIndex p s = (p', s', ok)"
    and inv: "pg_lastApplied p \<le> pg_commitIndex p" "unat (pg_commitIndex p) < 2 ^ 64 - 1"
  shows "\<exists>es. run_entries step es s = Some s'
     \<and> map fst es = map (\<lambda>k. pg_lastApplied p + 1 + of_nat k) [0..<length es]
     \<and> pg_lastApplied p' = pg_lastApplied p + of_nat (length es) \<and> pg_commitIndex p' = pg_commitIndex p
     \<and> pg_lastApplied p \<le> pg_lastApplied p' \<and> pg_lastApplied p' \<le> pg_commitIndex p'
     \<and> (ok \<longrightarrow> upToIndex \<le> pg_lastApplied p')"
proof -
  let ?start = "pg_lastApplied p + 1"
  have "unat (pg_lastApplied p) + 1 < 2 ^ 64"
    using inv by (simp add: word_le_nat_alt)
  then have start: "unat ?start = unat (pg_lastApplied p) + 1"
    by (simp add: unat_word_ariths)
  have none: ?thesis if "s' = s" "pg_lastApplied p' = pg_lastApplied p" "pg_commitIndex p' = pg_commitIndex p"
    "ok \<longrightarrow> upToIndex \<le> pg_lastApplied p"
    using that inv by (intro exI [of _ "[]"]) simp
  show ?thesis
  proof (cases "upToIndex = 0 \<or> pg_commitIndex p < upToIndex \<or> upToIndex < ?start \<or> file = None")
    case True
    then show ?thesis
      using call none start
      by (auto simp: applyCommittedEntries_def Let_def word_less_nat_alt word_le_nat_alt split: if_splits)
  next
    case False
    then obtain bs where bs: "file = Some bs"
      by auto
    let ?b = "collect dec lims ?start upToIndex (pg_lastAppliedOffset p) bs"
    have bok: "run_batch_ok ?start upToIndex ?b"
      by (rule collect_batch_ok)
    show ?thesis
    proof (cases "bt_entries ?b = []")
      case True
      then show ?thesis
        using call False bs none by (auto simp: applyCommittedEntries_def Let_def)
    next
      case ne: False
      obtain p1 s1 ok1 where ab: "apply_batch step (bt_entries ?b) p s = (p1, s1, ok1)"
        by (cases "apply_batch step (bt_entries ?b) p s")
      have res: "p' = p1" "s' = s1" "ok \<longrightarrow> upToIndex \<le> pg_lastApplied p1"
        using call False bs ne ab by (auto simp: applyCommittedEntries_def Let_def split: bool.splits)
      let ?es = "bt_entries ?b"
      have es: "map fst ?es = map (\<lambda>k. ?start + of_nat k) [0..<length ?es]"
          "list_all (\<lambda>e. ?start \<le> fst e \<and> fst e \<le> upToIndex) ?es"
        using bok by (simp_all add: run_batch_ok_def)
      have "?start \<noteq> 0" "?start \<le> upToIndex"
        using start False by (auto simp: not_less unat_eq_zero)
      from consecutive_bound [OF es this]
      have "unat ?start + length ?es \<le> unat upToIndex + 1" .
      then have room: "unat (pg_lastApplied p) + length ?es \<le> unat (pg_commitIndex p)"
        using start False by (auto simp: not_less word_le_nat_alt)
      then have room': "unat (pg_lastApplied p) + length ?es < 2 ^ 64"
        using unsigned_less [of "pg_commitIndex p", where 'a = nat] by simp
      have "list_all (\<lambda>e. fst e \<le> pg_commitIndex p) ?es"
        using es(2) False by (auto simp: list_all_iff not_less intro: order_trans)
      from apply_batch_prefix [OF ab es(1) this room']
      obtain k where k: "k \<le> length ?es" "run_entries step (take k ?es) s = Some s1"
          "pg_lastApplied p1 = pg_lastApplied p + of_nat k" "pg_commitIndex p1 = pg_commitIndex p"
        by blast
      have "unat (pg_lastApplied p + of_nat k) = unat (pg_lastApplied p) + k"
        using k(1) room' by (simp add: unat_word_ariths unat_of_nat)
      then have "pg_lastApplied p \<le> pg_lastApplied p1" "pg_lastApplied p1 \<le> pg_commitIndex p1"
        using k room by (simp_all add: word_le_nat_alt)
      moreover have "map fst (take k ?es) = map (\<lambda>k. ?start + of_nat k) [0..<length (take k ?es)]"
        using es(1) k(1) by (simp add: take_map [symmetric] take_map min_def)
      ultimately show ?thesis
        using k res by (intro exI [of _ "take k ?es"]) (simp add: min_def)
    qed
  qed
qed

end
