(* ===== verification/Raft_Node.thy ===== *)
theory Raft_Node
  imports Raft_Apply
begin

text \<open>
  One node of the consensus group (\<open>RaftCore\<close> in \<open>engine/src/raft_core.cpp\<close>): its volatile and persisted
  state, the persistence of term, vote and progress, and the handlers of vote requests, heartbeats and
  term observations, with the candidate's side of an election.  Requests carry the decoded fields of the
  JSON messages.  A write of the consensus file succeeds, fails, or fails after the rename with the outcome
  on disk unknown.  The clock is an argument; a handler returns the node and its reply, no reply being
  the exception path.
\<close>

section \<open>State\<close>

record consensus_file =
  cf_term :: u64
  cf_vote :: string
  cf_commit :: u64
  cf_applied :: u64

record raft_node =
  rn_id :: string
  rn_port :: int
  rn_peers :: "string list"
  rn_initialized :: bool
  rn_currentTerm :: u64
  rn_votedFor :: string
  rn_leader :: bool
  rn_leadershipReady :: bool
  rn_leaderId :: string
  rn_recoveryComplete :: bool
  rn_divergence :: bool
  rn_log :: "raft_rec list"
  rn_lastIndex :: u64
  rn_lastEntryTerm :: u64
  rn_lastSnapshotIndex :: u64
  rn_lastSnapshotTerm :: u64
  rn_commitIndex :: u64
  rn_lastApplied :: u64
  rn_lastHeartbeat :: u64
  rn_peerHeartbeat :: "(string \<times> u64) list"
  rn_matchIndex :: "(string \<times> u64) list"
  rn_nextIndex :: "(string \<times> u64) list"
  rn_persisted :: consensus_file
  rn_uncertain :: bool
  rn_disk :: consensus_file

section \<open>Cluster configuration\<close>

definition peerNodeId :: "string \<Rightarrow> string" where
  "peerNodeId peer =
     (let pre = takeWhile (\<lambda>c. c \<noteq> CHR ''@'') peer
      in if pre = [] \<or> length pre = length peer then [] else pre)"

definition peerEndpoint :: "string \<Rightarrow> string" where
  "peerEndpoint peer =
     (let pre = takeWhile (\<lambda>c. c \<noteq> CHR ''@'') peer
      in if length pre = length peer then peer else drop (length pre + 1) peer)"

text \<open>The split at the last colon.\<close>

definition host_part :: "string \<Rightarrow> string option" where
  "host_part endpoint =
     (let suf = takeWhile (\<lambda>c. c \<noteq> CHR '':'') (rev endpoint)
      in if length suf = length endpoint then None
         else Some (take (length endpoint - length suf - 1) endpoint))"

definition port_part :: "string \<Rightarrow> string" where
  "port_part endpoint = rev (takeWhile (\<lambda>c. c \<noteq> CHR '':'') (rev endpoint))"

text \<open>\<open>std::stoi\<close> on a port: out of range or no digits is the caught exception.\<close>

definition stoi :: "string \<Rightarrow> int option" where
  "stoi s =
     (let s1 = dropWhile is_space s;
          neg = (case s1 of c # _ \<Rightarrow> c = CHR ''-'' | [] \<Rightarrow> False);
          s2 = (case s1 of c # r \<Rightarrow> if c = CHR ''-'' \<or> c = CHR ''+'' then r else s1 | [] \<Rightarrow> []);
          ds = takeWhile is_digit s2;
          v = (if neg then - int (dec_val ds) else int (dec_val ds))
      in if ds = [] \<or> v < - (2 ^ 31) \<or> 2 ^ 31 - 1 < v then None else Some v)"

definition isSelfPeer :: "raft_node \<Rightarrow> string \<Rightarrow> bool" where
  "isSelfPeer n peer =
     (if peerNodeId peer \<noteq> [] \<and> peerNodeId peer = rn_id n then True
      else
        let endpoint = peerEndpoint peer
        in case host_part endpoint of
             None \<Rightarrow> False
           | Some host \<Rightarrow>
              (case stoi (port_part endpoint) of
                 None \<Rightarrow> False
               | Some port \<Rightarrow> port = rn_port n
                   \<and> (host = ''127.0.0.1'' \<or> host = ''localhost'' \<or> host = ''::1'')))"

definition remote_peers :: "raft_node \<Rightarrow> string list" where
  "remote_peers n = filter (\<lambda>p. \<not> isSelfPeer n p) (rn_peers n)"

definition clusterNodeCount :: "raft_node \<Rightarrow> nat" where
  "clusterNodeCount n = length (remote_peers n) + 1"

definition quorumSize :: "raft_node \<Rightarrow> nat" where
  "quorumSize n = clusterNodeCount n div 2 + 1"

section \<open>Liveness of the group\<close>

definition hasQuorum :: "nat \<Rightarrow> u64 \<Rightarrow> raft_node \<Rightarrow> bool" where
  "hasQuorum electionTimeoutMs now n =
     (if \<not> rn_initialized n \<or> \<not> rn_leader n then False
      else
        let reachable = length (filter (\<lambda>p. case map_of (rn_peerHeartbeat n) p of
               None \<Rightarrow> False
             | Some t \<Rightarrow> (if t < now then unat (now - t) else 0) \<le> electionTimeoutMs * 2) (remote_peers n))
        in quorumSize n \<le> 1 + reachable)"

definition isLeaseValid :: "u64 \<Rightarrow> u64 \<Rightarrow> raft_node \<Rightarrow> bool" where
  "isLeaseValid leaseMs now n =
     (if \<not> rn_initialized n \<or> \<not> rn_leader n then False
      else
        let recent = 1 + length (filter (\<lambda>p. case map_of (rn_peerHeartbeat n) p of
               None \<Rightarrow> False | Some t \<Rightarrow> t \<le> now \<and> now - t \<le> leaseMs) (remote_peers n))
        in clusterNodeCount n div 2 + 1 \<le> recent)"

definition millisSinceLastHeartbeat :: "u64 \<Rightarrow> raft_node \<Rightarrow> u64" where
  "millisSinceLastHeartbeat now n =
     (if rn_lastHeartbeat n = 0 \<or> now < rn_lastHeartbeat n then - 1 else now - rn_lastHeartbeat n)"

section \<open>The quorum index\<close>

definition reachedCountForIndex :: "u64 \<Rightarrow> raft_node \<Rightarrow> nat" where
  "reachedCountForIndex targetIndex n = 1 + length (filter (\<lambda>(_, m). targetIndex \<le> m) (rn_matchIndex n))"

definition computeQuorumIndex :: "raft_node \<Rightarrow> u64" where
  "computeQuorumIndex n =
     (let idxs = rev (sort (rn_lastIndex n # map snd (rn_matchIndex n)))
      in idxs ! ((length idxs - 1) div 2))"

section \<open>Persistence\<close>

datatype persist_outcome = PersistOk | PersistFail | PersistUncertain bool

text \<open>\<open>persistConsensusState\<close>: the election intent is remembered even when the write fails; progress only
  moves forward; a false result is the exception.  After an uncertain publication the node fences itself.\<close>

definition persistConsensusState ::
    "persist_outcome \<Rightarrow> u64 \<Rightarrow> string \<Rightarrow> u64 \<Rightarrow> u64 \<Rightarrow> bool \<Rightarrow> raft_node \<Rightarrow> raft_node \<times> bool" where
  "persistConsensusState out term vote commit applied updateElectionState n =
     (if commit < applied then (n, False)
      else if rn_uncertain n then (n, False)
      else
        let p = rn_persisted n;
            newerElection = (updateElectionState \<and> cf_term p \<le> term);
            p1 = (if newerElection then p\<lparr>cf_term := term, cf_vote := vote\<rparr> else p);
            nextCommit = max (cf_commit p) commit; nextApplied = max (cf_applied p) applied;
            rec = p1\<lparr>cf_commit := nextCommit, cf_applied := nextApplied\<rparr>;
            n1 = n\<lparr>rn_persisted := p1\<rparr>
        in if nextCommit < nextApplied then (n1, False)
           else case out of
                  PersistOk \<Rightarrow> (n\<lparr>rn_persisted := rec, rn_disk := rec\<rparr>, True)
                | PersistFail \<Rightarrow> (n1, False)
                | PersistUncertain durable \<Rightarrow>
                    (n1\<lparr>rn_uncertain := True, rn_leader := False, rn_leadershipReady := False,
                        rn_recoveryComplete := False,
                        rn_disk := (if durable then rec else rn_disk n)\<rparr>, False))"

definition persistElection :: "persist_outcome \<Rightarrow> raft_node \<Rightarrow> raft_node \<times> bool" where
  "persistElection out n =
     persistConsensusState out (rn_currentTerm n) (rn_votedFor n) (rn_commitIndex n) (rn_lastApplied n) True n"

definition persistProgress :: "persist_outcome \<Rightarrow> raft_node \<Rightarrow> raft_node \<times> bool" where
  "persistProgress out n =
     persistConsensusState out (rn_currentTerm n) (rn_votedFor n) (rn_commitIndex n) (rn_lastApplied n) False n"

definition persistAppliedProgress :: "persist_outcome \<Rightarrow> u64 \<Rightarrow> raft_node \<Rightarrow> raft_node \<times> bool" where
  "persistAppliedProgress out appliedIndex n =
     (if rn_commitIndex n < appliedIndex then (n, False)
      else persistConsensusState out (rn_currentTerm n) (rn_votedFor n) (rn_commitIndex n) appliedIndex False n)"

text \<open>A restart reads the consensus file; everything else of the election state is volatile.\<close>

definition loadPersistedState :: "raft_node \<Rightarrow> raft_node" where
  "loadPersistedState n =
     n\<lparr>rn_currentTerm := cf_term (rn_disk n), rn_votedFor := cf_vote (rn_disk n),
       rn_commitIndex := cf_commit (rn_disk n), rn_lastApplied := cf_applied (rn_disk n),
       rn_persisted := rn_disk n, rn_uncertain := False, rn_leader := False, rn_leadershipReady := False,
       rn_leaderId := [], rn_lastHeartbeat := 0, rn_peerHeartbeat := [], rn_matchIndex := [],
       rn_nextIndex := [], rn_recoveryComplete := False\<rparr>"

section \<open>Terms\<close>

definition adoptLeaderTermLocked :: "persist_outcome \<Rightarrow> u64 \<Rightarrow> raft_node \<Rightarrow> raft_node \<times> bool" where
  "adoptLeaderTermLocked out term n =
     (if term < rn_currentTerm n then (n, True)
      else
        let n1 = n\<lparr>rn_leader := False\<rparr>
        in if rn_currentTerm n < term
           then persistElection out (n1\<lparr>rn_currentTerm := term, rn_votedFor := []\<rparr>)
           else (n1, True))"

definition observeHigherTerm :: "persist_outcome \<Rightarrow> u64 \<Rightarrow> raft_node \<Rightarrow> raft_node \<times> bool" where
  "observeHigherTerm out newTerm n =
     (if newTerm \<le> rn_currentTerm n then (n, True)
      else persistElection out
             (n\<lparr>rn_currentTerm := newTerm, rn_leader := False, rn_leadershipReady := False, rn_votedFor := []\<rparr>))"

section \<open>Votes\<close>

record vote_request =
  vq_term :: u64
  vq_candidate :: string
  vq_lastLogIndex :: u64
  vq_lastLogTerm :: u64

datatype vote_reason = Granted | Denied | LeaderLeaseActive | FreshLeaderHeartbeat | RecoveryIncomplete

record vote_reply =
  vp_term :: u64
  vp_granted :: bool
  vp_reason :: vote_reason

definition candidateUpToDate :: "vote_request \<Rightarrow> raft_node \<Rightarrow> bool" where
  "candidateUpToDate q n \<longleftrightarrow>
     rn_lastEntryTerm n < vq_lastLogTerm q
     \<or> (vq_lastLogTerm q = rn_lastEntryTerm n \<and> rn_lastIndex n \<le> vq_lastLogIndex q)"

text \<open>The part of the handler under the election lock, once the two fences are passed.\<close>

definition consider_vote ::
    "persist_outcome \<Rightarrow> u64 \<Rightarrow> vote_request \<Rightarrow> raft_node \<Rightarrow> raft_node \<times> vote_reply option" where
  "consider_vote out now q n =
     (let deny = (\<lambda>r. Some \<lparr>vp_term = rn_currentTerm n, vp_granted = False, vp_reason = r\<rparr>)
      in if \<not> rn_recoveryComplete n then (n, deny RecoveryIncomplete)
         else if vq_term q = rn_currentTerm n \<and> vq_candidate q \<noteq> []
                 \<and> (rn_votedFor n = [] \<or> rn_votedFor n = vq_candidate q)
                 \<and> candidateUpToDate q n
         then (case persistElection out (n\<lparr>rn_votedFor := vq_candidate q\<rparr>) of
                 (n1, False) \<Rightarrow> (n1, None)
               | (n1, True) \<Rightarrow> (n1\<lparr>rn_lastHeartbeat := now\<rparr>,
                   Some \<lparr>vp_term = rn_currentTerm n, vp_granted = True, vp_reason = Granted\<rparr>))
         else (n, deny Denied))"

definition handle_vote_request ::
    "nat \<Rightarrow> u64 \<Rightarrow> persist_outcome \<times> persist_outcome \<Rightarrow> u64 \<Rightarrow> vote_request \<Rightarrow> raft_node
       \<Rightarrow> raft_node \<times> vote_reply option" where
  "handle_vote_request electionTimeoutMs voteFenceMs outs now q n =
     (let leaderLeaseActive = (rn_leader n \<and> hasQuorum electionTimeoutMs now n);
          freshLeaderHeartbeat = (\<not> rn_leader n \<and> rn_leaderId n \<noteq> []
                                   \<and> millisSinceLastHeartbeat now n < voteFenceMs);
          deny = (\<lambda>r. Some \<lparr>vp_term = rn_currentTerm n, vp_granted = False, vp_reason = r\<rparr>)
      in if leaderLeaseActive \<and> vq_candidate q \<noteq> rn_id n then (n, deny LeaderLeaseActive)
         else if freshLeaderHeartbeat \<and> vq_candidate q \<noteq> rn_leaderId n then (n, deny FreshLeaderHeartbeat)
         else if rn_currentTerm n < vq_term q
         then (case persistElection (fst outs)
                     (n\<lparr>rn_currentTerm := vq_term q, rn_leader := False, rn_votedFor := []\<rparr>) of
                 (n1, False) \<Rightarrow> (n1, None)
               | (n1, True) \<Rightarrow> consider_vote (snd outs) now q n1)
         else consider_vote (snd outs) now q n)"

section \<open>Elections\<close>

record election =
  el_term :: u64
  el_lastIndex :: u64
  el_lastTerm :: u64
  el_needed :: nat
  el_votes :: "string list"

text \<open>\<open>attemptElection\<close> up to the release of the lock: a new term, the vote for itself, the snapshot of its
  log position and of the quorum.\<close>

definition begin_election ::
    "persist_outcome \<times> persist_outcome \<Rightarrow> raft_node \<Rightarrow> raft_node \<times> election option" where
  "begin_election outs n =
     (if \<not> rn_recoveryComplete n then (n, None)
      else case persistElection (fst outs) (n\<lparr>rn_currentTerm := rn_currentTerm n + 1\<rparr>) of
             (n1, False) \<Rightarrow> (n1, None)
           | (n1, True) \<Rightarrow>
              (case persistElection (snd outs) (n1\<lparr>rn_votedFor := rn_id n\<rparr>) of
                 (n2, False) \<Rightarrow> (n2, None)
               | (n2, True) \<Rightarrow>
                  (n2\<lparr>rn_leader := False\<rparr>,
                   Some \<lparr>el_term = rn_currentTerm n2, el_lastIndex = rn_lastIndex n2,
                         el_lastTerm = rn_lastEntryTerm n2, el_needed = quorumSize n2, el_votes = []\<rparr>)))"

definition vote_request_of :: "raft_node \<Rightarrow> election \<Rightarrow> vote_request" where
  "vote_request_of n e = \<lparr>vq_term = el_term e, vq_candidate = rn_id n, vq_lastLogIndex = el_lastIndex e,
     vq_lastLogTerm = el_lastTerm e\<rparr>"

text \<open>A worker counts its peer only on an explicit grant for this very term.\<close>

definition count_vote :: "string \<Rightarrow> vote_reply \<Rightarrow> election \<Rightarrow> election" where
  "count_vote peer r e =
     (if vp_granted r \<and> vp_term r = el_term e then e\<lparr>el_votes := peer # el_votes e\<rparr> else e)"

text \<open>The end of \<open>attemptElection\<close>: the self vote counts, the term must still be current, and an isolated
  node of a larger cluster does not win.\<close>

definition finish_election :: "bool \<Rightarrow> election \<Rightarrow> raft_node \<Rightarrow> raft_node \<times> bool" where
  "finish_election contacted e n =
     (let voteCount = length (el_votes e) + 1
      in if rn_currentTerm n \<noteq> el_term e \<or> rn_votedFor n \<noteq> rn_id n then (n, False)
         else
           let n1 = (if el_needed e \<le> voteCount then n\<lparr>rn_leaderId := rn_id n\<rparr> else n);
               won = (el_needed e \<le> voteCount)
           in if won \<and> \<not> contacted \<and> 1 < clusterNodeCount n then (n1, False) else (n1, won))"

text \<open>The monitor loop after a won election: replication indices and the leader flag, outside the lock.\<close>

definition become_leader :: "raft_node \<Rightarrow> raft_node" where
  "become_leader n =
     n\<lparr>rn_nextIndex := map (\<lambda>p. (p, rn_lastIndex n + 1)) (remote_peers n),
       rn_matchIndex := map (\<lambda>p. (p, 0)) (remote_peers n),
       rn_leadershipReady := False, rn_leader := True\<rparr>"

end
