(* ===== verification/Raft_Election.thy ===== *)
theory Raft_Election
  imports Raft_Node
begin

text \<open>
  What the election state of one node remembers.  A grant \<open>(v, t, c)\<close> is the vote of \<open>v\<close> for \<open>c\<close> in term
  \<open>t\<close>, recorded when the reply leaves.  The invariant ties every grant to the node's term and vote in
  memory, to the persisted intent, and to the file a restart reads, so that neither a failed write nor a
  crash can make a node vote twice in a term.
\<close>

section \<open>Frame\<close>

definition same_config :: "raft_node \<Rightarrow> raft_node \<Rightarrow> bool" where
  "same_config n n' \<longleftrightarrow> rn_id n' = rn_id n \<and> rn_port n' = rn_port n \<and> rn_peers n' = rn_peers n"

definition same_election :: "raft_node \<Rightarrow> raft_node \<Rightarrow> bool" where
  "same_election n n' \<longleftrightarrow> same_config n n' \<and> rn_currentTerm n' = rn_currentTerm n
     \<and> rn_votedFor n' = rn_votedFor n \<and> rn_persisted n' = rn_persisted n \<and> rn_disk n' = rn_disk n
     \<and> (rn_leader n' \<longrightarrow> rn_leader n)"

lemma same_config_refl [simp]: "same_config n n"
  by (simp add: same_config_def)

lemma same_config_trans: "same_config a b \<Longrightarrow> same_config b c \<Longrightarrow> same_config a c"
  by (simp add: same_config_def)

lemma remote_peers_config: "same_config n n' \<Longrightarrow> remote_peers n' = remote_peers n"
proof -
  assume c: "same_config n n'"
  then have "isSelfPeer n' = isSelfPeer n"
    by (intro ext) (auto simp: isSelfPeer_def same_config_def Let_def split: option.splits)
  then show ?thesis
    using c by (simp add: remote_peers_def same_config_def)
qed

lemma quorumSize_config: "same_config n n' \<Longrightarrow> quorumSize n' = quorumSize n"
  by (simp add: quorumSize_def clusterNodeCount_def remote_peers_config)

section \<open>The invariant of a node\<close>

type_synonym grants = "(string \<times> u64 \<times> string) set"

definition mem_ok :: "grants \<Rightarrow> string \<Rightarrow> raft_node \<Rightarrow> bool" where
  "mem_ok G v n \<longleftrightarrow>
     (\<forall>t c. (v, t, c) \<in> G \<longrightarrow> t \<le> rn_currentTerm n \<and> (t = rn_currentTerm n \<longrightarrow> rn_votedFor n = c))"

definition file_ok :: "grants \<Rightarrow> string \<Rightarrow> consensus_file \<Rightarrow> bool" where
  "file_ok G v f \<longleftrightarrow> (\<forall>t c. (v, t, c) \<in> G \<longrightarrow> t \<le> cf_term f \<and> (t = cf_term f \<longrightarrow> cf_vote f = c))"

definition node_inv :: "grants \<Rightarrow> string \<Rightarrow> raft_node \<Rightarrow> bool" where
  "node_inv G v n \<longleftrightarrow> mem_ok G v n \<and> file_ok G v (rn_persisted n) \<and> file_ok G v (rn_disk n)
     \<and> cf_term (rn_persisted n) \<le> rn_currentTerm n \<and> cf_term (rn_disk n) \<le> cf_term (rn_persisted n)"

lemma file_ok_fields [simp]:
  "file_ok G v (f\<lparr>cf_commit := a, cf_applied := b\<rparr>) = file_ok G v f"
  by (simp add: file_ok_def)

lemma file_ok_mem: "mem_ok G v n \<Longrightarrow> file_ok G v (f\<lparr>cf_term := rn_currentTerm n, cf_vote := rn_votedFor n\<rparr>)"
  by (simp add: file_ok_def mem_ok_def)

lemma node_inv_local: "same_election n n' \<Longrightarrow> node_inv G v n \<Longrightarrow> node_inv G v n'"
  by (simp add: node_inv_def mem_ok_def same_election_def)

lemma persist_fields:
  assumes "persistConsensusState out t vote cm ap upd n = (n', ok)"
  shows "same_config n n'" "rn_currentTerm n' = rn_currentTerm n" "rn_votedFor n' = rn_votedFor n"
    "rn_leader n' \<longrightarrow> rn_leader n" "rn_lastIndex n' = rn_lastIndex n" "rn_lastEntryTerm n' = rn_lastEntryTerm n"
    "ok \<Longrightarrow> rn_recoveryComplete n' = rn_recoveryComplete n"
  using assms
  by (auto simp: persistConsensusState_def same_config_def Let_def split: if_splits persist_outcome.splits)

lemma persistElection_inv:
  assumes "persistElection out n = (n', ok)" "node_inv G v n"
  shows "node_inv G v n'"
proof -
  have m: "mem_ok G v n'"
    using assms persist_fields(2,3) [OF assms(1) [unfolded persistElection_def]] by (simp add: node_inv_def mem_ok_def)
  have "file_ok G v (rn_persisted n') \<and> file_ok G v (rn_disk n')
      \<and> cf_term (rn_persisted n') \<le> rn_currentTerm n' \<and> cf_term (rn_disk n') \<le> cf_term (rn_persisted n')"
    using assms file_ok_mem [of G v n]
    by (auto simp: persistElection_def persistConsensusState_def node_inv_def Let_def
        split: if_splits persist_outcome.splits)
  then show ?thesis
    using m by (simp add: node_inv_def)
qed

lemma persistProgress_inv:
  assumes "persistConsensusState out t vote cm ap False n = (n', ok)" "node_inv G v n"
  shows "node_inv G v n'"
proof -
  have m: "mem_ok G v n'"
    using assms persist_fields(2,3) [OF assms(1)] by (simp add: node_inv_def mem_ok_def)
  have "file_ok G v (rn_persisted n') \<and> file_ok G v (rn_disk n')
      \<and> cf_term (rn_persisted n') \<le> rn_currentTerm n' \<and> cf_term (rn_disk n') \<le> cf_term (rn_persisted n')"
    using assms
    by (auto simp: persistConsensusState_def node_inv_def Let_def split: if_splits persist_outcome.splits)
  then show ?thesis
    using m by (simp add: node_inv_def)
qed

text \<open>A successful write of the election state is on disk.\<close>

lemma persistElection_done:
  assumes "persistElection out n = (n', True)" "cf_term (rn_persisted n) \<le> rn_currentTerm n"
  shows "cf_term (rn_persisted n') = rn_currentTerm n \<and> cf_vote (rn_persisted n') = rn_votedFor n
     \<and> rn_disk n' = rn_persisted n'"
  using assms
  by (auto simp: persistElection_def persistConsensusState_def Let_def split: if_splits persist_outcome.splits)

lemma node_inv_raise:
  assumes "node_inv G v n" "rn_currentTerm n < t"
    and "rn_currentTerm n' = t" "rn_persisted n' = rn_persisted n" "rn_disk n' = rn_disk n"
  shows "node_inv G v n'"
proof -
  have "t' < t" if "(v, t', c) \<in> G" for t' c
    using assms(1,2) that by (auto simp: node_inv_def mem_ok_def intro: le_less_trans)
  then have "mem_ok G v n'"
    using assms(3) by (auto simp: mem_ok_def intro: less_imp_le)
  then show ?thesis
    using assms by (auto simp: node_inv_def)
qed

lemma node_inv_leader [simp]:
  "node_inv G v (n\<lparr>rn_leader := b\<rparr>) = node_inv G v n"
  "node_inv G v (n\<lparr>rn_leadershipReady := b\<rparr>) = node_inv G v n"
  "node_inv G v (n\<lparr>rn_lastHeartbeat := h\<rparr>) = node_inv G v n"
  "node_inv G v (n\<lparr>rn_leaderId := l\<rparr>) = node_inv G v n"
  by (simp_all add: node_inv_def mem_ok_def)

lemma loadPersistedState_inv: "node_inv G v n \<Longrightarrow> node_inv G v (loadPersistedState n)"
  by (auto simp: node_inv_def mem_ok_def file_ok_def loadPersistedState_def)

section \<open>Transitions of a node\<close>

text \<open>What a node may do to its election state outside elections: adopt the term of a leader, learn a
  higher term, write its progress, or change anything else.\<close>

inductive node_step :: "raft_node \<Rightarrow> raft_node \<Rightarrow> bool" where
  raise: "rn_currentTerm n < rn_currentTerm n1 \<Longrightarrow> same_config n n1 \<Longrightarrow> rn_votedFor n1 = [] \<Longrightarrow> \<not> rn_leader n1
      \<Longrightarrow> rn_persisted n1 = rn_persisted n \<Longrightarrow> rn_disk n1 = rn_disk n
      \<Longrightarrow> persistElection out n1 = (n2, ok) \<Longrightarrow> node_step n n2"
| progress: "persistConsensusState out t vote cm ap False n = (n1, ok) \<Longrightarrow> node_step n n1"
| other: "same_election n n1 \<Longrightarrow> node_step n n1"

lemma node_step_inv:
  assumes "node_step n n'" "node_inv G v n"
  shows "node_inv G v n' \<and> same_config n n'"
  using assms
proof (induction rule: node_step.induct)
  case (raise n n1 out n2 ok)
  have "node_inv G v n1"
    by (rule node_inv_raise [OF raise(8) raise(1)]) (use raise in simp_all)
  then show ?case
    using persistElection_inv [OF raise(7)] persist_fields(1) [OF raise(7) [unfolded persistElection_def]] raise(2)
    by (auto intro: same_config_trans)
next
  case (progress out t vote cm ap n n1 ok)
  then show ?case
    using persistProgress_inv persist_fields(1) by blast
next
  case (other n n1)
  then show ?case
    using node_inv_local by (auto simp: same_election_def)
qed

lemma adopt_node_step:
  assumes "adoptLeaderTermLocked out t n = (n', ok)"
  shows "node_step n n'"
proof (cases "rn_currentTerm n < t")
  case True
  then have "\<not> t < rn_currentTerm n"
    by simp
  then have "persistElection out (n\<lparr>rn_leader := False, rn_currentTerm := t, rn_votedFor := []\<rparr>) = (n', ok)"
    using assms True by (simp add: adoptLeaderTermLocked_def Let_def)
  then show ?thesis
    by (rule node_step.raise [rotated 6]) (simp_all add: True same_config_def)
next
  case False
  then show ?thesis
    using assms
    by (auto simp: adoptLeaderTermLocked_def same_election_def same_config_def Let_def intro!: node_step.other
        split: if_splits)
qed

lemma observe_node_step:
  assumes "observeHigherTerm out t n = (n', ok)"
  shows "node_step n n'"
proof (cases "t \<le> rn_currentTerm n")
  case False
  then have "persistElection out (n\<lparr>rn_currentTerm := t, rn_leader := False, rn_leadershipReady := False,
      rn_votedFor := []\<rparr>) = (n', ok)"
    using assms by (simp add: observeHigherTerm_def)
  then show ?thesis
    by (rule node_step.raise [rotated 6]) (use False in \<open>simp_all add: same_config_def not_le\<close>)
next
  case True
  then show ?thesis
    using assms by (auto simp: observeHigherTerm_def same_election_def intro!: node_step.other)
qed

section \<open>Granting\<close>

definition functional_grants :: "grants \<Rightarrow> bool" where
  "functional_grants G \<longleftrightarrow> (\<forall>v t c c'. (v, t, c) \<in> G \<longrightarrow> (v, t, c') \<in> G \<longrightarrow> c = c') \<and> (\<forall>v t. (v, t, []) \<notin> G)"

text \<open>A node that sets its vote from empty or the same candidate and writes it may record the grant.\<close>

lemma grant_inv_term:
  assumes inv: "node_inv G v n" and fn: "functional_grants G" and c: "c \<noteq> []"
    and cur: "\<And>c'. (v, rn_currentTerm n, c') \<in> G \<Longrightarrow> c' = c"
    and p: "persistElection out (n\<lparr>rn_votedFor := c\<rparr>) = (n', ok)"
  shows "node_inv G v n'"
    and "ok \<Longrightarrow> node_inv (insert (v, rn_currentTerm n, c) G) v n'
           \<and> functional_grants (insert (v, rn_currentTerm n, c) G)"
proof -
  have inv1: "node_inv G v (n\<lparr>rn_votedFor := c\<rparr>)"
    using inv cur by (auto simp: node_inv_def mem_ok_def)
  show inv': "node_inv G v n'"
    by (rule persistElection_inv [OF p inv1])
  assume ok
  have d: "cf_term (rn_persisted n') = rn_currentTerm n \<and> cf_vote (rn_persisted n') = c \<and> rn_disk n' = rn_persisted n'"
    using persistElection_done [of out "n\<lparr>rn_votedFor := c\<rparr>" n'] p inv \<open>ok\<close> by (simp add: node_inv_def)
  have m: "rn_currentTerm n' = rn_currentTerm n" "rn_votedFor n' = c"
    using persist_fields(2,3) [OF p [unfolded persistElection_def]] by simp_all
  show "node_inv (insert (v, rn_currentTerm n, c) G) v n' \<and> functional_grants (insert (v, rn_currentTerm n, c) G)"
    using inv' d m cur fn c by (auto simp: node_inv_def mem_ok_def file_ok_def functional_grants_def)
qed

lemma grant_inv:
  assumes inv: "node_inv G v n" and fn: "functional_grants G" and c: "c \<noteq> []"
    and free: "rn_votedFor n = [] \<or> rn_votedFor n = c"
    and p: "persistElection out (n\<lparr>rn_votedFor := c\<rparr>) = (n', ok)"
  shows "node_inv G v n'"
    and "ok \<Longrightarrow> node_inv (insert (v, rn_currentTerm n, c) G) v n'
           \<and> functional_grants (insert (v, rn_currentTerm n, c) G)"
proof -
  have cur: "c' = c" if "(v, rn_currentTerm n, c') \<in> G" for c'
    using inv fn free that by (auto simp: node_inv_def mem_ok_def functional_grants_def)
  show "node_inv G v n'" "ok \<Longrightarrow> node_inv (insert (v, rn_currentTerm n, c) G) v n'
           \<and> functional_grants (insert (v, rn_currentTerm n, c) G)"
    using grant_inv_term [OF inv fn c cur p] by blast+
qed

lemma node_inv_other:
  assumes "node_inv G v n" "v' \<noteq> v"
  shows "node_inv (insert (v', t, c) G) v n"
  using assms by (auto simp: node_inv_def mem_ok_def file_ok_def)

end
