(* ===== verification/Raft_Cluster.thy ===== *)
theory Raft_Cluster
  imports Raft_Election
begin

text \<open>
  A cluster of nodes that hold elections.  The steps are those of the code: a candidate begins an
  election, a vote request sent in it is handled by a peer (its reply counted, lost, or produced by a
  delayed duplicate), the candidate finishes, the monitor loop raises the leader flag, and nodes learn terms,
  write progress, restart from disk, or change anything that is not election state.  Every write of the
  consensus file may fail.
\<close>

section \<open>Quorums\<close>

locale quorum_system =
  fixes quorum :: "'a set \<Rightarrow> bool"
  assumes quorums_meet: "quorum A \<Longrightarrow> quorum B \<Longrightarrow> A \<inter> B \<noteq> {}"
begin

text \<open>When every member votes at most once per term, two candidates with a quorum each are one.\<close>

lemma one_winner:
  assumes "\<And>v c c'. voted v t c \<Longrightarrow> voted v t c' \<Longrightarrow> c = c'"
    and "quorum A" "\<forall>v\<in>A. voted v t c" "quorum B" "\<forall>v\<in>B. voted v t c'"
  shows "c = c'"
  using assms quorums_meet [OF assms(2,4)] by blast

end

definition majority :: "'a set \<Rightarrow> 'a set \<Rightarrow> bool" where
  "majority M A \<longleftrightarrow> finite M \<and> A \<subseteq> M \<and> card M div 2 + 1 \<le> card A"

interpretation majority: quorum_system "majority M" for M :: "'a set"
proof
  fix A B :: "'a set"
  assume a: "majority M A" "majority M B"
  show "A \<inter> B \<noteq> {}"
  proof
    assume "A \<inter> B = {}"
    moreover have fin: "finite A" "finite B" "A \<union> B \<subseteq> M" "finite M"
      using a by (auto simp: majority_def intro: finite_subset)
    ultimately have "card A + card B \<le> card M"
      by (metis card_Un_disjoint card_mono)
    then show False
      using a by (auto simp: majority_def)
  qed
qed

section \<open>States and steps\<close>

record cluster =
  cl_node :: "string \<Rightarrow> raft_node"
  cl_election :: "string \<Rightarrow> election option"
  cl_requests :: "vote_request set"
  cl_pending :: "string set"
  cl_grants :: grants
  cl_winners :: "(u64 \<times> string) set"

text \<open>The configuration: each node's remote peers name the other members, once each.\<close>

definition config_ok :: "string set \<Rightarrow> (string \<Rightarrow> string \<Rightarrow> string) \<Rightarrow> cluster \<Rightarrow> bool" where
  "config_ok M addr cl \<longleftrightarrow> finite M \<and> [] \<notin> M
     \<and> (\<forall>c\<in>M. rn_id (cl_node cl c) = c
          \<and> distinct (map (addr c) (remote_peers (cl_node cl c)))
          \<and> set (map (addr c) (remote_peers (cl_node cl c))) = M - {c})"

definition record_grant :: "string \<Rightarrow> vote_request \<Rightarrow> vote_reply option \<Rightarrow> grants \<Rightarrow> grants" where
  "record_grant v q r G =
     (case r of Some rp \<Rightarrow> if vp_granted rp then insert (v, vp_term rp, vq_candidate q) G else G | None \<Rightarrow> G)"

inductive cluster_step :: "string set \<Rightarrow> (string \<Rightarrow> string \<Rightarrow> string) \<Rightarrow> cluster \<Rightarrow> cluster \<Rightarrow> bool"
  for M addr where
  start:
    "c \<in> M \<Longrightarrow> cl_election cl c = None \<Longrightarrow> \<not> rn_leader (cl_node cl c) \<Longrightarrow> rn_currentTerm (cl_node cl c) \<noteq> - 1
     \<Longrightarrow> begin_election outs (cl_node cl c) = (n, Some e)
     \<Longrightarrow> cluster_step M addr cl
          (cl\<lparr>cl_node := (cl_node cl)(c := n), cl_grants := insert (c, el_term e, c) (cl_grants cl),
              cl_election := (cl_election cl)(c := Some e),
              cl_requests := insert (vote_request_of n e) (cl_requests cl)\<rparr>)"
| start_failed:
    "c \<in> M \<Longrightarrow> cl_election cl c = None \<Longrightarrow> rn_currentTerm (cl_node cl c) \<noteq> - 1
     \<Longrightarrow> begin_election outs (cl_node cl c) = (n, None)
     \<Longrightarrow> cluster_step M addr cl (cl\<lparr>cl_node := (cl_node cl)(c := n)\<rparr>)"
| deliver:
    "v \<in> M \<Longrightarrow> q \<in> cl_requests cl \<Longrightarrow> handle_vote_request eto fence outs now q (cl_node cl v) = (n, r)
     \<Longrightarrow> cluster_step M addr cl
          (cl\<lparr>cl_node := (cl_node cl)(v := n), cl_grants := record_grant v q r (cl_grants cl)\<rparr>)"
| rpc:
    "c \<in> M \<Longrightarrow> cl_election cl c = Some e \<Longrightarrow> p \<in> set (remote_peers (cl_node cl c)) \<Longrightarrow> p \<notin> set (el_votes e)
     \<Longrightarrow> v = addr c p \<Longrightarrow> q = vote_request_of (cl_node cl c) e
     \<Longrightarrow> handle_vote_request eto fence outs now q (cl_node cl v) = (n, Some r)
     \<Longrightarrow> cluster_step M addr cl
          (cl\<lparr>cl_node := (cl_node cl)(v := n), cl_grants := record_grant v q (Some r) (cl_grants cl),
              cl_election := (cl_election cl)(c := Some (count_vote p r e))\<rparr>)"
| finish:
    "c \<in> M \<Longrightarrow> cl_election cl c = Some e \<Longrightarrow> finish_election contacted e (cl_node cl c) = (n, won)
     \<Longrightarrow> cluster_step M addr cl
          (cl\<lparr>cl_node := (cl_node cl)(c := n), cl_election := (cl_election cl)(c := None),
              cl_winners := (if won then insert (el_term e, c) (cl_winners cl) else cl_winners cl),
              cl_pending := (if won then insert c (cl_pending cl) else cl_pending cl)\<rparr>)"
| lead:
    "c \<in> M \<Longrightarrow> c \<in> cl_pending cl \<Longrightarrow>
     cluster_step M addr cl
       (cl\<lparr>cl_node := (cl_node cl)(c := become_leader (cl_node cl c)), cl_pending := cl_pending cl - {c}\<rparr>)"
| node:
    "v \<in> M \<Longrightarrow> node_step (cl_node cl v) n \<Longrightarrow> cluster_step M addr cl (cl\<lparr>cl_node := (cl_node cl)(v := n)\<rparr>)"
| restart:
    "v \<in> M \<Longrightarrow>
     cluster_step M addr cl
       (cl\<lparr>cl_node := (cl_node cl)(v := loadPersistedState (cl_node cl v)),
           cl_election := (cl_election cl)(v := None), cl_pending := cl_pending cl - {v}\<rparr>)"

inductive cluster_reachable :: "string set \<Rightarrow> (string \<Rightarrow> string \<Rightarrow> string) \<Rightarrow> cluster \<Rightarrow> cluster \<Rightarrow> bool"
  for M addr cl where
  here: "cluster_reachable M addr cl cl"
| more: "cluster_reachable M addr cl cl1 \<Longrightarrow> cluster_step M addr cl1 cl2 \<Longrightarrow> cluster_reachable M addr cl cl2"

text \<open>A cluster at rest: nobody has voted, no election runs, and no file is ahead of its node.\<close>

definition initial_cluster :: "cluster \<Rightarrow> bool" where
  "initial_cluster cl \<longleftrightarrow> cl_election cl = (\<lambda>_. None) \<and> cl_requests cl = {} \<and> cl_pending cl = {}
     \<and> cl_grants cl = {} \<and> cl_winners cl = {}
     \<and> (\<forall>v. \<not> rn_leader (cl_node cl v)
          \<and> cf_term (rn_persisted (cl_node cl v)) \<le> rn_currentTerm (cl_node cl v)
          \<and> cf_term (rn_disk (cl_node cl v)) \<le> cf_term (rn_persisted (cl_node cl v)))"

section \<open>The handlers and the grants\<close>

definition grant_result :: "grants \<Rightarrow> string \<Rightarrow> raft_node \<Rightarrow> vote_request \<Rightarrow> raft_node \<times> vote_reply option \<Rightarrow> bool" where
  "grant_result G v n q res \<longleftrightarrow>
     same_config n (fst res) \<and> node_inv (record_grant v q (snd res) G) v (fst res)
     \<and> functional_grants (record_grant v q (snd res) G)"

lemma consider_vote_grants:
  assumes "node_inv G v n" "functional_grants G"
  shows "grant_result G v n q (consider_vote out now q n)"
proof (cases "rn_recoveryComplete n \<and> vq_term q = rn_currentTerm n \<and> vq_candidate q \<noteq> []
    \<and> (rn_votedFor n = [] \<or> rn_votedFor n = vq_candidate q) \<and> candidateUpToDate q n")
  case True
  obtain n1 ok where p: "persistElection out (n\<lparr>rn_votedFor := vq_candidate q\<rparr>) = (n1, ok)"
    by fastforce
  have "same_config n n1"
    using persist_fields(1) [OF p [unfolded persistElection_def]] by (simp add: same_config_def)
  then show ?thesis
    using True p grant_inv [OF assms _ _ p] assms(2)
    by (cases ok) (auto simp: consider_vote_def grant_result_def record_grant_def same_config_def)
next
  case False
  then show ?thesis
    using assms by (auto simp: consider_vote_def grant_result_def record_grant_def)
qed

lemma handle_vote_request_grants:
  assumes "node_inv G v n" "functional_grants G"
  shows "grant_result G v n q (handle_vote_request eto fence outs now q n)"
proof (cases "rn_currentTerm n < vq_term q")
  case True
  let ?n = "n\<lparr>rn_currentTerm := vq_term q, rn_leader := False, rn_votedFor := []\<rparr>"
  obtain n1 ok where p: "persistElection (fst outs) ?n = (n1, ok)"
    by fastforce
  have "node_inv G v ?n"
    by (rule node_inv_raise [OF assms(1) True]) simp_all
  then have inv: "node_inv G v n1"
    by (rule persistElection_inv [OF p])
  have cfg: "same_config n n1"
    using persist_fields(1) [OF p [unfolded persistElection_def]] by (simp add: same_config_def)
  have "grant_result G v n q (consider_vote (snd outs) now q n1)"
    using consider_vote_grants [OF inv assms(2)] cfg by (auto simp: grant_result_def intro: same_config_trans)
  then show ?thesis
    using True p inv cfg assms
    by (cases ok) (auto simp: handle_vote_request_def grant_result_def record_grant_def Let_def)
next
  case False
  then show ?thesis
    using consider_vote_grants [OF assms] assms
    by (auto simp: handle_vote_request_def grant_result_def record_grant_def Let_def)
qed

lemma word_succ_less:
  assumes "x \<noteq> (- 1 :: u64)"
  shows "x < x + 1"
proof -
  have "1 + x \<noteq> 0"
    using assms by (metis add.inverse_unique)
  then have "unat (1 + x) = Suc (unat x)"
    by (rule unatSuc)
  then show ?thesis
    by (simp add: word_less_nat_alt add.commute)
qed

lemma begin_election_grants:
  assumes inv: "node_inv G c n" and fn: "functional_grants G" and c: "c \<noteq> []" "rn_id n = c"
    and nomax: "rn_currentTerm n \<noteq> - 1" and b: "begin_election outs n = (n', eo)"
  shows "same_config n n'"
    and "eo = None \<Longrightarrow> node_inv G c n'"
    and "eo = Some e \<Longrightarrow> node_inv (insert (c, el_term e, c) G) c n'
           \<and> functional_grants (insert (c, el_term e, c) G) \<and> el_needed e = quorumSize n \<and> el_votes e = []"
proof -
  let ?n = "n\<lparr>rn_currentTerm := rn_currentTerm n + 1\<rparr>"
  obtain n1 ok1 where p1: "persistElection (fst outs) ?n = (n1, ok1)"
    by fastforce
  obtain n2 ok2 where p2: "persistElection (snd outs) (n1\<lparr>rn_votedFor := c\<rparr>) = (n2, ok2)"
    by fastforce
  note f1 = persist_fields [OF p1 [unfolded persistElection_def]]
  note f2 = persist_fields [OF p2 [unfolded persistElection_def]]
  have up: "rn_currentTerm n < rn_currentTerm n + 1"
    using word_succ_less [OF nomax] .
  have inv0: "node_inv G c ?n"
    by (rule node_inv_raise [OF inv up]) simp_all
  have inv1: "node_inv G c n1"
    by (rule persistElection_inv [OF p1 inv0])
  have cur: "c' = c" if "(c, rn_currentTerm n1, c') \<in> G" for c'
    using that inv up f1(2) by (force simp: node_inv_def mem_ok_def)
  have cfg: "same_config n n1" "same_config n n2"
    using f1(1) f2(1) by (simp_all add: same_config_def)
  note gi = grant_inv_term [OF inv1 fn c(1) cur p2]
  show "same_config n n'"
    using b p1 p2 cfg c(2)
    by (auto simp: begin_election_def same_config_def split: if_splits bool.splits)
  show "eo = None \<Longrightarrow> node_inv G c n'"
    using b p1 p2 inv inv1 gi(1) c(2) by (auto simp: begin_election_def split: if_splits bool.splits)
  show "eo = Some e \<Longrightarrow> node_inv (insert (c, el_term e, c) G) c n'
      \<and> functional_grants (insert (c, el_term e, c) G) \<and> el_needed e = quorumSize n \<and> el_votes e = []"
    using b p1 p2 gi(2) c(2) f1(2) f2(2) quorumSize_config [OF cfg(2)]
    by (auto simp: begin_election_def split: if_splits bool.splits)
qed

section \<open>The invariant of the cluster\<close>

definition election_ok :: "string set \<Rightarrow> (string \<Rightarrow> string \<Rightarrow> string) \<Rightarrow> cluster \<Rightarrow> string \<Rightarrow> election \<Rightarrow> bool" where
  "election_ok M addr cl c e \<longleftrightarrow> c \<in> M \<and> distinct (el_votes e)
     \<and> set (el_votes e) \<subseteq> set (remote_peers (cl_node cl c))
     \<and> (\<forall>p\<in>set (el_votes e). (addr c p, el_term e, c) \<in> cl_grants cl)
     \<and> (c, el_term e, c) \<in> cl_grants cl \<and> el_needed e = card M div 2 + 1"

definition cluster_inv :: "string set \<Rightarrow> (string \<Rightarrow> string \<Rightarrow> string) \<Rightarrow> cluster \<Rightarrow> bool" where
  "cluster_inv M addr cl \<longleftrightarrow> config_ok M addr cl \<and> functional_grants (cl_grants cl)
     \<and> (\<forall>v\<in>M. node_inv (cl_grants cl) v (cl_node cl v))
     \<and> (\<forall>c e. cl_election cl c = Some e \<longrightarrow> election_ok M addr cl c e)
     \<and> (\<forall>t c. (t, c) \<in> cl_winners cl \<longrightarrow> (\<exists>A. majority M A \<and> (\<forall>v\<in>A. (v, t, c) \<in> cl_grants cl)))"

lemma config_quorum:
  assumes "config_ok M addr cl" "c \<in> M"
  shows "quorumSize (cl_node cl c) = card M div 2 + 1"
proof -
  have "length (remote_peers (cl_node cl c)) = card (M - {c})"
    using assms by (metis (no_types, lifting) config_ok_def distinct_card length_map)
  then show ?thesis
    using assms by (auto simp: quorumSize_def clusterNodeCount_def config_ok_def card_Diff_singleton_if
        card_gt_0_iff intro!: arg_cong [of _ _ "\<lambda>n. n div 2"] Suc_pred)
qed

lemma config_update:
  assumes "config_ok M addr cl" "same_config (cl_node cl v) n"
  shows "config_ok M addr (cl\<lparr>cl_node := (cl_node cl)(v := n)\<rparr>)"
  using assms remote_peers_config [OF assms(2)] by (auto simp: config_ok_def same_config_def)

lemma winner_majority:
  assumes cfg: "config_ok M addr cl" and e: "election_ok M addr cl c e" and n: "el_needed e \<le> length (el_votes e) + 1"
  shows "\<exists>A. majority M A \<and> (\<forall>v\<in>A. (v, el_term e, c) \<in> cl_grants cl)"
proof -
  let ?A = "insert c (set (map (addr c) (el_votes e)))"
  have c: "c \<in> M" "distinct (map (addr c) (remote_peers (cl_node cl c)))"
      "set (map (addr c) (remote_peers (cl_node cl c))) = M - {c}" "finite M"
    using cfg e by (simp_all add: config_ok_def election_ok_def)
  have sub: "set (el_votes e) \<subseteq> set (remote_peers (cl_node cl c))" "distinct (el_votes e)"
    using e by (simp_all add: election_ok_def)
  then have "distinct (map (addr c) (el_votes e))"
    using c(2) by (auto simp: distinct_map intro: inj_on_subset)
  then have "card (set (map (addr c) (el_votes e))) = length (el_votes e)"
    by (metis distinct_card length_map)
  moreover have "c \<notin> set (map (addr c) (el_votes e))" "?A \<subseteq> M"
    using sub(1) c(1,3) by auto
  ultimately have "majority M ?A"
    using c(4) n e by (simp add: majority_def election_ok_def del: set_map)
  then show ?thesis
    using e by (intro exI [of _ ?A]) (auto simp: election_ok_def)
qed

text \<open>A step of one node that only adds grants of that node.\<close>

definition grants_extend :: "string \<Rightarrow> grants \<Rightarrow> grants \<Rightarrow> bool" where
  "grants_extend v G G' \<longleftrightarrow> G \<subseteq> G' \<and> (\<forall>w t c. (w, t, c) \<in> G' \<longrightarrow> (w, t, c) \<in> G \<or> w = v)"

lemma grants_extend_simps [simp]:
  "grants_extend v G G" "grants_extend v G (insert (v, t, c) G)" "grants_extend v G (record_grant v q r G)"
  by (auto simp: grants_extend_def record_grant_def split: option.splits)

lemma node_inv_extend:
  assumes "grants_extend v G G'" "w \<noteq> v"
  shows "node_inv G' w n = node_inv G w n"
  using assms by (fastforce simp: grants_extend_def node_inv_def mem_ok_def file_ok_def)

lemma cluster_inv_node:
  assumes inv: "cluster_inv M addr cl" and v: "v \<in> M" and cfg: "same_config (cl_node cl v) n"
    and G: "grants_extend v (cl_grants cl) G'" "node_inv G' v n" "functional_grants G'"
  shows "cluster_inv M addr (cl\<lparr>cl_node := (cl_node cl)(v := n), cl_grants := G'\<rparr>)"
proof -
  have sub: "cl_grants cl \<subseteq> G'"
    using G(1) by (simp add: grants_extend_def)
  have "config_ok M addr (cl\<lparr>cl_node := (cl_node cl)(v := n), cl_grants := G'\<rparr>)"
    using config_update [OF _ cfg, of M addr] inv by (simp add: cluster_inv_def config_ok_def)
  moreover have "\<forall>w\<in>M. node_inv G' w (((cl_node cl)(v := n)) w)"
    using inv G(2) node_inv_extend [OF G(1)] by (simp add: cluster_inv_def)
  moreover have "election_ok M addr (cl\<lparr>cl_node := (cl_node cl)(v := n), cl_grants := G'\<rparr>) c e"
    if "cl_election cl c = Some e" for c e
  proof -
    have "election_ok M addr cl c e"
      using inv that by (simp add: cluster_inv_def)
    then show ?thesis
      using sub remote_peers_config [OF cfg] by (auto simp: election_ok_def)
  qed
  moreover have "\<exists>A. majority M A \<and> (\<forall>w\<in>A. (w, t, c) \<in> G')" if "(t, c) \<in> cl_winners cl" for t c
    using inv that sub unfolding cluster_inv_def by blast
  ultimately show ?thesis
    using G(3) by (simp add: cluster_inv_def)
qed

lemma cluster_inv_node_same:
  assumes "cluster_inv M addr cl" "v \<in> M" "same_config (cl_node cl v) n" "node_inv (cl_grants cl) v n"
  shows "cluster_inv M addr (cl\<lparr>cl_node := (cl_node cl)(v := n)\<rparr>)"
  using cluster_inv_node [OF assms(1-3), of "cl_grants cl"] assms(1,4) by (simp add: cluster_inv_def)

lemma cluster_inv_frame [simp]:
  "cluster_inv M addr (cl\<lparr>cl_requests := rq\<rparr>) = cluster_inv M addr cl"
  "cluster_inv M addr (cl\<lparr>cl_pending := pd\<rparr>) = cluster_inv M addr cl"
  by (simp_all add: cluster_inv_def config_ok_def election_ok_def)

lemma cluster_inv_election:
  assumes "cluster_inv M addr cl" "eo = None \<or> (\<exists>e. eo = Some e \<and> election_ok M addr cl c e)"
  shows "cluster_inv M addr (cl\<lparr>cl_election := (cl_election cl)(c := eo)\<rparr>)"
  using assms by (auto simp: cluster_inv_def config_ok_def election_ok_def split: if_splits)

lemma cluster_inv_winner:
  assumes "cluster_inv M addr cl" "\<exists>A. majority M A \<and> (\<forall>v\<in>A. (v, t, c) \<in> cl_grants cl)"
  shows "cluster_inv M addr (cl\<lparr>cl_winners := insert (t, c) (cl_winners cl)\<rparr>)"
  using assms by (auto simp: cluster_inv_def config_ok_def election_ok_def)

lemma cluster_step_inv:
  assumes "cluster_step M addr cl cl'" "cluster_inv M addr cl"
  shows "cluster_inv M addr cl'"
  using assms
proof (induction rule: cluster_step.induct)
  case (start c cl outs n e)
  have c: "c \<noteq> []" "rn_id (cl_node cl c) = c" "node_inv (cl_grants cl) c (cl_node cl c)" "functional_grants (cl_grants cl)"
    using start by (auto simp: cluster_inv_def config_ok_def)
  note b = begin_election_grants [OF c(3,4,1,2) start(4,5)]
  have 1: "cluster_inv M addr (cl\<lparr>cl_node := (cl_node cl)(c := n), cl_grants := insert (c, el_term e, c) (cl_grants cl)\<rparr>)"
    using b(3) [OF refl] by (intro cluster_inv_node [OF start(6,1) b(1)]) simp_all
  have "election_ok M addr (cl\<lparr>cl_node := (cl_node cl)(c := n), cl_grants := insert (c, el_term e, c) (cl_grants cl)\<rparr>) c e"
    using b(3) [OF refl] start(1,6) config_quorum [of M addr cl c] by (simp add: election_ok_def cluster_inv_def)
  from cluster_inv_election [OF 1, of "Some e" c] this show ?case
    using cluster_inv_frame(1) by simp
next
  case (start_failed c cl outs n)
  have c: "c \<noteq> []" "rn_id (cl_node cl c) = c" "node_inv (cl_grants cl) c (cl_node cl c)" "functional_grants (cl_grants cl)"
    using start_failed by (auto simp: cluster_inv_def config_ok_def)
  note b = begin_election_grants [OF c(3,4,1,2) start_failed(3,4)]
  show ?case
    using cluster_inv_node [OF start_failed(5,1) b(1) _ b(2) c(4)] by simp
next
  case (deliver v q cl eto fence outs now n r)
  have "grant_result (cl_grants cl) v (cl_node cl v) q (n, r)"
    using handle_vote_request_grants [of "cl_grants cl" v "cl_node cl v" q eto fence outs now] deliver
    by (simp add: cluster_inv_def)
  then show ?case
    using deliver by (intro cluster_inv_node) (simp_all add: grant_result_def)
next
  case (rpc c cl e p v q eto fence outs now n r)
  have c: "v \<in> M" "config_ok M addr cl" "functional_grants (cl_grants cl)" "election_ok M addr cl c e"
    using rpc by (auto simp: cluster_inv_def config_ok_def)
  have g: "grant_result (cl_grants cl) v (cl_node cl v) q (n, Some r)"
    using handle_vote_request_grants [of "cl_grants cl" v "cl_node cl v" q eto fence outs now] rpc c
    by (simp add: cluster_inv_def)
  let ?cl = "cl\<lparr>cl_node := (cl_node cl)(v := n), cl_grants := record_grant v q (Some r) (cl_grants cl)\<rparr>"
  have 1: "cluster_inv M addr ?cl"
    using g rpc c(1) by (intro cluster_inv_node) (simp_all add: grant_result_def)
  have "election_ok M addr ?cl c e"
    using 1 rpc(2) by (simp add: cluster_inv_def)
  moreover have "vq_candidate q = c"
    using rpc c(2) by (auto simp: vote_request_of_def config_ok_def)
  moreover have "remote_peers (cl_node ?cl c) = remote_peers (cl_node cl c)"
    using g remote_peers_config by (auto simp: grant_result_def)
  ultimately have "election_ok M addr ?cl c (count_vote p r e)"
    using rpc(3-5) by (auto simp: election_ok_def count_vote_def record_grant_def)
  from cluster_inv_election [OF 1, of "Some (count_vote p r e)" c] this show ?case
    by simp
next
  case (finish c cl e contacted n won)
  have e: "election_ok M addr cl c e" and cfg: "config_ok M addr cl"
    using finish by (simp_all add: cluster_inv_def)
  have "same_config (cl_node cl c) n" "same_election (cl_node cl c) n" and won: "won \<Longrightarrow> el_needed e \<le> length (el_votes e) + 1"
    using finish(3) by (auto simp: finish_election_def same_config_def same_election_def Let_def split: if_splits)
  then have 1: "cluster_inv M addr (cl\<lparr>cl_node := (cl_node cl)(c := n)\<rparr>)"
    using cluster_inv_node [OF finish(4,1), of n "cl_grants cl"] node_inv_local finish(1,4) by (simp add: cluster_inv_def)
  have 2: "cluster_inv M addr (cl\<lparr>cl_node := (cl_node cl)(c := n), cl_election := (cl_election cl)(c := None)\<rparr>)"
    using cluster_inv_election [OF 1, of None c] by simp
  show ?case
  proof (cases won)
    case True
    then show ?thesis
      using cluster_inv_winner [OF 2, of "el_term e" c] winner_majority [OF cfg e won] by simp
  next
    case False
    then show ?thesis
      using 2 by simp
  qed
next
  case (lead c cl)
  have "node_inv (cl_grants cl) c (become_leader (cl_node cl c))" "same_config (cl_node cl c) (become_leader (cl_node cl c))"
    using lead by (simp_all add: cluster_inv_def node_inv_def mem_ok_def same_config_def become_leader_def)
  then show ?case
    using cluster_inv_node_same [OF lead(3,1)] by simp
next
  case (node v cl n)
  have "node_inv (cl_grants cl) v n \<and> same_config (cl_node cl v) n"
    by (rule node_step_inv [OF node(2)]) (use node(1,3) in \<open>simp add: cluster_inv_def\<close>)
  then show ?case
    using cluster_inv_node_same [OF node(3,1)] by simp
next
  case (restart v cl)
  have "node_inv (cl_grants cl) v (loadPersistedState (cl_node cl v))"
      "same_config (cl_node cl v) (loadPersistedState (cl_node cl v))"
    using restart loadPersistedState_inv by (simp_all add: cluster_inv_def same_config_def loadPersistedState_def)
  then have 1: "cluster_inv M addr (cl\<lparr>cl_node := (cl_node cl)(v := loadPersistedState (cl_node cl v))\<rparr>)"
    using cluster_inv_node_same [OF restart(2,1)] by simp
  show ?case
    using cluster_inv_election [OF 1, of None v] by simp
qed

lemma initial_inv:
  assumes "config_ok M addr cl" "initial_cluster cl"
  shows "cluster_inv M addr cl"
  using assms by (auto simp: cluster_inv_def initial_cluster_def functional_grants_def node_inv_def mem_ok_def file_ok_def)

lemma reachable_inv:
  assumes "cluster_reachable M addr cl0 cl" "config_ok M addr cl0" "initial_cluster cl0"
  shows "cluster_inv M addr cl"
  using assms(1)
  by induction (auto intro: initial_inv [OF assms(2,3)] cluster_step_inv)

lemma one_winner_per_term:
  assumes "cluster_inv M addr cl" "(t, c) \<in> cl_winners cl" "(t, c') \<in> cl_winners cl"
  shows "c = c'"
proof -
  obtain A where A: "majority M A" "\<forall>v\<in>A. (v, t, c) \<in> cl_grants cl"
    using assms(1,2) unfolding cluster_inv_def by blast
  obtain B where B: "majority M B" "\<forall>v\<in>B. (v, t, c') \<in> cl_grants cl"
    using assms(1,3) unfolding cluster_inv_def by blast
  have "d = d'" if "(v, t, d) \<in> cl_grants cl" "(v, t, d') \<in> cl_grants cl" for v d d'
    using assms(1) that by (auto simp: cluster_inv_def functional_grants_def)
  then show ?thesis
    using majority.one_winner [of "\<lambda>v t d. (v, t, d) \<in> cl_grants cl" t M A c B c'] A B by blast
qed

end
