(* ===== verification/Raft_Race.thy ===== *)
theory Raft_Race
  imports Raft_Cluster
begin

text \<open>
  Runs of the cluster as lists of events, computed with every write succeeding, and what the unlocked store
  of the leader flag in the monitor loop allows: a candidate that won an old term raises its flag after it
  has voted for somebody else in a newer one.
\<close>

section \<open>Computed runs\<close>

datatype event = Start string | Ask string string | Finish string | Lead string

definition exec_event :: "string list \<Rightarrow> (string \<Rightarrow> string \<Rightarrow> string) \<Rightarrow> event \<Rightarrow> cluster \<Rightarrow> cluster option" where
  "exec_event ms addr ev cl =
     (case ev of
        Start c \<Rightarrow>
          (case begin_election (PersistOk, PersistOk) (cl_node cl c) of
             (n, Some e) \<Rightarrow>
               (if c \<in> set ms \<and> cl_election cl c = None \<and> \<not> rn_leader (cl_node cl c) \<and> rn_currentTerm (cl_node cl c) \<noteq> - 1
                then Some (cl\<lparr>cl_node := (cl_node cl)(c := n), cl_grants := insert (c, el_term e, c) (cl_grants cl),
                              cl_election := (cl_election cl)(c := Some e),
                              cl_requests := insert (vote_request_of n e) (cl_requests cl)\<rparr>)
                else None)
           | (n, None) \<Rightarrow> None)
      | Ask c p \<Rightarrow>
          (case cl_election cl c of
             None \<Rightarrow> None
           | Some e \<Rightarrow>
              (let v = addr c p; q = vote_request_of (cl_node cl c) e
               in case handle_vote_request 1000 1000 (PersistOk, PersistOk) 5000 q (cl_node cl v) of
                    (n, Some r) \<Rightarrow>
                      (if c \<in> set ms \<and> p \<in> set (remote_peers (cl_node cl c)) \<and> p \<notin> set (el_votes e)
                       then Some (cl\<lparr>cl_node := (cl_node cl)(v := n),
                                     cl_grants := record_grant v q (Some r) (cl_grants cl),
                                     cl_election := (cl_election cl)(c := Some (count_vote p r e))\<rparr>)
                       else None)
                  | (n, None) \<Rightarrow> None))
      | Finish c \<Rightarrow>
          (case cl_election cl c of
             None \<Rightarrow> None
           | Some e \<Rightarrow>
              (case finish_election True e (cl_node cl c) of
                 (n, won) \<Rightarrow>
                   (if c \<in> set ms
                    then Some (cl\<lparr>cl_node := (cl_node cl)(c := n), cl_election := (cl_election cl)(c := None),
                                  cl_winners := (if won then insert (el_term e, c) (cl_winners cl) else cl_winners cl),
                                  cl_pending := (if won then insert c (cl_pending cl) else cl_pending cl)\<rparr>)
                    else None)))
      | Lead c \<Rightarrow>
          (if c \<in> set ms \<and> c \<in> cl_pending cl
           then Some (cl\<lparr>cl_node := (cl_node cl)(c := become_leader (cl_node cl c)), cl_pending := cl_pending cl - {c}\<rparr>)
           else None))"

fun exec_events :: "string list \<Rightarrow> (string \<Rightarrow> string \<Rightarrow> string) \<Rightarrow> event list \<Rightarrow> cluster \<Rightarrow> cluster option" where
  "exec_events ms addr [] cl = Some cl"
| "exec_events ms addr (ev # evs) cl = (case exec_event ms addr ev cl of None \<Rightarrow> None | Some cl1 \<Rightarrow> exec_events ms addr evs cl1)"

lemma exec_event_step:
  assumes "exec_event ms addr ev cl = Some cl'"
  shows "cluster_step (set ms) addr cl cl'"
proof (cases ev)
  case (Start c)
  then show ?thesis
    using assms by (auto simp: exec_event_def split: prod.splits option.splits if_splits intro: cluster_step.start)
next
  case (Ask c p)
  then show ?thesis
    using assms by (auto simp: exec_event_def Let_def split: prod.splits option.splits if_splits intro: cluster_step.rpc)
next
  case (Finish c)
  then show ?thesis
    using assms cluster_step.finish [of c "set ms" cl _ True _ True addr] cluster_step.finish [of c "set ms" cl _ True _ False addr]
    by (auto simp: exec_event_def split: prod.splits option.splits if_splits)
next
  case (Lead c)
  then show ?thesis
    using assms by (auto simp: exec_event_def split: if_splits intro: cluster_step.lead)
qed

lemma exec_events_reachable:
  assumes "exec_events ms addr evs cl = Some cl'" "cluster_reachable (set ms) addr cl0 cl"
  shows "cluster_reachable (set ms) addr cl0 cl'"
  using assms
  by (induction ms addr evs cl rule: exec_events.induct)
    (auto split: option.splits intro: cluster_reachable.more exec_event_step)

section \<open>Three nodes\<close>

definition zero_file :: consensus_file where
  "zero_file = \<lparr>cf_term = 0, cf_vote = [], cf_commit = 0, cf_applied = 0\<rparr>"

definition fresh_node :: "string \<Rightarrow> string list \<Rightarrow> raft_node" where
  "fresh_node i ps =
     \<lparr>rn_id = i, rn_port = 9000, rn_peers = ps, rn_initialized = True, rn_currentTerm = 0, rn_votedFor = [],
      rn_leader = False, rn_leadershipReady = False, rn_leaderId = [], rn_recoveryComplete = True,
      rn_divergence = False, rn_log = [], rn_lastIndex = 0, rn_lastEntryTerm = 0, rn_lastSnapshotIndex = 0,
      rn_lastSnapshotTerm = 0, rn_commitIndex = 0, rn_lastApplied = 0, rn_lastHeartbeat = 0,
      rn_peerHeartbeat = [], rn_matchIndex = [], rn_nextIndex = [], rn_persisted = zero_file,
      rn_uncertain = False, rn_disk = zero_file\<rparr>"

definition three_peers :: "string list" where
  "three_peers = [''A@hostA:7000'', ''B@hostB:7000'', ''C@hostC:7000'']"

definition three_addr :: "string \<Rightarrow> string \<Rightarrow> string" where
  "three_addr c p = peerNodeId p"

definition three_nodes :: cluster where
  "three_nodes = \<lparr>cl_node = (\<lambda>v. fresh_node v three_peers), cl_election = (\<lambda>_. None), cl_requests = {},
     cl_pending = {}, cl_grants = {}, cl_winners = {}\<rparr>"

text \<open>\<open>A\<close> wins term 1 with \<open>C\<close>; before its monitor thread raises the flag, \<open>B\<close> fails in term 1 and wins term 2
  with the vote of \<open>A\<close>; then both flags go up.\<close>

definition late_leader_run :: "event list" where
  "late_leader_run = [Start ''A'', Ask ''A'' ''C@hostC:7000'', Finish ''A'', Start ''B'', Finish ''B'',
     Start ''B'', Ask ''B'' ''A@hostA:7000'', Finish ''B'', Lead ''B'', Lead ''A'']"

lemma three_remote:
  "map peerNodeId (remote_peers (fresh_node ''A'' three_peers)) = [''B'', ''C'']"
  "map peerNodeId (remote_peers (fresh_node ''B'' three_peers)) = [''A'', ''C'']"
  "map peerNodeId (remote_peers (fresh_node ''C'' three_peers)) = [''A'', ''B'']"
  by code_simp+

lemma three_nodes_ok: "config_ok (set [''A'', ''B'', ''C'']) three_addr three_nodes"
proof -
  have "map (three_addr c) = map peerNodeId" for c
    by (simp add: three_addr_def fun_eq_iff)
  moreover have "rn_id (fresh_node c three_peers) = c" for c
    by (simp add: fresh_node_def)
  ultimately show ?thesis
    unfolding config_ok_def by (auto simp: three_nodes_def three_remote simp del: set_map)
qed

lemma three_nodes_initial: "initial_cluster three_nodes"
  by (simp add: initial_cluster_def three_nodes_def fresh_node_def zero_file_def)

lemma late_leader_state:
  "(case exec_events [''A'', ''B'', ''C''] three_addr late_leader_run three_nodes of
      None \<Rightarrow> False
    | Some cl \<Rightarrow> rn_leader (cl_node cl ''A'') \<and> rn_leader (cl_node cl ''B'')
        \<and> rn_currentTerm (cl_node cl ''A'') = 2 \<and> rn_currentTerm (cl_node cl ''B'') = 2
        \<and> (2, ''B'') \<in> cl_winners cl \<and> rn_votedFor (cl_node cl ''A'') = ''B'')"
  by code_simp

end
