(* ===== verification/Raft_Follower.thy ===== *)
theory Raft_Follower
  imports Raft_Election
begin

text \<open>
  The follower's side of replication (\<open>handleFollowerConn\<close> in \<open>engine/src/raft_core.cpp\<close>): heartbeats,
  AppendEntries and the older WAL shipping message.  The log is the list of records of \<open>raft/log.bin\<close>.
  The file operations may fail; a reply of \<open>None\<close> is the exception path.
\<close>

section \<open>The log of a node\<close>

definition first_term :: "raft_rec list \<Rightarrow> u64 \<Rightarrow> u64" where
  "first_term rs index = (case find (\<lambda>r. rr_index r = index) rs of Some r \<Rightarrow> rr_term r | None \<Rightarrow> 0)"

definition log_term :: "raft_node \<Rightarrow> u64 \<Rightarrow> u64" where
  "log_term n index =
     (if index = 0 then 0
      else if 0 < rn_lastSnapshotIndex n \<and> index = rn_lastSnapshotIndex n \<and> 0 < rn_lastSnapshotTerm n
      then rn_lastSnapshotTerm n
      else first_term (rn_log n) index)"

definition effectiveLastIndex :: "raft_node \<Rightarrow> u64" where
  "effectiveLastIndex n = max (rn_lastIndex n) (rn_lastSnapshotIndex n)"

definition advance_commit :: "u64 \<Rightarrow> raft_node \<Rightarrow> raft_node" where
  "advance_commit leaderCommit n =
     (let maxCommitted = min leaderCommit (rn_lastIndex n)
      in if rn_commitIndex n < maxCommitted then n\<lparr>rn_commitIndex := maxCommitted\<rparr> else n)"

datatype append_reason =
    Ok | StaleTerm | LeaderLogBehind | RecoveryNotDone | PrevIndexConflict | SnapshotFloorConflict
  | PrevTermConflict | TruncationBelowCommitFloor | IoFailure

record append_reply =
  ar_term :: u64
  ar_success :: bool
  ar_matchIndex :: u64
  ar_reason :: append_reason

definition refuse :: "raft_node \<Rightarrow> u64 \<Rightarrow> append_reason \<Rightarrow> append_reply option" where
  "refuse n matchIndex reason =
     Some \<lparr>ar_term = rn_currentTerm n, ar_success = False, ar_matchIndex = matchIndex, ar_reason = reason\<rparr>"

definition accept :: "raft_node \<Rightarrow> u64 \<Rightarrow> append_reply option" where
  "accept n matchIndex =
     Some \<lparr>ar_term = rn_currentTerm n, ar_success = True, ar_matchIndex = matchIndex, ar_reason = Ok\<rparr>"

section \<open>Heartbeats\<close>

record heartbeat =
  hb_term :: u64
  hb_leader :: string
  hb_hasPosition :: bool
  hb_lastIndex :: u64
  hb_lastTerm :: u64
  hb_commit :: u64

definition localLastTerm :: "raft_node \<Rightarrow> u64" where
  "localLastTerm n = (let t = log_term n (effectiveLastIndex n) in if t = 0 then rn_lastEntryTerm n else t)"

definition leaderTailMatches :: "heartbeat \<Rightarrow> raft_node \<Rightarrow> bool" where
  "leaderTailMatches hb n \<longleftrightarrow> hb_hasPosition hb \<and> hb_lastIndex hb = effectiveLastIndex n
     \<and> hb_lastTerm hb = localLastTerm n"

definition leaderLogBehind :: "heartbeat \<Rightarrow> raft_node \<Rightarrow> bool" where
  "leaderLogBehind hb n \<longleftrightarrow> hb_hasPosition hb
     \<and> (hb_lastTerm hb < localLastTerm n
        \<or> (hb_lastTerm hb = localLastTerm n \<and> hb_lastIndex hb < effectiveLastIndex n))"

definition handle_heartbeat ::
    "persist_outcome \<Rightarrow> u64 \<Rightarrow> heartbeat \<Rightarrow> raft_node \<Rightarrow> raft_node \<times> append_reply option" where
  "handle_heartbeat out now hb n =
     (if \<not> rn_recoveryComplete n then (n, refuse n 0 RecoveryNotDone)
      else if hb_term hb < rn_currentTerm n then (n, refuse n (effectiveLastIndex n) StaleTerm)
      else if leaderLogBehind hb n
              \<and> \<not> (hb_term hb = rn_currentTerm n
                   \<and> (if hb_hasPosition hb then localLastTerm n else 0) = hb_term hb \<and> hb_leader hb = rn_leaderId n)
      then (if rn_currentTerm n < hb_term hb
            then (case persistElection out
                         (n\<lparr>rn_currentTerm := hb_term hb, rn_leader := False, rn_votedFor := []\<rparr>) of
                    (n1, False) \<Rightarrow> (n1, None)
                  | (n1, True) \<Rightarrow> (n1, refuse n1 (effectiveLastIndex n) LeaderLogBehind))
            else (n, refuse n (effectiveLastIndex n) LeaderLogBehind))
      else case adoptLeaderTermLocked out (hb_term hb) n of
             (n1, False) \<Rightarrow> (n1, None)
           | (n1, True) \<Rightarrow>
              (let n2 = n1\<lparr>rn_leaderId := hb_leader hb, rn_lastHeartbeat := now\<rparr>;
                   n3 = (if rn_recoveryComplete n2 \<and> leaderTailMatches hb n then advance_commit (hb_commit hb) n2 else n2)
               in (n3, accept n3 (if leaderTailMatches hb n then effectiveLastIndex n else 0))))"

section \<open>AppendEntries\<close>

record append_request =
  aq_term :: u64
  aq_leader :: string
  aq_prevIndex :: u64
  aq_prevTerm :: u64
  aq_commit :: u64
  aq_entries :: "(json \<times> u64 option) list"

text \<open>The term of an entry: its element of \<open>entryTerms\<close> when that is a number, else the leader's term.\<close>

definition entry_term :: "u64 \<Rightarrow> json \<times> u64 option \<Rightarrow> u64" where
  "entry_term leaderTerm e = (case snd e of Some t \<Rightarrow> t | None \<Rightarrow> leaderTerm)"

text \<open>The walk over the entries the follower may already hold: the first conflicting index (or zero), and
  how many entries are skipped.\<close>

fun conflict_scan :: "raft_node \<Rightarrow> u64 \<Rightarrow> u64 \<Rightarrow> nat \<Rightarrow> (json \<times> u64 option) list \<Rightarrow> u64 \<times> nat" where
  "conflict_scan n leaderTerm prevIndex k [] = (0, k)"
| "conflict_scan n leaderTerm prevIndex k (e # es) =
     (let idx = prevIndex + 1 + of_nat k
      in if rn_lastIndex n < idx then (0, k)
         else if log_term n idx \<noteq> entry_term leaderTerm e then (idx, k)
         else conflict_scan n leaderTerm prevIndex (Suc k) es)"

definition truncate_log :: "u64 \<Rightarrow> raft_node \<Rightarrow> raft_node" where
  "truncate_log truncateAfter n =
     (let kept = filter (\<lambda>r. rr_index r \<le> truncateAfter) (rn_log n);
          keepLastIndex = (if kept = [] then 0 else rr_index (last kept));
          keepLastTerm = (if kept = [] then 0 else rr_term (last kept))
      in if rn_lastSnapshotIndex n \<le> keepLastIndex
         then n\<lparr>rn_log := kept, rn_lastIndex := keepLastIndex,
                rn_lastEntryTerm := (if keepLastIndex = 0 then 0 else keepLastTerm)\<rparr>
         else n\<lparr>rn_log := kept, rn_lastIndex := rn_lastSnapshotIndex n,
                rn_lastEntryTerm := rn_lastSnapshotTerm n\<rparr>)"

text \<open>The records built from the entries that are not skipped; \<open>None\<close> when a payload is out of range.\<close>

fun build_records :: "u64 \<Rightarrow> u64 \<Rightarrow> nat \<Rightarrow> ((json \<times> u64 option) \<times> bytes) list \<Rightarrow> raft_rec list option" where
  "build_records leaderTerm prevIndex k [] = Some []"
| "build_records leaderTerm prevIndex k ((e, payload) # es) =
     (if payload = [] \<or> kMaxRaftPayloadBytes < length payload then None
      else map_option (\<lambda>rs. \<lparr>rr_index = prevIndex + 1 + of_nat k, rr_term = entry_term leaderTerm e,
                            rr_payload = payload\<rparr> # rs)
             (build_records leaderTerm prevIndex (Suc k) es))"

definition append_records :: "raft_rec list \<Rightarrow> raft_node \<Rightarrow> raft_node" where
  "append_records rs n =
     n\<lparr>rn_log := rn_log n @ rs, rn_lastIndex := foldl (\<lambda>m r. max m (rr_index r)) (rn_lastIndex n) rs,
       rn_lastEntryTerm := (if rs = [] then rn_lastEntryTerm n else rr_term (last rs))\<rparr>"

text \<open>The file operations.  Truncation writes a copy, removes the log and renames the copy: it may fail
  before the removal or after it.  A failed append leaves some whole records behind.\<close>

datatype truncate_outcome = Truncated | TruncateUnopened | TruncateRenameFailed

datatype append_outcome = Appended | AppendFailed nat

record append_io =
  ai_truncate :: truncate_outcome
  ai_append :: append_outcome

definition append_tail ::
    "append_io \<Rightarrow> append_request \<Rightarrow> ((json \<times> u64 option) \<times> bytes) list \<Rightarrow> nat \<Rightarrow> raft_node
       \<Rightarrow> raft_node \<times> append_reply option" where
  "append_tail io q eps appendFrom n =
     (let finish = (\<lambda>n1. (advance_commit (aq_commit q) n1, accept n1 (effectiveLastIndex n1)))
      in if appendFrom < length eps
         then case build_records (aq_term q) (aq_prevIndex q) appendFrom (drop appendFrom eps) of
                None \<Rightarrow> (n, None)
              | Some rs \<Rightarrow>
                 (case ai_append io of
                    AppendFailed k \<Rightarrow> (n\<lparr>rn_log := rn_log n @ take k rs\<rparr>, refuse n 0 IoFailure)
                  | Appended \<Rightarrow> finish (append_records rs n))
         else finish n)"

definition append_checked ::
    "append_io \<Rightarrow> u64 \<Rightarrow> append_request \<Rightarrow> ((json \<times> u64 option) \<times> bytes) list \<Rightarrow> raft_node
       \<Rightarrow> raft_node \<times> append_reply option" where
  "append_checked io now q eps n =
     (if effectiveLastIndex n < aq_prevIndex q then (n, refuse n (effectiveLastIndex n) PrevIndexConflict)
      else if eps \<noteq> [] \<and> 0 < rn_lastSnapshotIndex n \<and> aq_prevIndex q < rn_lastSnapshotIndex n
      then (n, refuse n (rn_lastSnapshotIndex n) SnapshotFloorConflict)
      else if 0 < aq_prevIndex q \<and> log_term n (aq_prevIndex q) \<noteq> aq_prevTerm q
      then (n, refuse n (effectiveLastIndex n) PrevTermConflict)
      else
        let n1 = n\<lparr>rn_lastHeartbeat := now\<rparr>
        in if eps \<noteq> [] \<and> aq_prevIndex q < rn_lastIndex n1
           then let commitFloor = max (rn_commitIndex n1) (rn_lastApplied n1);
                    (firstConflict, appendFrom) = conflict_scan n1 (aq_term q) (aq_prevIndex q) 0 (map fst eps)
                in if firstConflict \<noteq> 0 \<and> firstConflict \<le> commitFloor
                   then (n1\<lparr>rn_divergence := True\<rparr>, refuse n1 commitFloor TruncationBelowCommitFloor)
                   else if firstConflict \<noteq> 0 \<and> ai_truncate io = TruncateUnopened then (n1, refuse n1 0 IoFailure)
                   else if firstConflict \<noteq> 0 \<and> ai_truncate io = TruncateRenameFailed
                   then (n1\<lparr>rn_log := []\<rparr>, refuse n1 0 IoFailure)
                   else append_tail io q eps appendFrom
                          (if firstConflict \<noteq> 0 then truncate_log (firstConflict - 1) n1 else n1)
           else append_tail io q eps 0 n1)"

definition handle_append_entries ::
    "(json \<Rightarrow> bytes option) \<Rightarrow> append_io \<Rightarrow> persist_outcome \<Rightarrow> u64 \<Rightarrow> append_request \<Rightarrow> raft_node
       \<Rightarrow> raft_node \<times> append_reply option" where
  "handle_append_entries enc io out now q n =
     (if aq_term q < rn_currentTerm n then (n, refuse n 0 StaleTerm)
      else case adoptLeaderTermLocked out (aq_term q) n of
             (n1, False) \<Rightarrow> (n1, None)
           | (n1, True) \<Rightarrow>
              (let n2 = n1\<lparr>rn_leaderId := aq_leader q\<rparr>
               in if \<not> rn_recoveryComplete n2 then (n2, refuse n2 0 RecoveryNotDone)
                  else
                    let payloads = map (\<lambda>e. enc (fst e)) (aq_entries q)
                    in if None \<in> set payloads then (n2, None)
                       else append_checked io now q (zip (aq_entries q) (map the payloads)) n2))"

section \<open>WAL shipping\<close>

fun ship_records :: "u64 \<Rightarrow> u64 \<Rightarrow> bytes list \<Rightarrow> raft_rec list option" where
  "ship_records term index [] = Some []"
| "ship_records term index (p # ps) =
     (if p = [] \<or> kMaxRaftPayloadBytes < length p then None
      else map_option (\<lambda>rs. \<lparr>rr_index = index + 1, rr_term = term, rr_payload = p\<rparr> # rs)
             (ship_records term (index + 1) ps))"

definition handle_wal_ship ::
    "(json \<Rightarrow> bytes option) \<Rightarrow> append_io \<Rightarrow> persist_outcome \<Rightarrow> u64 \<Rightarrow> u64 \<Rightarrow> json list \<Rightarrow> raft_node
       \<Rightarrow> raft_node \<times> append_reply option" where
  "handle_wal_ship enc io out term leaderCommit entries n =
     (if term < rn_currentTerm n then (n, refuse n 0 StaleTerm)
      else case adoptLeaderTermLocked out term n of
             (n1, False) \<Rightarrow> (n1, None)
           | (n1, True) \<Rightarrow>
              (if None \<in> set (map enc entries) then (n1, None)
               else case ship_records term (rn_lastIndex n1) (map (the \<circ> enc) entries) of
                      None \<Rightarrow> (n1, None)
                    | Some rs \<Rightarrow>
                       (case ai_append io of
                          AppendFailed k \<Rightarrow> (n1\<lparr>rn_log := rn_log n1 @ take k rs\<rparr>, refuse n1 0 IoFailure)
                        | Appended \<Rightarrow>
                           (let n2 = n1\<lparr>rn_log := rn_log n1 @ rs,
                                        rn_lastIndex := rn_lastIndex n1 + of_nat (length rs),
                                        rn_lastEntryTerm := term\<rparr>
                            in (advance_commit leaderCommit n2, accept n2 0)))))"

end
