(* ===== verification/Raft_Match.thy ===== *)
theory Raft_Match
  imports Raft_Follower_Laws
begin

text \<open>
  A follower whose log has consecutive indices accepts a batch only when it then holds the batch: the log
  stays well-formed, its records up to the previous index are untouched, and every index of the batch
  carries the term the leader sent.
\<close>

section \<open>Well-formed logs\<close>

fun consecutive :: "nat \<Rightarrow> raft_rec list \<Rightarrow> bool" where
  "consecutive b [] = True"
| "consecutive b (r # rs) = (unat (rr_index r) = Suc b \<and> consecutive (Suc b) rs)"

text \<open>The log starts after the base \<open>b\<close>, at or below the snapshot, and ends at \<open>lastIndex_\<close>.\<close>

definition log_ok :: "nat \<Rightarrow> raft_node \<Rightarrow> bool" where
  "log_ok b n \<longleftrightarrow> consecutive b (rn_log n) \<and> b \<le> unat (rn_lastSnapshotIndex n)
     \<and> rn_lastSnapshotIndex n \<le> rn_lastIndex n \<and> unat (rn_lastIndex n) = b + length (rn_log n)"

lemma consecutive_append [simp]:
  "consecutive b (xs @ ys) \<longleftrightarrow> consecutive b xs \<and> consecutive (b + length xs) ys"
  by (induction b xs rule: consecutive.induct) simp_all

lemma consecutive_nth: "consecutive b rs \<Longrightarrow> i < length rs \<Longrightarrow> unat (rr_index (rs ! i)) = b + i + 1"
  by (induction b rs arbitrary: i rule: consecutive.induct) (auto simp: nth_Cons split: nat.splits)

lemma consecutive_nthI: "(\<And>i. i < length rs \<Longrightarrow> unat (rr_index (rs ! i)) = b + i + 1) \<Longrightarrow> consecutive b rs"
proof (induction rs arbitrary: b)
  case (Cons r rs)
  show ?case
    using Cons.prems [of 0] Cons.IH [of "Suc b"] Cons.prems [of "Suc i" for i] by auto
qed simp

lemma consecutive_take: "consecutive b rs \<Longrightarrow> consecutive b (take k rs)"
  by (metis append_take_drop_id consecutive_append)

lemma consecutive_filter:
  assumes "consecutive b rs" "b \<le> unat t"
  shows "filter (\<lambda>r. rr_index r \<le> t) rs = take (unat t - b) rs"
  using assms
proof (induction b rs rule: consecutive.induct)
  case (2 b r rs)
  show ?case
  proof (cases "b = unat t")
    case True
    then have "\<not> rr_index r \<le> t" "\<forall>x\<in>set rs. \<not> rr_index x \<le> t"
      using 2(2) consecutive_nth [of "Suc b" rs] by (auto simp: in_set_conv_nth word_le_nat_alt)
    then show ?thesis
      using True by simp
  next
    case False
    then have "unat t - b = Suc (unat t - Suc b)" "rr_index r \<le> t"
      using 2(2,3) by (simp_all add: word_le_nat_alt)
    then show ?thesis
      using 2 False by simp
  qed
qed simp

lemma consecutive_first_term:
  assumes "consecutive b rs" "b < unat index" "unat index \<le> b + length rs"
  shows "first_term rs index = rr_term (rs ! (unat index - b - 1))"
  using assms
proof (induction b rs rule: consecutive.induct)
  case (2 b r rs)
  show ?case
  proof (cases "unat index = Suc b")
    case True
    then have "rr_index r = index"
      using 2(2) by (simp add: word_unat_eq_iff)
    then show ?thesis
      using True by (simp add: first_term_def)
  next
    case False
    then have "rr_index r \<noteq> index" "unat index - b - 1 = Suc (unat index - Suc b - 1)"
      using 2(2,3) by auto
    then show ?thesis
      using 2 False by (simp add: first_term_def)
  qed
qed simp

lemma log_term_nth:
  assumes "log_ok b n" "rn_lastSnapshotIndex n < index" "index \<le> rn_lastIndex n"
  shows "log_term n index = rr_term (rn_log n ! (unat index - b - 1))"
proof -
  have "b < unat index" "unat index \<le> b + length (rn_log n)" "index \<noteq> 0" "index \<noteq> rn_lastSnapshotIndex n"
    using assms by (auto simp: log_ok_def word_less_nat_alt word_le_nat_alt)
  then show ?thesis
    using assms(1) consecutive_first_term [of b "rn_log n" index] by (simp add: log_term_def log_ok_def)
qed

section \<open>Truncation and append\<close>

lemma truncate_log_ok:
  assumes ok: "log_ok b n" and t: "rn_lastSnapshotIndex n \<le> t" "t \<le> rn_lastIndex n"
  shows "log_ok b (truncate_log t n) \<and> rn_lastIndex (truncate_log t n) = t
     \<and> rn_log (truncate_log t n) = take (unat t - b) (rn_log n)"
proof -
  let ?kept = "take (unat t - b) (rn_log n)"
  have b: "b \<le> unat t" "unat t - b \<le> length (rn_log n)" and c: "consecutive b (rn_log n)"
    using ok t by (auto simp: log_ok_def word_le_nat_alt)
  have kept: "filter (\<lambda>r. rr_index r \<le> t) (rn_log n) = ?kept"
    using consecutive_filter [OF c b(1)] .
  have len: "length ?kept = unat t - b"
    using b(2) by simp
  have last: "?kept \<noteq> [] \<Longrightarrow> rr_index (last ?kept) = t"
  proof -
    assume "?kept \<noteq> []"
    then have "unat t - b - 1 < length (rn_log n)" "b < unat t"
      using b by auto
    then show "rr_index (last ?kept) = t"
      using consecutive_nth [OF c, of "unat t - b - 1"] len \<open>?kept \<noteq> []\<close>
      by (simp add: last_conv_nth word_unat_eq_iff)
  qed
  have empty: "t = rn_lastSnapshotIndex n" if "?kept = []"
  proof -
    have "unat t = b"
      using that b by auto
    then show ?thesis
      using ok t(1) by (auto simp: log_ok_def word_le_nat_alt word_unat_eq_iff)
  qed
  have "rn_lastIndex (truncate_log t n) = t"
    using last empty t(1) by (auto simp: truncate_log_def kept Let_def)
  moreover have "rn_log (truncate_log t n) = ?kept" "rn_lastSnapshotIndex (truncate_log t n) = rn_lastSnapshotIndex n"
    by (simp_all add: truncate_log_def kept Let_def)
  ultimately show ?thesis
    using ok t(1) b len consecutive_take [OF c] by (simp add: log_ok_def)
qed

lemma build_records_nth:
  assumes "build_records t p k eps = Some rs"
  shows "length rs = length eps
     \<and> (\<forall>i<length eps. rr_index (rs ! i) = p + 1 + of_nat (k + i) \<and> rr_term (rs ! i) = entry_term t (fst (eps ! i)))"
  using assms
proof (induction t p k eps arbitrary: rs rule: build_records.induct)
  case (2 t p k e payload es)
  then obtain rs' where rs: "build_records t p (Suc k) es = Some rs'"
      "rs = \<lparr>rr_index = p + 1 + of_nat k, rr_term = entry_term t e, rr_payload = payload\<rparr> # rs'"
    by (auto split: if_splits)
  then have "length rs' = length es \<and> (\<forall>i<length es. rr_index (rs' ! i) = p + 1 + of_nat (Suc k + i)
      \<and> rr_term (rs' ! i) = entry_term t (fst (es ! i)))"
    using 2 by (auto split: if_splits)
  then show ?case
    using rs(2) by (auto simp: nth_Cons split: nat.splits)
qed simp

lemma unat_index: "unat (p :: u64) + 1 + i < 2 ^ 64 \<Longrightarrow> unat (p + 1 + of_nat i) = unat p + 1 + i"
  by (simp add: unat_word_ariths unat_of_nat mod_simps)

lemma append_records_ok:
  assumes ok: "log_ok b n" and build: "build_records t p k eps = Some rs"
    and start: "unat (rn_lastIndex n) = unat p + k" and room: "unat p + k + length eps < 2 ^ 64"
  shows "log_ok b (append_records rs n)
     \<and> unat (rn_lastIndex (append_records rs n)) = unat p + k + length eps"
proof -
  note nth = build_records_nth [OF build]
  have idx: "unat (rr_index (rs ! i)) = unat (rn_lastIndex n) + i + 1" if "i < length rs" for i
  proof -
    have "unat (p + 1 + of_nat (k + i)) = unat p + 1 + (k + i)"
      by (rule unat_index) (use that nth room in simp)
    then show ?thesis
      using nth start that by simp
  qed
  have fold: "unat (foldl (\<lambda>m r. max m (rr_index r)) (m :: u64) xs) = unat m + length xs"
    if "consecutive (unat m) xs" for m xs
    using that
  proof (induction xs arbitrary: m)
    case (Cons x xs)
    then have "max m (rr_index x) = rr_index x" "unat (rr_index x) = Suc (unat m)"
      by (auto simp: max_def word_le_nat_alt)
    then show ?case
      using Cons by simp
  qed simp
  have c: "consecutive (unat (rn_lastIndex n)) rs"
    by (rule consecutive_nthI) (use idx in simp)
  have l: "unat (rn_lastIndex (append_records rs n)) = unat (rn_lastIndex n) + length rs"
    using fold [OF c] by (simp add: append_records_def)
  have "rn_lastIndex n \<le> rn_lastIndex (append_records rs n)"
    using l by (simp add: word_le_nat_alt)
  then show ?thesis
    using ok c l start nth by (auto simp: log_ok_def append_records_def)
qed

section \<open>The conflict scan\<close>

lemma conflict_scan_spec:
  assumes "conflict_scan n t p k es = (f, j)" "unat p + k + length es < 2 ^ 64"
  shows "k \<le> j \<and> j \<le> k + length es
     \<and> (\<forall>i. k \<le> i \<longrightarrow> i < j \<longrightarrow> p + 1 + of_nat i \<le> rn_lastIndex n
            \<and> log_term n (p + 1 + of_nat i) = entry_term t (es ! (i - k)))
     \<and> (if f = 0 then j = k + length es \<or> rn_lastIndex n < p + 1 + of_nat j
        else f = p + 1 + of_nat j \<and> f \<le> rn_lastIndex n \<and> j < k + length es)"
  using assms
proof (induction n t p k es rule: conflict_scan.induct)
  case (2 n t p k e es)
  let ?idx = "p + 1 + of_nat k :: u64"
  have "unat ?idx = unat p + 1 + k"
    by (rule unat_index) (use 2(3) in simp)
  then have nz: "?idx \<noteq> 0"
    by (metis Suc_neq_Zero add.commute add_Suc plus_1_eq_Suc unat_0)
  show ?case
  proof (cases "rn_lastIndex n < ?idx \<or> log_term n ?idx \<noteq> entry_term t e")
    case True
    then show ?thesis
      using 2(2) nz by (auto simp: Let_def split: if_splits)
  next
    case False
    then have s: "conflict_scan n t p (Suc k) es = (f, j)"
      using 2(2) by (simp add: Let_def)
    have ih: "Suc k \<le> j \<and> j \<le> Suc k + length es
       \<and> (\<forall>i. Suc k \<le> i \<longrightarrow> i < j \<longrightarrow> p + 1 + of_nat i \<le> rn_lastIndex n
            \<and> log_term n (p + 1 + of_nat i) = entry_term t (es ! (i - Suc k)))
       \<and> (if f = 0 then j = Suc k + length es \<or> rn_lastIndex n < p + 1 + of_nat j
          else f = p + 1 + of_nat j \<and> f \<le> rn_lastIndex n \<and> j < Suc k + length es)"
      by (rule 2(1) [OF refl]) (use False s 2(3) in auto)
    have "p + 1 + of_nat i \<le> rn_lastIndex n \<and> log_term n (p + 1 + of_nat i) = entry_term t ((e # es) ! (i - k))"
      if "k \<le> i" "i < j" for i
    proof (cases "i = k")
      case True
      then show ?thesis
        using False by (simp add: not_less)
    next
      case False
      then have "i - k = Suc (i - Suc k)" "Suc k \<le> i"
        using that by simp_all
      then show ?thesis
        using ih that by simp
    qed
    then show ?thesis
      using ih by (simp split: if_splits)
  qed
qed simp

section \<open>An accepted batch is held\<close>

definition holds_batch :: "nat \<Rightarrow> append_request \<Rightarrow> (json \<times> u64 option) list \<Rightarrow> raft_node \<Rightarrow> raft_node \<Rightarrow> bool" where
  "holds_batch b q es n n' \<longleftrightarrow> log_ok b n'
     \<and> take (unat (aq_prevIndex q) - b) (rn_log n') = take (unat (aq_prevIndex q) - b) (rn_log n)
     \<and> unat (aq_prevIndex q) + length es \<le> unat (rn_lastIndex n')
     \<and> list_all (\<lambda>k. log_term n' (aq_prevIndex q + 1 + of_nat k) = entry_term (aq_term q) (es ! k)) [0..<length es]"

lemma advance_commit_frame [simp]:
  "rn_log (advance_commit c n) = rn_log n" "rn_lastIndex (advance_commit c n) = rn_lastIndex n"
  "rn_lastSnapshotIndex (advance_commit c n) = rn_lastSnapshotIndex n"
  "rn_lastSnapshotTerm (advance_commit c n) = rn_lastSnapshotTerm n"
  by (simp_all add: advance_commit_def Let_def)

lemma holds_batch_advance [simp]: "holds_batch b q es n (advance_commit c n') = holds_batch b q es n n'"
  by (simp add: holds_batch_def log_ok_def log_term_def)

text \<open>After the scan, or without one, the log ends where the batch continues.\<close>

lemma append_tail_holds:
  assumes ok: "log_ok b n" and run: "append_tail io q eps k n = (n', Some r)" "ar_success r"
    and k: "k \<le> length eps" and snap: "rn_lastSnapshotIndex n \<le> aq_prevIndex q"
    and room: "unat (aq_prevIndex q) + length eps < 2 ^ 64"
    and start: "if k < length eps then unat (rn_lastIndex n) = unat (aq_prevIndex q) + k
       else unat (aq_prevIndex q) + k \<le> unat (rn_lastIndex n)"
    and matched: "\<And>i. i < k \<Longrightarrow> log_term n (aq_prevIndex q + 1 + of_nat i) = entry_term (aq_term q) (fst (eps ! i))"
  shows "holds_batch b q (map fst eps) n n'"
proof (cases "k < length eps")
  case False
  then have "n' = advance_commit (aq_commit q) n" "k = length eps"
    using run k by (simp_all add: append_tail_def Let_def)
  then show ?thesis
    using ok start matched unfolding \<open>n' = _\<close> holds_batch_advance by (simp add: holds_batch_def list_all_iff)
next
  case True
  obtain rs where build: "build_records (aq_term q) (aq_prevIndex q) k (drop k eps) = Some rs"
      and n': "n' = advance_commit (aq_commit q) (append_records rs n)"
    using run True by (auto simp: append_tail_def refuse_def Let_def split: option.splits append_outcome.splits)
  let ?m = "append_records rs n" and ?p = "aq_prevIndex q"
  note nth = build_records_nth [OF build]
  have m: "log_ok b ?m" "unat (rn_lastIndex ?m) = unat ?p + length eps"
    using append_records_ok [OF ok build] start True room by simp_all
  have base: "b \<le> unat ?p" "unat (rn_lastIndex n) = b + length (rn_log n)"
    using ok snap by (auto simp: log_ok_def word_le_nat_alt)
  have frame: "rn_log ?m = rn_log n @ rs" "rn_lastSnapshotIndex ?m = rn_lastSnapshotIndex n"
      "rn_lastSnapshotTerm ?m = rn_lastSnapshotTerm n"
    by (simp_all add: append_records_def)
  have terms: "log_term ?m (?p + 1 + of_nat i) = entry_term (aq_term q) (fst (eps ! i))" if "i < length eps" for i
  proof -
    let ?idx = "?p + 1 + of_nat i :: u64"
    have u: "unat ?idx = unat ?p + 1 + i"
      by (rule unat_index) (use that room in simp)
    have c: "rn_lastSnapshotIndex n < ?idx" "?idx \<le> rn_lastIndex ?m"
      using u m(2) snap that by (simp_all add: word_less_nat_alt word_le_nat_alt)
    have t: "log_term ?m ?idx = rr_term ((rn_log n @ rs) ! (unat ?p + i - b))"
      using log_term_nth [OF m(1)] c u frame base by (simp add: Suc_diff_le)
    show ?thesis
    proof (cases "i < k")
      case True
      have "?idx \<le> rn_lastIndex n"
        using u True start \<open>k < length eps\<close> by (simp add: word_le_nat_alt)
      moreover have "unat ?p + i - b < length (rn_log n)"
        using True start base \<open>k < length eps\<close> by auto
      ultimately show ?thesis
        using t log_term_nth [OF ok c(1)] u base matched [OF True] by (simp add: nth_append)
    next
      case False
      then have "\<not> unat ?p + i - b < length (rn_log n)" "unat ?p + i - b - length (rn_log n) = i - k"
        using start base \<open>k < length eps\<close> by auto
      then show ?thesis
        using t nth False that by (simp add: nth_append)
    qed
  qed
  show ?thesis
    using m terms base start True unfolding n' holds_batch_advance
    by (simp add: holds_batch_def list_all_iff frame)
qed

text \<open>The log after the scan and the truncation it asks for.\<close>

lemma scan_result_ok:
  assumes ok: "log_ok b n" and scan: "conflict_scan n t p 0 es = (f, j)"
    and p: "p \<le> rn_lastIndex n" "rn_lastSnapshotIndex n \<le> p" and room: "unat p + length es < 2 ^ 64"
  defines "m \<equiv> if f \<noteq> 0 then truncate_log (f - 1) n else n"
  shows "log_ok b m \<and> take (unat p - b) (rn_log m) = take (unat p - b) (rn_log n)
     \<and> rn_lastSnapshotIndex m = rn_lastSnapshotIndex n
     \<and> (if j < length es then unat (rn_lastIndex m) = unat p + j else unat p + j \<le> unat (rn_lastIndex m))
     \<and> (\<forall>i<j. log_term m (p + 1 + of_nat i) = entry_term t (es ! i))"
proof -
  have spec: "j \<le> length es"
      "\<And>i. i < j \<Longrightarrow> p + 1 + of_nat i \<le> rn_lastIndex n \<and> log_term n (p + 1 + of_nat i) = entry_term t (es ! i)"
      "if f = 0 then j = length es \<or> rn_lastIndex n < p + 1 + of_nat j
       else f = p + 1 + of_nat j \<and> f \<le> rn_lastIndex n \<and> j < length es"
    using conflict_scan_spec [OF scan] room by auto
  have u: "unat (p + 1 + of_nat i :: u64) = unat p + 1 + i" if "i < length es" for i
    by (rule unat_index) (use that room in simp)
  have low: "unat p + j \<le> unat (rn_lastIndex n)"
  proof (cases j)
    case 0
    then show ?thesis
      using p(1) by (simp add: word_le_nat_alt)
  next
    case (Suc i)
    then show ?thesis
      using spec(1) spec(2) [of i] u [of i] by (simp add: word_le_nat_alt)
  qed
  show ?thesis
  proof (cases "f = 0")
    case True
    then have "unat (rn_lastIndex n) = unat p + j" if "j < length es"
      using that spec(3) low u [OF that] by (simp add: word_less_nat_alt)
    then show ?thesis
      using ok spec low True by (simp add: m_def)
  next
    case False
    then have f: "f = p + 1 + of_nat j" "f \<le> rn_lastIndex n" "j < length es"
      using spec(3) by (auto split: if_splits)
    then have uf: "unat (f - 1) = unat p + j"
      using room by (simp add: unat_word_ariths unat_of_nat mod_simps)
    have t: "rn_lastSnapshotIndex n \<le> f - 1" "f - 1 \<le> rn_lastIndex n"
      using p low uf by (auto simp: word_le_nat_alt)
    note tr = truncate_log_ok [OF ok t]
    have b: "b \<le> unat p"
      using ok p(2) by (auto simp: log_ok_def word_le_nat_alt)
    have s: "rn_lastSnapshotIndex m = rn_lastSnapshotIndex n"
      using False by (simp add: m_def truncate_log_def Let_def)
    have "log_term m (p + 1 + of_nat i) = entry_term t (es ! i)" if "i < j" for i
    proof -
      have c: "rn_lastSnapshotIndex n < p + 1 + of_nat i" "p + 1 + of_nat i \<le> f - 1"
        using u [of i] that f(3) p(2) uf by (simp_all add: word_less_nat_alt word_le_nat_alt)
      have "unat p + i - b < unat p + j - b"
        using that b by (simp add: diff_less_mono)
      then have "log_term m (p + 1 + of_nat i) = log_term n (p + 1 + of_nat i)"
        using log_term_nth [OF ok c(1)] log_term_nth [of b m, OF _ _] tr c s False u [of i] uf that f(3) spec(2) [OF that]
        by (simp add: m_def)
      then show ?thesis
        using spec(2) [OF that] by simp
    qed
    then show ?thesis
      using tr s False uf f(3) b by (simp add: m_def min_def)
  qed
qed

lemma append_checked_holds:
  assumes ok: "log_ok b n" and run: "append_checked io now q eps n = (n', Some r)" "ar_success r"
    and room: "unat (aq_prevIndex q) + length eps < 2 ^ 64" and ne: "eps \<noteq> []"
  shows "holds_batch b q (map fst eps) n n'"
proof -
  let ?n = "n\<lparr>rn_lastHeartbeat := now\<rparr>" and ?p = "aq_prevIndex q"
  have frame: "holds_batch b q es ?n = holds_batch b q es n" for es
    by (intro ext) (simp add: holds_batch_def)
  have ok1: "log_ok b ?n"
    using ok by (simp add: log_ok_def)
  have eff: "effectiveLastIndex n = rn_lastIndex n"
    using ok by (auto simp: effectiveLastIndex_def log_ok_def intro: max_absorb1)
  have p: "?p \<le> rn_lastIndex n" "rn_lastSnapshotIndex n \<le> ?p"
    using run ne eff by (auto simp: append_checked_def refuse_def not_less word_neq_0_conv split: if_splits)
  show ?thesis
  proof (cases "?p < rn_lastIndex n")
    case False
    then have "?p = rn_lastIndex n" "append_tail io q eps 0 ?n = (n', Some r)"
      using p run ne by (auto simp: append_checked_def refuse_def Let_def split: if_splits)
    then show ?thesis
      using append_tail_holds [OF ok1 _ run(2), of io q eps 0 n'] p room ne frame by simp
  next
    case True
    obtain f j where scan: "conflict_scan ?n (aq_term q) ?p 0 (map fst eps) = (f, j)"
      by fastforce
    note spec = conflict_scan_spec [OF scan]
    define m where "m = (if f \<noteq> 0 then truncate_log (f - 1) ?n else ?n)"
    have tail: "append_tail io q eps j m = (n', Some r)"
      using run ne True scan by (auto simp: append_checked_def refuse_def m_def Let_def split: if_splits)
    have m: "log_ok b m" "take (unat ?p - b) (rn_log m) = take (unat ?p - b) (rn_log n)"
        "rn_lastSnapshotIndex m = rn_lastSnapshotIndex n"
        "if j < length eps then unat (rn_lastIndex m) = unat ?p + j else unat ?p + j \<le> unat (rn_lastIndex m)"
        "\<forall>i<j. log_term m (?p + 1 + of_nat i) = entry_term (aq_term q) (map fst eps ! i)"
      using scan_result_ok [OF ok1 scan] p room unfolding m_def [symmetric] by simp_all
    have j: "j \<le> length eps"
      using spec room by simp
    have "holds_batch b q (map fst eps) m n'"
      using append_tail_holds [OF m(1) tail run(2) j] m(3-5) p(2) room j by simp
    then show ?thesis
      using m(2) by (simp add: holds_batch_def)
  qed
qed

end
