(* ===== verification/Raft_Quorum.thy ===== *)
theory Raft_Quorum
  imports Raft_Node
begin

text \<open>
  The leader's view of replication: the quorum index, the writers that wait for it
  (\<open>publishQuorumIndex\<close>, \<open>waitForQuorumIndex\<close>) and the advance of the commit index.  A waiter is a number;
  its promise is unset, or holds the outcome.
\<close>

section \<open>Waiters\<close>

record quorum_state =
  qs_reached :: u64
  qs_waiters :: "(u64 \<times> nat list) list"
  qs_promise :: "nat \<Rightarrow> bool option"

definition complete :: "bool \<Rightarrow> nat list \<Rightarrow> (nat \<Rightarrow> bool option) \<Rightarrow> nat \<Rightarrow> bool option" where
  "complete b ws pr = (\<lambda>w. if w \<in> set ws \<and> pr w = None then Some b else pr w)"

definition publishQuorumIndex :: "raft_node \<Rightarrow> quorum_state \<Rightarrow> quorum_state" where
  "publishQuorumIndex n st =
     (let q = computeQuorumIndex n;
          ready = concat (map snd (takeWhile (\<lambda>p. fst p \<le> q) (qs_waiters st)))
      in st\<lparr>qs_reached := max (qs_reached st) q, qs_waiters := dropWhile (\<lambda>p. fst p \<le> q) (qs_waiters st),
            qs_promise := complete True ready (qs_promise st)\<rparr>)"

text \<open>\<open>quorumWaitersByTarget_\<close> is an ordered map from targets to the waiters in arrival order.\<close>

fun add_waiter :: "u64 \<Rightarrow> nat \<Rightarrow> (u64 \<times> nat list) list \<Rightarrow> (u64 \<times> nat list) list" where
  "add_waiter t w [] = [(t, [w])]"
| "add_waiter t w ((t', ws) # m) =
     (if t < t' then (t, [w]) # (t', ws) # m
      else if t = t' then (t', ws @ [w]) # m
      else (t', ws) # add_waiter t w m)"

definition remove_waiter :: "u64 \<Rightarrow> nat \<Rightarrow> (u64 \<times> nat list) list \<Rightarrow> (u64 \<times> nat list) list" where
  "remove_waiter t w m =
     filter (\<lambda>p. snd p \<noteq> []) (map (\<lambda>p. if fst p = t then (t, filter (\<lambda>x. x \<noteq> w) (snd p)) else p) m)"

text \<open>\<open>waitForQuorumIndex\<close> up to the wait: a result at once, or a registered waiter.\<close>

definition wait_begin ::
    "raft_node \<Rightarrow> u64 \<Rightarrow> nat \<Rightarrow> nat \<Rightarrow> quorum_state \<Rightarrow> quorum_state \<times> (bool \<times> nat) option" where
  "wait_begin n targetIndex needed w st =
     (if targetIndex \<le> qs_reached st then (st, Some (True, needed))
      else
        let nowAcks = reachedCountForIndex targetIndex n
        in if needed \<le> nowAcks then (publishQuorumIndex n st, Some (True, nowAcks))
           else (st\<lparr>qs_waiters := add_waiter targetIndex w (qs_waiters st)\<rparr>, None))"

definition wait_end ::
    "raft_node \<Rightarrow> u64 \<Rightarrow> nat \<Rightarrow> nat \<Rightarrow> quorum_state \<Rightarrow> quorum_state \<times> bool \<times> nat" where
  "wait_end n targetIndex needed w st =
     (let ready = (qs_promise st w \<noteq> None);
          st1 = (if ready then st
                 else st\<lparr>qs_waiters := remove_waiter targetIndex w (qs_waiters st),
                         qs_promise := complete False [w] (qs_promise st)\<rparr>);
          ok = (qs_promise st w = Some True);
          nowAcks = reachedCountForIndex targetIndex n
      in (st1, ok \<or> needed \<le> nowAcks \<or> targetIndex \<le> qs_reached st1, nowAcks))"

section \<open>Commit\<close>

text \<open>A single write whose quorum was reached, and a batch.\<close>

definition commit_write :: "u64 \<Rightarrow> raft_node \<Rightarrow> raft_node" where
  "commit_write newIndex n =
     (let majorityIndex = max (computeQuorumIndex n) newIndex
      in if rn_commitIndex n < majorityIndex then n\<lparr>rn_commitIndex := majorityIndex\<rparr> else n)"

definition commit_batch :: "u64 \<Rightarrow> raft_node \<Rightarrow> raft_node" where
  "commit_batch lastIndex n =
     (let majorityIndex = computeQuorumIndex n
      in if lastIndex \<le> majorityIndex \<and> rn_commitIndex n < majorityIndex
         then n\<lparr>rn_commitIndex := majorityIndex\<rparr> else n)"

section \<open>The median index\<close>

text \<open>At least half of the replicas, rounded up, hold the median index, and no larger index has more than
  half of them rounded down.\<close>

lemma sorted_count_ge:
  assumes "sorted xs" "k < length xs"
  shows "length xs - k \<le> length (filter (\<lambda>x. xs ! k \<le> x) xs)"
proof -
  have "filter (\<lambda>x. xs ! k \<le> x) (drop k xs) = drop k xs"
    using assms by (auto simp: filter_id_conv in_set_conv_nth sorted_nth_mono)
  then have "length (drop k xs) \<le> length (filter (\<lambda>x. xs ! k \<le> x) (take k xs @ drop k xs))"
    by (simp del: append_take_drop_id)
  then show ?thesis
    by simp
qed

lemma sorted_count_gt:
  assumes "sorted xs" "k < length xs" "xs ! k < t"
  shows "length (filter (\<lambda>x. t \<le> x) xs) \<le> length xs - k - 1"
proof -
  have "x < t" if x: "x \<in> set (take (Suc k) xs)" for x
  proof -
    obtain i where "i < Suc k" "x = xs ! i"
      using x assms(2) by (auto simp: in_set_conv_nth)
    then show ?thesis
      using assms sorted_nth_mono [OF assms(1), of i k] by (auto intro: le_less_trans)
  qed
  then have "filter (\<lambda>x. t \<le> x) (take (Suc k) xs) = []"
    by (auto simp: filter_empty_conv dest: leD)
  then have "length (filter (\<lambda>x. t \<le> x) (take (Suc k) xs @ drop (Suc k) xs)) \<le> length (drop (Suc k) xs)"
    using length_filter_le [of "\<lambda>x. t \<le> x" "drop (Suc k) xs"] by (simp del: append_take_drop_id)
  then show ?thesis
    by simp
qed

definition replica_indices :: "raft_node \<Rightarrow> u64 list" where
  "replica_indices n = rn_lastIndex n # map snd (rn_matchIndex n)"

lemma filter_sort_length: "length (filter P (sort xs)) = length (filter P xs)"
  by (simp add: filter_sort)

lemma computeQuorumIndex_nth:
  "computeQuorumIndex n = sort (replica_indices n) ! (length (rn_matchIndex n) - length (rn_matchIndex n) div 2)"
proof -
  let ?xs = "sort (replica_indices n)"
  have "length ?xs = Suc (length (rn_matchIndex n))"
    by (simp add: replica_indices_def)
  then show ?thesis
    by (simp add: computeQuorumIndex_def replica_indices_def [symmetric] rev_nth Let_def)
qed

lemma quorum_count_ge:
  "length (rn_matchIndex n) div 2 + 1 \<le> length (filter (\<lambda>i. computeQuorumIndex n \<le> i) (replica_indices n))"
  using sorted_count_ge [of "sort (replica_indices n)" "length (rn_matchIndex n) - length (rn_matchIndex n) div 2"]
  by (simp add: computeQuorumIndex_nth filter_sort_length) (simp add: replica_indices_def)

lemma quorum_count_gt:
  "computeQuorumIndex n < t \<Longrightarrow> length (filter (\<lambda>i. t \<le> i) (replica_indices n)) \<le> length (rn_matchIndex n) div 2"
  using sorted_count_gt [of "sort (replica_indices n)" "length (rn_matchIndex n) - length (rn_matchIndex n) div 2" t]
  by (simp add: computeQuorumIndex_nth filter_sort_length) (simp add: replica_indices_def)

lemma reachedCount_replicas: "length (filter (\<lambda>i. t \<le> i) (replica_indices n)) \<le> reachedCountForIndex t n"
  by (simp add: reachedCountForIndex_def replica_indices_def filter_map case_prod_beta' comp_def)

text \<open>In a cluster of odd size the median is held by a quorum.\<close>

lemma quorum_index_majority:
  assumes "length (rn_matchIndex n) = length (remote_peers n)" "even (length (remote_peers n))"
  shows "quorumSize n \<le> reachedCountForIndex (computeQuorumIndex n) n"
  using quorum_count_ge [of n] reachedCount_replicas [of "computeQuorumIndex n" n] assms
  by (auto simp: quorumSize_def clusterNodeCount_def elim!: evenE)

section \<open>No waiter is stranded\<close>

definition waiting :: "quorum_state \<Rightarrow> (u64 \<times> nat) set" where
  "waiting st = {(t, w). \<exists>ws. (t, ws) \<in> set (qs_waiters st) \<and> w \<in> set ws}"

definition waiters_ok :: "quorum_state \<Rightarrow> bool" where
  "waiters_ok st \<longleftrightarrow> sorted_wrt (\<lambda>p q. fst p < fst q) (qs_waiters st)
     \<and> (\<forall>p\<in>set (qs_waiters st). qs_reached st < fst p)"

lemma add_waiter_keys: "fst ` set (add_waiter t w m) = insert t (fst ` set m)"
  by (induction t w m rule: add_waiter.induct) auto

lemma add_waiter_key:
  assumes "p \<in> set (add_waiter t w m)"
  shows "fst p = t \<or> fst p \<in> fst ` set m"
  using add_waiter_keys [of t w m] assms by blast

lemma add_waiter_sorted:
  assumes "sorted_wrt (\<lambda>p q. fst p < fst q) m"
  shows "sorted_wrt (\<lambda>p q. fst p < fst q) (add_waiter t w m)"
  using assms
proof (induction t w m rule: add_waiter.induct)
  case (2 t w t' ws m)
  have "t' < fst p" if "t' < t" "p \<in> set (add_waiter t w m)" for p
    using add_waiter_key [OF that(2)] that(1) 2(2) by auto
  then show ?case
    using 2 by (auto dest: less_trans)
qed simp

lemma dropWhile_sorted_above:
  assumes "sorted_wrt (\<lambda>p q. fst p < fst q) (m :: (u64 \<times> 'a) list)" "p \<in> set (dropWhile (\<lambda>p. fst p \<le> q) m)"
  shows "q < fst p"
  using assms by (induction m) (auto split: if_splits dest: less_trans)

lemma waiters_ok_publish:
  assumes "waiters_ok st"
  shows "waiters_ok (publishQuorumIndex n st)"
  using assms dropWhile_sorted_above [of "qs_waiters st"]
  by (auto simp: waiters_ok_def publishQuorumIndex_def Let_def sorted_wrt_dropWhile dest: set_dropWhileD)

lemma waiters_ok_begin:
  assumes "waiters_ok st"
  shows "waiters_ok (fst (wait_begin n t needed w st))"
proof -
  have "qs_reached st < fst p" if "p \<in> set (add_waiter t w (qs_waiters st))" "\<not> t \<le> qs_reached st" for p
    using add_waiter_key [OF that(1)] that(2) assms by (auto simp: waiters_ok_def)
  then show ?thesis
    using assms waiters_ok_publish [OF assms] add_waiter_sorted
    by (auto simp: wait_begin_def waiters_ok_def Let_def)
qed

lemma remove_waiter_sorted:
  "sorted_wrt (\<lambda>p q. fst p < fst q) m \<Longrightarrow> sorted_wrt (\<lambda>p q. fst p < fst q) (remove_waiter t w m)"
  unfolding remove_waiter_def by (intro sorted_wrt_filter) (auto simp: sorted_wrt_map elim!: sorted_wrt_mono_rel [rotated])

lemma waiters_ok_end:
  assumes "waiters_ok st"
  shows "waiters_ok (fst (wait_end n t needed w st))"
  using assms remove_waiter_sorted [of "qs_waiters st" t w]
  by (auto simp: wait_end_def waiters_ok_def remove_waiter_def Let_def)

text \<open>A waiter whose target is reached has its promise set by the publication that reaches it.\<close>

lemma publish_wakes:
  assumes "waiters_ok st" "(t, w) \<in> waiting st" "t \<le> qs_reached (publishQuorumIndex n st)"
  shows "qs_promise (publishQuorumIndex n st) w \<noteq> None"
proof -
  obtain ws where ws: "(t, ws) \<in> set (qs_waiters st)" "w \<in> set ws"
    using assms(2) by (auto simp: waiting_def)
  have "t \<le> computeQuorumIndex n"
    using assms ws(1) by (auto simp: waiters_ok_def publishQuorumIndex_def Let_def max_def split: if_splits)
  then have "(t, ws) \<in> set (takeWhile (\<lambda>p. fst p \<le> computeQuorumIndex n) (qs_waiters st))"
    using ws(1) dropWhile_sorted_above [of "qs_waiters st" "(t, ws)" "computeQuorumIndex n"] assms(1)
    by (metis Un_iff fst_conv leD set_append takeWhile_dropWhile_id waiters_ok_def)
  then show ?thesis
    using ws(2) by (force simp: publishQuorumIndex_def complete_def Let_def)
qed

end
