(* ===== verification/Raft_Index.thy ===== *)
theory Raft_Index
  imports Raft_Log "HOL-Library.AList"
begin

text \<open>
  Reading the replicated log by index (\<open>engine/src/raft_core.cpp\<close>): the index-to-term lookup with its
  bounded cache, and the range reader that feeds catch-up.
\<close>

section \<open>The header scan and the cache\<close>

text \<open>The lookup skips payloads by seeking, so it also sees the header of a record whose payload is cut.\<close>

function header_scan :: "nat \<Rightarrow> bytes \<Rightarrow> (u64 \<times> u64 \<times> nat) list" where
  "header_scan pos bs =
     (if length bs < 20 then []
      else (rec_index bs, rec_term bs, pos)
             # header_scan (pos + 20 + rec_size bs) (drop (20 + rec_size bs) bs))"
  by pat_completeness auto
termination
  by (relation "measure (\<lambda>(_, bs). length bs)") auto

declare header_scan.simps [simp del]

record term_cache =
  tc_terms :: "(u64 \<times> u64) list"
  tc_offsets :: "(u64 \<times> nat) list"

definition empty_cache :: term_cache where
  "empty_cache = \<lparr>tc_terms = [], tc_offsets = []\<rparr>"

definition cache_cutoff :: "nat \<Rightarrow> term_cache \<Rightarrow> u64" where
  "cache_cutoff cap cache =
     (let highest = foldl max 0 (map fst (tc_terms cache) @ map fst (tc_offsets cache))
      in if cap div 2 < unat highest then highest - of_nat (cap div 2) else 0)"

definition evict_below :: "u64 \<Rightarrow> (u64 \<times> 'a) list \<Rightarrow> (u64 \<times> 'a) list" where
  "evict_below cutoff = filter (\<lambda>(i, _). \<not> i < cutoff)"

definition cacheIndexTermAndOffset :: "nat \<Rightarrow> u64 \<Rightarrow> u64 \<Rightarrow> nat option \<Rightarrow> term_cache \<Rightarrow> term_cache" where
  "cacheIndexTermAndOffset cap index term offset cache =
     (if index = 0 then cache
      else
        let cutoff = cache_cutoff cap cache;
            cache1 = (if cap \<le> length (tc_terms cache) \<or> cap \<le> length (tc_offsets cache)
                      then \<lparr>tc_terms = evict_below cutoff (tc_terms cache),
                            tc_offsets = evict_below cutoff (tc_offsets cache)\<rparr>
                      else cache)
        in \<lparr>tc_terms = (if term \<noteq> 0 then AList.update index term (tc_terms cache1) else tc_terms cache1),
            tc_offsets = (case offset of Some off \<Rightarrow> AList.update index off (tc_offsets cache1)
                          | None \<Rightarrow> tc_offsets cache1)\<rparr>)"

text \<open>The loop of \<open>getTermForIndex\<close> over the headers: everything passed over is cached.\<close>

fun lookup_loop :: "nat \<Rightarrow> u64 \<Rightarrow> (u64 \<times> u64 \<times> nat) list \<Rightarrow> term_cache \<Rightarrow> u64 \<times> term_cache" where
  "lookup_loop cap index [] cache = (0, cache)"
| "lookup_loop cap index ((i, t, off) # hs) cache =
     (let cache1 = cacheIndexTermAndOffset cap i t (Some off) cache
      in if i = index then (t, cache1) else lookup_loop cap index hs cache1)"

record snapshot_meta =
  sn_index :: u64
  sn_term :: u64

definition getTermForIndex ::
    "nat \<Rightarrow> snapshot_meta \<Rightarrow> bytes option \<Rightarrow> u64 \<Rightarrow> term_cache \<Rightarrow> u64 \<times> term_cache" where
  "getTermForIndex cap sn file index cache =
     (if index = 0 then (0, cache)
      else if 0 < sn_index sn \<and> index = sn_index sn \<and> 0 < sn_term sn then (sn_term sn, cache)
      else case map_of (tc_terms cache) index of
             Some t \<Rightarrow> (t, cache)
           | None \<Rightarrow> (case file of None \<Rightarrow> (0, cache)
                      | Some bs \<Rightarrow> lookup_loop cap index (header_scan 0 bs) cache))"

text \<open>\<open>cacheRaftRecordBlock\<close>: the records just appended, at their file offsets.\<close>

function cacheRaftRecordBlock :: "nat \<Rightarrow> bytes \<Rightarrow> nat \<Rightarrow> term_cache \<Rightarrow> term_cache" where
  "cacheRaftRecordBlock cap bs offset cache =
     (if length bs < 20 then cache
      else if rec_size bs = 0 \<or> kMaxRaftPayloadBytes < rec_size bs \<or> length (drop 20 bs) < rec_size bs then cache
      else cacheRaftRecordBlock cap (drop (20 + rec_size bs) bs) (offset + 20 + rec_size bs)
             (cacheIndexTermAndOffset cap (rec_index bs) (rec_term bs) (Some offset) cache))"
  by pat_completeness auto
termination
  by (relation "measure (\<lambda>(_, bs, _, _). length bs)") auto

declare cacheRaftRecordBlock.simps [simp del]

section \<open>The cache is transparent\<close>

text \<open>What the lookup returns without a cache.\<close>

definition term_of_index :: "snapshot_meta \<Rightarrow> bytes option \<Rightarrow> u64 \<Rightarrow> u64" where
  "term_of_index sn file index =
     (if index = 0 then 0
      else if 0 < sn_index sn \<and> index = sn_index sn \<and> 0 < sn_term sn then sn_term sn
      else case file of None \<Rightarrow> 0
           | Some bs \<Rightarrow> (case map_of (header_scan 0 bs) index of Some (t, _) \<Rightarrow> t | None \<Rightarrow> 0))"

definition headers_of :: "bytes option \<Rightarrow> (u64 \<times> u64 \<times> nat) list" where
  "headers_of file = (case file of None \<Rightarrow> [] | Some bs \<Rightarrow> header_scan 0 bs)"

definition cache_coherent :: "(u64 \<times> u64 \<times> nat) list \<Rightarrow> term_cache \<Rightarrow> bool" where
  "cache_coherent hs cache \<longleftrightarrow>
     (\<forall>i t. map_of (tc_terms cache) i = Some t \<longrightarrow> (\<exists>off. map_of hs i = Some (t, off)))"

lemma map_of_evict:
  "map_of (evict_below cutoff al) i = (if i < cutoff then None else map_of al i)"
  by (induction al) (auto simp: evict_below_def)

lemma cache_coherent_insert:
  assumes "cache_coherent hs cache" "t = 0 \<or> map_of hs i = Some (t, off')"
  shows "cache_coherent hs (cacheIndexTermAndOffset cap i t off cache)"
  using assms
  by (auto simp: cache_coherent_def cacheIndexTermAndOffset_def Let_def AList.update_conv' map_of_evict
      split: if_splits)

lemma lookup_loop_coherent:
  assumes "cache_coherent hs cache" "\<forall>(i, t, off) \<in> set xs. map_of hs i = Some (t, off)"
  shows "cache_coherent hs (snd (lookup_loop cap index xs cache))
     \<and> fst (lookup_loop cap index xs cache) = (case map_of xs index of Some (t, _) \<Rightarrow> t | None \<Rightarrow> 0)"
  using assms
proof (induction xs arbitrary: cache)
  case Nil
  then show ?case by simp
next
  case (Cons x xs)
  obtain i t off where x: "x = (i, t, off)"
    by (cases x)
  have "cache_coherent hs (cacheIndexTermAndOffset cap i t (Some off) cache)"
    using Cons.prems by (intro cache_coherent_insert [of _ _ _ _ off]) (auto simp: x)
  then show ?case
    using Cons.IH Cons.prems(2) by (simp add: x Let_def)
qed

lemma getTermForIndex_coherent:
  assumes "cache_coherent (headers_of file) cache" "distinct (map fst (headers_of file))"
  shows "fst (getTermForIndex cap sn file index cache) = term_of_index sn file index"
    and "cache_coherent (headers_of file) (snd (getTermForIndex cap sn file index cache))"
proof -
  have all: "\<forall>(i, t, off) \<in> set (headers_of file). map_of (headers_of file) i = Some (t, off)"
    using assms(2) by (auto simp: map_of_is_SomeI)
  note loop = lookup_loop_coherent [OF assms(1) all, of cap index]
  show "fst (getTermForIndex cap sn file index cache) = term_of_index sn file index"
  proof (cases "map_of (tc_terms cache) index")
    case None
    then show ?thesis
      using loop by (cases "file") (simp_all add: getTermForIndex_def term_of_index_def headers_of_def)
  next
    case (Some t)
    then obtain off where "map_of (headers_of file) index = Some (t, off)"
      using assms(1) by (auto simp: cache_coherent_def)
    then show ?thesis
      using Some by (cases "file") (simp_all add: getTermForIndex_def term_of_index_def headers_of_def)
  qed
  show "cache_coherent (headers_of file) (snd (getTermForIndex cap sn file index cache))"
    using loop assms(1) by (cases "file") (auto simp: getTermForIndex_def headers_of_def split: option.split)
qed

section \<open>Ranges\<close>

text \<open>The reader of a range: \<open>None\<close> is the early return after a gap, the counter is the index expected next.\<close>

fun range_loop ::
    "(bytes \<Rightarrow> json option) \<Rightarrow> u64 \<Rightarrow> u64 \<Rightarrow> u64 \<Rightarrow> (json \<times> u64) list \<Rightarrow> raft_rec list
       \<Rightarrow> (u64 \<times> (json \<times> u64) list) option" where
  "range_loop dec fromIndex toIndex expected acc [] = Some (expected, acc)"
| "range_loop dec fromIndex toIndex expected acc (r # rs) =
     (if rr_index r < fromIndex then range_loop dec fromIndex toIndex expected acc rs
      else if toIndex < rr_index r then Some (expected, acc)
      else if rr_index r \<noteq> expected then None
      else case dec (rr_payload r) of
             None \<Rightarrow> Some (expected, acc)
           | Some e \<Rightarrow> range_loop dec fromIndex toIndex (expected + 1) (acc @ [(e, rr_term r)]) rs)"

definition readRaftEntriesRange ::
    "(bytes \<Rightarrow> json option) \<Rightarrow> bytes option \<Rightarrow> term_cache \<Rightarrow> u64 \<Rightarrow> u64 \<Rightarrow> (json \<times> u64) list" where
  "readRaftEntriesRange dec file cache fromIndex toIndex =
     (if fromIndex = 0 \<or> toIndex < fromIndex then []
      else case file of
             None \<Rightarrow> []
           | Some bs \<Rightarrow>
              (let start = (case map_of (tc_offsets cache) fromIndex of Some off \<Rightarrow> off | None \<Rightarrow> 0)
               in case range_loop dec fromIndex toIndex fromIndex [] (scan_log (drop start bs)) of
                    None \<Rightarrow> []
                  | Some (expected, acc) \<Rightarrow> if expected \<noteq> toIndex + 1 then [] else acc))"

text \<open>The entries of a range: consecutive indices, each decoded from the record of that index.\<close>

definition range_entries :: "(bytes \<Rightarrow> json option) \<Rightarrow> u64 \<Rightarrow> (json \<times> u64) list \<Rightarrow> raft_rec list \<Rightarrow> bool" where
  "range_entries dec fromIndex es rs \<longleftrightarrow>
     list_all2 (\<lambda>e r. dec (rr_payload r) = Some (fst e) \<and> rr_term r = snd e) es rs
     \<and> map rr_index rs = map (\<lambda>k. fromIndex + of_nat k) [0..<length es]"

lemma range_entries_snoc:
  assumes "range_entries dec fromIndex acc ms" "dec (rr_payload r) = Some e"
    and "rr_index r = fromIndex + of_nat (length acc)"
  shows "range_entries dec fromIndex (acc @ [(e, rr_term r)]) (ms @ [r])"
  using assms list_all2_lengthD [of _ acc ms]
  by (auto simp: range_entries_def list_all2_append)

lemma range_loop_entries:
  assumes "range_loop dec fromIndex toIndex expected acc rs = Some (expected', es)"
    and "range_entries dec fromIndex acc ms" "expected = fromIndex + of_nat (length acc)"
  shows "\<exists>ms'. range_entries dec fromIndex es ms' \<and> set ms' \<subseteq> set ms \<union> set rs
     \<and> expected' = fromIndex + of_nat (length es)"
  using assms
proof (induction rs arbitrary: expected acc ms)
  case Nil
  then show ?case by auto
next
  case (Cons r rs)
  show ?case
  proof (cases "rr_index r < fromIndex")
    case True
    then show ?thesis
      using Cons.IH [OF _ Cons.prems(2,3)] Cons.prems(1) by fastforce
  next
    case False
    show ?thesis
    proof (cases "dec (rr_payload r)")
      case None
      then show ?thesis
        using False Cons.prems by (auto split: if_splits)
    next
      case (Some e)
      show ?thesis
      proof (cases "toIndex < rr_index r")
        case True
        then show ?thesis
          using False Cons.prems by auto
      next
        case ge: False
        have idx: "rr_index r = expected"
          and next_loop: "range_loop dec fromIndex toIndex (expected + 1) (acc @ [(e, rr_term r)]) rs = Some (expected', es)"
          using Cons.prems(1) False ge Some by (auto split: if_splits)
        have "range_entries dec fromIndex (acc @ [(e, rr_term r)]) (ms @ [r])"
          using range_entries_snoc [OF Cons.prems(2) Some] idx Cons.prems(3) by simp
        from Cons.IH [OF next_loop this] show ?thesis
          using Cons.prems(3) by (auto simp: algebra_simps)
      qed
    qed
  qed
qed

end
