(* ===== verification/Raft_File.thy ===== *)
theory Raft_File
  imports Raft_Log
begin

text \<open>
  The append path of \<open>PersistentRaftLog\<close> on the bytes of \<open>raft/log.bin\<close>, and the round trip of a record
  payload.  The results of the successive \<open>write\<close> calls are a list; once it is exhausted the rest is
  written by one call.
\<close>

section \<open>Appending bytes\<close>

datatype raft_write = Interrupted | Wrote nat | WriteFailed

text \<open>A count of zero fails like an error; the kernel never reports more than it was given.\<close>

fun raft_append_bytes :: "raft_write list \<Rightarrow> bytes \<Rightarrow> bytes \<Rightarrow> bytes \<times> bool" where
  "raft_append_bytes [] fl bs = (fl @ bs, True)"
| "raft_append_bytes (w # ws) fl bs =
     (if bs = [] then (fl, True)
      else case w of
             Interrupted \<Rightarrow> raft_append_bytes ws fl bs
           | WriteFailed \<Rightarrow> (fl, False)
           | Wrote count \<Rightarrow> if count = 0 then (fl, False)
                            else raft_append_bytes ws (fl @ take count bs) (drop count bs))"

text \<open>A successful append adds all the bytes; a failed one adds a proper part of them.\<close>

lemma raft_append_bytes_result:
  assumes "raft_append_bytes ws fl bs = (fl', ok)"
  shows "if ok then fl' = fl @ bs else \<exists>k. k < length bs \<and> fl' = fl @ take k bs"
  using assms
proof (induction ws fl bs rule: raft_append_bytes.induct)
  case (2 w ws fl bs)
  show ?case
  proof (cases "bs \<noteq> [] \<and> (\<exists>c. w = Wrote c \<and> c \<noteq> 0)")
    case True
    then obtain c where c: "w = Wrote c" "c \<noteq> 0" "bs \<noteq> []"
      by blast
    then have ih: "if ok then fl' = (fl @ take c bs) @ drop c bs
        else \<exists>k. k < length (drop c bs) \<and> fl' = (fl @ take c bs) @ take k (drop c bs)"
      using 2 by simp
    show ?thesis
    proof (cases ok)
      case False
      then obtain k where "k < length (drop c bs)" "fl' = (fl @ take c bs) @ take k (drop c bs)"
        using ih by auto
      then show ?thesis
        using False by (intro if_not_P [THEN iffD2] exI [of _ "c + k"]) (auto simp: take_add)
    qed (use ih in simp)
  next
    case False
    then show ?thesis
      using 2 by (auto split: raft_write.splits if_splits intro: exI [of _ 0])
  qed
qed auto

text \<open>The records that were in the file stay readable, and so does every record appended whole.\<close>

lemma raft_append_bytes_scan:
  assumes "raft_append_bytes ws (write_log rs) (write_log new) = (fl', True)" "list_all rec_fits (rs @ new)"
  shows "scan_log fl' = rs @ new"
proof -
  have "fl' = write_log (rs @ new)"
    using raft_append_bytes_result [OF assms(1)] by (simp add: write_log_def)
  then show ?thesis
    using scan_write_log [OF assms(2)] by simp
qed

text \<open>A failed append of one record leaves the log as it was for a reader.\<close>

lemma raft_append_bytes_failed:
  assumes "raft_append_bytes ws (write_log rs) (raft_enc r) = (fl', False)" "list_all rec_fits (r # rs)"
  shows "scan_log fl' = rs"
proof -
  obtain k where k: "k < length (raft_enc r)" "fl' = write_log rs @ take k (raft_enc r)"
    using raft_append_bytes_result [OF assms(1)] by auto
  then show ?thesis
    using assms(2) scan_log_write [of rs "take k (raft_enc r)"] scan_log_torn [OF _ k(1)] by simp
qed

section \<open>Payloads\<close>

lemma raft_payload_decodes:
  assumes enc: "encodeRaftLogPayload c z v = Some p"
    and pack: "from_msgpack c (to_msgpack c v) = Some v"
    and zip: "\<And>y. lz_compress z (to_msgpack c v) = Some y
                \<Longrightarrow> lz_decompress z y (length (to_msgpack c v)) = Some (to_msgpack c v)"
  shows "decodeRaftPayload c z p = Some v"
proof -
  let ?b = "to_msgpack c v"
  have b: "?b \<noteq> []" "length ?b \<le> kMaxRaftPayloadBytes" "length ?b < 2 ^ 32"
    using enc by (auto simp: encodeRaftLogPayload_def kMaxRaftPayloadBytes_def Let_def split: if_splits)
  obtain codec e where p: "p = kRaftRecordMagic @ [codec] @ le_bytes 4 (of_nat (length ?b) :: u32)
      @ le_bytes 4 (crc32 ?b) @ e"
    and ce: "codec = 0 \<and> e = ?b \<or> codec = 1 \<and> e \<noteq> [] \<and> length e < length ?b
       \<and> lz_decompress z e (length ?b) = Some ?b"
    using enc zip by (auto simp: encodeRaftLogPayload_def Let_def split: if_splits option.splits)
  have f: "take 5 p = kRaftRecordMagic" "length p = 14 + length e" "p ! 5 = codec" "drop 14 p = e"
      "take 4 (drop 6 p) = le_bytes 4 (of_nat (length ?b) :: u32)" "take 4 (drop 10 p) = le_bytes 4 (crc32 ?b)"
    by (simp_all add: p kRaftRecordMagic_def bytes_of_def nth_append)
  have "decodeRaftRecord c z p = Some v"
    using b ce pack
    by (auto simp: decodeRaftRecord_def f kRaftRecordHeaderBytes_def codec_simps unat_of_nat
        kMaxRaftPayloadBytes_def Let_def)
  then show ?thesis
    by (simp add: decodeRaftPayload_def f(1))
qed

end
