(* ===== verification/Raft_Props.thy ===== *)
theory Raft_Props
  imports Raft_Race Raft_Match Raft_Quorum Raft_Index Raft_File
begin

text \<open>
  The properties of the consensus component, with the runs and states at which they are applied.
\<close>

section \<open>Elections\<close>

text \<open>C20: Election safety.  In every state a cluster can reach from rest, whichever writes of the consensus
  file fail, whichever vote requests are lost, delayed or duplicated, and however nodes crash and restart,
  at most one candidate has won the election of a term.\<close>

theorem raft_election_safety:
  assumes "config_ok M addr cl0" "initial_cluster cl0" "cluster_reachable M addr cl0 cl"
    and "(t, c) \<in> cl_winners cl" "(t, c') \<in> cl_winners cl"
  shows "c = c'"
  using one_winner_per_term [OF reachable_inv [OF assms(3,1,2)] assms(4,5)] .

theorem raft_election_safety_witness:
  "\<exists>cl. cluster_reachable (set [''A'', ''B'', ''C'']) three_addr three_nodes cl \<and> (2, ''B'') \<in> cl_winners cl
     \<and> (\<forall>c. (2, c) \<in> cl_winners cl \<longrightarrow> c = ''B'')"
proof -
  obtain cl where cl: "exec_events [''A'', ''B'', ''C''] three_addr late_leader_run three_nodes = Some cl"
      "(2, ''B'') \<in> cl_winners cl"
    using late_leader_state by (auto split: option.splits)
  have r: "cluster_reachable (set [''A'', ''B'', ''C'']) three_addr three_nodes cl"
    by (rule exec_events_reachable [OF cl(1) cluster_reachable.here])
  show ?thesis
    using r cl(2) raft_election_safety [OF three_nodes_ok three_nodes_initial r _ cl(2)] by blast
qed

text \<open>C32: The leader flag is not covered by election safety.  The monitor loop raises the flag after the
  election lock is released and without looking at the term again, so a cluster of three nodes reaches a
  state in which two nodes are leaders in the same term, one of them having voted for the other.\<close>

theorem raft_two_leaders_reachable:
  "\<exists>cl. cluster_reachable (set [''A'', ''B'', ''C'']) three_addr three_nodes cl
     \<and> rn_leader (cl_node cl ''A'') \<and> rn_leader (cl_node cl ''B'')
     \<and> rn_currentTerm (cl_node cl ''A'') = rn_currentTerm (cl_node cl ''B'')
     \<and> rn_votedFor (cl_node cl ''A'') = ''B''"
proof -
  obtain cl where cl: "exec_events [''A'', ''B'', ''C''] three_addr late_leader_run three_nodes = Some cl"
      "rn_leader (cl_node cl ''A'') \<and> rn_leader (cl_node cl ''B'')
       \<and> rn_currentTerm (cl_node cl ''A'') = rn_currentTerm (cl_node cl ''B'')
       \<and> rn_votedFor (cl_node cl ''A'') = ''B''"
    using late_leader_state by (auto split: option.splits)
  then show ?thesis
    using exec_events_reachable [OF cl(1) cluster_reachable.here] by blast
qed

text \<open>C24: The messages of leaders never let a node vote twice: AppendEntries, heartbeats and shipped WAL
  entries keep the invariant that ties every vote given to the term, the vote and the consensus file of
  the node.\<close>

theorem raft_messages_keep_votes:
  assumes "node_inv G v n"
  shows "node_inv G v (fst (handle_append_entries enc io out now q n))
     \<and> node_inv G v (fst (handle_heartbeat out now hb n))
     \<and> node_inv G v (fst (handle_wal_ship enc io out t c es n))"
proof -
  have "node_steps n (fst (handle_append_entries enc io out now q n))"
    by (rule handle_append_entries_steps [OF prod.collapse [symmetric]])
  moreover have "node_steps n (fst (handle_heartbeat out now hb n))"
    by (rule handle_heartbeat_steps [OF prod.collapse [symmetric]])
  moreover have "node_steps n (fst (handle_wal_ship enc io out t c es n))"
    by (rule handle_wal_ship_steps [OF prod.collapse [symmetric]])
  ultimately show ?thesis
    using assms node_steps_inv by blast
qed

definition voted_node :: raft_node where
  "voted_node = (fresh_node ''A'' three_peers)\<lparr>rn_currentTerm := 1, rn_votedFor := ''B'',
     rn_persisted := zero_file\<lparr>cf_term := 1, cf_vote := ''B''\<rparr>, rn_disk := zero_file\<lparr>cf_term := 1, cf_vote := ''B''\<rparr>\<rparr>"

definition new_leader_batch :: append_request where
  "new_leader_batch = \<lparr>aq_term = 2, aq_leader = ''C'', aq_prevIndex = 0, aq_prevTerm = 0, aq_commit = 1,
     aq_entries = [(JNull, Some 2)]\<rparr>"

definition good_io :: append_io where
  "good_io = \<lparr>ai_truncate = Truncated, ai_append = Appended\<rparr>"

theorem raft_messages_keep_votes_witness:
  "node_inv {(''A'', 1, ''B'')} ''A'' (fst (handle_append_entries (\<lambda>_. Some [1]) good_io PersistFail 0 new_leader_batch voted_node))"
proof -
  have "node_inv {(''A'', 1, ''B'')} ''A'' voted_node"
    by (simp add: node_inv_def mem_ok_def file_ok_def voted_node_def fresh_node_def)
  then show ?thesis
    using raft_messages_keep_votes by blast
qed

section \<open>Replication\<close>


definition raft_record :: "u64 \<Rightarrow> u64 \<Rightarrow> raft_rec" where
  "raft_record i t = \<lparr>rr_index = i, rr_term = t, rr_payload = [7]\<rparr>"

text \<open>A follower with a committed record and a second one that no leader of a later term has.\<close>

definition follower :: raft_node where
  "follower = (fresh_node ''A'' three_peers)\<lparr>rn_currentTerm := 1, rn_log := [raft_record 1 1, raft_record 2 1],
     rn_lastIndex := 2, rn_lastEntryTerm := 1, rn_commitIndex := 1\<rparr>"

definition conflicting_batch :: append_request where
  "conflicting_batch = \<lparr>aq_term = 2, aq_leader = ''B'', aq_prevIndex = 1, aq_prevTerm = 1, aq_commit = 1,
     aq_entries = [(JNull, Some 2), (JNull, None)]\<rparr>"

definition handled :: "append_io \<Rightarrow> append_request \<Rightarrow> raft_node \<times> append_reply option" where
  "handled io q = handle_append_entries (\<lambda>_. Some [7]) io PersistOk 0 q follower"

lemmas append_eval = handled_def follower_def fresh_node_def three_peers_def zero_file_def raft_record_def
  handle_append_entries_def adoptLeaderTermLocked_def persistElection_def persistConsensusState_def
  append_checked_def append_tail_def append_records_def truncate_log_def advance_commit_def accept_def refuse_def
  effectiveLastIndex_def log_term_def first_term_def entry_term_def kMaxRaftPayloadBytes_def Let_def
  word_le_nat_alt






text \<open>Truncation is not atomic.  The log is removed before the copy is renamed over it, so when that
  rename fails the file has lost every record, the committed one included, while the node still believes
  in its last index.\<close>

theorem raft_truncate_rename_loses_log:
  "(case handled (good_io\<lparr>ai_truncate := TruncateRenameFailed\<rparr>) conflicting_batch of
      (n', r) \<Rightarrow> rn_log follower \<noteq> [] \<and> rn_commitIndex n' = 1 \<and> rn_lastIndex n' = 2 \<and> rn_log n' = [])"
  by (simp add: good_io_def conflicting_batch_def append_eval)

section \<open>Quorums\<close>

text \<open>C25: In a cluster of odd size the index the leader commits is held by a quorum, counted as the engine
  counts acknowledgements, and it is the largest such index: any larger one is missing at too many
  replicas.\<close>

theorem raft_quorum_index:
  assumes "length (rn_matchIndex n) = length (remote_peers n)" "odd (clusterNodeCount n)"
  shows "quorumSize n \<le> reachedCountForIndex (computeQuorumIndex n) n
     \<and> (computeQuorumIndex n < t
        \<longrightarrow> length (filter (\<lambda>i. t \<le> i) (rn_lastIndex n # map snd (rn_matchIndex n))) < quorumSize n)"
proof -
  have "even (length (remote_peers n))"
    using assms(2) by (simp add: clusterNodeCount_def)
  then show ?thesis
    using quorum_index_majority [OF assms(1)] quorum_count_gt [of n t] assms(1)
    by (auto simp: quorumSize_def clusterNodeCount_def replica_indices_def)
qed

definition leader_with :: "string list \<Rightarrow> u64 list \<Rightarrow> raft_node" where
  "leader_with ps ms = (fresh_node ''A'' (''A@hostA:7000'' # ps))\<lparr>rn_leader := True, rn_lastIndex := 9,
     rn_matchIndex := zip ps ms\<rparr>"

theorem raft_quorum_index_witness:
  "computeQuorumIndex (leader_with [''B@hostB:7000'', ''C@hostC:7000''] [5, 3]) = 5
     \<and> quorumSize (leader_with [''B@hostB:7000'', ''C@hostC:7000''] [5, 3])
         \<le> reachedCountForIndex (computeQuorumIndex (leader_with [''B@hostB:7000'', ''C@hostC:7000''] [5, 3]))
             (leader_with [''B@hostB:7000'', ''C@hostC:7000''] [5, 3])"
proof -
  let ?n = "leader_with [''B@hostB:7000'', ''C@hostC:7000''] [5, 3]"
  have "length (rn_matchIndex ?n) = length (remote_peers ?n)" "odd (clusterNodeCount ?n)" "computeQuorumIndex ?n = 5"
    by code_simp+
  then show ?thesis
    using raft_quorum_index [of ?n] by blast
qed

text \<open>In a cluster of four the median is not a quorum: with the leader and one follower at index 9
  and the other two empty, the engine takes 9 for replicated by a quorum, wakes the writer that waits for it
  and commits it, though only two of the three nodes a quorum needs have it.\<close>

theorem raft_quorum_even_cluster:
  "let n = leader_with [''B@hostB:7000'', ''C@hostC:7000'', ''D@hostD:7000''] [9, 0, 0];
       st = \<lparr>qs_reached = 0, qs_waiters = [(9, [1])], qs_promise = (\<lambda>_. None)\<rparr>
   in clusterNodeCount n = 4 \<and> quorumSize n = 3 \<and> reachedCountForIndex 9 n = 2
      \<and> computeQuorumIndex n = 9 \<and> qs_promise (publishQuorumIndex n st) 1 = Some True
      \<and> rn_commitIndex (commit_batch 9 n) = 9"
  by code_simp



end
