(* ===== verification/Raft_Log_Props.thy ===== *)
theory Raft_Log_Props
  imports Raft_Index Raft_File Raft_Race
begin

text \<open>
  The properties of the log file, its caches, the applier and the consensus file.
\<close>

section \<open>The applier\<close>




definition two_records :: bytes where
  "two_records = write_log [\<lparr>rr_index = 1, rr_term = 1, rr_payload = [1]\<rparr>, \<lparr>rr_index = 2, rr_term = 1, rr_payload = [2]\<rparr>]"



section \<open>The log file\<close>



definition long_record :: raft_rec where
  "long_record = \<lparr>rr_index = 2, rr_term = 1, rr_payload = replicate 40 7\<rparr>"

definition short_record :: "u64 \<Rightarrow> raft_rec" where
  "short_record i = \<lparr>rr_index = i, rr_term = 1, rr_payload = [7]\<rparr>"


text \<open>A failed append poisons the ones after it.  The bytes it wrote stay in the file, no caller on the
  replication paths cuts them off, and a record that is then appended successfully is swallowed as the
  payload of the torn one: the log reads as if it had never been written.\<close>

theorem raft_torn_append_hides_next:
  "let (log1, ok1) = raft_append_bytes [Wrote 21, WriteFailed] (write_log [short_record 1]) (raft_enc long_record);
       (log2, ok2) = raft_append_bytes [] log1 (raft_enc (short_record 2))
   in \<not> ok1 \<and> ok2 \<and> scan_log log2 = [short_record 1]"
  by code_simp

text \<open>C29: The term lookup is transparent to its cache: whatever was cached, as long as it agrees with the
  file, a lookup returns the term the file or the snapshot gives, and leaves a cache that agrees.\<close>

theorem raft_term_cache_transparent:
  assumes "cache_coherent (headers_of log_file) cache" "distinct (map fst (headers_of log_file))"
  shows "fst (getTermForIndex cap sn log_file index cache) = term_of_index sn log_file index
     \<and> cache_coherent (headers_of log_file) (snd (getTermForIndex cap sn log_file index cache))"
  using getTermForIndex_coherent [OF assms] by blast

theorem raft_term_cache_transparent_witness:
  "fst (getTermForIndex 4 \<lparr>sn_index = 0, sn_term = 0\<rparr> (Some two_records) 2 empty_cache)
     = term_of_index \<lparr>sn_index = 0, sn_term = 0\<rparr> (Some two_records) 2"
proof -
  have "distinct (map fst (headers_of (Some two_records)))"
    by code_simp
  moreover have "cache_coherent (headers_of (Some two_records)) empty_cache"
    by (simp add: cache_coherent_def empty_cache_def)
  ultimately show ?thesis
    using raft_term_cache_transparent by blast
qed




text \<open>A log payload decodes to the entry it was made from, compressed or not, when MessagePack and LZ4
  undo themselves on it.\<close>

theorem raft_payload_roundtrip:
  assumes "encodeRaftLogPayload c z v = Some p" "from_msgpack c (to_msgpack c v) = Some v"
    and "\<forall>y. lz_compress z (to_msgpack c v) = Some y
           \<longrightarrow> lz_decompress z y (length (to_msgpack c v)) = Some (to_msgpack c v)"
  shows "decodeRaftPayload c z p = Some v"
  using raft_payload_decodes [OF assms(1,2)] assms(3) by blast

definition sample_codec :: json_codec where
  "sample_codec = \<lparr>to_msgpack = (\<lambda>_. replicate 8 1), from_msgpack = (\<lambda>_. Some JNull), jdump = (\<lambda>_. []), jparse = (\<lambda>_. None)\<rparr>"

definition sample_lz4 :: lz4 where
  "sample_lz4 = \<lparr>lz_bound = int, lz_compress = (\<lambda>b. Some (take 1 b)), lz_decompress = (\<lambda>b n. Some (replicate n (hd b)))\<rparr>"

theorem raft_payload_roundtrip_witness:
  "\<exists>p. encodeRaftLogPayload sample_codec sample_lz4 JNull = Some p \<and> decodeRaftPayload sample_codec sample_lz4 p = Some JNull"
proof -
  obtain p where p: "encodeRaftLogPayload sample_codec sample_lz4 JNull = Some p"
    by (simp add: encodeRaftLogPayload_def sample_codec_def sample_lz4_def kMaxRaftPayloadBytes_def
        kRaftFrameReserveBytes_def Let_def)
  moreover have "decodeRaftPayload sample_codec sample_lz4 p = Some JNull"
    by (rule raft_payload_roundtrip [OF p]) (simp_all add: sample_codec_def sample_lz4_def eval_nat_numeral)
  ultimately show ?thesis
    by blast
qed

section \<open>The consensus file\<close>



end
