(* ===== verification/Vector_Journal.thy ===== *)
theory Vector_Journal
  imports Prelude "HOL-Library.Sublist"
begin

text \<open>
  The bounded change journal behind incremental vector indexes (\<open>engine/src/vector_change_journal.cpp\<close>).
  It remembers the identifiers of recent mutations and forgets old ones; a reader with a cursor either gets
  every mutation after it or is told of a gap.  Whether the allocation of an entry succeeds is an argument.
  The abstract feed is the whole history of an epoch, with \<open>None\<close> for a mutation whose identifier is lost.
\<close>

section \<open>Model\<close>

record change =
  ch_sequence :: u64
  ch_id :: string
  ch_minimumVisibility :: u64

record cursor =
  cu_epoch :: u64
  cu_sequence :: u64

datatype journal_state = Covered | More | Gap | VisibilityBlocked

record journal_batch =
  jb_state :: journal_state
  jb_next :: cursor
  jb_changes :: "change list"

record journal =
  jn_entries :: "change list"
  jn_capacity :: nat
  jn_epoch :: u64
  jn_sequence :: u64
  jn_floor :: u64
  jn_poisoned :: bool

text \<open>The process-wide epoch counter: the epoch handed out, and the counter after it.\<close>

definition next_epoch :: "u64 \<Rightarrow> u64 \<times> u64" where
  "next_epoch epochs = (if epochs = - 1 then (0, epochs) else (epochs, epochs + 1))"

definition new_journal :: "nat \<Rightarrow> nat \<Rightarrow> u64 \<Rightarrow> journal option \<times> u64" where
  "new_journal records bytes epochs =
     (let (e, epochs1) = next_epoch epochs
      in if records = 0 \<or> 65536 < records \<or> bytes < 1024 \<or> 64 * 1024 * 1024 < bytes then (None, epochs1)
         else if e = 0 \<or> e = - 1 then (None, epochs1)
         else (Some \<lparr>jn_entries = [], jn_capacity = records, jn_epoch = e, jn_sequence = 0, jn_floor = 0,
                     jn_poisoned = False\<rparr>, epochs1))"

definition journal_capture :: "journal \<Rightarrow> cursor" where
  "journal_capture j =
     (if jn_poisoned j then \<lparr>cu_epoch = 0, cu_sequence = 0\<rparr>
      else \<lparr>cu_epoch = jn_epoch j, cu_sequence = jn_sequence j\<rparr>)"

definition gapLocked :: "journal \<Rightarrow> journal" where
  "gapLocked j = j\<lparr>jn_floor := jn_sequence j, jn_entries := []\<rparr>"

definition journal_append :: "bool \<Rightarrow> string \<Rightarrow> u64 \<Rightarrow> journal \<Rightarrow> journal \<times> bool" where
  "journal_append alloc_ok ident visibility j =
     (if jn_poisoned j then (j, False)
      else if jn_sequence j = - 1 then (gapLocked (j\<lparr>jn_poisoned := True\<rparr>), False)
      else
        let j1 = j\<lparr>jn_sequence := jn_sequence j + 1\<rparr>
        in if ident = [] \<or> 1024 < length ident then (gapLocked j1, False)
           else
             let j2 = (if length (jn_entries j1) = jn_capacity j1
                       then j1\<lparr>jn_floor := ch_sequence (hd (jn_entries j1)), jn_entries := tl (jn_entries j1)\<rparr>
                       else j1)
             in if alloc_ok
                then (j2\<lparr>jn_entries := jn_entries j2 @ [\<lparr>ch_sequence = jn_sequence j2, ch_id = ident,
                                                       ch_minimumVisibility = visibility\<rparr>]\<rparr>, True)
                else (gapLocked j2, False))"

definition journal_gap :: "journal \<Rightarrow> journal" where
  "journal_gap j =
     gapLocked (if jn_sequence j = - 1 then j\<lparr>jn_poisoned := True\<rparr> else j\<lparr>jn_sequence := jn_sequence j + 1\<rparr>)"

definition journal_reset :: "u64 \<Rightarrow> journal \<Rightarrow> journal \<times> u64" where
  "journal_reset epochs j =
     (let (e, epochs1) = next_epoch epochs
      in (gapLocked (j\<lparr>jn_epoch := e, jn_poisoned := (e = 0 \<or> e = - 1), jn_sequence := 0\<rparr>), epochs1))"

fun after_loop :: "u64 \<Rightarrow> u64 \<Rightarrow> nat \<Rightarrow> u64 \<Rightarrow> change list \<Rightarrow> journal_batch \<Rightarrow> journal_batch \<times> bool" where
  "after_loop from visibility maximum ep [] b = (b, True)"
| "after_loop from visibility maximum ep (e # es) b =
     (if ch_sequence e \<le> from then after_loop from visibility maximum ep es b
      else if visibility < ch_minimumVisibility e then (b\<lparr>jb_state := VisibilityBlocked\<rparr>, False)
      else if length (jb_changes b) = maximum then (b\<lparr>jb_state := More\<rparr>, False)
      else after_loop from visibility maximum ep es
             (b\<lparr>jb_changes := jb_changes b @ [e], jb_next := \<lparr>cu_epoch = ep, cu_sequence = ch_sequence e\<rparr>\<rparr>))"

definition journal_after :: "cursor \<Rightarrow> u64 \<Rightarrow> nat \<Rightarrow> journal \<Rightarrow> journal_batch option" where
  "journal_after c visibility maximum j =
     (if maximum = 0 \<or> 4096 < maximum then None
      else if jn_poisoned j \<or> cu_epoch c \<noteq> jn_epoch j \<or> cu_sequence c < jn_floor j \<or> jn_sequence j < cu_sequence c
      then Some \<lparr>jb_state = Gap, jb_next = c, jb_changes = []\<rparr>
      else
        case after_loop (cu_sequence c) visibility maximum (jn_epoch j) (jn_entries j)
               \<lparr>jb_state = Covered, jb_next = c, jb_changes = []\<rparr> of
          (b, False) \<Rightarrow> Some b
        | (b, True) \<Rightarrow> Some (if cu_sequence (jb_next b) \<noteq> jn_sequence j then b\<lparr>jb_state := Gap\<rparr> else b))"

section \<open>The feed it represents\<close>

type_synonym feed = "(string \<times> u64) option list"

text \<open>The entries are the consecutive mutations above the floor, none of them lost.\<close>

definition feed_rep :: "feed \<Rightarrow> journal \<Rightarrow> bool" where
  "feed_rep h j \<longleftrightarrow> unat (jn_sequence j) = length h \<and> unat (jn_floor j) + length (jn_entries j) = length h
     \<and> map (\<lambda>e. unat (ch_sequence e)) (jn_entries j) = [Suc (unat (jn_floor j))..<Suc (length h)]
     \<and> map (\<lambda>e. Some (ch_id e, ch_minimumVisibility e)) (jn_entries j) = drop (unat (jn_floor j)) h
     \<and> length (jn_entries j) \<le> jn_capacity j \<and> 0 < jn_capacity j"

lemma unat_succ_u64: "(x :: u64) \<noteq> - 1 \<Longrightarrow> unat (x + 1) = Suc (unat x)"
  by (metis add.commute add.inverse_unique unatSuc)

lemma gapLocked_rep: "unat (jn_sequence j) = length h \<Longrightarrow> 0 < jn_capacity j \<Longrightarrow> feed_rep h (gapLocked j)"
  by (simp add: feed_rep_def gapLocked_def)

lemma new_journal_rep: "new_journal records bytes epochs = (Some j, epochs') \<Longrightarrow> feed_rep [] j \<and> \<not> jn_poisoned j"
  by (auto simp: new_journal_def feed_rep_def next_epoch_def Let_def split: if_splits)

lemma journal_gap_rep:
  assumes "feed_rep h j"
  shows "feed_rep (if jn_sequence j = - 1 then h else h @ [None]) (journal_gap j)"
  using assms unat_succ_u64 [of "jn_sequence j"]
  by (auto simp: journal_gap_def feed_rep_def gapLocked_def)

lemma upt_shift: "[Suc a..<Suc b] = map Suc [a..<b]"
  by (simp add: map_Suc_upt)

lemma journal_append_rep:
  assumes rep: "feed_rep h j" and app: "journal_append alloc ident vis j = (j', ok)"
  shows "feed_rep (if jn_poisoned j \<or> jn_sequence j = - 1 then h else h @ [if ok then Some (ident, vis) else None]) j'"
proof (cases "jn_poisoned j \<or> jn_sequence j = - 1")
  case True
  then show ?thesis
    using assms gapLocked_rep [of "j\<lparr>jn_poisoned := True\<rparr>" h]
    by (auto simp: journal_append_def feed_rep_def split: if_splits)
next
  case False
  then have seq: "unat (jn_sequence j + 1) = Suc (length h)"
    using rep unat_succ_u64 [of "jn_sequence j"] by (simp add: feed_rep_def)
  show ?thesis
  proof (cases ok)
    case lost: False
    then obtain k where "j' = gapLocked k" "jn_sequence k = jn_sequence j + 1" "jn_capacity k = jn_capacity j"
      using app False by (auto simp: journal_append_def Let_def split: if_splits)
    then show ?thesis
      using gapLocked_rep [of k "h @ [None]"] lost False seq rep by (auto simp: feed_rep_def)
  next
    case True
    let ?e = "\<lparr>ch_sequence = jn_sequence j + 1, ch_id = ident, ch_minimumVisibility = vis\<rparr>"
    show ?thesis
    proof (cases "length (jn_entries j) = jn_capacity j")
      case full: True
      then obtain e es where es: "jn_entries j = e # es"
        using rep by (cases "jn_entries j") (auto simp: feed_rep_def)
      have j': "j' = j\<lparr>jn_sequence := jn_sequence j + 1, jn_floor := ch_sequence e, jn_entries := es @ [?e]\<rparr>"
        using app True False full es by (auto simp: journal_append_def Let_def split: if_splits)
      have lt: "unat (jn_floor j) < length h"
        using rep es by (simp add: feed_rep_def)
      have f: "unat (ch_sequence e) = Suc (unat (jn_floor j))"
        and tl: "map (\<lambda>e. unat (ch_sequence e)) es = [Suc (Suc (unat (jn_floor j)))..<Suc (length h)]"
        using rep es lt by (simp_all add: feed_rep_def upt_conv_Cons [of "Suc (unat (jn_floor j))"] del: upt_Suc)
      have h: "map (\<lambda>e. Some (ch_id e, ch_minimumVisibility e)) es = drop (Suc (unat (jn_floor j))) h"
        using rep es lt by (simp add: feed_rep_def Cons_nth_drop_Suc [symmetric])
      have len: "Suc (unat (jn_floor j)) + length es = length h" "Suc (length es) = jn_capacity j"
        using rep es full by (simp_all add: feed_rep_def)
      show ?thesis
        using f tl h len lt seq True False by (simp add: j' feed_rep_def)
    next
      case room: False
      have j': "j' = j\<lparr>jn_sequence := jn_sequence j + 1, jn_entries := jn_entries j @ [?e]\<rparr>"
        using app True False room by (auto simp: journal_append_def Let_def split: if_splits)
      then show ?thesis
        using rep seq True False room by (simp add: feed_rep_def)
    qed
  qed
qed

section \<open>Reading\<close>

lemma after_loop_skip:
  assumes "list_all (\<lambda>e. ch_sequence e \<le> from) xs"
  shows "after_loop from vis m ep (xs @ ys) b = after_loop from vis m ep ys b"
  using assms by (induction xs) auto

text \<open>Past the cursor the loop takes a prefix of the entries, all of them when it does not stop.\<close>

lemma after_loop_take:
  assumes "after_loop from vis m ep es b = (b', full)" "list_all (\<lambda>e. from < ch_sequence e) es"
    and "length (jb_changes b) \<le> m"
  shows "\<exists>k\<le>length es. jb_changes b' = jb_changes b @ take k es \<and> length (jb_changes b') \<le> m
     \<and> list_all (\<lambda>e. ch_minimumVisibility e \<le> vis) (take k es)
     \<and> jb_next b' = (if k = 0 then jb_next b else \<lparr>cu_epoch = ep, cu_sequence = ch_sequence (es ! (k - 1))\<rparr>)
     \<and> (if full then k = length es \<and> jb_state b' = jb_state b else jb_state b' \<in> {VisibilityBlocked, More})"
  using assms
proof (induction es arbitrary: b)
  case (Cons e es)
  show ?case
  proof (cases "vis < ch_minimumVisibility e \<or> length (jb_changes b) = m")
    case True
    then show ?thesis
      using Cons.prems by (intro exI [of _ 0]) (auto split: if_splits)
  next
    case False
    let ?b = "b\<lparr>jb_changes := jb_changes b @ [e], jb_next := \<lparr>cu_epoch = ep, cu_sequence = ch_sequence e\<rparr>\<rparr>"
    have "\<not> ch_sequence e \<le> from"
      using Cons.prems(2) by (simp add: not_le)
    then have "after_loop from vis m ep es ?b = (b', full)" "length (jb_changes ?b) \<le> m"
      using Cons.prems False by auto
    then obtain k where k: "k \<le> length es" "jb_changes b' = jb_changes ?b @ take k es" "length (jb_changes b') \<le> m"
        "list_all (\<lambda>e. ch_minimumVisibility e \<le> vis) (take k es)"
        "jb_next b' = (if k = 0 then jb_next ?b else \<lparr>cu_epoch = ep, cu_sequence = ch_sequence (es ! (k - 1))\<rparr>)"
        "if full then k = length es \<and> jb_state b' = jb_state ?b else jb_state b' \<in> {VisibilityBlocked, More}"
      using Cons.IH [of ?b] Cons.prems(2) by auto
    show ?thesis
      by (rule exI [of _ "Suc k"]) (use k False in \<open>auto simp: nth_Cons split: nat.splits if_splits\<close>)
  qed
qed simp

lemma feed_entries_split:
  assumes rep: "feed_rep h j" and c: "jn_floor j \<le> c" "c \<le> jn_sequence j"
  defines "k \<equiv> unat c - unat (jn_floor j)"
  shows "list_all (\<lambda>e. ch_sequence e \<le> c) (take k (jn_entries j))"
    and "list_all (\<lambda>e. c < ch_sequence e) (drop k (jn_entries j))"
    and "map (\<lambda>e. Some (ch_id e, ch_minimumVisibility e)) (drop k (jn_entries j)) = drop (unat c) h"
    and "i < length (drop k (jn_entries j)) \<Longrightarrow> unat (ch_sequence (drop k (jn_entries j) ! i)) = unat c + i + 1"
    and "unat c + length (drop k (jn_entries j)) = length h"
proof -
  have le: "unat (jn_floor j) \<le> unat c" "unat c \<le> length h"
    using rep c by (auto simp: feed_rep_def word_le_nat_alt)
  have len: "length (jn_entries j) = length h - unat (jn_floor j)"
    using rep by (auto simp: feed_rep_def)
  have seq: "unat (ch_sequence (jn_entries j ! i)) = unat (jn_floor j) + i + 1" if "i < length (jn_entries j)" for i
  proof -
    have "map (\<lambda>e. unat (ch_sequence e)) (jn_entries j) ! i = [Suc (unat (jn_floor j))..<Suc (length h)] ! i"
      using rep by (simp add: feed_rep_def)
    then show ?thesis
      using that len by (simp add: nth_upt del: upt_Suc)
  qed
  show "list_all (\<lambda>e. ch_sequence e \<le> c) (take k (jn_entries j))"
    using seq le len by (auto simp: list_all_length k_def word_le_nat_alt)
  show "list_all (\<lambda>e. c < ch_sequence e) (drop k (jn_entries j))"
    using seq le len by (auto simp: list_all_length k_def word_less_nat_alt)
  have "map (\<lambda>e. Some (ch_id e, ch_minimumVisibility e)) (drop k (jn_entries j)) = drop k (drop (unat (jn_floor j)) h)"
    using rep by (simp add: feed_rep_def drop_map [symmetric])
  then show "map (\<lambda>e. Some (ch_id e, ch_minimumVisibility e)) (drop k (jn_entries j)) = drop (unat c) h"
    using le by (simp add: k_def)
  show "unat (ch_sequence (drop k (jn_entries j) ! i)) = unat c + i + 1" if "i < length (drop k (jn_entries j))"
    using seq [of "k + i"] that le len by (simp add: k_def)
  show "unat c + length (drop k (jn_entries j)) = length h"
    using le len by (simp add: k_def)
qed

text \<open>A read that reports no gap returns the next part of the feed, whole when it says so; a gap is
  reported exactly when the cursor is not covered.\<close>

definition cursor_covered :: "cursor \<Rightarrow> journal \<Rightarrow> bool" where
  "cursor_covered c j \<longleftrightarrow> \<not> jn_poisoned j \<and> cu_epoch c = jn_epoch j \<and> jn_floor j \<le> cu_sequence c
     \<and> cu_sequence c \<le> jn_sequence j"

lemma journal_after_feed:
  assumes rep: "feed_rep h j" and read: "journal_after c vis m j = Some b" and cov: "cursor_covered c j"
  shows "map (\<lambda>e. Some (ch_id e, ch_minimumVisibility e)) (jb_changes b)
       = take (length (jb_changes b)) (drop (unat (cu_sequence c)) h)
     \<and> jb_state b \<noteq> Gap \<and> length (jb_changes b) \<le> m \<and> cu_epoch (jb_next b) = jn_epoch j
     \<and> unat (cu_sequence (jb_next b)) = unat (cu_sequence c) + length (jb_changes b)
     \<and> list_all (\<lambda>e. ch_minimumVisibility e \<le> vis) (jb_changes b)
     \<and> (jb_state b = Covered \<longrightarrow> unat (cu_sequence c) + length (jb_changes b) = length h)"
proof -
  let ?c = "cu_sequence c"
  let ?k = "unat ?c - unat (jn_floor j)"
  let ?es = "drop ?k (jn_entries j)"
  have fl: "jn_floor j \<le> ?c" "?c \<le> jn_sequence j"
    using cov by (simp_all add: cursor_covered_def)
  note sp = feed_entries_split [OF rep fl]
  let ?b0 = "\<lparr>jb_state = Covered, jb_next = c, jb_changes = []\<rparr>"
  obtain b' full where loop: "after_loop ?c vis m (jn_epoch j) (jn_entries j) ?b0 = (b', full)"
    by fastforce
  then have loop1: "after_loop ?c vis m (jn_epoch j) ?es ?b0 = (b', full)"
    using after_loop_skip [OF sp(1), of vis m "jn_epoch j" ?es ?b0] by simp
  have "length (jb_changes ?b0) \<le> m"
    by simp
  from after_loop_take [OF loop1 sp(2) this, unfolded journal_batch.select_convs append_Nil]
  obtain k where k: "k \<le> length ?es" "jb_changes b' = take k ?es" "length (jb_changes b') \<le> m"
      "list_all (\<lambda>e. ch_minimumVisibility e \<le> vis) (take k ?es)"
      "jb_next b' = (if k = 0 then c else \<lparr>cu_epoch = jn_epoch j, cu_sequence = ch_sequence (?es ! (k - 1))\<rparr>)"
      "if full then k = length ?es \<and> jb_state b' = Covered else jb_state b' \<in> {VisibilityBlocked, More}"
    by blast
  have n: "length (jb_changes b') = k"
    using k(1,2) by simp
  have nxt: "unat (cu_sequence (jb_next b')) = unat ?c + k" "cu_epoch (jb_next b') = jn_epoch j"
    using k(1,5) sp(4) [of "k - 1"] cov by (auto simp: cursor_covered_def)
  have m: "map (\<lambda>e. Some (ch_id e, ch_minimumVisibility e)) (jb_changes b') = take k (drop (unat ?c) h)"
    using k(2) sp(3) by (simp add: take_map [symmetric])
  have seq: "unat (jn_sequence j) = length h"
    using rep by (simp add: feed_rep_def)
  have "full \<Longrightarrow> cu_sequence (jb_next b') = jn_sequence j"
    using nxt(1) k(6) sp(5) seq by (simp add: word_unat_eq_iff)
  then have "b = b'"
    using read loop cov by (auto simp: journal_after_def cursor_covered_def not_less split: if_splits bool.splits)
  then show ?thesis
    using m n nxt k sp(5) by (auto split: if_splits)
qed

lemma journal_after_gap:
  "journal_after c vis m j = Some b \<Longrightarrow> \<not> cursor_covered c j \<Longrightarrow> jb_state b = Gap"
  by (auto simp: journal_after_def cursor_covered_def not_le split: if_splits)

end
