(* ===== verification/Vector_Freshness.thy ===== *)
theory Vector_Freshness
  imports Prelude
begin

text \<open>
  Freshness certificates of derived indexes (\<open>engine/include/vector_freshness.hpp\<close>).  Writers announce
  themselves on the counter of their collection, or of the root, and bump its revision when they enter and
  when they leave; a reader captures a stamp with eight separate atomic loads and no lock.  Every atomic
  operation is a step, and a capture reads a history of states at eight instants.  There are
  fewer than \<open>2\<^sup>3\<^sup>2\<close> threads.  \<open>std::hash\<close> is a
  parameter.
\<close>

section \<open>Counters and writers\<close>

record fresh_counter =
  fc_active :: u64
  fc_revision :: u64
  fc_poisoned :: bool

datatype slot = Root | Slot nat

definition slot_of :: "(string \<Rightarrow> u64) \<Rightarrow> string \<Rightarrow> slot" where
  "slot_of hash key = Slot (unat (hash key) mod 4096)"

text \<open>The constructor of \<open>Mutation\<close> increments \<open>active\<close> and bumps; the writer works; the destructor bumps
  and decrements.  A bump is a fetch-and-add, followed by the poisoning store when it wrapped.\<close>

datatype writer =
    NoWriter
  | Announced slot
  | PoisonEntry slot
  | Inside slot
  | PoisonExit slot
  | Leaving slot

record fresh_state =
  fs_counter :: "slot \<Rightarrow> fresh_counter"
  fs_writer :: "nat \<Rightarrow> writer"

definition bump_counter :: "fresh_counter \<Rightarrow> fresh_counter" where
  "bump_counter c = c\<lparr>fc_revision := fc_revision c + 1\<rparr>"

definition upd_counter :: "slot \<Rightarrow> (fresh_counter \<Rightarrow> fresh_counter) \<Rightarrow> fresh_state \<Rightarrow> fresh_state" where
  "upd_counter k f s = s\<lparr>fs_counter := (fs_counter s)(k := f (fs_counter s k))\<rparr>"

definition set_writer :: "nat \<Rightarrow> writer \<Rightarrow> fresh_state \<Rightarrow> fresh_state" where
  "set_writer w pc s = s\<lparr>fs_writer := (fs_writer s)(w := pc)\<rparr>"

inductive fresh_step :: "fresh_state \<Rightarrow> fresh_state \<Rightarrow> bool" where
  announce:
    "fs_writer s w = NoWriter \<Longrightarrow> w < 2 ^ 32
     \<Longrightarrow> fresh_step s (set_writer w (Announced k) (upd_counter k (\<lambda>c. c\<lparr>fc_active := fc_active c + 1\<rparr>) s))"
| enter:
    "fs_writer s w = Announced k
     \<Longrightarrow> fresh_step s (set_writer w (if fc_revision (fs_counter s k) = - 1 then PoisonEntry k else Inside k)
          (upd_counter k bump_counter s))"
| poison_entry:
    "fs_writer s w = PoisonEntry k
     \<Longrightarrow> fresh_step s (set_writer w (Inside k) (upd_counter k (\<lambda>c. c\<lparr>fc_poisoned := True\<rparr>) s))"
| exit_bump:
    "fs_writer s w = Inside k
     \<Longrightarrow> fresh_step s (set_writer w (if fc_revision (fs_counter s k) = - 1 then PoisonExit k else Leaving k)
          (upd_counter k bump_counter s))"
| poison_exit:
    "fs_writer s w = PoisonExit k
     \<Longrightarrow> fresh_step s (set_writer w (Leaving k) (upd_counter k (\<lambda>c. c\<lparr>fc_poisoned := True\<rparr>) s))"
| retire:
    "fs_writer s w = Leaving k
     \<Longrightarrow> fresh_step s (set_writer w NoWriter (upd_counter k (\<lambda>c. c\<lparr>fc_active := fc_active c - 1\<rparr>) s))"
| idle: "fresh_step s s"

definition fresh_start :: fresh_state where
  "fresh_start = \<lparr>fs_counter = (\<lambda>_. \<lparr>fc_active = 0, fc_revision = 0, fc_poisoned = False\<rparr>), fs_writer = (\<lambda>_. NoWriter)\<rparr>"

text \<open>A history: the state at every instant.\<close>

definition history :: "(nat \<Rightarrow> fresh_state) \<Rightarrow> bool" where
  "history h \<longleftrightarrow> h 0 = fresh_start \<and> (\<forall>i. fresh_step (h i) (h (Suc i)))"

section \<open>Stamps\<close>

record stamp =
  st_root :: u64
  st_collection :: u64
  st_visibility :: u64
  st_configuration :: u64

definition sameSourceAtOrAfter :: "stamp \<Rightarrow> stamp \<Rightarrow> bool" where
  "sameSourceAtOrAfter s previous \<longleftrightarrow> st_root s = st_root previous \<and> st_collection s = st_collection previous
     \<and> st_configuration s = st_configuration previous \<and> st_visibility previous \<le> st_visibility s"

text \<open>The instants of the loads of one capture, in program order.\<close>

record capture_times =
  ct_root :: nat
  ct_collection :: nat
  ct_root_active :: nat
  ct_collection_active :: nat
  ct_root_poisoned :: nat
  ct_collection_poisoned :: nat
  ct_root_again :: nat
  ct_collection_again :: nat

definition in_order :: "capture_times \<Rightarrow> bool" where
  "in_order t \<longleftrightarrow> sorted [ct_root t, ct_collection t, ct_root_active t, ct_collection_active t, ct_root_poisoned t,
     ct_collection_poisoned t, ct_root_again t, ct_collection_again t]"

definition capture :: "(nat \<Rightarrow> fresh_state) \<Rightarrow> capture_times \<Rightarrow> slot \<Rightarrow> u64 \<Rightarrow> stamp option" where
  "capture h t k visibility =
     (let root = fc_revision (fs_counter (h (ct_root t)) Root);
          coll = fc_revision (fs_counter (h (ct_collection t)) k)
      in if fc_active (fs_counter (h (ct_root_active t)) Root) \<noteq> 0
            \<or> fc_active (fs_counter (h (ct_collection_active t)) k) \<noteq> 0
            \<or> fc_poisoned (fs_counter (h (ct_root_poisoned t)) Root)
            \<or> fc_poisoned (fs_counter (h (ct_collection_poisoned t)) k)
         then None
         else if root \<noteq> fc_revision (fs_counter (h (ct_root_again t)) Root)
                 \<or> coll \<noteq> fc_revision (fs_counter (h (ct_collection_again t)) k)
         then None
         else Some \<lparr>st_root = root, st_collection = coll, st_visibility = visibility, st_configuration = 0\<rparr>)"

section \<open>Writers and revisions\<close>

definition on_slot :: "slot \<Rightarrow> writer \<Rightarrow> bool" where
  "on_slot k pc \<longleftrightarrow> pc \<in> {Announced k, PoisonEntry k, Inside k, PoisonExit k, Leaving k}"

definition writing :: "fresh_state \<Rightarrow> slot \<Rightarrow> bool" where
  "writing s k \<longleftrightarrow> (\<exists>w. fs_writer s w = Inside k \<or> fs_writer s w = PoisonEntry k)"

text \<open>The number of writers that have announced themselves.\<close>

definition writers_on :: "fresh_state \<Rightarrow> slot \<Rightarrow> nat set" where
  "writers_on s k = {w. on_slot k (fs_writer s w)}"

definition counted :: "fresh_state \<Rightarrow> bool" where
  "counted s \<longleftrightarrow> (\<forall>k. finite (writers_on s k) \<and> fc_active (fs_counter s k) = of_nat (card (writers_on s k)))"

lemma writers_on_set:
  "writers_on (set_writer w pc s) k = (if on_slot k pc then insert w (writers_on s k) else writers_on s k - {w})"
  by (auto simp: writers_on_def set_writer_def)

lemma writers_on_counter [simp]: "writers_on (upd_counter k' f s) k = writers_on s k"
  by (simp add: writers_on_def upd_counter_def)

lemma counter_set_writer [simp]: "fs_counter (set_writer w pc s) = fs_counter s"
  by (simp add: set_writer_def)

lemma counter_upd_counter [simp]:
  "fs_counter (upd_counter k f s) = (fs_counter s)(k := f (fs_counter s k))"
  by (simp add: upd_counter_def)

lemma writer_upd_counter [simp]: "fs_writer (upd_counter k f s) = fs_writer s"
  by (simp add: upd_counter_def)

lemma on_slot_simps [simp]:
  "on_slot k NoWriter = False" "on_slot k (Announced k') = (k' = k)" "on_slot k (PoisonEntry k') = (k' = k)"
  "on_slot k (Inside k') = (k' = k)" "on_slot k (PoisonExit k') = (k' = k)" "on_slot k (Leaving k') = (k' = k)"
  by (auto simp: on_slot_def)

lemma counted_move:
  assumes "counted s" "\<And>k'. on_slot k' pc = on_slot k' (fs_writer s w)"
    and "\<And>c. fc_active (f c) = fc_active c"
  shows "counted (set_writer w pc (upd_counter k f s))"
proof -
  have "writers_on (set_writer w pc (upd_counter k f s)) k' = writers_on s k'" for k'
    using assms(2) [of k'] by (auto simp: writers_on_set) (auto simp: writers_on_def)
  then show ?thesis
    using assms(1,3) by (simp add: counted_def)
qed

lemma fresh_step_counted:
  assumes "fresh_step s s'" "counted s"
  shows "counted s'"
  using assms
proof (induction rule: fresh_step.induct)
  case (announce s w k)
  have other: "w \<notin> writers_on s k'" for k'
    using announce(1) by (simp add: writers_on_def)
  show ?case
    unfolding counted_def
  proof
    fix k'
    show "finite (writers_on (set_writer w (Announced k) (upd_counter k (\<lambda>c. c\<lparr>fc_active := fc_active c + 1\<rparr>) s)) k')
        \<and> fc_active (fs_counter (set_writer w (Announced k) (upd_counter k (\<lambda>c. c\<lparr>fc_active := fc_active c + 1\<rparr>) s)) k')
          = of_nat (card (writers_on (set_writer w (Announced k) (upd_counter k (\<lambda>c. c\<lparr>fc_active := fc_active c + 1\<rparr>) s)) k'))"
      using announce(3) other [of k'] by (cases "k' = k") (simp_all add: counted_def writers_on_set)
  qed
next
  case (retire s w k)
  have here: "w \<in> writers_on s k" and other: "k' \<noteq> k \<Longrightarrow> w \<notin> writers_on s k'" for k'
    using retire(1) by (simp_all add: writers_on_def)
  have fin: "finite (writers_on s k)"
    using retire(2) by (simp add: counted_def)
  have card: "card (writers_on s k) = Suc (card (writers_on s k - {w}))"
    using here fin by (rule card.remove [rotated])
  show ?case
    unfolding counted_def
  proof
    fix k'
    show "finite (writers_on (set_writer w NoWriter (upd_counter k (\<lambda>c. c\<lparr>fc_active := fc_active c - 1\<rparr>) s)) k')
        \<and> fc_active (fs_counter (set_writer w NoWriter (upd_counter k (\<lambda>c. c\<lparr>fc_active := fc_active c - 1\<rparr>) s)) k')
          = of_nat (card (writers_on (set_writer w NoWriter (upd_counter k (\<lambda>c. c\<lparr>fc_active := fc_active c - 1\<rparr>) s)) k'))"
    proof (cases "k' = k")
      case True
      have "fc_active (fs_counter s k) = of_nat (card (writers_on s k))"
        using retire(2) by (simp add: counted_def)
      then have "fc_active (fs_counter s k) = 1 + of_nat (card (writers_on s k - {w}))"
        by (simp only: card of_nat_Suc)
      then show ?thesis
        using True fin by (simp add: writers_on_set)
    next
      case False
      then show ?thesis
        using retire(2) other [of k'] by (simp add: counted_def writers_on_set)
    qed
  qed
next
  case (enter s w k)
  show ?case
    by (rule counted_move [OF enter(2)]) (auto simp: enter(1) bump_counter_def)
next
  case (poison_entry s w k)
  show ?case
    by (rule counted_move [OF poison_entry(2)]) (auto simp: poison_entry(1))
next
  case (exit_bump s w k)
  show ?case
    by (rule counted_move [OF exit_bump(2)]) (auto simp: exit_bump(1) bump_counter_def)
next
  case (poison_exit s w k)
  show ?case
    by (rule counted_move [OF poison_exit(2)]) (auto simp: poison_exit(1))
qed

lemma history_counted: "history h \<Longrightarrow> counted (h i)"
proof (induction i)
  case 0
  then show ?case
    by (simp add: history_def counted_def fresh_start_def writers_on_def)
next
  case (Suc i)
  then show ?case
    using fresh_step_counted by (auto simp: history_def)
qed

text \<open>Bumps up to an instant.  Below \<open>2\<^sup>6\<^sup>4\<close> of them the revision counts them exactly.\<close>

definition bumped :: "fresh_state \<Rightarrow> fresh_state \<Rightarrow> slot \<Rightarrow> bool" where
  "bumped s s' k \<longleftrightarrow> fc_revision (fs_counter s' k) \<noteq> fc_revision (fs_counter s k)"

fun bumps :: "(nat \<Rightarrow> fresh_state) \<Rightarrow> slot \<Rightarrow> nat \<Rightarrow> nat" where
  "bumps h k 0 = 0"
| "bumps h k (Suc i) = bumps h k i + (if bumped (h i) (h (Suc i)) k then 1 else 0)"

lemma fresh_step_revision:
  assumes "fresh_step s s'"
  shows "fc_revision (fs_counter s' k) = fc_revision (fs_counter s k) + (if bumped s s' k then 1 else 0)"
  using assms
  by (induction rule: fresh_step.induct) (auto simp: bumped_def bump_counter_def)

lemma revision_bumps: "history h \<Longrightarrow> fc_revision (fs_counter (h i) k) = of_nat (bumps h k i)"
proof (induction i)
  case 0
  then show ?case
    by (simp add: history_def fresh_start_def)
next
  case (Suc i)
  have "fresh_step (h i) (h (Suc i))"
    using Suc.prems by (simp add: history_def)
  from fresh_step_revision [OF this, of k] show ?case
    using Suc by simp
qed

lemma bumps_mono: "i \<le> j \<Longrightarrow> bumps h k i \<le> bumps h k j"
  by (induction rule: dec_induct) auto

lemma of_nat_u64_inject:
  assumes "m < 2 ^ 64" "n < 2 ^ 64"
  shows "(of_nat m :: u64) = of_nat n \<longleftrightarrow> m = n"
proof -
  have "unat (of_nat m :: u64) = m" "unat (of_nat n :: u64) = n"
    using assms by (simp_all add: unat_of_nat)
  then show ?thesis
    by metis
qed

lemma same_revision_no_bump:
  assumes h: "history h" and le: "i \<le> j" and small: "bumps h k j < 2 ^ 64"
    and eq: "fc_revision (fs_counter (h i) k) = fc_revision (fs_counter (h j) k)"
    and m: "i \<le> m" "m < j"
  shows "\<not> bumped (h m) (h (Suc m)) k"
proof -
  have "bumps h k i < 2 ^ 64"
    using bumps_mono [OF le, of h k] small by simp
  then have "bumps h k i = bumps h k j"
    using eq revision_bumps [OF h] small by (simp add: of_nat_u64_inject)
  moreover have "bumps h k i \<le> bumps h k m" "bumps h k (Suc m) \<le> bumps h k j"
    using m bumps_mono [of i m h k] bumps_mono [of "Suc m" j h k] by simp_all
  ultimately show ?thesis
    by (auto split: if_splits)
qed

section \<open>Certificates\<close>

lemma fresh_step_threads:
  assumes "fresh_step s s'" "\<forall>w. fs_writer s w \<noteq> NoWriter \<longrightarrow> w < 2 ^ 32"
  shows "\<forall>w. fs_writer s' w \<noteq> NoWriter \<longrightarrow> w < 2 ^ 32"
  using assms by (induction rule: fresh_step.induct) (auto simp: set_writer_def)

lemma history_threads: "history h \<Longrightarrow> fs_writer (h i) w \<noteq> NoWriter \<Longrightarrow> w < 2 ^ 32"
proof (induction i arbitrary: w)
  case 0
  then show ?case
    by (simp add: history_def fresh_start_def)
next
  case (Suc i)
  then show ?case
    using fresh_step_threads [of "h i" "h (Suc i)"] by (auto simp: history_def)
qed

lemma inactive_not_writing:
  assumes "history h" "fc_active (fs_counter (h i) k) = 0"
  shows "\<not> writing (h i) k"
proof -
  have fin: "finite (writers_on (h i) k)" "of_nat (card (writers_on (h i) k)) = (0 :: u64)"
    using history_counted [OF assms(1), of i] assms(2) by (auto simp: counted_def)
  have "writers_on (h i) k \<subseteq> {..<2 ^ 32}"
  proof
    fix w
    assume "w \<in> writers_on (h i) k"
    then have "fs_writer (h i) w \<noteq> NoWriter"
      by (auto simp: writers_on_def)
    then show "w \<in> {..<2 ^ 32}"
      using history_threads [OF assms(1)] by blast
  qed
  then have "card (writers_on (h i) k) \<le> 2 ^ 32"
    using card_mono [of "{..<2 ^ 32 :: nat}"] by fastforce
  then have "card (writers_on (h i) k) = 0"
    using fin(2) of_nat_u64_inject [of "card (writers_on (h i) k)" 0] by simp
  then have "writers_on (h i) k = {}"
    using fin(1) by simp
  then have "\<not> on_slot k (fs_writer (h i) w)" for w
    by (auto simp: writers_on_def)
  then show ?thesis
    unfolding writing_def by (metis on_slot_simps(3,4))
qed

text \<open>Nobody starts writing without a bump.\<close>

lemma writing_needs_bump:
  assumes "fresh_step s s'" "\<not> writing s k" "writing s' k"
  shows "bumped s s' k"
  using assms
proof (induction rule: fresh_step.induct)
  case (enter s w k')
  have "k' = k"
    using enter(2,3) by (auto simp: writing_def set_writer_def split: if_splits)
  then show ?case
    by (simp add: bumped_def bump_counter_def)
qed (auto simp: writing_def set_writer_def split: if_splits)

lemma quiet_interval:
  assumes h: "history h" and start: "\<not> writing (h i) k" and quiet: "\<And>m. i \<le> m \<Longrightarrow> m < j \<Longrightarrow> \<not> bumped (h m) (h (Suc m)) k"
    and m: "i \<le> m" "m \<le> j"
  shows "\<not> writing (h m) k"
  using m
proof (induction m rule: dec_induct)
  case (step m)
  then show ?case
    using writing_needs_bump [of "h m" "h (Suc m)" k] quiet [of m] h by (auto simp: history_def)
qed (rule start)

text \<open>Two captures that agree on a revision bracket a stretch without writers, from the moment the first
  one saw no active writer to the moment the second one read the revision for the last time.\<close>

lemma capture_fields:
  assumes "capture h t k v = Some s"
  shows "st_root s = fc_revision (fs_counter (h (ct_root t)) Root)"
    "st_collection s = fc_revision (fs_counter (h (ct_collection t)) k)"
    "st_root s = fc_revision (fs_counter (h (ct_root_again t)) Root)"
    "st_collection s = fc_revision (fs_counter (h (ct_collection_again t)) k)"
    "fc_active (fs_counter (h (ct_root_active t)) Root) = 0"
    "fc_active (fs_counter (h (ct_collection_active t)) k) = 0"
  using assms by (auto simp: capture_def Let_def split: if_splits)

lemma bracket_quiet:
  assumes h: "history h" and t: "a \<le> b" "b \<le> c" and small: "bumps h k c < 2 ^ 64"
    and eq: "fc_revision (fs_counter (h a) k) = fc_revision (fs_counter (h c) k)"
    and idle: "fc_active (fs_counter (h b) k) = 0" and m: "b \<le> m" "m \<le> c"
  shows "\<not> writing (h m) k"
proof (rule quiet_interval [OF h inactive_not_writing [OF h idle] _ m])
  fix i
  assume "b \<le> i" "i < c"
  then show "\<not> bumped (h i) (h (Suc i)) k"
    using same_revision_no_bump [OF h _ small eq, of i] t by simp
qed

lemma equal_stamps_quiet:
  assumes h: "history h" and t: "in_order t" "in_order t'" "ct_collection_again t \<le> ct_root t'"
    and c: "capture h t k v = Some s" "capture h t' k v' = Some s'"
    and eq: "st_root s' = st_root s" "st_collection s' = st_collection s"
    and small: "bumps h Root (ct_root_again t') < 2 ^ 64" "bumps h k (ct_collection_again t') < 2 ^ 64"
    and m: "ct_collection_active t \<le> m" "m \<le> ct_root_again t'"
  shows "\<not> writing (h m) Root \<and> \<not> writing (h m) k"
proof
  show "\<not> writing (h m) Root"
    by (rule bracket_quiet [OF h _ _ small(1) _ capture_fields(5) [OF c(1)], of "ct_root t"])
      (use t m eq capture_fields(1) [OF c(1)] capture_fields(3) [OF c(2)] in \<open>auto simp: in_order_def\<close>)
  show "\<not> writing (h m) k"
    by (rule bracket_quiet [OF h _ _ small(2) _ capture_fields(6) [OF c(1)], of "ct_collection t"])
      (use t m eq capture_fields(2) [OF c(1)] capture_fields(4) [OF c(2)] in \<open>auto simp: in_order_def\<close>)
qed

end
