(* ===== verification/Vector_Generation.thy ===== *)
theory Vector_Generation
  imports Vector_Journal Vector_Freshness
begin

text \<open>
  Published generations of a vector index and their incremental maintenance
  (\<open>engine/src/vector_index_generation.cpp\<close>, \<open>engine/src/vector_index_incremental.cpp\<close>).  The manager is the
  state behind the publication mutex; the methods and the sections of the worker that hold the mutex are
  functions on it, so that other threads may run between them.  Graphs are mutable objects shared by
  generations: a store maps their addresses to what they index.  The callbacks (certificate, source,
  resolver), the clock and the cancellation flag are arguments.
\<close>

section \<open>State\<close>

datatype gen_state = ABSENT | QUEUED | BUILDING | READY | STALE | FAILED

record gen_status =
  gs_state :: gen_state
  gs_generation :: u64
  gs_error :: string

record generation =
  gn_number :: u64
  gn_certificate :: stamp
  gn_graph :: "nat option"
  gn_lexical :: bool
  gn_flat :: bool
  gn_visibilityComplete :: bool

record maintenance =
  mt_address :: nat
  mt_cursor :: cursor
  mt_maximumBatch :: nat
  mt_complete :: bool

record build_job =
  bj_revision :: u64
  bj_lexical :: bool
  bj_exactOnly :: bool
  bj_complete :: bool

record 'r manager =
  mg_stopped :: bool
  mg_revision :: u64
  mg_nextGeneration :: u64
  mg_building :: bool
  mg_cancelled :: bool
  mg_status :: gen_status
  mg_published :: "generation option"
  mg_maintenance :: "maintenance option"
  mg_requested :: bool
  mg_queue :: "build_job list"
  mg_graphs :: "nat \<Rightarrow> string \<Rightarrow> 'r option"
  mg_addresses :: nat

definition accepts :: "generation \<Rightarrow> stamp \<Rightarrow> bool" where
  "accepts g current \<longleftrightarrow> gn_certificate g = current
     \<or> (gn_visibilityComplete g \<and> sameSourceAtOrAfter current (gn_certificate g))"

section \<open>Methods\<close>

definition mg_close :: "'r manager \<Rightarrow> 'r manager" where
  "mg_close m = m\<lparr>mg_revision := mg_revision m + 1, mg_stopped := True,
     mg_status := (mg_status m)\<lparr>gs_state := STALE\<rparr>, mg_cancelled := True\<rparr>"

definition mg_invalidate :: "'r manager \<Rightarrow> 'r manager" where
  "mg_invalidate m = m\<lparr>mg_revision := mg_revision m + 1, mg_cancelled := True,
     mg_status := (mg_status m)\<lparr>gs_state := STALE\<rparr>\<rparr>"

text \<open>\<open>None\<close> is the exception; a refused job returns false.\<close>

definition mg_enqueue :: "bool \<Rightarrow> bool \<Rightarrow> bool \<Rightarrow> bool \<Rightarrow> 'r manager \<Rightarrow> ('r manager \<times> bool) option" where
  "mg_enqueue lexical exactOnly hasReady whole m =
     (if whole \<and> (exactOnly \<or> lexical \<or> \<not> hasReady) then None
      else if mg_stopped m \<or> mg_queue m \<noteq> [] \<or> mg_building m then Some (m, False)
      else Some (m\<lparr>mg_revision := mg_revision m + 1,
                   mg_queue := [\<lparr>bj_revision = mg_revision m + 1, bj_lexical = lexical, bj_exactOnly = exactOnly,
                                 bj_complete = whole\<rparr>],
                   mg_published := None, mg_maintenance := None, mg_cancelled := False,
                   mg_status := \<lparr>gs_state = QUEUED, gs_generation = gs_generation (mg_status m), gs_error = []\<rparr>\<rparr>, True))"

text \<open>\<open>head\<close> is what \<open>journal->capture()\<close> returns at that moment.\<close>

definition mg_acquire :: "cursor \<Rightarrow> stamp \<Rightarrow> 'r manager \<Rightarrow> generation option" where
  "mg_acquire head certificate m =
     (case mg_published m of
        None \<Rightarrow> None
      | Some g \<Rightarrow>
         (if gs_state (mg_status m) \<noteq> READY \<or> \<not> accepts g certificate then None
          else if gn_visibilityComplete g
          then (case mg_maintenance m of
                  None \<Rightarrow> None
                | Some mt \<Rightarrow> if head \<noteq> mt_cursor mt then None else Some g)
          else Some g))"

definition requestMaintenance :: "'r manager \<Rightarrow> 'r manager" where
  "requestMaintenance m =
     (if mg_stopped m \<or> mg_maintenance m = None \<or> gs_state (mg_status m) = FAILED then m else m\<lparr>mg_requested := True\<rparr>)"

definition enableMaintenance :: "cursor \<Rightarrow> nat \<Rightarrow> nat \<Rightarrow> bool \<Rightarrow> 'r manager \<Rightarrow> 'r manager option" where
  "enableMaintenance anchor maximumBatch maximumMilliseconds whole m =
     (if cu_epoch anchor = 0 \<or> maximumBatch = 0 \<or> 1024 < maximumBatch \<or> maximumMilliseconds = 0
         \<or> 60000 < maximumMilliseconds
      then None
      else
        case mg_published m of
          None \<Rightarrow> None
        | Some g \<Rightarrow>
           (if mg_stopped m \<or> mg_building m \<or> mg_queue m \<noteq> [] \<or> gs_state (mg_status m) \<noteq> READY
               \<or> gn_graph g = None \<or> gn_lexical g \<or> gn_flat g \<or> mg_maintenance m \<noteq> None
            then None
            else Some (m\<lparr>mg_published := Some (if whole then g\<lparr>gn_visibilityComplete := True\<rparr> else g),
                         mg_maintenance := Some \<lparr>mt_address = mg_addresses m, mt_cursor = anchor,
                                                 mt_maximumBatch = maximumBatch, mt_complete = whole\<rparr>,
                         mg_addresses := mg_addresses m + 1, mg_requested := True\<rparr>)))"

section \<open>Full builds\<close>

text \<open>The worker takes the job; a job of an older revision is dropped.\<close>

definition build_claim :: "'r manager \<Rightarrow> 'r manager \<times> build_job option" where
  "build_claim m =
     (case mg_queue m of
        [] \<Rightarrow> (m, None)
      | job # q \<Rightarrow>
         (if bj_revision job \<noteq> mg_revision m then (m\<lparr>mg_queue := q\<rparr>, None)
          else (m\<lparr>mg_queue := q, mg_building := True, mg_status := (mg_status m)\<lparr>gs_state := BUILDING\<rparr>\<rparr>, Some job)))"

definition stamp_compatible :: "bool \<Rightarrow> stamp option \<Rightarrow> stamp \<Rightarrow> bool" where
  "stamp_compatible whole current before =
     (case current of None \<Rightarrow> False | Some c \<Rightarrow> c = before \<or> (whole \<and> sameSourceAtOrAfter c before))"

definition build_publish ::
    "build_job \<Rightarrow> stamp \<Rightarrow> stamp option \<Rightarrow> (string \<Rightarrow> 'r option) \<Rightarrow> 'r manager \<Rightarrow> 'r manager" where
  "build_publish job certificate completed content m =
     (let m1 = m\<lparr>mg_building := False\<rparr>
      in if \<not> stamp_compatible (bj_complete job) completed certificate \<or> bj_revision job \<noteq> mg_revision m
            \<or> mg_stopped m
         then m1\<lparr>mg_status := (mg_status m)\<lparr>gs_state := STALE\<rparr>\<rparr>
         else
           m1\<lparr>mg_published := Some \<lparr>gn_number = mg_nextGeneration m + 1, gn_certificate = the completed,
                gn_graph = (if bj_exactOnly job then None else Some (mg_addresses m)), gn_lexical = bj_lexical job,
                gn_flat = bj_exactOnly job, gn_visibilityComplete = bj_complete job\<rparr>,
              mg_graphs := (mg_graphs m)(mg_addresses m := content), mg_addresses := mg_addresses m + 1,
              mg_nextGeneration := mg_nextGeneration m + 1,
              mg_status := \<lparr>gs_state = READY, gs_generation = mg_nextGeneration m + 1, gs_error = []\<rparr>\<rparr>)"

text \<open>\<open>known\<close> is whether the exception is a \<open>std::exception\<close>.\<close>

definition build_failed :: "build_job \<Rightarrow> bool \<Rightarrow> bool \<Rightarrow> string \<Rightarrow> 'r manager \<Rightarrow> 'r manager" where
  "build_failed job known sourceChanged what m =
     m\<lparr>mg_building := False,
       mg_status := (if known \<and> (bj_revision job \<noteq> mg_revision m \<or> sourceChanged) then (mg_status m)\<lparr>gs_state := STALE\<rparr>
                     else \<lparr>gs_state = FAILED, gs_generation = gs_generation (mg_status m), gs_error = what\<rparr>)\<rparr>"

section \<open>Maintenance\<close>

record maintain_snapshot =
  ms_maintenance :: maintenance
  ms_previous :: generation
  ms_revision :: u64

definition maintain_begin :: "'r manager \<Rightarrow> maintain_snapshot option" where
  "maintain_begin m =
     (case (mg_maintenance m, mg_published m) of
        (Some mt, Some g) \<Rightarrow>
          (if mg_stopped m \<or> mg_building m \<or> mg_queue m \<noteq> [] \<or> gs_state (mg_status m) = FAILED then None
           else Some \<lparr>ms_maintenance = mt, ms_previous = g, ms_revision = mg_revision m\<rparr>)
      | _ \<Rightarrow> None)"

text \<open>Nothing to do when the generation is still accepted and the cursor is at the head.\<close>

definition maintain_idle :: "maintain_snapshot \<Rightarrow> stamp \<Rightarrow> cursor \<Rightarrow> bool" where
  "maintain_idle ms target head \<longleftrightarrow> accepts (ms_previous ms) target \<and> head = mt_cursor (ms_maintenance ms)"

definition maintain_claim :: "maintain_snapshot \<Rightarrow> 'r manager \<Rightarrow> 'r manager option" where
  "maintain_claim ms m =
     (if mg_stopped m \<or> mg_revision m \<noteq> ms_revision ms
         \<or> map_option mt_address (mg_maintenance m) \<noteq> Some (mt_address (ms_maintenance ms))
         \<or> mg_building m \<or> mg_queue m \<noteq> []
      then None
      else Some (m\<lparr>mg_building := True, mg_status := (mg_status m)\<lparr>gs_state := STALE\<rparr>, mg_cancelled := False\<rparr>))"

text \<open>The batch, with the checks before it is used; \<open>None\<close> is the failure that requires a rebuild.\<close>

definition maintain_read :: "maintain_snapshot \<Rightarrow> stamp \<Rightarrow> journal \<Rightarrow> journal_batch option" where
  "maintain_read ms target j =
     (let prev = ms_previous ms; cert = gn_certificate prev
      in if st_root target \<noteq> st_root cert \<or> st_configuration target \<noteq> st_configuration cert
            \<or> st_collection target < st_collection cert \<or> st_visibility target < st_visibility cert
         then None
         else case journal_after (mt_cursor (ms_maintenance ms)) (st_visibility target)
                     (mt_maximumBatch (ms_maintenance ms)) j of
                None \<Rightarrow> None
              | Some b \<Rightarrow>
                 (if jb_state b = Gap then None
                  else if jb_changes b \<noteq> []
                          \<and> (target = cert \<or> (gn_visibilityComplete prev \<and> sameSourceAtOrAfter target cert))
                  then None else Some b))"

text \<open>What the source callback returns for an identifier, and what the graph keeps of it.\<close>

record 'v vrecord =
  vr_id :: string
  vr_text :: bool
  vr_precise :: nat
  vr_vector :: "'v list"
  vr_packedRecord :: string

type_synonym 'v content = "'v list \<times> string"

definition content :: "'v vrecord \<Rightarrow> 'v content" where
  "content r = (vr_vector r, vr_packedRecord r)"

definition record_charge :: "nat \<Rightarrow> string \<Rightarrow> 'v vrecord option \<Rightarrow> nat" where
  "record_charge sizeof_Record ident record =
     sizeof_Record + 128 + length ident
     + (case record of None \<Rightarrow> 0 | Some r \<Rightarrow> length (vr_vector r) * 4 + length (vr_packedRecord r))"

definition record_ok :: "string \<Rightarrow> 'v vrecord option \<Rightarrow> bool" where
  "record_ok ident record =
     (case record of
        None \<Rightarrow> True
      | Some r \<Rightarrow> vr_id r = ident \<and> \<not> vr_text r \<and> vr_precise r = 0 \<and> vr_vector r \<noteq> [])"

definition record_fits :: "nat \<Rightarrow> nat \<Rightarrow> nat \<Rightarrow> string \<Rightarrow> 'v vrecord option \<Rightarrow> bool" where
  "record_fits sizeof_Record budget bytes ident record =
     ((case record of
         None \<Rightarrow> True
       | Some r \<Rightarrow> length (vr_vector r) \<le> budget div 4 \<and> length (vr_packedRecord r) \<le> budget)
      \<and> bytes + record_charge sizeof_Record ident record \<le> budget)"

text \<open>Each identifier of the batch is resolved once, in order.  \<open>resolve\<close> is \<open>None\<close> when the callback
  throws, or the cancellation or the deadline is seen around it; a record that is not one of this index or
  that does not fit the source budget stops the loop too.\<close>

fun maintain_resolve ::
    "nat \<Rightarrow> nat \<Rightarrow> (string \<Rightarrow> 'v vrecord option option) \<Rightarrow> change list \<Rightarrow> (string \<times> 'v vrecord option) list \<Rightarrow> nat
       \<Rightarrow> (string \<times> 'v vrecord option) list option" where
  "maintain_resolve sizeof_Record budget resolve [] acc bytes = Some acc"
| "maintain_resolve sizeof_Record budget resolve (c # cs) acc bytes =
     (if map_of acc (ch_id c) \<noteq> None then maintain_resolve sizeof_Record budget resolve cs acc bytes
      else
        case resolve (ch_id c) of
          None \<Rightarrow> None
        | Some r \<Rightarrow>
           (if \<not> record_ok (ch_id c) r \<or> \<not> record_fits sizeof_Record budget bytes (ch_id c) r then None
            else maintain_resolve sizeof_Record budget resolve cs ((ch_id c, r) # acc)
                   (bytes + record_charge sizeof_Record (ch_id c) r)))"

definition complete_progress :: "bool \<Rightarrow> stamp option \<Rightarrow> stamp \<Rightarrow> bool" where
  "complete_progress whole current target =
     (case current of
        None \<Rightarrow> False
      | Some c \<Rightarrow> whole \<and> st_root c = st_root target \<and> st_configuration c = st_configuration target
                  \<and> st_collection target \<le> st_collection c \<and> st_visibility target \<le> st_visibility c)"

definition maintain_current :: "maintain_snapshot \<Rightarrow> stamp \<Rightarrow> stamp option \<Rightarrow> bool" where
  "maintain_current ms target current \<longleftrightarrow>
     stamp_compatible (mt_complete (ms_maintenance ms)) current target
     \<or> complete_progress (mt_complete (ms_maintenance ms)) current target"

text \<open>The graph is changed in place, in the order of the identifiers (a \<open>std::map\<close>).  \<open>alive\<close> is the check
  of cancellation and deadline before an item, \<open>upsert_ok\<close> the result of the insertion; a failure leaves
  what was done.\<close>

fun maintain_apply ::
    "(string \<Rightarrow> bool) \<Rightarrow> (string \<Rightarrow> bool) \<Rightarrow> (string \<times> 'v vrecord option) list \<Rightarrow> (string \<Rightarrow> 'v content option)
       \<Rightarrow> (string \<Rightarrow> 'v content option) \<times> bool" where
  "maintain_apply alive upsert_ok [] g = (g, True)"
| "maintain_apply alive upsert_ok ((ident, r) # rs) g =
     (if \<not> alive ident then (g, False)
      else
        case r of
          Some v \<Rightarrow>
            if upsert_ok ident then maintain_apply alive upsert_ok rs (g(ident \<mapsto> content v)) else (g, False)
        | None \<Rightarrow> maintain_apply alive upsert_ok rs (g(ident := None)))"

text \<open>The locked section at the end: the cursor advances, and the generation is published only when the
  batch was whole, the source is still compatible and the journal has not moved since.\<close>

definition maintain_publish ::
    "maintain_snapshot \<Rightarrow> stamp \<Rightarrow> journal_batch \<Rightarrow> stamp option \<Rightarrow> cursor \<Rightarrow> 'r manager \<Rightarrow> 'r manager \<times> bool" where
  "maintain_publish ms target b final head m =
     (let m1 = m\<lparr>mg_building := False\<rparr>
      in if mg_stopped m \<or> mg_revision m \<noteq> ms_revision ms
            \<or> map_option mt_address (mg_maintenance m) \<noteq> Some (mt_address (ms_maintenance ms))
         then (m1, False)
         else
           let mt = (ms_maintenance ms)\<lparr>mt_cursor := jb_next b\<rparr>;
               whole = mt_complete (ms_maintenance ms);
               m2 = m1\<lparr>mg_maintenance := Some mt\<rparr>
           in if jb_state b = Covered \<and> maintain_current ms target final \<and> head = jb_next b
              then (m2\<lparr>mg_published := Some \<lparr>gn_number = mg_nextGeneration m + 1,
                         gn_certificate = (if whole then the final else target),
                         gn_graph = gn_graph (ms_previous ms), gn_lexical = False, gn_flat = False,
                         gn_visibilityComplete = whole\<rparr>,
                       mg_nextGeneration := mg_nextGeneration m + 1,
                       mg_status := \<lparr>gs_state = READY, gs_generation = mg_nextGeneration m + 1, gs_error = []\<rparr>\<rparr>,
                    jb_changes b \<noteq> [])
              else (m2\<lparr>mg_status := (mg_status m)\<lparr>gs_state := STALE\<rparr>\<rparr>, jb_changes b \<noteq> []))"

definition maintain_failed :: "maintain_snapshot \<Rightarrow> string \<Rightarrow> 'r manager \<Rightarrow> 'r manager" where
  "maintain_failed ms what m =
     m\<lparr>mg_building := False,
       mg_status := (if mg_stopped m \<or> mg_revision m \<noteq> ms_revision ms then (mg_status m)\<lparr>gs_state := STALE\<rparr>
                     else \<lparr>gs_state = FAILED, gs_generation = gs_generation (mg_status m), gs_error = what\<rparr>)\<rparr>"

text \<open>The certificate callback of a round throws before the round is claimed.\<close>

definition maintain_certificate_failed :: "maintain_snapshot \<Rightarrow> string \<Rightarrow> 'r manager \<Rightarrow> 'r manager" where
  "maintain_certificate_failed ms what m =
     (if mg_revision m = ms_revision ms
         \<and> map_option mt_address (mg_maintenance m) = Some (mt_address (ms_maintenance ms))
      then m\<lparr>mg_status := \<lparr>gs_state = FAILED, gs_generation = gs_generation (mg_status m), gs_error = what\<rparr>\<rparr> else m)"

text \<open>The worker ends once the manager is closed.\<close>

definition worker_exit :: "'r manager \<Rightarrow> 'r manager" where
  "worker_exit m = m\<lparr>mg_published := None, mg_queue := [], mg_requested := False\<rparr>"

section \<open>What the loops compute\<close>

lemma maintain_resolve_map:
  assumes "maintain_resolve sz bud resolve cs acc n = Some rs" "\<forall>(i, r) \<in> set acc. resolve i = Some r"
  shows "(\<forall>(i, r) \<in> set rs. resolve i = Some r) \<and> fst ` set rs = fst ` set acc \<union> ch_id ` set cs"
  using assms
proof (induction cs arbitrary: acc n)
  case (Cons c cs)
  show ?case
  proof (cases "map_of acc (ch_id c)")
    case None
    then obtain r where r: "resolve (ch_id c) = Some r"
        "maintain_resolve sz bud resolve cs ((ch_id c, r) # acc) (n + record_charge sz (ch_id c) r) = Some rs"
      using Cons.prems(1) by (auto split: option.splits if_splits)
    then show ?thesis
      using Cons.IH [OF r(2)] Cons.prems(2) by auto
  next
    case (Some r)
    then have "ch_id c \<in> fst ` set acc"
      by (metis map_of_eq_None_iff not_None_eq)
    then show ?thesis
      using Some Cons.IH [of acc n] Cons.prems by auto
  qed
qed simp

text \<open>The records staged by a round never exceed the source budget.\<close>

lemma maintain_resolve_budget:
  assumes "maintain_resolve sz bud resolve cs acc n = Some rs" "n \<le> bud"
    and "n = (\<Sum>(i, r) \<leftarrow> acc. record_charge sz i r)"
  shows "(\<Sum>(i, r) \<leftarrow> rs. record_charge sz i r) \<le> bud"
  using assms
proof (induction cs arbitrary: acc n)
  case (Cons c cs)
  show ?case
  proof (cases "map_of acc (ch_id c)")
    case None
    then obtain r where r: "record_fits sz bud n (ch_id c) r"
        "maintain_resolve sz bud resolve cs ((ch_id c, r) # acc) (n + record_charge sz (ch_id c) r) = Some rs"
      using Cons.prems(1) by (auto split: option.splits if_splits)
    then show ?thesis
      using Cons.IH [OF r(2)] Cons.prems(3) by (simp add: record_fits_def add.commute)
  next
    case (Some r)
    then show ?thesis
      using Cons.IH [of acc n] Cons.prems by auto
  qed
qed simp

lemma maintain_apply_content:
  assumes "maintain_apply alive ok rs g = (g', True)" "\<forall>(i, r) \<in> set rs. resolve i = Some r"
  shows "g' i = (if i \<in> fst ` set rs then map_option content (the (resolve i)) else g i)"
  using assms
proof (induction rs arbitrary: g)
  case (Cons p rs)
  obtain ident r where p: "p = (ident, r)"
    by (cases p)
  have r: "resolve ident = Some r" "\<forall>(i, r) \<in> set rs. resolve i = Some r"
    using Cons.prems(2) p by auto
  have "maintain_apply alive ok rs (g(ident := map_option content r)) = (g', True)"
    using Cons.prems(1) p by (auto split: if_splits option.splits)
  from Cons.IH [OF this r(2)] show ?case
    using r(1) p by auto
qed simp

end
