(* ===== verification/Vector_Source.thy ===== *)
theory Vector_Source
  imports Vector_Generation
begin

text \<open>
  The composition of the change journal and the incremental maintenance.  The locale \<open>change_source\<close> is
  what a source of vectors promises to an index: it journals every edit.  Inside it, a graph whose
  differences from the source are all pending in the journal stays so through every maintenance round, and
  a round that publishes leaves no difference at all.  A collection that journals its edits provides the
  promise.
\<close>

section \<open>Differences and pending changes\<close>

definition pending :: "nat \<Rightarrow> feed \<Rightarrow> string \<Rightarrow> bool" where
  "pending p h ident \<longleftrightarrow> (\<exists>i. p \<le> i \<and> i < length h \<and> (h ! i = None \<or> (\<exists>v. h ! i = Some (ident, v))))"

definition tracks :: "(string \<Rightarrow> 'c option) \<Rightarrow> nat \<Rightarrow> feed \<Rightarrow> (string \<Rightarrow> 'c option) \<Rightarrow> bool" where
  "tracks g p h s \<longleftrightarrow> (\<forall>ident. g ident \<noteq> s ident \<longrightarrow> pending p h ident)"

lemma pending_mono:
  assumes "pending p h ident" "prefix h h'"
  shows "pending p h' ident"
proof -
  obtain t where "h' = h @ t"
    using assms(2) by (auto simp: prefix_def)
  then show ?thesis
    using assms(1) by (auto simp: pending_def nth_append intro: trans_less_add1)
qed

lemma pending_earlier: "pending p h ident \<Longrightarrow> q \<le> p \<Longrightarrow> pending q h ident"
  unfolding pending_def by (blast intro: order_trans)

lemma tracks_end: "tracks g (length h) h s \<Longrightarrow> g = s"
  by (rule ext) (auto simp: tracks_def pending_def)

text \<open>Within an epoch and short of exhaustion, the feed only grows and holds every edit.\<close>

locale change_source =
  fixes source :: "nat \<Rightarrow> string \<Rightarrow> 'v content option" and feed_at :: "nat \<Rightarrow> feed" and journal_at :: "nat \<Rightarrow> journal"
  assumes represents: "feed_rep (feed_at t) (journal_at t)"
    and feed_grows: "t \<le> t' \<Longrightarrow> jn_epoch (journal_at t') = jn_epoch (journal_at t) \<Longrightarrow> \<not> jn_poisoned (journal_at t')
      \<Longrightarrow> prefix (feed_at t) (feed_at t')"
    and epoch_interval: "t \<le> u \<Longrightarrow> u \<le> t' \<Longrightarrow> jn_epoch (journal_at t') = jn_epoch (journal_at t)
      \<Longrightarrow> \<not> jn_poisoned (journal_at t') \<Longrightarrow> jn_epoch (journal_at u) = jn_epoch (journal_at t) \<and> \<not> jn_poisoned (journal_at u)"
    and epoch_used: "\<not> jn_poisoned (journal_at t) \<Longrightarrow> jn_epoch (journal_at t) \<noteq> 0"
    and edits_journalled: "t \<le> t' \<Longrightarrow> jn_epoch (journal_at t') = jn_epoch (journal_at t) \<Longrightarrow> \<not> jn_poisoned (journal_at t')
      \<Longrightarrow> source t ident \<noteq> source t' ident \<Longrightarrow> pending (length (feed_at t)) (feed_at t') ident"
begin

definition same_epoch :: "nat \<Rightarrow> nat \<Rightarrow> bool" where
  "same_epoch t t' \<longleftrightarrow> t \<le> t' \<and> jn_epoch (journal_at t') = jn_epoch (journal_at t) \<and> \<not> jn_poisoned (journal_at t')"

lemma same_epoch_between:
  assumes "same_epoch t t'" "t \<le> u" "u \<le> t'"
  shows "same_epoch t u" "same_epoch u t'"
  using assms epoch_interval [of t u t'] by (auto simp: same_epoch_def)

lemma grows: "same_epoch t t' \<Longrightarrow> prefix (feed_at t) (feed_at t')"
  using feed_grows by (simp add: same_epoch_def)

lemma journalled:
  "same_epoch t t' \<Longrightarrow> source t ident \<noteq> source t' ident \<Longrightarrow> pending (length (feed_at t)) (feed_at t') ident"
  using edits_journalled by (simp add: same_epoch_def)

lemma tracks_later:
  assumes "tracks g p (feed_at t) (source t)" "same_epoch t t'" "p \<le> length (feed_at t)"
  shows "tracks g p (feed_at t') (source t')"
  unfolding tracks_def
proof (intro allI impI)
  fix ident
  assume ne: "g ident \<noteq> source t' ident"
  show "pending p (feed_at t') ident"
  proof (cases "g ident = source t ident")
    case True
    then have "pending (length (feed_at t)) (feed_at t') ident"
      using ne journalled [OF assms(2)] by simp
    then show ?thesis
      using pending_earlier assms(3) by blast
  next
    case False
    then show ?thesis
      using assms(1) pending_mono [OF _ grows [OF assms(2)]] by (simp add: tracks_def)
  qed
qed

text \<open>One round: the journal is read at \<open>t\<close>, every identifier of the batch is resolved at some later
  moment, and the round ends at \<open>t'\<close>.\<close>

definition resolved_during :: "nat \<Rightarrow> nat \<Rightarrow> (string \<Rightarrow> 'v vrecord option option) \<Rightarrow> bool" where
  "resolved_during t t' resolve \<longleftrightarrow>
     (\<forall>ident r. resolve ident = Some r \<longrightarrow> (\<exists>u. t \<le> u \<and> u \<le> t' \<and> map_option content r = source u ident))"

text \<open>What the batch holds is the part of the feed from the cursor on.\<close>

lemma batch_slice:
  assumes read: "journal_after c vis n (journal_at t) = Some b" "jb_state b \<noteq> Gap" and p: "unat (cu_sequence c) = p"
  shows "p + length (jb_changes b) \<le> length (feed_at t)"
    and "unat (cu_sequence (jb_next b)) = p + length (jb_changes b)"
    and "cu_epoch (jb_next b) = jn_epoch (journal_at t)"
    and "p \<le> i \<Longrightarrow> i < p + length (jb_changes b)
       \<Longrightarrow> feed_at t ! i = Some (ch_id (jb_changes b ! (i - p)), ch_minimumVisibility (jb_changes b ! (i - p)))"
proof -
  let ?h = "feed_at t" and ?n = "length (jb_changes b)"
  have cov: "cursor_covered c (journal_at t)"
    using journal_after_gap [OF read(1)] read(2) by blast
  note f = journal_after_feed [OF represents read(1) cov, unfolded p]
  have slice: "map (\<lambda>e. Some (ch_id e, ch_minimumVisibility e)) (jb_changes b) = take ?n (drop p ?h)"
    using f by blast
  show "unat (cu_sequence (jb_next b)) = p + ?n" "cu_epoch (jb_next b) = jn_epoch (journal_at t)"
    using f by blast+
  have "p \<le> length ?h"
    using cov represents [of t] p by (auto simp: cursor_covered_def feed_rep_def word_le_nat_alt)
  moreover have "?n = length (take ?n (drop p ?h))"
    using arg_cong [OF slice, of length] by simp
  ultimately show len: "p + ?n \<le> length ?h"
    by auto
  show "?h ! i = Some (ch_id (jb_changes b ! (i - p)), ch_minimumVisibility (jb_changes b ! (i - p)))"
    if "p \<le> i" "i < p + ?n"
  proof -
    have "map (\<lambda>e. Some (ch_id e, ch_minimumVisibility e)) (jb_changes b) ! (i - p) = take ?n (drop p ?h) ! (i - p)"
      using slice by simp
    then show ?thesis
      using that len by simp
  qed
qed

lemma round_content:
  assumes "maintain_resolve sz bud resolve (jb_changes b) [] 0 = Some rs"
    and "maintain_apply alive ok (sort_key fst rs) g = (g', True)"
  shows "g' ident = (if ident \<in> ch_id ` set (jb_changes b) then map_option content (the (resolve ident)) else g ident)"
    and "ident \<in> ch_id ` set (jb_changes b) \<Longrightarrow> \<exists>r. resolve ident = Some r"
proof -
  have rm: "\<forall>(i, r) \<in> set (sort_key fst rs). resolve i = Some r"
      "fst ` set (sort_key fst rs) = ch_id ` set (jb_changes b)"
    using maintain_resolve_map [OF assms(1)]
    by (auto simp only: set_sort list.set image_empty Un_empty_left ball_empty simp_thms)
  show "g' ident = (if ident \<in> ch_id ` set (jb_changes b) then map_option content (the (resolve ident)) else g ident)"
    using maintain_apply_content [OF assms(2) rm(1)] rm(2) by simp
  show "\<exists>r. resolve ident = Some r" if i: "ident \<in> ch_id ` set (jb_changes b)"
  proof -
    obtain r where "(ident, r) \<in> set (sort_key fst rs)"
      using i unfolding rm(2) [symmetric] by (auto simp del: set_sort)
    then show ?thesis
      using rm(1) by blast
  qed
qed

lemma round_tracks:
  assumes tr: "tracks g p (feed_at t) (source t)" and p: "unat (cu_sequence c) = p"
    and read: "journal_after c vis n (journal_at t) = Some b" "jb_state b \<noteq> Gap"
    and res: "maintain_resolve sz bud resolve (jb_changes b) [] 0 = Some rs" "resolved_during t t' resolve"
    and app: "maintain_apply alive ok (sort_key fst rs) g = (g', True)"
    and ep: "same_epoch t t'"
  shows "tracks g' (p + length (jb_changes b)) (feed_at t') (source t')"
  unfolding tracks_def
proof (intro allI impI)
  fix ident
  assume ne: "g' ident \<noteq> source t' ident"
  let ?n = "length (jb_changes b)"
  note sl = batch_slice [OF read p]
  note g' = round_content [OF res(1) app]
  show "pending (p + ?n) (feed_at t') ident"
  proof (cases "ident \<in> ch_id ` set (jb_changes b)")
    case True
    then obtain r u where r: "resolve ident = Some r" "t \<le> u" "u \<le> t'" "map_option content r = source u ident"
      using g'(2) res(2) unfolding resolved_during_def by metis
    have "source u ident \<noteq> source t' ident"
      using ne g'(1) [of ident] True r(1,4) by simp
    then have "pending (length (feed_at u)) (feed_at t') ident"
      using journalled same_epoch_between [OF ep r(2,3)] by blast
    moreover have "length (feed_at t) \<le> length (feed_at u)"
      using grows same_epoch_between [OF ep r(2,3)] by (blast intro: prefix_length_le)
    ultimately show ?thesis
      using sl(1) pending_earlier order_trans by blast
  next
    case False
    then have "g ident \<noteq> source t' ident"
      using ne g'(1) by simp
    then have "pending p (feed_at t') ident"
      using tracks_later [OF tr ep] sl(1) by (simp add: tracks_def)
    then obtain i where i: "p \<le> i" "i < length (feed_at t')"
        "feed_at t' ! i = None \<or> (\<exists>v. feed_at t' ! i = Some (ident, v))"
      by (auto simp: pending_def)
    have "p + ?n \<le> i"
    proof (rule ccontr)
      assume "\<not> p + ?n \<le> i"
      then have lt: "i < p + ?n"
        by simp
      have "feed_at t' ! i = feed_at t ! i"
        using grows [OF ep] lt sl(1) by (auto simp: prefix_def nth_append)
      then have "ident = ch_id (jb_changes b ! (i - p))"
        using i(3) sl(4) [OF i(1) lt] by auto
      moreover have "jb_changes b ! (i - p) \<in> set (jb_changes b)"
        using i(1) lt by simp
      ultimately show False
        using False by blast
    qed
    then show ?thesis
      using i by (auto simp: pending_def)
  qed
qed

text \<open>When the journal has not moved between the read and the end of the round, nothing is left.\<close>

lemma published_round_exact:
  assumes "tracks g p (feed_at t) (source t)" "unat (cu_sequence c) = p"
    and "journal_after c vis n (journal_at t) = Some b" "jb_state b \<noteq> Gap"
    and "maintain_resolve sz bud resolve (jb_changes b) [] 0 = Some rs" "resolved_during t t' resolve"
    and "maintain_apply alive ok (sort_key fst rs) g = (g', True)" "t \<le> t'"
    and head: "journal_capture (journal_at t') = jb_next b"
  shows "g' = source t'"
proof -
  note sl = batch_slice [OF assms(3,4,2)]
  have "cursor_covered c (journal_at t)"
    using journal_after_gap [OF assms(3)] assms(4) by blast
  then have "jn_epoch (journal_at t) \<noteq> 0"
    using epoch_used [of t] by (simp add: cursor_covered_def)
  then have np: "\<not> jn_poisoned (journal_at t')"
    using arg_cong [OF head, of cu_epoch] sl(3) by (auto simp: journal_capture_def)
  then have at: "cu_sequence (jb_next b) = jn_sequence (journal_at t')" "cu_epoch (jb_next b) = jn_epoch (journal_at t')"
    using arg_cong [OF head, of cu_sequence] arg_cong [OF head, of cu_epoch] by (simp_all add: journal_capture_def)
  then have "same_epoch t t'"
    using sl(3) np assms(8) by (simp add: same_epoch_def)
  from round_tracks [OF assms(1-7) this]
  have "tracks g' (p + length (jb_changes b)) (feed_at t') (source t')" .
  moreover have "length (feed_at t') = p + length (jb_changes b)"
    using at(1) sl(2) represents [of t'] by (simp add: feed_rep_def)
  ultimately show ?thesis
    using tracks_end by metis
qed

end

end
