(* ===== verification/Vector_Registry.thy ===== *)
theory Vector_Registry
  imports Vector_Source Json
begin

text \<open>
  The subscriptions that feed the change journals (\<open>engine/src/vector_change_registry.cpp\<close>) and a collection
  that reports its edits to them (\<open>LSM::put\<close> and \<open>LSM::dropCollection\<close> hold the collection's mutation guard
  around the change and the report, so that one edit is one step).  Journals are shared objects: entries hold
  their addresses, and an address no longer owned by a subscriber is an expired \<open>weak_ptr\<close>.
\<close>

section \<open>Reporting one document\<close>

text \<open>\<open>None\<close> is a field that is not a non-negative integer.\<close>

fun visibility_floor :: "string list \<Rightarrow> json \<Rightarrow> u64 \<Rightarrow> u64 option" where
  "visibility_floor [] doc fl = Some fl"
| "visibility_floor (field # names) doc fl =
     (case jlookup doc field of
        None \<Rightarrow> visibility_floor names doc fl
      | Some value \<Rightarrow>
         (if \<not> is_number_integer value \<or> (\<not> is_number_unsigned value \<and> (case get_ll value of Some n \<Rightarrow> n < 0 | None \<Rightarrow> True))
          then None
          else case get_u64 value of None \<Rightarrow> None | Some w \<Rightarrow> visibility_floor names doc (max fl w)))"

definition floor_fields :: "string list" where
  "floor_fields = [''_raft_commit_index'', ''commit_index'', ''_visibility_floor'']"

text \<open>The body of the loop of \<open>observe\<close>, and whether the loop goes on; \<open>alloc_ok\<close> is whether the journal can
  allocate the entry.  A visibility state that is no string makes \<open>value\<close> throw.\<close>

definition observe_journal :: "bool \<Rightarrow> json \<Rightarrow> journal \<Rightarrow> journal \<times> bool" where
  "observe_journal alloc_ok doc j =
     (case jlookup doc ''id'' of
        Some (JStr ident) \<Rightarrow>
          (case visibility_floor floor_fields doc 0 of
             None \<Rightarrow> (journal_gap j, False)
           | Some fl \<Rightarrow>
              (if jlookup doc ''committed'' = Some (JBool False)
               then if fl = 0 then (journal_gap j, False) else (fst (journal_append alloc_ok ident fl j), True)
               else
                 case jvalue get_str doc ''_visibility_state'' [] of
                   None \<Rightarrow> (journal_gap j, True)
                 | Some st \<Rightarrow>
                    (if st = ''PENDING'' \<and> fl = 0 then (journal_gap j, False)
                     else (fst (journal_append alloc_ok ident fl j), True))))
      | _ \<Rightarrow> (journal_gap j, True))"

section \<open>Subscriptions\<close>

record reg_entry =
  re_root :: string
  re_user :: string
  re_database :: string
  re_collection :: string
  re_journal :: nat

record registry =
  rg_entries :: "reg_entry list"
  rg_enabled :: bool
  rg_journals :: "nat \<Rightarrow> journal option"
  rg_next :: nat
  rg_epochs :: u64

text \<open>\<open>lexically_normal\<close> on POSIX paths, with the trailing separator removed.\<close>

fun path_parts :: "string \<Rightarrow> string \<Rightarrow> string list" where
  "path_parts acc [] = [rev acc]"
| "path_parts acc (c # cs) = (if c = CHR ''/'' then rev acc # path_parts [] cs else path_parts (c # acc) cs)"

fun normal_parts :: "bool \<Rightarrow> string list \<Rightarrow> string list \<Rightarrow> string list" where
  "normal_parts rooted acc [] = rev acc"
| "normal_parts rooted acc (p # ps) =
     (if p = [] \<or> p = ''.'' then normal_parts rooted acc ps
      else if p = ''..''
      then (case acc of
              [] \<Rightarrow> normal_parts rooted (if rooted then [] else [p]) ps
            | a # as \<Rightarrow> normal_parts rooted (if a = ''..'' then p # acc else as) ps)
      else normal_parts rooted (p # acc) ps)"

fun join_parts :: "string list \<Rightarrow> string" where
  "join_parts [] = []"
| "join_parts [p] = p"
| "join_parts (p # q # ps) = p @ CHR ''/'' # join_parts (q # ps)"

definition canonicalRoot :: "string \<Rightarrow> string" where
  "canonicalRoot rt =
     (if rt = [] then []
      else
        let rooted = (hd rt = CHR ''/''); ps = normal_parts rooted [] (path_parts [] rt)
        in if rooted then CHR ''/'' # join_parts ps else if ps = [] then ''.'' else join_parts ps)"

definition separator :: "char \<Rightarrow> bool" where
  "separator c \<longleftrightarrow> c = CHR ''/'' \<or> c = CHR 0x5C"

definition reg_match :: "string \<Rightarrow> string \<Rightarrow> string \<Rightarrow> string \<Rightarrow> reg_entry \<Rightarrow> bool" where
  "reg_match rt user db collection e \<longleftrightarrow>
     (re_root e = rt
      \<or> (rt \<noteq> [] \<and> separator (last rt) \<and> length rt = length (re_root e) + 1
         \<and> take (length (re_root e)) rt = re_root e))
     \<and> re_user e = user \<and> re_database e = db \<and> re_collection e = collection"

definition live_entries :: "registry \<Rightarrow> reg_entry list" where
  "live_entries r = filter (\<lambda>e. rg_journals r (re_journal e) \<noteq> None) (rg_entries r)"

text \<open>The existing live subscription, or a new one; \<open>Inl\<close> is the exception of a full registry or of an
  exhausted epoch counter.\<close>

definition reg_subscribe :: "string \<Rightarrow> string \<Rightarrow> string \<Rightarrow> string \<Rightarrow> registry \<Rightarrow> string + nat \<times> registry" where
  "reg_subscribe rt user db collection r =
     (case find (reg_match rt user db collection) (live_entries r) of
        Some e \<Rightarrow> Inr (re_journal e, r)
      | None \<Rightarrow>
         (if 64 \<le> length (live_entries r) then Inl ''vector_index_history_subscription_limit''
          else
            case new_journal 4096 (1024 * 1024) (rg_epochs r) of
              (None, epochs) \<Rightarrow> Inl ''vector journal epoch exhausted''
            | (Some j, epochs) \<Rightarrow>
               Inr (rg_next r,
                    r\<lparr>rg_entries := live_entries r @ [\<lparr>re_root = canonicalRoot rt, re_user = user, re_database = db,
                                                      re_collection = collection, re_journal = rg_next r\<rparr>],
                      rg_enabled := True, rg_journals := (rg_journals r)(rg_next r \<mapsto> j),
                      rg_next := rg_next r + 1, rg_epochs := epochs\<rparr>)))"

fun observe_loop ::
    "(reg_entry \<Rightarrow> bool) \<Rightarrow> (nat \<Rightarrow> bool) \<Rightarrow> json \<Rightarrow> reg_entry list \<Rightarrow> (nat \<Rightarrow> journal option) \<Rightarrow> nat \<Rightarrow> journal option" where
  "observe_loop matches alloc_ok doc [] js = js"
| "observe_loop matches alloc_ok doc (e # es) js =
     (if \<not> matches e then observe_loop matches alloc_ok doc es js
      else
        case js (re_journal e) of
          None \<Rightarrow> observe_loop matches alloc_ok doc es js
        | Some j \<Rightarrow>
           (case observe_journal (alloc_ok (re_journal e)) doc j of
              (j', on) \<Rightarrow>
                (if on then observe_loop matches alloc_ok doc es (js(re_journal e \<mapsto> j')) else js(re_journal e \<mapsto> j'))))"

definition reg_observe ::
    "(nat \<Rightarrow> bool) \<Rightarrow> string \<Rightarrow> string \<Rightarrow> string \<Rightarrow> string \<Rightarrow> json \<Rightarrow> registry \<Rightarrow> registry" where
  "reg_observe alloc_ok rt user db collection doc r =
     (if \<not> rg_enabled r then r
      else r\<lparr>rg_journals := observe_loop (reg_match rt user db collection) alloc_ok doc (rg_entries r) (rg_journals r)\<rparr>)"

fun reset_loop :: "(reg_entry \<Rightarrow> bool) \<Rightarrow> reg_entry list \<Rightarrow> registry \<Rightarrow> registry" where
  "reset_loop matches [] r = r"
| "reset_loop matches (e # es) r =
     (if \<not> matches e then reset_loop matches es r
      else
        case rg_journals r (re_journal e) of
          None \<Rightarrow> reset_loop matches es r
        | Some j \<Rightarrow>
           (case journal_reset (rg_epochs r) j of
              (j', epochs) \<Rightarrow>
                reset_loop matches es (r\<lparr>rg_journals := (rg_journals r)(re_journal e \<mapsto> j'), rg_epochs := epochs\<rparr>)))"

definition reg_invalidate :: "string \<Rightarrow> string \<Rightarrow> string \<Rightarrow> string \<Rightarrow> registry \<Rightarrow> registry" where
  "reg_invalidate rt user db collection r =
     (if \<not> rg_enabled r then r else reset_loop (reg_match rt user db collection) (rg_entries r) r)"

definition reg_invalidateAll :: "registry \<Rightarrow> registry" where
  "reg_invalidateAll r = (if \<not> rg_enabled r then r else reset_loop (\<lambda>_. True) (rg_entries r) r)"

section \<open>What a report does to a journal\<close>

text \<open>The mutation a report added to the feed, read off the journal: the newest entry, or an unknown one
  when the report left a gap.\<close>

definition reported :: "journal \<Rightarrow> journal \<Rightarrow> feed" where
  "reported j j' =
     (if jn_sequence j' = jn_sequence j then []
      else [if jn_entries j' = [] then None
            else Some (ch_id (last (jn_entries j')), ch_minimumVisibility (last (jn_entries j')))])"

lemma succ_u64_neq: "(x :: u64) + 1 \<noteq> x"
  by simp

lemma gap_reported: "feed_rep h j \<Longrightarrow> feed_rep (h @ reported j (journal_gap j)) (journal_gap j)"
  using journal_gap_rep [of h j] by (auto simp: reported_def journal_gap_def gapLocked_def)

lemma append_reported:
  assumes rep: "feed_rep h j" and app: "journal_append ok ident v j = (j', b)"
  shows "feed_rep (h @ reported j j') j'"
    and "\<not> jn_poisoned j' \<Longrightarrow> reported j j' = [if b then Some (ident, v) else None]"
proof -
  have seq: "jn_sequence j' = (if jn_poisoned j \<or> jn_sequence j = - 1 then jn_sequence j else jn_sequence j + 1)"
    and pois: "\<not> jn_poisoned j' \<longleftrightarrow> \<not> jn_poisoned j \<and> jn_sequence j \<noteq> - 1"
    using app by (auto simp: journal_append_def gapLocked_def Let_def split: if_splits)
  have new: "jn_entries j' = [] \<longleftrightarrow> \<not> b" "b \<Longrightarrow> ch_id (last (jn_entries j')) = ident \<and> ch_minimumVisibility (last (jn_entries j')) = v"
    if "\<not> (jn_poisoned j \<or> jn_sequence j = - 1)"
    using app that by (auto simp: journal_append_def gapLocked_def Let_def split: if_splits)
  show "feed_rep (h @ reported j j') j'"
    using journal_append_rep [OF rep app] seq new by (auto simp: reported_def split: if_splits)
  show "reported j j' = [if b then Some (ident, v) else None]" if "\<not> jn_poisoned j'"
    using that seq pois new by (auto simp: reported_def)
qed

lemma observe_cases:
  obtains "fst (observe_journal ok doc j) = journal_gap j"
  | ident v b where "journal_append ok ident v j = (fst (observe_journal ok doc j), b)" "jlookup doc ''id'' = Some (JStr ident)"
proof -
  have "fst (observe_journal ok doc j) = journal_gap j
     \<or> (\<exists>ident v. fst (observe_journal ok doc j) = fst (journal_append ok ident v j) \<and> jlookup doc ''id'' = Some (JStr ident))"
    by (auto simp: observe_journal_def split: option.splits json.splits if_splits)
  then show thesis
    using that by (metis prod.collapse)
qed

lemma observe_reported:
  assumes rep: "feed_rep h j"
  shows "feed_rep (h @ reported j (fst (observe_journal ok doc j))) (fst (observe_journal ok doc j))"
  using gap_reported [OF rep] append_reported(1) [OF rep] by (cases rule: observe_cases [of ok doc j]) auto

lemma gap_keeps: "jn_epoch (journal_gap j) = jn_epoch j" "jn_poisoned j \<Longrightarrow> jn_poisoned (journal_gap j)"
  by (simp_all add: journal_gap_def gapLocked_def)

lemma append_keeps:
  assumes "journal_append ok ident v j = (j', b)"
  shows "jn_epoch j' = jn_epoch j" "jn_poisoned j \<Longrightarrow> jn_poisoned j'"
  using assms by (auto simp: journal_append_def gapLocked_def Let_def split: if_splits)

lemma observe_keeps:
  "jn_epoch (fst (observe_journal ok doc j)) = jn_epoch j"
  "jn_poisoned j \<Longrightarrow> jn_poisoned (fst (observe_journal ok doc j))"
  using gap_keeps [of j] append_keeps [of ok] by (cases rule: observe_cases [of ok doc j]; metis)+

text \<open>Short of exhaustion a report adds one mutation: an unknown one, or that of the document.\<close>

lemma observe_mutation:
  assumes rep: "feed_rep h j" and live: "\<not> jn_poisoned (fst (observe_journal ok doc j))"
  shows "reported j (fst (observe_journal ok doc j)) = [None]
     \<or> (\<exists>ident v. reported j (fst (observe_journal ok doc j)) = [Some (ident, v)] \<and> jlookup doc ''id'' = Some (JStr ident))"
proof (cases rule: observe_cases [of ok doc j])
  case 1
  then show ?thesis
    using live by (auto simp: reported_def journal_gap_def gapLocked_def)
next
  case (2 ident v b)
  then show ?thesis
    using append_reported(2) [OF rep 2(1) live] by auto
qed

section \<open>A collection that reports its edits\<close>

record 'v collection_state =
  co_source :: "string \<Rightarrow> 'v content option"
  co_journal :: journal
  co_feed :: feed
  co_epochs :: u64

text \<open>The identifier a document is stored under, and the document as stored.\<close>

definition stored_doc :: "(json \<Rightarrow> string) \<Rightarrow> string \<Rightarrow> json \<Rightarrow> string \<times> json" where
  "stored_doc dump clock doc =
     (case jlookup doc ''id'' of
        None \<Rightarrow> (clock, doc)
      | Some v \<Rightarrow>
         (let ident = (case v of JStr s \<Rightarrow> s | _ \<Rightarrow> dump v) in (ident, jput doc ''id'' (JStr ident))))"

text \<open>An edit stores a document, replaces the whole collection after an invalidation, or is an epoch taken
  by another journal of the process.\<close>

datatype 'v edit =
    Store "json \<Rightarrow> string" string json bool
  | Invalidate "string \<Rightarrow> 'v content option"
  | Epoch_Taken

text \<open>\<open>view\<close> is what the index sees of a stored document (\<open>None\<close> when it has no visible vector).\<close>

definition apply_edit :: "(json \<Rightarrow> 'v content option) \<Rightarrow> 'v edit \<Rightarrow> 'v collection_state \<Rightarrow> 'v collection_state" where
  "apply_edit view e s =
     (case e of
        Store dump clock doc alloc_ok \<Rightarrow>
          (let (ident, doc1) = stored_doc dump clock doc; j = fst (observe_journal alloc_ok doc1 (co_journal s))
           in s\<lparr>co_source := (co_source s)(ident := view doc1), co_journal := j,
                co_feed := co_feed s @ reported (co_journal s) j\<rparr>)
      | Invalidate src \<Rightarrow>
          (case journal_reset (co_epochs s) (co_journal s) of
             (j, epochs) \<Rightarrow> s\<lparr>co_source := src, co_journal := j, co_feed := [], co_epochs := epochs\<rparr>)
      | Epoch_Taken \<Rightarrow> s\<lparr>co_epochs := snd (next_epoch (co_epochs s))\<rparr>)"

definition collection_start :: "(string \<Rightarrow> 'v content option) \<Rightarrow> 'v collection_state" where
  "collection_start src =
     (case new_journal 4096 (1024 * 1024) 1 of
        (j, epochs) \<Rightarrow> \<lparr>co_source = src, co_journal = the j, co_feed = [], co_epochs = epochs\<rparr>)"

text \<open>The state after the first \<open>t\<close> edits.\<close>

definition collection_at ::
    "(json \<Rightarrow> 'v content option) \<Rightarrow> (string \<Rightarrow> 'v content option) \<Rightarrow> 'v edit list \<Rightarrow> nat \<Rightarrow> 'v collection_state" where
  "collection_at view src es t = fold (apply_edit view) (take t es) (collection_start src)"

text \<open>The journal represents the feed, and the epochs it has had were all handed out before.\<close>

definition collection_inv :: "'v collection_state \<Rightarrow> bool" where
  "collection_inv s \<longleftrightarrow> feed_rep (co_feed s) (co_journal s) \<and> 0 < co_epochs s
     \<and> jn_epoch (co_journal s) < co_epochs s \<and> (jn_epoch (co_journal s) = 0 \<longrightarrow> jn_poisoned (co_journal s))"

lemma next_epoch_less:
  assumes "next_epoch e = (n, e')" "0 < e"
  shows "0 < e'" "e \<le> e'" "n \<noteq> 0 \<Longrightarrow> e \<le> n \<and> n < e'"
proof -
  have "e \<noteq> - 1 \<Longrightarrow> e < e + 1"
    using unat_succ_u64 [of e] by (simp add: word_less_nat_alt)
  then show "0 < e'" "e \<le> e'" "n \<noteq> 0 \<Longrightarrow> e \<le> n \<and> n < e'"
    using assms by (auto simp: next_epoch_def split: if_splits)
qed

lemma collection_inv_start: "collection_inv (collection_start src)"
proof -
  have "new_journal 4096 (1024 * 1024) 1 = (Some \<lparr>jn_entries = [], jn_capacity = 4096, jn_epoch = 1, jn_sequence = 0,
      jn_floor = 0, jn_poisoned = False\<rparr>, 2)"
    by (simp add: new_journal_def next_epoch_def)
  then show ?thesis
    by (simp add: collection_start_def collection_inv_def feed_rep_def)
qed

lemma obj_insert_same: "map_of (obj_insert k v xs) k = Some v"
  by (induction k v xs rule: obj_insert.induct) auto

lemma stored_doc_id:
  assumes "stored_doc dump clock doc = (ident, doc1)" "jlookup doc1 ''id'' = Some (JStr i)"
  shows "i = ident"
  using assms by (cases doc) (auto simp: stored_doc_def Let_def obj_insert_same split: option.splits)

text \<open>What may happen between two moments: the same epoch with a longer feed that holds every edit, or a
  journal that is exhausted or has a fresh epoch.\<close>

definition continues :: "'v collection_state \<Rightarrow> 'v collection_state \<Rightarrow> bool" where
  "continues s s' \<longleftrightarrow> jn_epoch (co_journal s') = jn_epoch (co_journal s)
     \<and> (jn_poisoned (co_journal s) \<longrightarrow> jn_poisoned (co_journal s')) \<and> prefix (co_feed s) (co_feed s')
     \<and> (\<not> jn_poisoned (co_journal s')
        \<longrightarrow> (\<forall>ident. co_source s ident \<noteq> co_source s' ident \<longrightarrow> pending (length (co_feed s)) (co_feed s') ident))"

definition evolves :: "'v collection_state \<Rightarrow> 'v collection_state \<Rightarrow> bool" where
  "evolves s s' \<longleftrightarrow> co_epochs s \<le> co_epochs s'
     \<and> (continues s s' \<or> jn_poisoned (co_journal s') \<or> co_epochs s \<le> jn_epoch (co_journal s'))"

lemma continues_trans:
  assumes "continues s s'" "continues s' s''"
  shows "continues s s''"
proof -
  have "pending (length (co_feed s)) (co_feed s'') ident"
    if ne: "co_source s ident \<noteq> co_source s'' ident" and live: "\<not> jn_poisoned (co_journal s'')" for ident
  proof (cases "co_source s ident = co_source s' ident")
    case True
    then have "pending (length (co_feed s')) (co_feed s'') ident"
      using ne live assms(2) by (simp add: continues_def)
    then show ?thesis
      using assms(1) pending_earlier prefix_length_le unfolding continues_def by blast
  next
    case False
    then have "pending (length (co_feed s)) (co_feed s') ident"
      using live assms by (auto simp: continues_def)
    then show ?thesis
      using assms(2) pending_mono by (auto simp: continues_def)
  qed
  then show ?thesis
    using assms unfolding continues_def by (auto intro: prefix_order.trans)
qed

lemma evolves_trans: "evolves s s' \<Longrightarrow> evolves s' s'' \<Longrightarrow> evolves s s''"
  unfolding evolves_def using continues_trans [of s s' s'']
  by (auto simp: continues_def intro: order_trans)

lemma evolves_refl: "evolves s s"
  by (simp add: evolves_def continues_def)

lemma store_evolves:
  assumes inv: "collection_inv s"
  shows "collection_inv (apply_edit view (Store dump clock doc ok) s)
     \<and> evolves s (apply_edit view (Store dump clock doc ok) s)"
proof -
  obtain ident doc1 where d: "stored_doc dump clock doc = (ident, doc1)"
    by fastforce
  let ?j = "co_journal s" and ?j' = "fst (observe_journal ok doc1 (co_journal s))"
  have rep: "feed_rep (co_feed s) ?j"
    using inv by (simp add: collection_inv_def)
  have "pending (length (co_feed s)) (co_feed s @ reported ?j ?j') i"
    if "\<not> jn_poisoned ?j'" "co_source s i \<noteq> ((co_source s)(ident := view doc1)) i" for i
    using observe_mutation [OF rep that(1)] stored_doc_id [OF d] that(2)
    by (auto simp: pending_def split: if_splits)
  then have "continues s (apply_edit view (Store dump clock doc ok) s)"
    using observe_keeps [where ok = ok and doc = doc1 and j = ?j] d by (simp add: continues_def apply_edit_def Let_def)
  moreover have "collection_inv (apply_edit view (Store dump clock doc ok) s)"
    using inv observe_keeps [where ok = ok and doc = doc1 and j = ?j] observe_reported [OF rep, of ok doc1] d
    by (simp add: collection_inv_def apply_edit_def Let_def)
  ultimately show ?thesis
    by (simp add: evolves_def apply_edit_def Let_def d)
qed

lemma invalidate_evolves:
  assumes inv: "collection_inv s"
  shows "collection_inv (apply_edit view (Invalidate src) s) \<and> evolves s (apply_edit view (Invalidate src) s)"
proof -
  obtain n e' where n: "next_epoch (co_epochs s) = (n, e')"
    by fastforce
  have "0 < co_epochs s" "0 < jn_capacity (co_journal s)"
    using inv by (auto simp: collection_inv_def feed_rep_def)
  then show ?thesis
    using next_epoch_less [OF n] n
    by (cases "n = 0") (auto simp: collection_inv_def evolves_def apply_edit_def journal_reset_def feed_rep_def gapLocked_def)
qed

lemma taken_evolves:
  assumes inv: "collection_inv s"
  shows "collection_inv (apply_edit view Epoch_Taken s) \<and> evolves s (apply_edit view Epoch_Taken s)"
proof -
  obtain n e' where n: "next_epoch (co_epochs s) = (n, e')"
    by fastforce
  then show ?thesis
    using next_epoch_less [OF n] inv
    by (auto simp: collection_inv_def evolves_def continues_def apply_edit_def intro: order.strict_trans2)
qed

lemma edit_evolves: "collection_inv s \<Longrightarrow> collection_inv (apply_edit view e s) \<and> evolves s (apply_edit view e s)"
  by (cases e) (simp_all add: store_evolves invalidate_evolves taken_evolves)

lemma collection_inv_fold: "collection_inv s \<Longrightarrow> collection_inv (fold (apply_edit view) es s) \<and> evolves s (fold (apply_edit view) es s)"
proof (induction es arbitrary: s)
  case (Cons e es)
  then show ?case
    using edit_evolves [OF Cons.prems, of view e] evolves_trans by fastforce
qed (simp add: evolves_refl)

lemma collection_at_inv: "collection_inv (collection_at view src es t)"
  by (simp add: collection_at_def collection_inv_fold collection_inv_start)

lemma collection_at_evolves:
  assumes "t \<le> t'"
  shows "evolves (collection_at view src es t) (collection_at view src es t')"
proof -
  have "take t' es = take t es @ drop t (take t' es)"
    using assms by (metis append_take_drop_id min.absorb1 take_take)
  then have "collection_at view src es t' = fold (apply_edit view) (drop t (take t' es)) (collection_at view src es t)"
    unfolding collection_at_def by (metis comp_apply fold_append)
  then show ?thesis
    using collection_inv_fold [OF collection_at_inv] by metis
qed

lemma same_epoch_continues:
  assumes "collection_inv s" "evolves s s'" "jn_epoch (co_journal s') = jn_epoch (co_journal s)" "\<not> jn_poisoned (co_journal s')"
  shows "continues s s'"
  using assms by (auto simp: evolves_def collection_inv_def)

interpretation col: change_source "\<lambda>t. co_source (collection_at view src es t)" "\<lambda>t. co_feed (collection_at view src es t)"
    "\<lambda>t. co_journal (collection_at view src es t)" for view src es
proof
  let ?at = "collection_at view src es"
  note ev = collection_at_evolves [of _ _ view src es] and inv = collection_at_inv [of view src es]
  show "feed_rep (co_feed (?at t)) (co_journal (?at t))" for t
    using inv [of t] by (simp add: collection_inv_def)
  show "jn_epoch (co_journal (?at t)) \<noteq> 0" if "\<not> jn_poisoned (co_journal (?at t))" for t
    using inv [of t] that by (auto simp: collection_inv_def)
  have cont: "continues (?at t) (?at t')" if "t \<le> t'" "jn_epoch (co_journal (?at t')) = jn_epoch (co_journal (?at t))"
      "\<not> jn_poisoned (co_journal (?at t'))" for t t'
    using same_epoch_continues inv ev that by blast
  show "prefix (co_feed (?at t)) (co_feed (?at t'))"
    if "t \<le> t'" "jn_epoch (co_journal (?at t')) = jn_epoch (co_journal (?at t))" "\<not> jn_poisoned (co_journal (?at t'))" for t t'
    using cont [OF that] by (simp add: continues_def)
  show "pending (length (co_feed (?at t))) (co_feed (?at t')) ident"
    if "t \<le> t'" "jn_epoch (co_journal (?at t')) = jn_epoch (co_journal (?at t))" "\<not> jn_poisoned (co_journal (?at t'))"
      "co_source (?at t) ident \<noteq> co_source (?at t') ident" for t t' ident
    using cont [OF that(1-3)] that(3,4) by (simp add: continues_def)
  show "jn_epoch (co_journal (?at u)) = jn_epoch (co_journal (?at t)) \<and> \<not> jn_poisoned (co_journal (?at u))"
    if t: "t \<le> u" "u \<le> t'" "jn_epoch (co_journal (?at t')) = jn_epoch (co_journal (?at t))"
      "\<not> jn_poisoned (co_journal (?at t'))" for t u t'
  proof -
    have "\<not> co_epochs (?at u) \<le> jn_epoch (co_journal (?at t'))"
      using inv [of t] ev [OF t(1)] t(3) by (auto simp: collection_inv_def evolves_def)
    then have "continues (?at u) (?at t')"
      using ev [OF t(2)] t(4) by (auto simp: evolves_def)
    then show ?thesis
      using t(3,4) by (auto simp: continues_def)
  qed
qed

end
