(* ===== verification/Vector_Index.thy ===== *)
theory Vector_Index
  imports Vector_Registry
begin

text \<open>
  The index manager at work beside a source that changes: the steps of the worker of
  \<open>VectorIndexGeneration::run\<close> and \<open>maintain\<close> that hold the mutex, the methods other threads call between
  them, and the edits of the source.  Whatever the interleaving, a generation that is handed to a query with
  complete visibility indexes exactly what the source holds.
\<close>

section \<open>The steps\<close>

text \<open>Where the worker is: scanning the source for a job whose journal anchor was captured at a moment,
  about to call \<open>ready\<close>, or in a maintenance round.\<close>

datatype flight =
    Idle
  | Scanning build_job stamp nat
  | Enabling build_job cursor
  | Starting maintain_snapshot
  | Reading maintain_snapshot stamp
  | Applying maintain_snapshot stamp journal_batch nat
  | Publishing maintain_snapshot stamp journal_batch nat
  | Failing maintain_snapshot

record 'v index_system =
  ix_manager :: "'v content manager"
  ix_time :: nat
  ix_flight :: flight

fun in_round :: "flight \<Rightarrow> maintain_snapshot option" where
  "in_round (Reading ms target) = Some ms"
| "in_round (Applying ms target b t) = Some ms"
| "in_round (Publishing ms target b t) = Some ms"
| "in_round (Failing ms) = Some ms"
| "in_round _ = None"

fun in_build :: "flight \<Rightarrow> build_job option" where
  "in_build (Scanning job cert t) = Some job"
| "in_build (Enabling job anchor) = Some job"
| "in_build _ = None"

text \<open>Every value was the source's at some moment of an interval.\<close>

definition read_during :: "(nat \<Rightarrow> string \<Rightarrow> 'c option) \<Rightarrow> nat \<Rightarrow> nat \<Rightarrow> (string \<Rightarrow> 'c option) \<Rightarrow> bool" where
  "read_during source t t' g \<longleftrightarrow> (\<forall>ident. \<exists>u. t \<le> u \<and> u \<le> t' \<and> g ident = source u ident)"

definition resolves_during ::
    "(nat \<Rightarrow> string \<Rightarrow> 'v content option) \<Rightarrow> nat \<Rightarrow> nat \<Rightarrow> (string \<Rightarrow> 'v vrecord option option) \<Rightarrow> bool" where
  "resolves_during source t t' resolve \<longleftrightarrow>
     (\<forall>ident r. resolve ident = Some r \<longrightarrow> (\<exists>u. t \<le> u \<and> u \<le> t' \<and> map_option content r = source u ident))"

definition upd :: "'v content manager \<Rightarrow> flight \<Rightarrow> 'v index_system \<Rightarrow> 'v index_system" where
  "upd m f s = s\<lparr>ix_manager := m, ix_flight := f\<rparr>"

inductive index_step ::
    "(nat \<Rightarrow> string \<Rightarrow> 'v content option) \<Rightarrow> (nat \<Rightarrow> journal) \<Rightarrow> 'v index_system \<Rightarrow> 'v index_system \<Rightarrow> bool"
  for source journal_at where
  edits: "ix_time s \<le> t' \<Longrightarrow> index_step source journal_at s (s\<lparr>ix_time := t'\<rparr>)"
| close: "index_step source journal_at s (upd (mg_close (ix_manager s)) (ix_flight s) s)"
| invalidate: "index_step source journal_at s (upd (mg_invalidate (ix_manager s)) (ix_flight s) s)"
| request: "index_step source journal_at s (upd (requestMaintenance (ix_manager s)) (ix_flight s) s)"
| enqueue: "mg_enqueue lexical exactOnly hasReady whole (ix_manager s) = Some (m, ok)
    \<Longrightarrow> index_step source journal_at s (upd m (ix_flight s) s)"
| worker_stops: "ix_flight s = Idle \<Longrightarrow> mg_stopped (ix_manager s)
    \<Longrightarrow> index_step source journal_at s (upd (worker_exit (ix_manager s)) Idle s)"
| job_dropped: "ix_flight s = Idle \<Longrightarrow> build_claim (ix_manager s) = (m, None)
    \<Longrightarrow> index_step source journal_at s (upd m Idle s)"
| job_claimed: "ix_flight s = Idle \<Longrightarrow> build_claim (ix_manager s) = (m, Some job)
    \<Longrightarrow> index_step source journal_at s (upd m (Scanning job certificate (ix_time s)) s)"
| built: "ix_flight s = Scanning job certificate t \<Longrightarrow> read_during source t (ix_time s) g
    \<Longrightarrow> m = build_publish job certificate completed g (ix_manager s)
    \<Longrightarrow> index_step source journal_at s
          (upd m (if gs_state (mg_status m) = READY then Enabling job (journal_capture (journal_at t)) else Idle) s)"
| build_error: "in_build (ix_flight s) = Some job
    \<Longrightarrow> index_step source journal_at s (upd (build_failed job known sourceChanged what (ix_manager s)) Idle s)"
| no_ready: "ix_flight s = Enabling job anchor \<Longrightarrow> \<not> bj_complete job
    \<Longrightarrow> index_step source journal_at s (upd (ix_manager s) Idle s)"
| ready: "ix_flight s = Enabling job anchor \<Longrightarrow> bj_complete job
    \<Longrightarrow> enableMaintenance anchor 128 1000 True (ix_manager s) = Some m
    \<Longrightarrow> index_step source journal_at s (upd m Idle s)"
| round_begins: "ix_flight s = Idle \<Longrightarrow> maintain_begin (ix_manager s) = Some ms
    \<Longrightarrow> index_step source journal_at s (upd (ix_manager s) (Starting ms) s)"
| no_certificate: "ix_flight s = Starting ms
    \<Longrightarrow> index_step source journal_at s (upd (maintain_certificate_failed ms what (ix_manager s)) Idle s)"
| nothing_to_do: "ix_flight s = Starting ms \<Longrightarrow> maintain_idle ms target (journal_capture (journal_at (ix_time s)))
      \<or> maintain_claim ms (ix_manager s) = None
    \<Longrightarrow> index_step source journal_at s (upd (ix_manager s) Idle s)"
| round_claimed: "ix_flight s = Starting ms \<Longrightarrow> maintain_claim ms (ix_manager s) = Some m
    \<Longrightarrow> index_step source journal_at s (upd m (Reading ms target) s)"
| journal_read: "ix_flight s = Reading ms target \<Longrightarrow> maintain_read ms target (journal_at (ix_time s)) = Some b
    \<Longrightarrow> index_step source journal_at s (upd (ix_manager s) (Applying ms target b (ix_time s)) s)"
| incompatible: "ix_flight s = Applying ms target b t
    \<Longrightarrow> index_step source journal_at s (upd ((ix_manager s)\<lparr>mg_building := False\<rparr>) Idle s)"
| graph_changed: "ix_flight s = Applying ms target b t \<Longrightarrow> resolves_during source t (ix_time s) resolve
    \<Longrightarrow> maintain_resolve sizeof_Record budget resolve (jb_changes b) [] 0 = Some rs
    \<Longrightarrow> gn_graph (ms_previous ms) = Some a
    \<Longrightarrow> maintain_apply alive upsert_ok (sort_key fst rs) (mg_graphs (ix_manager s) a) = (g, whole)
    \<Longrightarrow> index_step source journal_at s
          (upd ((ix_manager s)\<lparr>mg_graphs := (mg_graphs (ix_manager s))(a := g)\<rparr>)
            (if whole then Publishing ms target b (ix_time s) else Failing ms) s)"
| published: "ix_flight s = Publishing ms target b t \<Longrightarrow> t \<le> u \<Longrightarrow> u \<le> ix_time s
    \<Longrightarrow> maintain_publish ms target b final (journal_capture (journal_at u)) (ix_manager s) = (m, advanced)
    \<Longrightarrow> index_step source journal_at s (upd m Idle s)"
| round_error: "in_round (ix_flight s) = Some ms
    \<Longrightarrow> index_step source journal_at s (upd (maintain_failed ms what (ix_manager s)) Idle s)"

definition new_manager :: "'r manager" where
  "new_manager = \<lparr>mg_stopped = False, mg_revision = 0, mg_nextGeneration = 0, mg_building = False, mg_cancelled = False,
     mg_status = \<lparr>gs_state = ABSENT, gs_generation = 0, gs_error = []\<rparr>, mg_published = None, mg_maintenance = None,
     mg_requested = False, mg_queue = [], mg_graphs = (\<lambda>_ _. None), mg_addresses = 0\<rparr>"

definition index_start :: "nat \<Rightarrow> 'v index_system" where
  "index_start t = \<lparr>ix_manager = new_manager, ix_time = t, ix_flight = Idle\<rparr>"

definition index_reachable ::
    "(nat \<Rightarrow> string \<Rightarrow> 'v content option) \<Rightarrow> (nat \<Rightarrow> journal) \<Rightarrow> 'v index_system \<Rightarrow> bool" where
  "index_reachable source journal_at s \<longleftrightarrow> (\<exists>t. (index_step source journal_at)\<^sup>*\<^sup>* (index_start t) s)"

section \<open>The invariant\<close>

text \<open>While the cursor's epoch lasts, every difference between the graph and the source is ahead of the cursor.\<close>

definition covers ::
    "(nat \<Rightarrow> string \<Rightarrow> 'v content option) \<Rightarrow> (nat \<Rightarrow> feed) \<Rightarrow> (nat \<Rightarrow> journal)
       \<Rightarrow> (string \<Rightarrow> 'v content option) \<Rightarrow> cursor \<Rightarrow> nat \<Rightarrow> bool" where
  "covers source feed_at journal_at g c t \<longleftrightarrow> (\<exists>u\<le>t. cu_epoch c = jn_epoch (journal_at u)) \<and> cu_epoch c \<noteq> 0
     \<and> (cu_epoch c = jn_epoch (journal_at t) \<and> \<not> jn_poisoned (journal_at t)
        \<longrightarrow> unat (cu_sequence c) \<le> length (feed_at t) \<and> tracks g (unat (cu_sequence c)) (feed_at t) (source t))"

definition graph_covers ::
    "(nat \<Rightarrow> string \<Rightarrow> 'v content option) \<Rightarrow> (nat \<Rightarrow> feed) \<Rightarrow> (nat \<Rightarrow> journal)
       \<Rightarrow> 'v content manager \<Rightarrow> generation \<Rightarrow> cursor \<Rightarrow> nat \<Rightarrow> bool" where
  "graph_covers source feed_at journal_at m g c t \<longleftrightarrow>
     (\<forall>a. gn_graph g = Some a \<longrightarrow> covers source feed_at journal_at (mg_graphs m a) c t)"

definition manager_inv ::
    "(nat \<Rightarrow> string \<Rightarrow> 'v content option) \<Rightarrow> (nat \<Rightarrow> feed) \<Rightarrow> (nat \<Rightarrow> journal) \<Rightarrow> 'v content manager \<Rightarrow> nat \<Rightarrow> bool" where
  "manager_inv source feed_at journal_at m t \<longleftrightarrow>
     (case mg_maintenance m of
        None \<Rightarrow> True
      | Some mt \<Rightarrow> mg_queue m = []
          \<and> (case mg_published m of
               None \<Rightarrow> True
             | Some g \<Rightarrow> gn_graph g \<noteq> None \<and> graph_covers source feed_at journal_at m g (mt_cursor mt) t))"

definition round_inv :: "'r manager \<Rightarrow> maintain_snapshot \<Rightarrow> bool" where
  "round_inv m ms \<longleftrightarrow> mg_building m \<and> mg_maintenance m = Some (ms_maintenance ms)
     \<and> mg_published m = Some (ms_previous ms) \<and> gs_state (mg_status m) \<noteq> READY"

fun flight_inv ::
    "(nat \<Rightarrow> string \<Rightarrow> 'v content option) \<Rightarrow> (nat \<Rightarrow> feed) \<Rightarrow> (nat \<Rightarrow> journal)
       \<Rightarrow> 'v content manager \<Rightarrow> nat \<Rightarrow> flight \<Rightarrow> bool" where
  "flight_inv source feed_at journal_at m t Idle = (\<not> mg_building m)"
| "flight_inv source feed_at journal_at m t (Scanning job cert t0) = (mg_building m \<and> mg_maintenance m = None \<and> t0 \<le> t)"
| "flight_inv source feed_at journal_at m t (Enabling job anchor) =
     (\<not> mg_building m \<and> mg_maintenance m = None
      \<and> (case mg_published m of
           None \<Rightarrow> True
         | Some g \<Rightarrow> cu_epoch anchor \<noteq> 0 \<longrightarrow> graph_covers source feed_at journal_at m g anchor t))"
| "flight_inv source feed_at journal_at m t (Starting ms) =
     (\<not> mg_building m \<and> (mg_maintenance m = None
        \<or> mg_maintenance m = Some (ms_maintenance ms) \<and> mg_published m = Some (ms_previous ms)))"
| "flight_inv source feed_at journal_at m t (Reading ms target) = round_inv m ms"
| "flight_inv source feed_at journal_at m t (Applying ms target b t0) =
     (round_inv m ms \<and> t0 \<le> t \<and> maintain_read ms target (journal_at t0) = Some b
      \<and> graph_covers source feed_at journal_at m (ms_previous ms) (mt_cursor (ms_maintenance ms)) t0)"
| "flight_inv source feed_at journal_at m t (Publishing ms target b t0) =
     (round_inv m ms \<and> t0 \<le> t \<and> graph_covers source feed_at journal_at m (ms_previous ms) (jb_next b) t)"
| "flight_inv source feed_at journal_at m t (Failing ms) = round_inv m ms"

definition index_inv ::
    "(nat \<Rightarrow> string \<Rightarrow> 'v content option) \<Rightarrow> (nat \<Rightarrow> feed) \<Rightarrow> (nat \<Rightarrow> journal) \<Rightarrow> 'v index_system \<Rightarrow> bool" where
  "index_inv source feed_at journal_at s \<longleftrightarrow> manager_inv source feed_at journal_at (ix_manager s) (ix_time s)
     \<and> flight_inv source feed_at journal_at (ix_manager s) (ix_time s) (ix_flight s)"

lemmas index_inv_defs = index_inv_def manager_inv_def round_inv_def graph_covers_def upd_def

lemma index_inv_start: "index_inv source feed_at journal_at (index_start t)"
  by (simp add: index_inv_defs index_start_def new_manager_def)

text \<open>A step of the manager that leaves what the invariant reads.\<close>

lemma index_inv_same:
  assumes "index_inv source feed_at journal_at s" "mg_maintenance m = mg_maintenance (ix_manager s)"
    "mg_published m = mg_published (ix_manager s)" "mg_queue m = mg_queue (ix_manager s)"
    "mg_building m = mg_building (ix_manager s)" "mg_graphs m = mg_graphs (ix_manager s)"
    "gs_state (mg_status m) = READY \<Longrightarrow> gs_state (mg_status (ix_manager s)) = READY"
  shows "index_inv source feed_at journal_at (upd m (ix_flight s) s)"
  using assms by (cases "ix_flight s") (auto simp: index_inv_defs split: option.splits)

lemma index_inv_idle:
  assumes "index_inv source feed_at journal_at s" "mg_maintenance m = mg_maintenance (ix_manager s)"
    "mg_published m = mg_published (ix_manager s)" "mg_queue m = mg_queue (ix_manager s)"
    "\<not> mg_building m" "mg_graphs m = mg_graphs (ix_manager s)"
  shows "index_inv source feed_at journal_at (upd m Idle s)"
  using assms by (auto simp: index_inv_defs split: option.splits)

lemma in_round_inv:
  "flight_inv source feed_at journal_at m t f \<Longrightarrow> in_round f = Some ms \<Longrightarrow> round_inv m ms"
  by (cases f) auto

lemma maintain_apply_touches:
  assumes "maintain_apply alive ok rs g = (g', whole)" "i \<notin> fst ` set rs"
  shows "g' i = g i"
  using assms
proof (induction rs arbitrary: g)
  case (Cons p rs)
  obtain ident r where p: "p = (ident, r)"
    by (cases p)
  have i: "i \<noteq> ident" "i \<notin> fst ` set rs"
    using Cons.prems(2) p by auto
  show ?case
  proof (cases "g' = g")
    case False
    then have "maintain_apply alive ok rs (g(ident := map_option content r)) = (g', whole)"
      using Cons.prems(1) p by (auto split: if_splits option.splits)
    from Cons.IH [OF this i(2)] show ?thesis
      using i(1) by simp
  qed simp
qed simp

context change_source
begin

abbreviation cov :: "(string \<Rightarrow> 'v content option) \<Rightarrow> cursor \<Rightarrow> nat \<Rightarrow> bool" where
  "cov \<equiv> covers source feed_at journal_at"

lemma covers_later:
  assumes "cov g c t" "t \<le> t'"
  shows "cov g c t'"
proof -
  obtain u where u: "u \<le> t" "cu_epoch c = jn_epoch (journal_at u)"
    using assms(1) by (auto simp: covers_def)
  have "unat (cu_sequence c) \<le> length (feed_at t') \<and> tracks g (unat (cu_sequence c)) (feed_at t') (source t')"
    if now: "cu_epoch c = jn_epoch (journal_at t')" "\<not> jn_poisoned (journal_at t')"
  proof -
    have "same_epoch u t'"
      using u now assms(2) by (simp add: same_epoch_def)
    then have ep: "same_epoch t t'" "same_epoch u t"
      using same_epoch_between u(1) assms(2) by blast+
    then have at: "unat (cu_sequence c) \<le> length (feed_at t)" "tracks g (unat (cu_sequence c)) (feed_at t) (source t)"
      using assms(1) u by (auto simp: covers_def same_epoch_def)
    then show ?thesis
      using tracks_later [OF at(2) ep(1) at(1)] prefix_length_le [OF grows [OF ep(1)]] by simp
  qed
  then show ?thesis
    using assms by (auto simp: covers_def intro: order_trans)
qed

text \<open>A scan that began when the anchor was captured.\<close>

lemma scan_covers:
  assumes "read_during source t t' g" "t \<le> t'" "cu_epoch (journal_capture (journal_at t)) \<noteq> 0"
  shows "cov g (journal_capture (journal_at t)) t'"
proof -
  have live: "journal_capture (journal_at t) = \<lparr>cu_epoch = jn_epoch (journal_at t), cu_sequence = jn_sequence (journal_at t)\<rparr>"
    using assms(3) by (auto simp: journal_capture_def split: if_splits)
  have len: "unat (jn_sequence (journal_at t)) = length (feed_at t)"
    using represents [of t] by (simp add: feed_rep_def)
  have "length (feed_at t) \<le> length (feed_at t') \<and> tracks g (length (feed_at t)) (feed_at t') (source t')"
    if ep: "same_epoch t t'"
  proof -
    have "pending (length (feed_at t)) (feed_at t') ident" if ne: "g ident \<noteq> source t' ident" for ident
    proof -
      obtain u where u: "t \<le> u" "u \<le> t'" "g ident = source u ident"
        using assms(1) by (auto simp: read_during_def)
      then have "pending (length (feed_at u)) (feed_at t') ident"
        using ne journalled same_epoch_between [OF ep u(1,2)] by metis
      then show ?thesis
        using pending_earlier prefix_length_le [OF grows] same_epoch_between [OF ep u(1,2)] by blast
    qed
    then show ?thesis
      using prefix_length_le [OF grows [OF ep]] by (simp add: tracks_def)
  qed
  then show ?thesis
    using assms(2,3) len by (auto simp: covers_def live same_epoch_def)
qed

lemma capture_covered:
  assumes "cov g c t" "journal_capture (journal_at t) = c"
  shows "g = source t"
proof -
  have "cu_epoch c \<noteq> 0"
    using assms(1) by (simp add: covers_def)
  then have "\<not> jn_poisoned (journal_at t)" "cu_epoch c = jn_epoch (journal_at t)" "cu_sequence c = jn_sequence (journal_at t)"
    using assms(2) by (auto simp: journal_capture_def split: if_splits)
  then have "tracks g (length (feed_at t)) (feed_at t) (source t)"
    using assms(1) represents [of t] by (auto simp: covers_def feed_rep_def)
  then show ?thesis
    by (rule tracks_end)
qed

text \<open>Changing the graph, even in part, leaves the differences ahead of the old cursor.\<close>

lemma apply_keeps_covers:
  assumes c: "cov g c t'" and read: "journal_after c vis n (journal_at t) = Some b" "jb_state b \<noteq> Gap"
    and res: "maintain_resolve sz bud resolve (jb_changes b) [] 0 = Some rs"
    and app: "maintain_apply alive ok (sort_key fst rs) g = (g', whole)" and t: "t \<le> t'"
  shows "cov g' c t'"
proof -
  let ?p = "unat (cu_sequence c)"
  have cc: "cursor_covered c (journal_at t)"
    using journal_after_gap [OF read(1)] read(2) by blast
  have "pending ?p (feed_at t') ident"
    if ne: "g' ident \<noteq> source t' ident" and now: "cu_epoch c = jn_epoch (journal_at t')" "\<not> jn_poisoned (journal_at t')" for ident
  proof (cases "ident \<in> ch_id ` set (jb_changes b)")
    case True
    then obtain k where k: "k < length (jb_changes b)" "ch_id (jb_changes b ! k) = ident"
      by (metis imageE in_set_conv_nth)
    have "same_epoch t t'"
      using now cc t by (simp add: same_epoch_def cursor_covered_def)
    then have "prefix (feed_at t) (feed_at t')"
      by (rule grows)
    moreover have "pending ?p (feed_at t) ident"
      using batch_slice(1) [OF read refl] batch_slice(4) [OF read refl, of "?p + k"] k
      by (auto simp: pending_def intro!: exI [of _ "?p + k"])
    ultimately show ?thesis
      by (rule pending_mono [rotated])
  next
    case False
    then have "ident \<notin> fst ` set (sort_key fst rs)"
      using maintain_resolve_map [OF res] by simp
    then have "g' ident = g ident"
      by (rule maintain_apply_touches [OF app])
    then show ?thesis
      using ne now c by (simp add: covers_def tracks_def)
  qed
  then show ?thesis
    using c by (auto simp: covers_def tracks_def)
qed

text \<open>A whole batch moves the cursor.\<close>

lemma apply_advances:
  assumes c: "cov g c t" and read: "journal_after c vis n (journal_at t) = Some b" "jb_state b \<noteq> Gap"
    and res: "maintain_resolve sz bud resolve (jb_changes b) [] 0 = Some rs" "resolves_during source t t' resolve"
    and app: "maintain_apply alive ok (sort_key fst rs) g = (g', True)" and t: "t \<le> t'"
  shows "cov g' (jb_next b) t'"
proof -
  let ?p = "unat (cu_sequence c)"
  have cc: "cursor_covered c (journal_at t)"
    using journal_after_gap [OF read(1)] read(2) by blast
  note sl = batch_slice [OF read refl]
  have tr: "tracks g ?p (feed_at t) (source t)" "jn_epoch (journal_at t) \<noteq> 0"
    using c cc by (auto simp: covers_def cursor_covered_def)
  have rd: "resolved_during t t' resolve"
    using res(2) by (simp add: resolves_during_def resolved_during_def)
  have "tracks g' (?p + length (jb_changes b)) (feed_at t') (source t') \<and> ?p + length (jb_changes b) \<le> length (feed_at t')"
    if ep: "same_epoch t t'"
    using round_tracks [OF tr(1) refl read res(1) rd app ep] sl(1) prefix_length_le [OF grows [OF ep]] by simp
  then show ?thesis
    using sl(2,3) tr(2) t by (auto simp: covers_def same_epoch_def)
qed

abbreviation inv :: "'v index_system \<Rightarrow> bool" where
  "inv \<equiv> index_inv source feed_at journal_at"

lemma graph_covers_later:
  "graph_covers source feed_at journal_at m g c t \<Longrightarrow> t \<le> t' \<Longrightarrow> graph_covers source feed_at journal_at m g c t'"
  using covers_later by (auto simp: graph_covers_def)

lemma edits_keep_inv:
  assumes "inv s" "ix_time s \<le> t'"
  shows "inv (s\<lparr>ix_time := t'\<rparr>)"
  using assms graph_covers_later
  by (cases "ix_flight s") (auto simp: index_inv_def manager_inv_def split: option.splits)

lemma enqueue_keeps_inv:
  assumes "inv s" "mg_enqueue lexical exactOnly hasReady whole (ix_manager s) = Some (m, ok)"
  shows "inv (upd m (ix_flight s) s)"
proof (cases "mg_stopped (ix_manager s) \<or> mg_queue (ix_manager s) \<noteq> [] \<or> mg_building (ix_manager s)")
  case True
  then have "m = ix_manager s"
    using assms(2) by (auto simp: mg_enqueue_def split: if_splits)
  then show ?thesis
    using assms(1) by (simp add: index_inv_def upd_def)
next
  case False
  then have "mg_maintenance m = None" "mg_published m = None" "\<not> mg_building m" "\<not> mg_building (ix_manager s)"
    using assms(2) by (auto simp: mg_enqueue_def split: if_splits)
  then show ?thesis
    using assms(1) by (cases "ix_flight s") (auto simp: index_inv_defs)
qed

lemma claim_keeps_inv:
  assumes "inv s" "ix_flight s = Idle" "build_claim (ix_manager s) = (m, j)"
  shows "inv (upd m (case j of None \<Rightarrow> Idle | Some job \<Rightarrow> Scanning job certificate (ix_time s)) s)"
proof (cases "mg_queue (ix_manager s)")
  case Nil
  then show ?thesis
    using assms by (auto simp: build_claim_def index_inv_def upd_def)
next
  case (Cons job q)
  then have "mg_maintenance (ix_manager s) = None"
    using assms(1) by (auto simp: index_inv_defs split: option.splits)
  then show ?thesis
    using assms Cons by (auto simp: build_claim_def index_inv_defs split: if_splits)
qed

lemma built_keeps_inv:
  assumes "inv s" "ix_flight s = Scanning job certificate t" "read_during source t (ix_time s) g"
    and m: "m = build_publish job certificate completed g (ix_manager s)"
  shows "inv (upd m (if gs_state (mg_status m) = READY then Enabling job (journal_capture (journal_at t)) else Idle) s)"
proof -
  have old: "mg_maintenance (ix_manager s) = None" "t \<le> ix_time s"
    using assms(1,2) by (auto simp: index_inv_def)
  then have "cu_epoch (journal_capture (journal_at t)) \<noteq> 0 \<Longrightarrow> cov g (journal_capture (journal_at t)) (ix_time s)"
    using scan_covers assms(3) by blast
  then show ?thesis
    using old by (auto simp: m build_publish_def Let_def index_inv_defs)
qed

lemma ready_keeps_inv:
  assumes "inv s" "ix_flight s = Enabling job anchor" "enableMaintenance anchor 128 1000 True (ix_manager s) = Some m"
  shows "inv (upd m Idle s)"
  using assms by (auto simp: enableMaintenance_def index_inv_defs split: if_splits option.splits)

lemma round_claim_keeps_inv:
  assumes "inv s" "ix_flight s = Starting ms" "maintain_claim ms (ix_manager s) = Some m"
  shows "inv (upd m (Reading ms target) s)"
  using assms by (auto simp: maintain_claim_def index_inv_defs split: if_splits option.splits)

lemma read_keeps_inv:
  assumes "inv s" "ix_flight s = Reading ms target" "maintain_read ms target (journal_at (ix_time s)) = Some b"
  shows "inv (upd (ix_manager s) (Applying ms target b (ix_time s)) s)"
  using assms by (auto simp: index_inv_defs)

lemma maintain_readD:
  assumes "maintain_read ms target j = Some b"
  shows "journal_after (mt_cursor (ms_maintenance ms)) (st_visibility target) (mt_maximumBatch (ms_maintenance ms)) j = Some b"
    and "jb_state b \<noteq> Gap"
  using assms by (auto simp: maintain_read_def Let_def split: if_splits option.splits)

lemma graph_keeps_inv:
  assumes inv: "inv s" and f: "ix_flight s = Applying ms target b t"
    and res: "resolves_during source t (ix_time s) resolve" "maintain_resolve sz bud resolve (jb_changes b) [] 0 = Some rs"
    and a: "gn_graph (ms_previous ms) = Some a"
    and app: "maintain_apply alive ok (sort_key fst rs) (mg_graphs (ix_manager s) a) = (g, whole)"
  shows "inv (upd ((ix_manager s)\<lparr>mg_graphs := (mg_graphs (ix_manager s))(a := g)\<rparr>)
            (if whole then Publishing ms target b (ix_time s) else Failing ms) s)"
proof -
  let ?c = "mt_cursor (ms_maintenance ms)" and ?g = "mg_graphs (ix_manager s) a"
  have rnd: "round_inv (ix_manager s) ms" and t: "t \<le> ix_time s" and read: "maintain_read ms target (journal_at t) = Some b"
    and c0: "cov ?g ?c t"
    using inv f a by (auto simp: index_inv_def graph_covers_def)
  note rd = maintain_readD [OF read]
  have "cov ?g ?c (ix_time s)"
    using c0 t by (rule covers_later)
  then have "cov g ?c (ix_time s)"
    by (rule apply_keeps_covers [OF _ rd res(2) app t])
  moreover have "whole \<Longrightarrow> cov g (jb_next b) (ix_time s)"
    using apply_advances [OF c0 rd res(2,1) _ t] app by simp
  ultimately show ?thesis
    using inv rnd a by (auto simp: index_inv_defs)
qed

lemma publish_keeps_inv:
  assumes "inv s" "ix_flight s = Publishing ms target b t"
    and "maintain_publish ms target b final head (ix_manager s) = (m, advanced)"
  shows "inv (upd m Idle s)"
  using assms by (auto simp: maintain_publish_def Let_def index_inv_defs split: if_splits)

lemma failed_keeps_inv:
  assumes "inv s"
  shows "inv (upd (build_failed job known changed what (ix_manager s)) Idle s)"
    and "inv (upd (maintain_failed ms what (ix_manager s)) Idle s)"
    and "inv (upd ((ix_manager s)\<lparr>mg_building := False\<rparr>) Idle s)"
  by (rule index_inv_idle [OF assms]; simp add: build_failed_def maintain_failed_def)+

lemma worker_exit_keeps_inv: "inv s \<Longrightarrow> ix_flight s = Idle \<Longrightarrow> inv (upd (worker_exit (ix_manager s)) Idle s)"
  by (auto simp: worker_exit_def index_inv_defs split: option.splits)

lemma begin_keeps_inv:
  "inv s \<Longrightarrow> ix_flight s = Idle \<Longrightarrow> maintain_begin (ix_manager s) = Some ms \<Longrightarrow> inv (upd (ix_manager s) (Starting ms) s)"
  by (auto simp: maintain_begin_def index_inv_def upd_def split: option.splits if_splits)

lemma no_round_keeps_inv:
  assumes "inv s" "ix_flight s = Starting ms"
  shows "inv (upd (maintain_certificate_failed ms what (ix_manager s)) Idle s)" "inv (upd (ix_manager s) Idle s)"
  by (rule index_inv_idle [OF assms(1)]; use assms in \<open>simp add: maintain_certificate_failed_def index_inv_def\<close>)+

lemma method_keeps_inv:
  assumes "inv s"
  shows "inv (upd (mg_close (ix_manager s)) (ix_flight s) s)" "inv (upd (mg_invalidate (ix_manager s)) (ix_flight s) s)"
    "inv (upd (requestMaintenance (ix_manager s)) (ix_flight s) s)"
  by (rule index_inv_same [OF assms]; simp add: mg_close_def mg_invalidate_def requestMaintenance_def split: if_splits)+

lemma no_ready_keeps_inv: "inv s \<Longrightarrow> ix_flight s = Enabling job anchor \<Longrightarrow> inv (upd (ix_manager s) Idle s)"
  by (rule index_inv_idle) (simp_all add: index_inv_def)

lemma step_keeps_inv:
  assumes "index_step source journal_at s s'" "inv s"
  shows "inv s'"
  using assms
proof (cases rule: index_step.cases)
  case (job_dropped m)
  then show ?thesis
    using claim_keeps_inv [OF assms(2), of m None] by simp
next
  case (job_claimed m job certificate)
  then show ?thesis
    using claim_keeps_inv [OF assms(2), of m "Some job"] by simp
next
  case (graph_changed ms target b t resolve sz bud rs a alive ok g whole)
  then show ?thesis
    using graph_keeps_inv [OF assms(2)] by simp
qed (simp_all only: edits_keep_inv method_keeps_inv enqueue_keeps_inv worker_exit_keeps_inv built_keeps_inv
    failed_keeps_inv no_ready_keeps_inv ready_keeps_inv begin_keeps_inv no_round_keeps_inv round_claim_keeps_inv
    read_keeps_inv publish_keeps_inv)

lemma index_reachable_inv:
  assumes "index_reachable source journal_at s"
  shows "inv s"
proof -
  obtain t where "(index_step source journal_at)\<^sup>*\<^sup>* (index_start t) s"
    using assms by (auto simp: index_reachable_def)
  then show ?thesis
    by (induction rule: rtranclp_induct) (auto intro: index_inv_start step_keeps_inv)
qed

text \<open>A generation handed out with complete visibility indexes exactly the source.\<close>

lemma acquired_exact:
  assumes "index_reachable source journal_at s"
    and "mg_acquire (journal_capture (journal_at (ix_time s))) certificate (ix_manager s) = Some g" "gn_visibilityComplete g"
  shows "\<exists>a. gn_graph g = Some a \<and> mg_graphs (ix_manager s) a = source (ix_time s)"
proof -
  obtain mt where mt: "mg_published (ix_manager s) = Some g" "mg_maintenance (ix_manager s) = Some mt"
      "journal_capture (journal_at (ix_time s)) = mt_cursor mt"
    using assms(2,3) by (auto simp: mg_acquire_def split: option.splits if_splits)
  then obtain a where "gn_graph g = Some a" "cov (mg_graphs (ix_manager s) a) (mt_cursor mt) (ix_time s)"
    using index_reachable_inv [OF assms(1)] by (auto simp: index_inv_def manager_inv_def graph_covers_def)
  then show ?thesis
    using capture_covered mt(3) by blast
qed

text \<open>While a round may change the graph nothing is handed out.\<close>

lemma round_unserved:
  assumes "index_reachable source journal_at s" "in_round (ix_flight s) \<noteq> None"
  shows "mg_acquire head certificate (ix_manager s) = None"
  using index_reachable_inv [OF assms(1)] assms(2) in_round_inv
  by (fastforce simp: index_inv_def round_inv_def mg_acquire_def split: option.splits)

end

end
