(* ===== verification/Std_Heap.thy ===== *)
theory Std_Heap
  imports Prelude "HOL-Library.Multiset"
begin

text \<open>
  The heap algorithms of the standard library on a vector: \<open>std::push_heap\<close>, and \<open>std::pop_heap\<close> followed by
  \<open>pop_back\<close>.  The standard fixes what they promise and leaves the arrangement open, so the clients are
  proved against the promise, the locale \<open>std_heap\<close>, and the binary heap below shows that it can be kept.
\<close>

section \<open>The contract\<close>

record 'a heap_ops =
  hp_push :: "'a list \<Rightarrow> 'a \<Rightarrow> 'a list"
  hp_pop :: "'a list \<Rightarrow> 'a list"

text \<open>The comparison is given by a key; the front of a heap has the largest key.\<close>

locale std_heap =
  fixes ops :: "'a heap_ops" and key :: "'a \<Rightarrow> 'k::linorder" and is_heap :: "'a list \<Rightarrow> bool"
  assumes heap_empty: "is_heap []"
    and heap_push: "is_heap xs \<Longrightarrow> is_heap (hp_push ops xs x) \<and> mset (hp_push ops xs x) = mset xs + {#x#}"
    and heap_pop: "is_heap xs \<Longrightarrow> xs \<noteq> []
      \<Longrightarrow> is_heap (hp_pop ops xs) \<and> mset (hp_pop ops xs) = mset xs - {#hd xs#}"
    and heap_front: "is_heap xs \<Longrightarrow> x \<in> set xs \<Longrightarrow> key x \<le> key (hd xs)"
begin

lemma push_size: "is_heap xs \<Longrightarrow> length (hp_push ops xs x) = Suc (length xs)"
  using heap_push [of xs x] by (metis size_mset size_add_mset add_mset_add_single)

lemma pop_size: "is_heap xs \<Longrightarrow> xs \<noteq> [] \<Longrightarrow> length (hp_pop ops xs) = length xs - 1"
  using heap_pop [of xs] by (metis size_mset size_Diff_singleton list.set_sel(1) set_mset_mset)

end

section \<open>A binary heap\<close>

definition parent :: "nat \<Rightarrow> nat" where
  "parent i = (i - 1) div 2"

definition exchange :: "'a list \<Rightarrow> nat \<Rightarrow> nat \<Rightarrow> 'a list" where
  "exchange zs a b = (zs[a := zs ! b])[b := zs ! a]"

lemma parent_less [termination_simp]: "i \<noteq> 0 \<Longrightarrow> parent i < i"
  by (simp add: parent_def)

fun sift_up :: "('a \<Rightarrow> 'a \<Rightarrow> bool) \<Rightarrow> 'a list \<Rightarrow> nat \<Rightarrow> 'a list" where
  "sift_up lt xs i =
     (if i \<noteq> 0 \<and> lt (xs ! parent i) (xs ! i) then sift_up lt (exchange xs i (parent i)) (parent i) else xs)"

declare sift_up.simps [simp del]

lemma exchange_same_length [simp, termination_simp]: "length (exchange zs a b) = length zs"
  unfolding exchange_def by simp

definition larger_child :: "('a \<Rightarrow> 'a \<Rightarrow> bool) \<Rightarrow> 'a list \<Rightarrow> nat \<Rightarrow> nat" where
  "larger_child lt xs i =
     (if 2 * i + 2 < length xs \<and> lt (xs ! (2 * i + 1)) (xs ! (2 * i + 2)) then 2 * i + 2 else 2 * i + 1)"

lemma larger_child_cases: "larger_child lt xs i = 2 * i + 1 \<or> larger_child lt xs i = 2 * i + 2"
  by (simp add: larger_child_def)

function sift_down :: "('a \<Rightarrow> 'a \<Rightarrow> bool) \<Rightarrow> 'a list \<Rightarrow> nat \<Rightarrow> 'a list" where
  "sift_down lt xs i =
     (if 2 * i + 1 < length xs \<and> lt (xs ! i) (xs ! larger_child lt xs i)
      then sift_down lt (exchange xs i (larger_child lt xs i)) (larger_child lt xs i) else xs)"
  by pat_completeness auto
termination
proof (relation "measure (\<lambda>(_, xs, i). length xs - i)", goal_cases)
  case (2 lt xs i)
  then show ?case
    using larger_child_cases [of lt xs i] by auto
qed simp

declare sift_down.simps [simp del]

definition push_heap :: "('a \<Rightarrow> 'a \<Rightarrow> bool) \<Rightarrow> 'a list \<Rightarrow> 'a \<Rightarrow> 'a list" where
  "push_heap lt xs x = sift_up lt (xs @ [x]) (length xs)"

definition pop_heap :: "('a \<Rightarrow> 'a \<Rightarrow> bool) \<Rightarrow> 'a list \<Rightarrow> 'a list" where
  "pop_heap lt xs = (if length xs \<le> 1 then [] else sift_down lt (butlast (xs[0 := last xs])) 0)"

definition binary_heap :: "('a \<Rightarrow> 'a \<Rightarrow> bool) \<Rightarrow> 'a heap_ops" where
  "binary_heap lt = \<lparr>hp_push = push_heap lt, hp_pop = pop_heap lt\<rparr>"

section \<open>The binary heap keeps the contract\<close>

lemma mset_exchange: "a < length zs \<Longrightarrow> b < length zs \<Longrightarrow> mset (exchange zs a b) = mset zs"
  unfolding exchange_def by (rule Multiset.mset_swap)

lemma exchange_nth:
  assumes "{a, b} \<subseteq> {..<length zs}"
  shows "exchange zs a b ! n = zs ! (if n = b then a else if n = a then b else n)"
  using assms by (cases "n = a"; cases "n = b") (simp_all add: exchange_def nth_list_update)

lemma mset_sift_up: "i < length xs \<Longrightarrow> mset (sift_up lt xs i) = mset xs"
proof (induction lt xs i rule: sift_up.induct)
  case (1 lt xs i)
  show ?case
  proof (cases "i \<noteq> 0 \<and> lt (xs ! parent i) (xs ! i)")
    case True
    then have "parent i < length xs"
      using 1(2) parent_less [of i] by simp
    then show ?thesis
      using 1 True by (simp add: sift_up.simps [of lt xs i] mset_exchange)
  qed (auto simp: sift_up.simps [of lt xs i])
qed

lemma mset_sift_down: "mset (sift_down lt xs i) = mset xs"
proof (induction lt xs i rule: sift_down.induct)
  case (1 lt xs i)
  show ?case
  proof (cases "2 * i + 1 < length xs \<and> lt (xs ! i) (xs ! larger_child lt xs i)")
    case True
    then have "i < length xs" "larger_child lt xs i < length xs"
      by (auto simp: larger_child_def)
    then show ?thesis
      using 1 True by (simp add: sift_down.simps [of lt xs i] mset_exchange)
  qed (auto simp: sift_down.simps [of lt xs i])
qed

text \<open>Heaps with one place out of order: upwards, or downwards.\<close>

definition heap_at :: "('a \<Rightarrow> 'k::linorder) \<Rightarrow> 'a list \<Rightarrow> nat \<Rightarrow> bool" where
  "heap_at key xs j \<longleftrightarrow> key (xs ! j) \<le> key (xs ! parent j)"

definition is_heap :: "('a \<Rightarrow> 'k::linorder) \<Rightarrow> 'a list \<Rightarrow> bool" where
  "is_heap key xs \<longleftrightarrow> (\<forall>j. 0 < j \<longrightarrow> j < length xs \<longrightarrow> heap_at key xs j)"

definition bridged :: "('a \<Rightarrow> 'k::linorder) \<Rightarrow> 'a list \<Rightarrow> nat \<Rightarrow> bool" where
  "bridged key xs i \<longleftrightarrow>
     (\<forall>j. 0 < i \<longrightarrow> 0 < j \<longrightarrow> j < length xs \<longrightarrow> parent j = i \<longrightarrow> key (xs ! j) \<le> key (xs ! parent i))"

definition heap_but_up :: "('a \<Rightarrow> 'k::linorder) \<Rightarrow> 'a list \<Rightarrow> nat \<Rightarrow> bool" where
  "heap_but_up key xs i \<longleftrightarrow> (\<forall>j. 0 < j \<longrightarrow> j < length xs \<longrightarrow> j \<noteq> i \<longrightarrow> heap_at key xs j) \<and> bridged key xs i"

definition heap_but_down :: "('a \<Rightarrow> 'k::linorder) \<Rightarrow> 'a list \<Rightarrow> nat \<Rightarrow> bool" where
  "heap_but_down key xs i \<longleftrightarrow>
     (\<forall>j. 0 < j \<longrightarrow> j < length xs \<longrightarrow> parent j \<noteq> i \<longrightarrow> heap_at key xs j) \<and> bridged key xs i"

lemma sift_up_heap:
  assumes "heap_but_up key xs i" "i < length xs"
  shows "is_heap key (sift_up (\<lambda>a b. key a < key b) xs i)"
  using assms
proof (induction "\<lambda>a b. key a < key b" xs i rule: sift_up.induct)
  case (1 xs i)
  let ?p = "parent i"
  show ?case
  proof (cases "i \<noteq> 0 \<and> key (xs ! ?p) < key (xs ! i)")
    case False
    then have "is_heap key xs"
      using 1(2) by (auto simp: is_heap_def heap_but_up_def heap_at_def not_less)
    then show ?thesis
      using False by (auto simp: sift_up.simps [of _ xs i])
  next
    case True
    have p: "?p < i" "?p < length xs"
      using True 1(3) parent_less [of i] by auto
    have nth: "exchange xs i ?p ! k = (if k = i then xs ! ?p else if k = ?p then xs ! i else xs ! k)" for k
      using exchange_nth [of i ?p xs k] 1(3) p by simp
    have old: "key (xs ! j) \<le> key (xs ! parent j)" if "0 < j" "j < length xs" "j \<noteq> i" for j
      using 1(2) that by (simp add: heap_but_up_def heap_at_def)
    have bridge: "key (xs ! j) \<le> key (xs ! ?p)" if "0 < j" "j < length xs" "parent j = i" for j
      using 1(2) that True by (simp add: heap_but_up_def bridged_def)
    have "heap_but_up key (exchange xs i ?p) ?p"
      unfolding heap_but_up_def bridged_def heap_at_def
    proof (intro conjI allI impI)
      fix j
      assume j: "0 < j" "j < length (exchange xs i ?p)" "j \<noteq> ?p"
      show "key (exchange xs i ?p ! j) \<le> key (exchange xs i ?p ! parent j)"
      proof (cases "j = i")
        case True
        then show ?thesis
          using nth p \<open>i \<noteq> 0 \<and> key (xs ! ?p) < key (xs ! i)\<close> by simp
      next
        case False
        have "parent j \<noteq> j"
          using j(1) parent_less [of j] by simp
        then show ?thesis
          using nth j False old [of j] bridge [of j] True p by (auto intro: order_trans less_imp_le)
      qed
    next
      fix j
      assume j: "0 < ?p" "0 < j" "j < length (exchange xs i ?p)" "parent j = ?p"
      have pp: "parent ?p < ?p" "parent ?p \<noteq> i"
        using j(1) p(1) parent_less [of ?p] by auto
      have up: "key (xs ! ?p) \<le> key (xs ! parent ?p)"
        using old [of ?p] j(1) p by simp
      have "j \<noteq> ?p"
        using j(2,4) parent_less [of j] by auto
      then show "key (exchange xs i ?p ! j) \<le> key (exchange xs i ?p ! parent ?p)"
        using nth pp up old [of j] j by (auto intro: order_trans)
    qed
    then show ?thesis
      using 1(1) True p by (simp add: sift_up.simps [of _ xs i])
  qed
qed

lemma parent_children: "parent j = i \<Longrightarrow> 0 < j \<Longrightarrow> j = 2 * i + 1 \<or> j = 2 * i + 2"
  by (auto simp: parent_def)

lemma sift_down_heap:
  assumes "heap_but_down key xs i" "i < length xs"
  shows "is_heap key (sift_down (\<lambda>a b. key a < key b) xs i)"
  using assms
proof (induction "\<lambda>a b. key a < key b" xs i rule: sift_down.induct)
  case (1 xs i)
  let ?lt = "\<lambda>a b. key a < key b"
  let ?c = "larger_child ?lt xs i"
  have best: "key (xs ! j) \<le> key (xs ! ?c)" if "parent j = i" "0 < j" "j < length xs" for j
    using parent_children [OF that(1,2)] that(3) by (auto simp: larger_child_def)
  have pc: "parent ?c = i" "i < ?c" "0 < ?c"
    using larger_child_cases [of ?lt xs i] by (auto simp: parent_def)
  show ?case
  proof (cases "2 * i + 1 < length xs \<and> key (xs ! i) < key (xs ! ?c)")
    case False
    have "heap_at key xs j" if "0 < j" "j < length xs" for j
    proof (cases "parent j = i")
      case True
      then have "2 * i + 1 < length xs"
        using parent_children [OF True that(1)] that(2) by auto
      then show ?thesis
        using False best [OF True that] True by (auto simp: heap_at_def not_less intro: order_trans)
    qed (use 1(2) that in \<open>simp add: heap_but_down_def\<close>)
    then show ?thesis
      using False by (auto simp: is_heap_def sift_down.simps [of _ xs i])
  next
    case True
    have c: "?c < length xs"
      using True by (auto simp: larger_child_def)
    have nth: "exchange xs i ?c ! k = (if k = i then xs ! ?c else if k = ?c then xs ! i else xs ! k)" for k
      using exchange_nth [of i ?c xs k] 1(3) c by simp
    have old: "key (xs ! j) \<le> key (xs ! parent j)" if "0 < j" "j < length xs" "parent j \<noteq> i" for j
      using 1(2) that by (simp add: heap_but_down_def heap_at_def)
    have bridge: "key (xs ! j) \<le> key (xs ! parent i)" if "0 < i" "0 < j" "j < length xs" "parent j = i" for j
      using 1(2) that by (simp add: heap_but_down_def bridged_def)
    have "heap_but_down key (exchange xs i ?c) ?c"
      unfolding heap_but_down_def bridged_def heap_at_def
    proof (intro conjI allI impI)
      fix j
      assume j: "0 < j" "j < length (exchange xs i ?c)" "parent j \<noteq> ?c"
      have "parent j < j"
        using j(1) parent_less by simp
      then show "key (exchange xs i ?c ! j) \<le> key (exchange xs i ?c ! parent j)"
        using nth j old [of j] best [of j] bridge [OF _ pc(3) c pc(1)] pc True
        by (cases "parent j = i"; cases "j = i") auto
    next
      fix j
      assume j: "0 < ?c" "0 < j" "j < length (exchange xs i ?c)" "parent j = ?c"
      have "?c < j"
        using j(2,4) parent_less [of j] by simp
      then show "key (exchange xs i ?c ! j) \<le> key (exchange xs i ?c ! parent ?c)"
        using nth pc old [of j] j by auto
    qed
    then show ?thesis
      using 1(1) True c by (simp add: sift_down.simps [of _ xs i])
  qed
qed

lemma is_heap_front:
  assumes "is_heap key xs" "i < length xs"
  shows "key (xs ! i) \<le> key (xs ! 0)"
  using assms(2)
proof (induction i rule: less_induct)
  case (less i)
  show ?case
  proof (cases "i = 0")
    case False
    then have "parent i < i" "key (xs ! i) \<le> key (xs ! parent i)"
      using assms(1) less(2) parent_less by (auto simp: is_heap_def heap_at_def)
    then show ?thesis
      using less by (metis order_trans less_trans)
  qed simp
qed

lemma push_heap_ok:
  assumes "is_heap key xs"
  shows "is_heap key (push_heap (\<lambda>a b. key a < key b) xs x)
     \<and> mset (push_heap (\<lambda>a b. key a < key b) xs x) = mset xs + {#x#}"
proof -
  have "heap_but_up key (xs @ [x]) (length xs)"
    unfolding heap_but_up_def bridged_def heap_at_def
  proof (intro conjI allI impI)
    fix j
    assume j: "0 < j" "j < length (xs @ [x])" "j \<noteq> length xs"
    then show "key ((xs @ [x]) ! j) \<le> key ((xs @ [x]) ! parent j)"
      using assms parent_less [of j] by (auto simp: is_heap_def heap_at_def nth_append)
  next
    fix j
    assume "0 < j" "j < length (xs @ [x])" "parent j = length xs"
    then show "key ((xs @ [x]) ! j) \<le> key ((xs @ [x]) ! parent (length xs))"
      using parent_less [of j] by simp
  qed
  then show ?thesis
    using sift_up_heap [of key "xs @ [x]" "length xs"] by (simp add: push_heap_def mset_sift_up)
qed

lemma pop_heap_ok:
  assumes "is_heap key xs" "xs \<noteq> []"
  shows "is_heap key (pop_heap (\<lambda>a b. key a < key b) xs)
     \<and> mset (pop_heap (\<lambda>a b. key a < key b) xs) = mset xs - {#hd xs#}"
proof (cases "length xs \<le> 1")
  case True
  then obtain x where "xs = [x]"
    using assms(2) by (cases xs) auto
  then show ?thesis
    by (simp add: pop_heap_def is_heap_def)
next
  case False
  let ?ys = "butlast (xs[0 := last xs])"
  have len: "length ?ys = length xs - 1"
    by simp
  have nth: "?ys ! j = xs ! j" if "0 < j" "j < length ?ys" for j
    using that by (simp add: nth_butlast)
  have "heap_but_down key ?ys 0"
    unfolding heap_but_down_def bridged_def heap_at_def
  proof (intro conjI allI impI)
    fix j
    assume j: "0 < j" "j < length ?ys" "parent j \<noteq> 0"
    then have "parent j < length ?ys" "0 < parent j"
      using parent_less [of j] by auto
    then show "key (?ys ! j) \<le> key (?ys ! parent j)"
      using nth j assms(1) by (simp add: is_heap_def heap_at_def)
  qed simp
  then have h: "is_heap key (pop_heap (\<lambda>a b. key a < key b) xs)"
    using False sift_down_heap [of key ?ys 0] by (simp add: pop_heap_def)
  obtain a zs b where xs: "xs = a # zs @ [b]"
    using False assms(2) by (metis One_nat_def butlast.simps(2) append_butlast_last_id length_Cons le_numeral_extra(4)
        list.size(3) neq_Nil_conv)
  then have "?ys = b # zs"
    by (simp add: butlast_append)
  then have "mset ?ys = mset xs - {#hd xs#}"
    using xs by simp
  then show ?thesis
    using h False by (simp add: pop_heap_def mset_sift_down)
qed

text \<open>The contract for every comparison that goes by a key.\<close>

interpretation binary_heap: std_heap "binary_heap (\<lambda>a b. key a < key b)" key "is_heap key"
  for key :: "'a \<Rightarrow> 'k::linorder"
proof
  show "is_heap key []"
    by (simp add: is_heap_def)
next
  fix xs x
  assume "is_heap key xs"
  then show "is_heap key (hp_push (binary_heap (\<lambda>a b. key a < key b)) xs x)
      \<and> mset (hp_push (binary_heap (\<lambda>a b. key a < key b)) xs x) = mset xs + {#x#}"
    using push_heap_ok by (simp add: binary_heap_def)
next
  fix xs :: "'a list"
  assume "is_heap key xs" "xs \<noteq> []"
  then show "is_heap key (hp_pop (binary_heap (\<lambda>a b. key a < key b)) xs)
      \<and> mset (hp_pop (binary_heap (\<lambda>a b. key a < key b)) xs) = mset xs - {#hd xs#}"
    using pop_heap_ok by (simp add: binary_heap_def)
next
  fix xs x
  assume h: "is_heap key xs" and x: "x \<in> set xs"
  then obtain i where "i < length xs" "x = xs ! i"
    by (auto simp: in_set_conv_nth)
  then show "key x \<le> key (hd xs)"
    using is_heap_front [OF h] hd_conv_nth [of xs] by (cases "xs = []") auto
qed

end
