(* ===== verification/Vector_Top_K.thy ===== *)
theory Vector_Top_K
  imports Json Std_Heap "HOL-Library.Product_Lexorder"
begin

text \<open>
  The candidate collector of a vector search (\<open>engine/include/vector_top_k.hpp\<close>): a heap of at most \<open>k\<close>
  documents whose front is the worst one kept, under a limit on their total size.  Scores that are not
  finite are dropped before anything else, so the heap holds rationals.  The heap operations are those of
  the standard library, passed as \<open>heap_ops\<close>; the theorems hold for every implementation of them that
  keeps the contract \<open>std_heap\<close>.
\<close>

section \<open>Model\<close>

record tk_entry =
  te_score :: rat
  te_id :: string
  te_doc :: json
  te_bytes :: u64

record top_k =
  tk_k :: nat
  tk_maxBytes :: u64
  tk_bytes :: u64
  tk_heap :: "tk_entry list"

definition new_top_k :: "nat \<Rightarrow> u64 \<Rightarrow> top_k" where
  "new_top_k k maxDocumentBytes = \<lparr>tk_k = k, tk_maxBytes = maxDocumentBytes, tk_bytes = 0, tk_heap = []\<rparr>"

definition better :: "tk_entry \<Rightarrow> tk_entry \<Rightarrow> bool" where
  "better a b \<longleftrightarrow> te_score b < te_score a \<or> (te_score a = te_score b \<and> te_id a < te_id b)"

text \<open>\<open>None\<close> is the exception \<open>vector_candidate_bytes_exceeded\<close>, raised before the collector is changed.\<close>

definition topk_consider ::
    "tk_entry heap_ops \<Rightarrow> json_codec \<Rightarrow> dbl \<Rightarrow> string \<Rightarrow> json \<Rightarrow> top_k \<Rightarrow> top_k option" where
  "topk_consider ops c score ident doc t =
     (case score of
        Fin s \<Rightarrow>
          (if tk_k t = 0 then Some t
           else
             let candidate = \<lparr>te_score = s, te_id = ident, te_doc = doc, te_bytes = of_nat (length (jdump c doc))\<rparr>;
                 full = (length (tk_heap t) = tk_k t)
             in if full \<and> \<not> better candidate (hd (tk_heap t)) then Some t
                else
                  let removed = (if full then te_bytes (hd (tk_heap t)) else 0)
                  in if tk_maxBytes t < te_bytes candidate
                        \<or> tk_maxBytes t - te_bytes candidate < tk_bytes t - removed
                     then None
                     else
                       let kept = (if full then hp_pop ops (tk_heap t) else tk_heap t)
                       in Some (t\<lparr>tk_bytes := tk_bytes t - removed + te_bytes candidate,
                                  tk_heap := hp_push ops kept candidate\<rparr>))
      | _ \<Rightarrow> Some t)"

definition rank :: "tk_entry \<Rightarrow> rat \<times> string" where
  "rank e = (- te_score e, te_id e)"

text \<open>\<open>std::sort\<close> by \<open>better\<close>; then each document gets its score, which throws when it is not an object.\<close>

definition topk_finish :: "top_k \<Rightarrow> json list option" where
  "topk_finish t = those (map (\<lambda>e. jset (te_doc e) ''score'' (JFloat (Fin (te_score e)))) (sort_key rank (tk_heap t)))"

definition topk_reset :: "top_k \<Rightarrow> top_k" where
  "topk_reset t = t\<lparr>tk_heap := [], tk_bytes := 0\<rparr>"

fun consider_all ::
    "tk_entry heap_ops \<Rightarrow> json_codec \<Rightarrow> (dbl \<times> string \<times> json) list \<Rightarrow> top_k \<Rightarrow> top_k option" where
  "consider_all ops c [] t = Some t"
| "consider_all ops c ((score, ident, doc) # cs) t =
     (case topk_consider ops c score ident doc t of None \<Rightarrow> None | Some t1 \<Rightarrow> consider_all ops c cs t1)"

section \<open>The reference\<close>

text \<open>The finite candidates, best first, the first \<open>k\<close> of them.\<close>

fun entries_of :: "json_codec \<Rightarrow> (dbl \<times> string \<times> json) list \<Rightarrow> tk_entry list" where
  "entries_of c [] = []"
| "entries_of c ((score, ident, doc) # cs) =
     (case score of
        Fin s \<Rightarrow> \<lparr>te_score = s, te_id = ident, te_doc = doc, te_bytes = of_nat (length (jdump c doc))\<rparr> # entries_of c cs
      | _ \<Rightarrow> entries_of c cs)"

definition best_k :: "json_codec \<Rightarrow> nat \<Rightarrow> (dbl \<times> string \<times> json) list \<Rightarrow> tk_entry list" where
  "best_k c k cs = take k (sort_key rank (entries_of c cs))"

lemma better_rank: "better a b \<longleftrightarrow> rank a < rank b"
  by (auto simp: better_def rank_def less_prod_def')

section \<open>The invariant\<close>

text \<open>What was considered splits into what is kept and what is left out, nothing left out being better than
  anything kept; the byte counter is the size of what is kept.\<close>

definition keeps_best :: "tk_entry list \<Rightarrow> tk_entry multiset \<Rightarrow> top_k \<Rightarrow> bool" where
  "keeps_best seen out t \<longleftrightarrow> mset seen = mset (tk_heap t) + out
     \<and> length (tk_heap t) \<le> tk_k t \<and> (out \<noteq> {#} \<longrightarrow> length (tk_heap t) = tk_k t)
     \<and> (\<forall>e\<in>set (tk_heap t). \<forall>f\<in>#out. rank e \<le> rank f)"

definition bytes_kept :: "top_k \<Rightarrow> nat" where
  "bytes_kept t = sum_list (map (unat \<circ> te_bytes) (tk_heap t))"

definition bytes_ok :: "top_k \<Rightarrow> bool" where
  "bytes_ok t \<longleftrightarrow> unat (tk_bytes t) = bytes_kept t \<and> tk_bytes t \<le> tk_maxBytes t"

lemma sum_list_mset: "mset xs = mset ys \<Longrightarrow> sum_list (map f xs) = sum_list (map f (ys :: 'a list) :: nat list)"
  by (metis mset_map sum_mset_sum_list)

text \<open>The arithmetic of the size check: with the counter in step, nothing wraps.\<close>

lemma bytes_step:
  assumes "unat b = tot" "b \<le> limit" "unat r \<le> tot" "\<not> (limit < c \<or> limit - c < b - (r :: u64))"
  shows "unat (b - r + c) = tot - unat r + unat c \<and> b - r + c \<le> limit"
proof -
  have 1: "unat (b - r) = tot - unat r"
    using assms(1,3) by (simp add: unat_sub word_le_nat_alt)
  have 2: "unat (limit - c) = unat limit - unat c" "unat c \<le> unat limit"
    using assms(4) by (auto simp: unat_sub word_le_nat_alt not_less)
  have 3: "tot - unat r + unat c \<le> unat limit"
    using assms(4) 1 2 by (auto simp: not_less word_le_nat_alt)
  then have "unat (b - r + c) = tot - unat r + unat c"
    using 1 unsigned_less [of limit, where 'a = nat] by (simp add: unat_word_ariths)
  then show ?thesis
    using 3 by (simp add: word_le_nat_alt)
qed

definition collecting :: "(tk_entry list \<Rightarrow> bool) \<Rightarrow> tk_entry list \<Rightarrow> top_k \<Rightarrow> bool" where
  "collecting heap_ok seen t \<longleftrightarrow> heap_ok (tk_heap t) \<and> bytes_ok t \<and> (\<exists>out. keeps_best seen out t)"

text \<open>The collector over any implementation of the heap.\<close>

locale collector = std_heap ops rank_of heap_ok
  for ops :: "tk_entry heap_ops" and rank_of :: "tk_entry \<Rightarrow> rat \<times> string" and heap_ok :: "tk_entry list \<Rightarrow> bool" +
  assumes worst_first: "rank_of = rank"
begin

lemma collecting_new: "collecting heap_ok [] (new_top_k k limit)"
  using heap_empty
  by (auto simp: collecting_def new_top_k_def bytes_ok_def bytes_kept_def keeps_best_def)

lemma front_worst: "heap_ok xs \<Longrightarrow> x \<in> set xs \<Longrightarrow> rank x \<le> rank (hd xs)"
  using heap_front by (simp add: worst_first)

lemma add_step:
  assumes ok: "heap_ok (tk_heap t)" "bytes_ok t" "keeps_best seen out t" and room: "length (tk_heap t) < tk_k t"
    and fits: "\<not> (tk_maxBytes t < te_bytes e \<or> tk_maxBytes t - te_bytes e < tk_bytes t)"
  shows "collecting heap_ok (seen @ [e]) (t\<lparr>tk_bytes := tk_bytes t + te_bytes e, tk_heap := hp_push ops (tk_heap t) e\<rparr>)"
proof -
  note p = heap_push [OF ok(1), of e]
  have out: "out = {#}"
    using ok(3) room by (auto simp: keeps_best_def)
  have sz: "length (hp_push ops (tk_heap t) e) = Suc (length (tk_heap t))"
    by (rule push_size [OF ok(1)])
  have "sum_list (map (unat \<circ> te_bytes) (hp_push ops (tk_heap t) e)) = bytes_kept t + unat (te_bytes e)"
    using sum_list_mset [of "hp_push ops (tk_heap t) e" "tk_heap t @ [e]"] p by (simp add: bytes_kept_def)
  then have "bytes_ok (t\<lparr>tk_bytes := tk_bytes t + te_bytes e, tk_heap := hp_push ops (tk_heap t) e\<rparr>)"
    using bytes_step [of "tk_bytes t" "bytes_kept t" "tk_maxBytes t" 0 "te_bytes e"] ok(2) fits
    by (simp add: bytes_ok_def bytes_kept_def)
  moreover have "keeps_best (seen @ [e]) {#} (t\<lparr>tk_bytes := tk_bytes t + te_bytes e, tk_heap := hp_push ops (tk_heap t) e\<rparr>)"
    using ok(3) out p sz room by (simp add: keeps_best_def)
  ultimately show ?thesis
    using p by (auto simp: collecting_def)
qed

lemma skip_step:
  assumes "keeps_best seen out t" "length (tk_heap t) = tk_k t" "heap_ok (tk_heap t)"
    and "tk_k t \<noteq> 0 \<Longrightarrow> \<not> better e (hd (tk_heap t))"
  shows "keeps_best (seen @ [e]) (add_mset e out) t"
proof -
  have "rank x \<le> rank e" if "x \<in> set (tk_heap t)" for x
  proof -
    have "tk_k t \<noteq> 0"
      using that assms(2) by (cases "tk_heap t") auto
    then show ?thesis
      using front_worst [OF assms(3) that] assms(4) by (simp add: better_rank not_less)
  qed
  then show ?thesis
    using assms(1,2) by (auto simp: keeps_best_def)
qed

lemma replace_step:
  assumes ok: "heap_ok (tk_heap t)" "bytes_ok t" "keeps_best seen out t" and full: "length (tk_heap t) = tk_k t" "tk_k t \<noteq> 0"
    and b: "better e (hd (tk_heap t))"
    and fits: "\<not> (tk_maxBytes t < te_bytes e \<or> tk_maxBytes t - te_bytes e < tk_bytes t - te_bytes (hd (tk_heap t)))"
  shows "collecting heap_ok (seen @ [e])
     (t\<lparr>tk_bytes := tk_bytes t - te_bytes (hd (tk_heap t)) + te_bytes e,
        tk_heap := hp_push ops (hp_pop ops (tk_heap t)) e\<rparr>)" (is "collecting heap_ok _ ?t")
proof -
  let ?w = "hd (tk_heap t)"
  have ne: "tk_heap t \<noteq> []"
    using full by auto
  note p = heap_pop [OF ok(1) ne]
  have w: "?w \<in> set (tk_heap t)"
    using ne by simp
  have ms: "mset (hp_push ops (hp_pop ops (tk_heap t)) e) = mset (tk_heap t) - {#?w#} + {#e#}"
    using heap_push [of "hp_pop ops (tk_heap t)" e] p by simp
  have sz: "length (hp_push ops (hp_pop ops (tk_heap t)) e) = tk_k t"
    using push_size [of "hp_pop ops (tk_heap t)" e] pop_size [OF ok(1) ne] p full by simp
  have tl: "mset (tl (tk_heap t) @ [e]) = mset (tk_heap t) - {#?w#} + {#e#}"
    using ne by (cases "tk_heap t") auto
  have sums: "bytes_kept t = unat (te_bytes ?w) + sum_list (map (unat \<circ> te_bytes) (tl (tk_heap t)))"
    using ne by (cases "tk_heap t") (auto simp: bytes_kept_def)
  have "sum_list (map (unat \<circ> te_bytes) (hp_push ops (hp_pop ops (tk_heap t)) e))
      = bytes_kept t - unat (te_bytes ?w) + unat (te_bytes e)"
    using sum_list_mset [of "hp_push ops (hp_pop ops (tk_heap t)) e" "tl (tk_heap t) @ [e]"] ms tl sums by simp
  then have "bytes_ok ?t"
    using bytes_step [of "tk_bytes t" "bytes_kept t" "tk_maxBytes t" "te_bytes ?w" "te_bytes e"] ok(2) fits sums
    by (simp add: bytes_ok_def bytes_kept_def)
  moreover have "keeps_best (seen @ [e]) (add_mset ?w out) ?t"
  proof -
    have seen: "mset seen = mset (tk_heap t) + out"
      using ok(3) by (simp add: keeps_best_def)
    have set: "set (hp_push ops (hp_pop ops (tk_heap t)) e) \<subseteq> insert e (set (tk_heap t))"
      using ms by (metis (no_types, lifting) add_mset_add_single in_diffD set_mset_add_mset_insert set_mset_mset
          insert_iff subsetI)
    have e: "rank e \<le> rank ?w"
      using b by (simp add: better_rank)
    have "rank x \<le> rank y" if "x \<in> insert e (set (tk_heap t))" "y \<in># add_mset ?w out" for x y
    proof -
      have x: "rank x \<le> rank ?w"
        using that(1) e front_worst [OF ok(1)] by auto
      show ?thesis
        using that(2) x ok(3) w by (auto simp: keeps_best_def intro: order_trans)
    qed
    then have "\<forall>x\<in>set (tk_heap ?t). \<forall>y\<in>#add_mset ?w out. rank x \<le> rank y"
      using set by auto
    moreover have "mset (seen @ [e]) = mset (tk_heap ?t) + add_mset ?w out"
      using ms seen w by (simp add: add_mset_remove_trivial_eq)
    ultimately show ?thesis
      using sz by (simp add: keeps_best_def)
  qed
  moreover have "heap_ok (tk_heap ?t)"
    using heap_push [of "hp_pop ops (tk_heap t)" e] p by simp
  ultimately show ?thesis
    by (auto simp: collecting_def)
qed

lemma consider_step:
  assumes "collecting heap_ok seen t" "topk_consider ops c score ident doc t = Some t'"
  shows "collecting heap_ok (seen @ entries_of c [(score, ident, doc)]) t' \<and> tk_k t' = tk_k t"
proof (cases score)
  case (Fin s)
  let ?e = "\<lparr>te_score = s, te_id = ident, te_doc = doc, te_bytes = of_nat (length (jdump c doc))\<rparr>"
  obtain out where ok: "heap_ok (tk_heap t)" "bytes_ok t" "keeps_best seen out t"
    using assms(1) by (auto simp: collecting_def)
  have len: "length (tk_heap t) \<le> tk_k t"
    using ok(3) by (simp add: keeps_best_def)
  show ?thesis
  proof (cases "length (tk_heap t) = tk_k t \<and> (tk_k t \<noteq> 0 \<longrightarrow> \<not> better ?e (hd (tk_heap t)))")
    case True
    then have "t' = t"
      using assms(2) Fin by (auto simp: topk_consider_def Let_def split: if_splits)
    then show ?thesis
      using skip_step [OF ok(3) _ ok(1), of ?e] True ok Fin by (auto simp: collecting_def)
  next
    case False
    show ?thesis
    proof (cases "length (tk_heap t) = tk_k t")
      case True
      then show ?thesis
        using replace_step [OF ok True, of ?e] False assms(2) Fin
        by (auto simp: topk_consider_def Let_def split: if_splits)
    next
      case False
      then show ?thesis
        using add_step [OF ok, of ?e] len assms(2) Fin
        by (auto simp: topk_consider_def Let_def split: if_splits)
    qed
  qed
qed (use assms in \<open>simp_all add: topk_consider_def\<close>)

lemma consider_all_steps:
  assumes "consider_all ops c cs t = Some t'" "collecting heap_ok seen t"
  shows "collecting heap_ok (seen @ entries_of c cs) t' \<and> tk_k t' = tk_k t"
  using assms
proof (induction cs arbitrary: seen t)
  case (Cons x cs)
  obtain score ident doc where x: "x = (score, ident, doc)"
    by (cases x)
  obtain t1 where t1: "topk_consider ops c score ident doc t = Some t1" "consider_all ops c cs t1 = Some t'"
    using Cons.prems(1) by (auto simp: x split: option.splits)
  have step: "collecting heap_ok (seen @ entries_of c [(score, ident, doc)]) t1" "tk_k t1 = tk_k t"
    using consider_step [OF Cons.prems(2) t1(1)] by simp_all
  have "entries_of c (x # cs) = entries_of c [(score, ident, doc)] @ entries_of c cs"
    by (cases score) (simp_all add: x)
  then show ?case
    using Cons.IH [OF t1(2) step(1)] step(2) by simp
qed simp

text \<open>What is kept at the end, in order, is the reference.\<close>

lemma kept_is_best:
  assumes "consider_all ops c cs (new_top_k k limit) = Some t" "distinct (map te_id (entries_of c cs))"
  shows "sort_key rank (tk_heap t) = best_k c k cs \<and> bytes_ok t \<and> length (tk_heap t) \<le> k"
proof -
  let ?es = "entries_of c cs"
  have fin: "collecting heap_ok ?es t" "tk_k t = k"
    using consider_all_steps [OF assms(1) collecting_new] by (simp_all add: new_top_k_def)
  then obtain out where kb: "keeps_best ?es out t" and b: "bytes_ok t"
    by (auto simp: collecting_def)
  obtain rest where rest: "out = mset rest"
    by (metis ex_mset)
  let ?ys = "sort_key rank (tk_heap t) @ sort_key rank rest"
  have ms: "mset ?es = mset ?ys"
    using kb rest by (simp add: keeps_best_def)
  have "inj_on te_id (set ?es)"
    using assms(2) by (simp add: distinct_map)
  then have inj: "inj_on rank (set ?es)"
    by (auto simp: inj_on_def rank_def)
  have "sorted (map rank ?ys)"
    using kb rest by (auto simp: keeps_best_def sorted_append)
  then have "sort_key rank ?es = ?ys"
    by (rule sort_key_inj_key_eq [OF ms inj])
  then have "best_k c k cs = take k ?ys"
    by (simp add: best_k_def)
  also have "\<dots> = sort_key rank (tk_heap t)"
    using kb rest fin(2) by (auto simp: keeps_best_def)
  finally show ?thesis
    using b kb fin(2) by (simp add: keeps_best_def)
qed

end

text \<open>The comparison of the code goes by the rank, so the binary heap of the library serves it.\<close>

lemma better_less: "better = (\<lambda>a b. rank a < rank b)"
  by (intro ext) (rule better_rank)

interpretation topk: collector "binary_heap better" rank "is_heap rank"
  unfolding better_less by unfold_locales simp

end
