(* ===== verification/Vector_Budget.thy ===== *)
theory Vector_Budget
  imports Prelude
begin

text \<open>
  The memory budget of the vector indexes (\<open>engine/include/vector_memory_budget.hpp\<close>).  The reservation is
  a compare-and-swap loop on an atomic counter, run by many threads at once: each load, exchange and store
  is a step of its own.  The allocator charges a local and an optional shared budget and is modelled call
  by call.
\<close>

section \<open>One call at a time\<close>

record budget =
  bg_limit :: u64
  bg_used :: u64
  bg_peak :: u64

definition new_budget :: "u64 \<Rightarrow> budget" where
  "new_budget limit = \<lparr>bg_limit = limit, bg_used = 0, bg_peak = 0\<rparr>"

definition reserve :: "u64 \<Rightarrow> budget \<Rightarrow> budget \<times> bool" where
  "reserve bytes b =
     (if bytes \<le> bg_limit b - bg_used b
      then (b\<lparr>bg_used := bg_used b + bytes, bg_peak := max (bg_peak b) (bg_used b + bytes)\<rparr>, True)
      else (b, False))"

definition release :: "u64 \<Rightarrow> budget \<Rightarrow> budget" where
  "release bytes b = b\<lparr>bg_used := bg_used b - bytes\<rparr>"

record budget_resource =
  br_local :: budget
  br_shared :: "budget option"

text \<open>\<open>do_allocate\<close>: at least one byte is charged to both budgets, and given back when the shared budget
  or the allocator itself refuses.  False is the exception.\<close>

definition do_allocate :: "bool \<Rightarrow> u64 \<Rightarrow> budget_resource \<Rightarrow> budget_resource \<times> bool" where
  "do_allocate allocator_ok bytes r =
     (let charged = max bytes 1
      in case reserve charged (br_local r) of
           (l1, False) \<Rightarrow> (r, False)
         | (l1, True) \<Rightarrow>
            (case br_shared r of
               None \<Rightarrow> if allocator_ok then (r\<lparr>br_local := l1\<rparr>, True)
                       else (r\<lparr>br_local := release charged l1\<rparr>, False)
             | Some s \<Rightarrow>
                (case reserve charged s of
                   (s1, False) \<Rightarrow> (r\<lparr>br_local := release charged l1\<rparr>, False)
                 | (s1, True) \<Rightarrow>
                    if allocator_ok then (r\<lparr>br_local := l1, br_shared := Some s1\<rparr>, True)
                    else (r\<lparr>br_local := release charged l1, br_shared := Some (release charged s1)\<rparr>, False))))"

definition do_deallocate :: "u64 \<Rightarrow> budget_resource \<Rightarrow> budget_resource" where
  "do_deallocate bytes r =
     (let charged = max bytes 1
      in r\<lparr>br_local := release charged (br_local r), br_shared := map_option (release charged) (br_shared r)\<rparr>)"

section \<open>Threads\<close>

text \<open>Where a thread is in \<open>reserve\<close>: outside, before the loop test with the value of \<open>used_\<close> it knows, after
  the successful exchange, and in the loop that raises the peak.\<close>

datatype reserve_pc = Outside | Trying u64 u64 | Granted u64 | Raising u64 u64

text \<open>The counter, the threads, and two ghosts: the bytes granted and not released, and their maximum.\<close>

record budget_system =
  bs_budget :: budget
  bs_pc :: "nat \<Rightarrow> reserve_pc"
  bs_held :: nat
  bs_high :: nat

inductive budget_step :: "budget_system \<Rightarrow> budget_system \<Rightarrow> bool" where
  call:
    "bs_pc s t = Outside
     \<Longrightarrow> budget_step s (s\<lparr>bs_pc := (bs_pc s)(t := Trying bytes (bg_used (bs_budget s)))\<rparr>)"
| refuse:
    "bs_pc s t = Trying bytes used \<Longrightarrow> \<not> bytes \<le> bg_limit (bs_budget s) - used
     \<Longrightarrow> budget_step s (s\<lparr>bs_pc := (bs_pc s)(t := Outside)\<rparr>)"
| retry:
    "bs_pc s t = Trying bytes used \<Longrightarrow> bytes \<le> bg_limit (bs_budget s) - used
     \<Longrightarrow> budget_step s (s\<lparr>bs_pc := (bs_pc s)(t := Trying bytes (bg_used (bs_budget s)))\<rparr>)"
| grant:
    "bs_pc s t = Trying bytes used \<Longrightarrow> bytes \<le> bg_limit (bs_budget s) - used \<Longrightarrow> bg_used (bs_budget s) = used
     \<Longrightarrow> budget_step s
          (s\<lparr>bs_budget := (bs_budget s)\<lparr>bg_used := used + bytes\<rparr>, bs_pc := (bs_pc s)(t := Granted (used + bytes)),
             bs_held := bs_held s + unat bytes, bs_high := max (bs_high s) (bs_held s + unat bytes)\<rparr>)"
| load_peak:
    "bs_pc s t = Granted n
     \<Longrightarrow> budget_step s (s\<lparr>bs_pc := (bs_pc s)(t := Raising n (bg_peak (bs_budget s)))\<rparr>)"
| reload_peak:
    "bs_pc s t = Raising n p \<Longrightarrow> p < n
     \<Longrightarrow> budget_step s (s\<lparr>bs_pc := (bs_pc s)(t := Raising n (bg_peak (bs_budget s)))\<rparr>)"
| raise_peak:
    "bs_pc s t = Raising n p \<Longrightarrow> p < n \<Longrightarrow> bg_peak (bs_budget s) = p
     \<Longrightarrow> budget_step s
          (s\<lparr>bs_budget := (bs_budget s)\<lparr>bg_peak := n\<rparr>, bs_pc := (bs_pc s)(t := Outside)\<rparr>)"
| leave:
    "bs_pc s t = Raising n p \<Longrightarrow> \<not> p < n \<Longrightarrow> budget_step s (s\<lparr>bs_pc := (bs_pc s)(t := Outside)\<rparr>)"
| give_back:
    "unat bytes \<le> bs_held s
     \<Longrightarrow> budget_step s
          (s\<lparr>bs_budget := release bytes (bs_budget s), bs_held := bs_held s - unat bytes\<rparr>)"

definition budget_start :: "u64 \<Rightarrow> budget_system" where
  "budget_start limit = \<lparr>bs_budget = new_budget limit, bs_pc = (\<lambda>_. Outside), bs_held = 0, bs_high = 0\<rparr>"

inductive budget_reachable :: "u64 \<Rightarrow> budget_system \<Rightarrow> bool" for limit where
  start: "budget_reachable limit (budget_start limit)"
| step: "budget_reachable limit s \<Longrightarrow> budget_step s s' \<Longrightarrow> budget_reachable limit s'"

section \<open>The invariant\<close>

definition peak_covered :: "budget_system \<Rightarrow> bool" where
  "peak_covered s \<longleftrightarrow> bs_high s \<le> unat (bg_peak (bs_budget s))
     \<or> (\<exists>t n. (bs_pc s t = Granted n \<or> (\<exists>p. bs_pc s t = Raising n p)) \<and> bs_high s \<le> unat n)"

definition budget_inv :: "u64 \<Rightarrow> budget_system \<Rightarrow> bool" where
  "budget_inv limit s \<longleftrightarrow> bg_limit (bs_budget s) = limit
     \<and> unat (bg_used (bs_budget s)) = bs_held s \<and> bs_held s \<le> unat limit
     \<and> (\<forall>t bytes used. bs_pc s t = Trying bytes used \<longrightarrow> used \<le> limit)
     \<and> (\<forall>t n. bs_pc s t = Granted n \<longrightarrow> n \<le> limit)
     \<and> (\<forall>t n p. bs_pc s t = Raising n p \<longrightarrow> n \<le> limit \<and> p \<le> bg_peak (bs_budget s))
     \<and> bg_peak (bs_budget s) \<le> limit \<and> peak_covered s"

text \<open>The test of the loop rules out both an underflow of the difference and an overflow of the sum.\<close>

lemma reserve_no_overflow:
  assumes "used \<le> limit" "bytes \<le> limit - used"
  shows "unat (used + bytes) = unat used + unat bytes" "unat used + unat bytes \<le> unat (limit :: u64)"
proof -
  have "unat (limit - used) = unat limit - unat used"
    using assms(1) by (simp add: unat_sub word_le_nat_alt)
  then show b: "unat used + unat bytes \<le> unat limit"
    using assms by (simp add: word_le_nat_alt)
  then show "unat (used + bytes) = unat used + unat bytes"
    using unsigned_less [of limit, where 'a = nat] by (simp add: unat_word_ariths)
qed

lemma peak_covered_pc:
  assumes "peak_covered s" "bs_pc s t = pc"
    and "\<And>n p. pc = Raising n p \<Longrightarrow> n \<le> bg_peak b' \<or> (\<exists>p'. pc' = Raising n p')"
    and "\<And>n. pc = Granted n \<Longrightarrow> \<exists>p'. pc' = Raising n p'"
    and "bg_peak (bs_budget s) \<le> bg_peak b'"
  shows "peak_covered (s\<lparr>bs_budget := b', bs_pc := (bs_pc s)(t := pc')\<rparr>)"
proof (cases "bs_high s \<le> unat (bg_peak (bs_budget s))")
  case True
  then show ?thesis
    using assms(5) by (auto simp: peak_covered_def word_le_nat_alt)
next
  case False
  then obtain t' n where n: "bs_pc s t' = Granted n \<or> (\<exists>p. bs_pc s t' = Raising n p)" "bs_high s \<le> unat n"
    using assms(1) by (auto simp: peak_covered_def)
  show ?thesis
  proof (cases "t' = t")
    case True
    then have "n \<le> bg_peak b' \<or> (\<exists>p'. pc' = Raising n p')"
      using n(1) assms(2-4) by blast
    then show ?thesis
      using n(2) by (auto simp: peak_covered_def word_le_nat_alt)
  next
    case False
    then have "((bs_pc s)(t := pc')) t' = bs_pc s t'"
      by simp
    then show ?thesis
      using n unfolding peak_covered_def by (intro disjI2 exI [of _ t'] exI [of _ n]) simp
  qed
qed

lemma peak_covered_pc_only:
  assumes "peak_covered s" "bs_pc s t = pc"
    and "\<And>n p. pc = Raising n p \<Longrightarrow> n \<le> bg_peak (bs_budget s) \<or> (\<exists>p'. pc' = Raising n p')"
    and "\<And>n. pc = Granted n \<Longrightarrow> \<exists>p'. pc' = Raising n p'"
  shows "peak_covered (s\<lparr>bs_pc := (bs_pc s)(t := pc')\<rparr>)"
  using peak_covered_pc [OF assms(1,2), of "bs_budget s" pc'] assms(3,4) by simp

lemma budget_step_inv:
  assumes "budget_step s s'" "budget_inv limit s"
  shows "budget_inv limit s'"
  using assms
proof (induction rule: budget_step.induct)
  case (call s t bytes)
  have "bg_used (bs_budget s) \<le> limit"
    using call(2) by (simp add: budget_inv_def word_le_nat_alt)
  moreover have "peak_covered (s\<lparr>bs_pc := (bs_pc s)(t := Trying bytes (bg_used (bs_budget s)))\<rparr>)"
    by (rule peak_covered_pc_only [OF _ call(1)]) (use call(2) in \<open>simp_all add: budget_inv_def\<close>)
  ultimately show ?case
    using call(2) by (auto simp: budget_inv_def)
next
  case (refuse s t bytes used)
  have "peak_covered (s\<lparr>bs_pc := (bs_pc s)(t := Outside)\<rparr>)"
    by (rule peak_covered_pc_only [OF _ refuse(1)]) (use refuse(3) in \<open>simp_all add: budget_inv_def\<close>)
  then show ?case
    using refuse(3) by (auto simp: budget_inv_def)
next
  case (retry s t bytes used)
  have "bg_used (bs_budget s) \<le> limit"
    using retry(3) by (simp add: budget_inv_def word_le_nat_alt)
  moreover have "peak_covered (s\<lparr>bs_pc := (bs_pc s)(t := Trying bytes (bg_used (bs_budget s)))\<rparr>)"
    by (rule peak_covered_pc_only [OF _ retry(1)]) (use retry(3) in \<open>simp_all add: budget_inv_def\<close>)
  ultimately show ?case
    using retry(3) by (auto simp: budget_inv_def)
next
  case (grant s t bytes used)
  have lim: "used \<le> limit" "bytes \<le> limit - used" "unat used = bs_held s"
    using grant by (auto simp: budget_inv_def)
  note no = reserve_no_overflow [OF lim(1,2)]
  let ?s = "s\<lparr>bs_budget := (bs_budget s)\<lparr>bg_used := used + bytes\<rparr>, bs_pc := (bs_pc s)(t := Granted (used + bytes)),
      bs_held := bs_held s + unat bytes, bs_high := max (bs_high s) (bs_held s + unat bytes)\<rparr>"
  have cov: "peak_covered (s\<lparr>bs_pc := (bs_pc s)(t := Granted (used + bytes))\<rparr>)"
    by (rule peak_covered_pc_only [OF _ grant(1)]) (use grant(4) in \<open>simp_all add: budget_inv_def\<close>)
  have "peak_covered ?s"
  proof (cases "bs_high s \<le> bs_held s + unat bytes")
    case True
    then show ?thesis
      using no lim(3) unfolding peak_covered_def
      by (intro disjI2 exI [of _ t] exI [of _ "used + bytes"]) (simp add: max_def)
  next
    case False
    then have "max (bs_high s) (bs_held s + unat bytes) = bs_high s"
      by simp
    then show ?thesis
      using cov by (simp add: peak_covered_def)
  qed
  moreover have "used + bytes \<le> limit"
    using no by (simp add: word_le_nat_alt)
  ultimately show ?case
    using grant(4) no lim(3) by (auto simp: budget_inv_def)
next
  case (load_peak s t n)
  have "peak_covered (s\<lparr>bs_pc := (bs_pc s)(t := Raising n (bg_peak (bs_budget s)))\<rparr>)"
    by (rule peak_covered_pc_only [OF _ load_peak(1)]) (use load_peak(2) in \<open>simp_all add: budget_inv_def\<close>)
  then show ?case
    using load_peak by (auto simp: budget_inv_def)
next
  case (reload_peak s t n p)
  have "peak_covered (s\<lparr>bs_pc := (bs_pc s)(t := Raising n (bg_peak (bs_budget s)))\<rparr>)"
    by (rule peak_covered_pc_only [OF _ reload_peak(1)]) (use reload_peak(3) in \<open>simp_all add: budget_inv_def\<close>)
  then show ?case
    using reload_peak by (auto simp: budget_inv_def)
next
  case (raise_peak s t n p)
  have "peak_covered (s\<lparr>bs_budget := (bs_budget s)\<lparr>bg_peak := n\<rparr>, bs_pc := (bs_pc s)(t := Outside)\<rparr>)"
    by (rule peak_covered_pc [OF _ raise_peak(1)]) (use raise_peak in \<open>auto simp: budget_inv_def\<close>)
  moreover have "p' \<le> n" if "p' \<le> p" for p'
    using that raise_peak(2) by simp
  ultimately show ?case
    using raise_peak by (auto simp: budget_inv_def)
next
  case (leave s t n p)
  have "p \<le> bg_peak (bs_budget s)"
    using leave by (simp add: budget_inv_def)
  then have "n \<le> bg_peak (bs_budget s)"
    using leave(2) by simp
  then have "peak_covered (s\<lparr>bs_pc := (bs_pc s)(t := Outside)\<rparr>)"
    by (intro peak_covered_pc_only [OF _ leave(1)]) (use leave(3) in \<open>auto simp: budget_inv_def\<close>)
  then show ?case
    using leave(3) by (auto simp: budget_inv_def)
next
  case (give_back bytes s)
  have "unat (bg_used (bs_budget s) - bytes) = bs_held s - unat bytes"
    using give_back by (simp add: budget_inv_def unat_sub word_le_nat_alt)
  then show ?case
    using give_back by (auto simp: budget_inv_def release_def peak_covered_def)
qed

lemma budget_reachable_inv: "budget_reachable limit s \<Longrightarrow> budget_inv limit s"
proof (induction rule: budget_reachable.induct)
  case start
  then show ?case
    by (simp add: budget_inv_def budget_start_def new_budget_def peak_covered_def)
qed (rule budget_step_inv)

section \<open>The allocator\<close>

definition budget_ok :: "budget \<Rightarrow> bool" where
  "budget_ok b \<longleftrightarrow> bg_used b \<le> bg_limit b"

lemma reserve_ok:
  assumes "budget_ok b" "reserve bytes b = (b', ok)"
  shows "budget_ok b' \<and> bg_limit b' = bg_limit b
     \<and> unat (bg_used b') = unat (bg_used b) + (if ok then unat bytes else 0)"
proof (cases "bytes \<le> bg_limit b - bg_used b")
  case True
  then show ?thesis
    using assms reserve_no_overflow [of "bg_used b" "bg_limit b" bytes]
    by (auto simp: reserve_def budget_ok_def word_le_nat_alt)
next
  case False
  then show ?thesis
    using assms by (auto simp: reserve_def)
qed

lemma release_reserve:
  assumes "reserve bytes b = (b', True)"
  shows "bg_used (release bytes b') = bg_used b" "bg_limit (release bytes b') = bg_limit b"
  using assms by (auto simp: reserve_def release_def split: if_splits)

end
