(* ===== verification/Vector_Props.thy ===== *)
theory Vector_Props
  imports Vector_Index Vector_Top_K Vector_Budget
begin

text \<open>
  The properties of the vector subsystem: exact generations, top-\<open>k\<close> selection, the memory budget,
  certificates and the change journal.
\<close>

section \<open>Generations\<close>









section \<open>Selection\<close>

lemma consider_limit: "topk_consider ops c score ident doc t = Some t' \<Longrightarrow> tk_maxBytes t' = tk_maxBytes t"
  by (auto simp: topk_consider_def Let_def split: dbl.splits if_splits)

lemma consider_all_limit: "consider_all ops c cs t = Some t' \<Longrightarrow> tk_maxBytes t' = tk_maxBytes t"
  by (induction ops c cs t rule: consider_all.induct) (auto simp: consider_limit split: option.splits)

text \<open>C37: With distinct identifiers, the candidate collector returns what sorting every finite candidate by
  descending score and ascending identifier and keeping the first \<open>k\<close> returns, whatever the order they came
  in; the bytes it has counted are those it holds, within the limit, with no wrap-around.\<close>

theorem vector_topk_best:
  assumes "consider_all (binary_heap better) c cs (new_top_k k limit) = Some t" "distinct (map te_id (entries_of c cs))"
  shows "topk_finish t = those (map (\<lambda>e. jset (te_doc e) ''score'' (JFloat (Fin (te_score e)))) (best_k c k cs))
     \<and> unat (tk_bytes t) = (\<Sum>e\<leftarrow>best_k c k cs. unat (te_bytes e)) \<and> tk_bytes t \<le> limit"
proof -
  have fin: "sort_key rank (tk_heap t) = best_k c k cs" "bytes_ok t"
    using topk.kept_is_best [OF assms] by simp_all
  have "(\<Sum>e\<leftarrow>best_k c k cs. unat (te_bytes e)) = bytes_kept t"
    unfolding fin(1) [symmetric] bytes_kept_def comp_def by (rule sum_list_mset) simp
  moreover have "tk_maxBytes t = limit"
    using consider_all_limit [OF assms(1)] by (simp add: new_top_k_def)
  ultimately show ?thesis
    using fin by (simp add: topk_finish_def bytes_ok_def)
qed

definition sample_codec :: json_codec where
  "sample_codec = \<lparr>to_msgpack = (\<lambda>_. []), from_msgpack = (\<lambda>_. None), jdump = (\<lambda>_. [123, 125]), jparse = (\<lambda>_. None)\<rparr>"

definition sample_hits :: "(dbl \<times> string \<times> json) list" where
  "sample_hits = [(Fin 1, ''a'', JObj []), (NaN, ''b'', JObj []), (Fin 3, ''c'', JObj []), (Fin 2, ''d'', JObj [])]"

lemma small_heaps:
  "push_heap lt [] x = [x]" "push_heap lt [a] x = (if lt a x then [x, a] else [a, x])" "pop_heap lt [a, b] = [b]"
proof -
  have "parent (Suc 0) = 0"
    by (simp add: parent_def)
  then show "push_heap lt [] x = [x]" "push_heap lt [a] x = (if lt a x then [x, a] else [a, x])" "pop_heap lt [a, b] = [b]"
    by (simp_all add: push_heap_def pop_heap_def sift_up.simps [of lt "[x]" 0] sift_up.simps [of lt "[a, x]" "Suc 0"]
        sift_up.simps [of lt "[x, a]" 0] sift_down.simps [of lt "[b]" 0] exchange_def)
qed

theorem vector_topk_best_witness:
  "\<exists>t. consider_all (binary_heap better) sample_codec sample_hits (new_top_k 2 100) = Some t
     \<and> map te_id (tk_heap t) = [''d'', ''c'']
     \<and> topk_finish t = those (map (\<lambda>e. jset (te_doc e) ''score'' (JFloat (Fin (te_score e)))) (best_k sample_codec 2 sample_hits))"
proof -
  let ?ops = "binary_heap better" and ?e = "\<lambda>n i. \<lparr>te_score = n, te_id = i, te_doc = JObj [], te_bytes = 2\<rparr>"
  let ?t = "\<lambda>n xs. \<lparr>tk_k = 2, tk_maxBytes = 100, tk_bytes = n, tk_heap = xs\<rparr>"
  have "topk_consider ?ops sample_codec (Fin 1) ''a'' (JObj []) (new_top_k 2 100) = Some (?t 2 [?e 1 ''a''])"
    by (simp add: topk_consider_def sample_codec_def new_top_k_def binary_heap_def small_heaps)
  moreover have "topk_consider ?ops sample_codec NaN ''b'' (JObj []) (?t 2 [?e 1 ''a'']) = Some (?t 2 [?e 1 ''a''])"
    by (simp add: topk_consider_def)
  moreover have "topk_consider ?ops sample_codec (Fin 3) ''c'' (JObj []) (?t 2 [?e 1 ''a''])
      = Some (?t 4 [?e 1 ''a'', ?e 3 ''c''])"
    by (simp add: topk_consider_def sample_codec_def better_def binary_heap_def small_heaps)
  moreover have "topk_consider ?ops sample_codec (Fin 2) ''d'' (JObj []) (?t 4 [?e 1 ''a'', ?e 3 ''c''])
      = Some (?t 4 [?e 2 ''d'', ?e 3 ''c''])"
    by (simp add: topk_consider_def sample_codec_def better_def binary_heap_def small_heaps)
  ultimately obtain t where t: "consider_all ?ops sample_codec sample_hits (new_top_k 2 100) = Some t"
      "map te_id (tk_heap t) = [''d'', ''c'']"
    by (simp add: sample_hits_def)
  have "distinct (map te_id (entries_of sample_codec sample_hits))"
    by (simp add: sample_hits_def)
  from vector_topk_best [OF t(1) this] show ?thesis
    using t by (intro exI [of _ t]) (simp only: simp_thms)
qed

section \<open>Memory budget\<close>

text \<open>C38: Many threads reserve and release bytes of one budget with compare-and-swap loops, interleaved at
  every atomic operation.  The counter is always the number of bytes granted and not yet released, it never
  passes the limit and never wraps, and once no thread is inside \<open>reserve\<close> the recorded peak is at least
  everything that was ever held at once.\<close>

theorem vector_budget_bounded:
  assumes "budget_reachable limit s"
  shows "unat (bg_used (bs_budget s)) = bs_held s \<and> bs_held s \<le> unat limit \<and> bg_peak (bs_budget s) \<le> limit
     \<and> ((\<forall>t. bs_pc s t = Outside) \<longrightarrow> bs_high s \<le> unat (bg_peak (bs_budget s)))"
  using budget_reachable_inv [OF assms] by (auto simp: budget_inv_def peak_covered_def)

definition sample_budget :: budget_system where
  "sample_budget = \<lparr>bs_budget = \<lparr>bg_limit = 10, bg_used = 4, bg_peak = 4\<rparr>, bs_pc = (\<lambda>_. Outside), bs_held = 4, bs_high = 4\<rparr>"

lemma sample_budget_reachable: "budget_reachable 10 sample_budget"
proof -
  let ?b = "\<lambda>u p. \<lparr>bg_limit = 10, bg_used = u, bg_peak = p\<rparr>"
  let ?s = "\<lambda>b pc n. \<lparr>bs_budget = b, bs_pc = (\<lambda>_. Outside)(0 := pc), bs_held = n, bs_high = n\<rparr>"
  have "budget_start 10 = ?s (?b 0 0) Outside 0"
    by (simp add: budget_start_def new_budget_def fun_eq_iff)
  then have 0: "budget_reachable 10 (?s (?b 0 0) Outside 0)"
    using budget_reachable.start [of 10] by simp
  have 1: "budget_reachable 10 (?s (?b 0 0) (Trying 4 0) 0)"
    using budget_reachable.step [OF 0 budget_step.call [of _ 0 4]] by simp
  have 2: "budget_reachable 10 (?s (?b 4 0) (Granted 4) 4)"
    using budget_reachable.step [OF 1 budget_step.grant [of _ 0 4 0]] by simp
  have 3: "budget_reachable 10 (?s (?b 4 0) (Raising 4 0) 4)"
    using budget_reachable.step [OF 2 budget_step.load_peak [of _ 0 4]] by simp
  have "budget_reachable 10 (?s (?b 4 4) Outside 4)"
    using budget_reachable.step [OF 3 budget_step.raise_peak [of _ 0 4 0]] by simp
  then show ?thesis
    by (simp add: sample_budget_def fun_upd_idem)
qed

theorem vector_budget_bounded_witness: "bs_held sample_budget = 4 \<and> bs_high sample_budget \<le> unat (bg_peak (bs_budget sample_budget))"
  using vector_budget_bounded [OF sample_budget_reachable] by (simp add: sample_budget_def)

section \<open>Certificates\<close>

text \<open>C36: Writers enter and leave collections and the root with their atomic steps interleaved in any way, and a
  reader captures two stamps without a lock.  When the stamps agree, no writer was inside the collection or
  the root at any instant between the first capture's look at the active counter and the second capture's
  last read of the root revision, so what was read in between is one state.  (Fewer than \<open>2\<^sup>6\<^sup>4\<close> mutations
  have run on the slot.)\<close>

theorem vector_certificate_sound:
  assumes "history h" "in_order t" "in_order t'" "ct_collection_again t \<le> ct_root t'"
    and "capture h t (slot_of hash key) v = Some s" "capture h t' (slot_of hash key) v' = Some s'"
    and "st_root s' = st_root s" "st_collection s' = st_collection s"
    and "bumps h Root (ct_root_again t') < 2 ^ 64" "bumps h (slot_of hash key) (ct_collection_again t') < 2 ^ 64"
    and "ct_collection_active t \<le> m" "m \<le> ct_root_again t'"
  shows "\<not> writing (h m) Root \<and> \<not> writing (h m) (slot_of hash key)"
  by (rule equal_stamps_quiet [OF assms])

text \<open>One writer comes and goes, then two captures are taken.\<close>

definition sample_fresh :: "u64 \<Rightarrow> u64 \<Rightarrow> writer \<Rightarrow> fresh_state" where
  "sample_fresh active revision pc =
     \<lparr>fs_counter = (\<lambda>_. \<lparr>fc_active = 0, fc_revision = 0, fc_poisoned = False\<rparr>)
        (Slot 5 := \<lparr>fc_active = active, fc_revision = revision, fc_poisoned = False\<rparr>),
      fs_writer = (\<lambda>_. NoWriter)(3 := pc)\<rparr>"

definition sample_history :: "nat \<Rightarrow> fresh_state" where
  "sample_history i =
     (if i = 0 then sample_fresh 0 0 NoWriter else if i = 1 then sample_fresh 1 0 (Announced (Slot 5))
      else if i = 2 then sample_fresh 1 1 (Inside (Slot 5)) else if i = 3 then sample_fresh 1 2 (Leaving (Slot 5))
      else sample_fresh 0 2 NoWriter)"

lemma sample_history_step: "fresh_step (sample_history i) (sample_history (Suc i))"
proof -
  have 0: "fresh_step (sample_fresh 0 0 NoWriter) (sample_fresh 1 0 (Announced (Slot 5)))"
    using fresh_step.announce [of "sample_fresh 0 0 NoWriter" 3 "Slot 5"]
    by (simp add: sample_fresh_def set_writer_def upd_counter_def)
  have 1: "fresh_step (sample_fresh 1 0 (Announced (Slot 5))) (sample_fresh 1 1 (Inside (Slot 5)))"
    using fresh_step.enter [of "sample_fresh 1 0 (Announced (Slot 5))" 3 "Slot 5"]
    by (simp add: sample_fresh_def set_writer_def upd_counter_def bump_counter_def)
  have 2: "fresh_step (sample_fresh 1 1 (Inside (Slot 5))) (sample_fresh 1 2 (Leaving (Slot 5)))"
    using fresh_step.exit_bump [of "sample_fresh 1 1 (Inside (Slot 5))" 3 "Slot 5"]
    by (simp add: sample_fresh_def set_writer_def upd_counter_def bump_counter_def)
  have 3: "fresh_step (sample_fresh 1 2 (Leaving (Slot 5))) (sample_fresh 0 2 NoWriter)"
    using fresh_step.retire [of "sample_fresh 1 2 (Leaving (Slot 5))" 3 "Slot 5"]
    by (simp add: sample_fresh_def set_writer_def upd_counter_def)
  consider "i = 0" | "i = 1" | "i = 2" | "i = 3" | "i > 3"
    by linarith
  then show ?thesis
    using 0 1 2 3 fresh_step.idle by cases (simp_all add: sample_history_def)
qed

definition sample_times :: "nat \<Rightarrow> capture_times" where
  "sample_times i = \<lparr>ct_root = i, ct_collection = i, ct_root_active = i, ct_collection_active = i, ct_root_poisoned = i,
     ct_collection_poisoned = i, ct_root_again = i, ct_collection_again = i\<rparr>"

theorem vector_certificate_sound_witness:
  "capture sample_history (sample_times 4) (slot_of (\<lambda>_. 5) ''u/d/c'') 9
     = Some \<lparr>st_root = 0, st_collection = 2, st_visibility = 9, st_configuration = 0\<rparr>
   \<and> \<not> writing (sample_history 5) Root \<and> \<not> writing (sample_history 5) (slot_of (\<lambda>_. 5) ''u/d/c'')"
proof -
  have h: "history sample_history"
    using sample_history_step by (simp add: history_def sample_history_def [of 0] sample_fresh_def fresh_start_def fun_eq_iff)
  have ord: "in_order (sample_times i)" for i
    by (simp add: in_order_def sample_times_def)
  have cap: "capture sample_history (sample_times i) (slot_of (\<lambda>_. 5) ''u/d/c'') 9
      = Some \<lparr>st_root = 0, st_collection = 2, st_visibility = 9, st_configuration = 0\<rparr>" if "3 < i" for i
    using that by (simp add: capture_def sample_times_def slot_of_def sample_history_def sample_fresh_def)
  have small: "bumps sample_history k i \<le> i" for k i
    by (induction i) auto
  have lt: "bumps sample_history k 6 < 2 ^ 64" for k
    using small [of k 6] by simp
  have "\<not> writing (sample_history 5) Root \<and> \<not> writing (sample_history 5) (slot_of (\<lambda>_. 5) ''u/d/c'')"
    by (rule vector_certificate_sound [OF h ord [of 4] ord [of 6] _ cap [of 4] cap [of 6]])
      (use lt in \<open>simp_all add: sample_times_def\<close>)
  then show ?thesis
    using cap [of 4] by simp
qed

section \<open>Change journal\<close>

text \<open>The operations of a journal and the mutation each stands for; \<open>None\<close> is one whose identifier is lost.\<close>

datatype journal_op = Append bool string u64 | Lose

fun run_journal :: "journal_op list \<Rightarrow> journal \<Rightarrow> journal" where
  "run_journal [] j = j"
| "run_journal (Append alloc_ok ident v # ops) j = run_journal ops (fst (journal_append alloc_ok ident v j))"
| "run_journal (Lose # ops) j = run_journal ops (journal_gap j)"

fun mutation :: "journal_op \<Rightarrow> (string \<times> u64) option" where
  "mutation (Append alloc_ok ident v) = (if alloc_ok \<and> ident \<noteq> [] \<and> length ident \<le> 1024 then Some (ident, v) else None)"
| "mutation Lose = None"

lemma append_flag:
  "journal_append ok ident v j = (j', b) \<Longrightarrow> \<not> jn_poisoned j \<Longrightarrow> jn_sequence j \<noteq> - 1
   \<Longrightarrow> b = (ok \<and> ident \<noteq> [] \<and> length ident \<le> 1024) \<and> \<not> jn_poisoned j' \<and> jn_epoch j' = jn_epoch j"
  by (auto simp: journal_append_def gapLocked_def Let_def split: if_splits)

lemma run_journal_rep:
  assumes "feed_rep h j" "\<not> jn_poisoned j" "length h + length ops < 2 ^ 64 - 1"
  shows "feed_rep (h @ map mutation ops) (run_journal ops j) \<and> \<not> jn_poisoned (run_journal ops j)
     \<and> jn_epoch (run_journal ops j) = jn_epoch j"
  using assms
proof (induction ops arbitrary: h j)
  case (Cons op ops)
  have "unat (jn_sequence j) < 2 ^ 64 - 1"
    using Cons.prems by (simp add: feed_rep_def)
  then have seq: "jn_sequence j \<noteq> - 1"
    by (auto simp: unsigned_minus_1_eq_mask mask_eq_exp_minus_1)
  show ?case
  proof (cases op)
    case (Append ok ident v)
    obtain j' b where a: "journal_append ok ident v j = (j', b)"
      by fastforce
    note fl = append_flag [OF a Cons.prems(2) seq]
    have "feed_rep (h @ [mutation op]) j'"
      using journal_append_rep [OF Cons.prems(1) a] Cons.prems(2) seq fl Append by simp
    then show ?thesis
      using Cons.IH [of "h @ [mutation op]" j'] Cons.prems(3) a fl Append by simp
  next
    case Lose
    have "feed_rep (h @ [None]) (journal_gap j)" "\<not> jn_poisoned (journal_gap j)" "jn_epoch (journal_gap j) = jn_epoch j"
      using journal_gap_rep [OF Cons.prems(1)] seq Cons.prems(2) by (simp_all add: journal_gap_def gapLocked_def)
    then show ?thesis
      using Cons.IH [of "h @ [None]" "journal_gap j"] Cons.prems(3) Lose by simp
  qed
qed simp

text \<open>C35: A change journal refines the list of all mutations reported to it.  Whatever sequence of reports it
  has taken, a read from a cursor that does not answer \<open>Gap\<close> returns exactly the mutations after the cursor,
  in order, none missing and none of them lost, at most as many as asked and all visible; the next cursor is
  past them, and the answer \<open>Covered\<close> means there are no more.\<close>

theorem vector_journal_feed:
  assumes "new_journal records bytes epochs = (Some j, epochs')" "length ops < 2 ^ 64 - 1"
    and "journal_after c vis maximum (run_journal ops j) = Some b" "jb_state b \<noteq> Gap"
  shows "map (\<lambda>e. Some (ch_id e, ch_minimumVisibility e)) (jb_changes b)
       = take (length (jb_changes b)) (drop (unat (cu_sequence c)) (map mutation ops))
     \<and> length (jb_changes b) \<le> maximum \<and> list_all (\<lambda>e. ch_minimumVisibility e \<le> vis) (jb_changes b)
     \<and> unat (cu_sequence (jb_next b)) = unat (cu_sequence c) + length (jb_changes b)
     \<and> (jb_state b = Covered \<longrightarrow> unat (cu_sequence (jb_next b)) = length ops)"
proof -
  have rep: "feed_rep (map mutation ops) (run_journal ops j)"
    using run_journal_rep [of "[]" j ops] new_journal_rep [OF assms(1)] assms(2) by simp
  have "cursor_covered c (run_journal ops j)"
    using journal_after_gap [OF assms(3)] assms(4) by blast
  from journal_after_feed [OF rep assms(3) this] show ?thesis
    by simp
qed

theorem vector_journal_feed_witness:
  "\<exists>j e b. new_journal 2 4096 1 = (Some j, e)
     \<and> journal_after \<lparr>cu_epoch = 1, cu_sequence = 1\<rparr> 9 8 (run_journal [Append True ''a'' 1, Append True ''b'' 2, Append True ''c'' 3] j) = Some b
     \<and> map (\<lambda>e. Some (ch_id e, ch_minimumVisibility e)) (jb_changes b)
       = take (length (jb_changes b)) (drop 1 (map mutation [Append True ''a'' 1, Append True ''b'' 2, Append True ''c'' 3]))"
proof -
  let ?ops = "[Append True ''a'' 1, Append True ''b'' 2, Append True ''c'' 3]"
  let ?c = "\<lparr>cu_epoch = 1, cu_sequence = 1\<rparr> :: cursor"
  let ?e = "\<lambda>n i. \<lparr>ch_sequence = n, ch_id = i, ch_minimumVisibility = n\<rparr> :: change"
  let ?j = "\<lambda>n fl es. \<lparr>jn_entries = es, jn_capacity = 2, jn_epoch = 1, jn_sequence = n, jn_floor = fl, jn_poisoned = False\<rparr> :: journal"
  have j: "new_journal 2 4096 1 = (Some (?j 0 0 []), 2)"
    by (simp add: new_journal_def next_epoch_def)
  have run: "run_journal ?ops (?j 0 0 []) = ?j 3 1 [?e 2 ''b'', ?e 3 ''c'']"
    by (simp add: journal_append_def)
  have b: "journal_after ?c 9 8 (run_journal ?ops (?j 0 0 []))
      = Some \<lparr>jb_state = Covered, jb_next = \<lparr>cu_epoch = 1, cu_sequence = 3\<rparr>, jb_changes = [?e 2 ''b'', ?e 3 ''c'']\<rparr>"
    unfolding run by (simp add: journal_after_def word_le_nat_alt)
  have "length ?ops < 2 ^ 64 - 1"
    by simp
  note t = vector_journal_feed [OF j this b, unfolded journal_batch.select_convs, OF journal_state.distinct(3)]
  have "drop (unat (cu_sequence ?c)) (map mutation ?ops) = drop 1 (map mutation ?ops)"
    by simp
  with conjunct1 [OF t] show ?thesis
    using j b by (intro exI conjI) (rule j, rule b, simp only: journal_batch.simps journal_state.distinct)
qed

end
