(* ===== verification/Media_Upload.thy ===== *)
theory Media_Upload
  imports Json "HOL-Library.Multiset"
begin

text \<open>
  The states of a media upload and the progress computed from its durable chunks
  (\<open>engine/src/media_upload_state.cpp\<close>).  The documents are JSON values; \<open>Inl\<close> is the message of the
  exception.  \<open>long long\<close> values are integers with the bounds the code checks written out.
\<close>

section \<open>States\<close>

datatype MediaState = uploading | verifying | ready | failed | aborted

definition parseMediaState :: "string \<Rightarrow> string + MediaState" where
  "parseMediaState v =
     (if v = ''uploading'' then Inr uploading
      else if v = ''verifying'' then Inr verifying
      else if v = ''ready'' then Inr ready
      else if v = ''failed'' then Inr failed
      else if v = ''aborted'' then Inr aborted
      else Inl (''unknown media state: '' @ v))"

fun mediaStateName :: "MediaState \<Rightarrow> string" where
  "mediaStateName uploading = ''uploading''"
| "mediaStateName verifying = ''verifying''"
| "mediaStateName ready = ''ready''"
| "mediaStateName failed = ''failed''"
| "mediaStateName aborted = ''aborted''"

definition canTransition :: "MediaState \<Rightarrow> MediaState \<Rightarrow> bool" where
  "canTransition a b =
     (a = b \<or> (case a of
        uploading \<Rightarrow> b = verifying \<or> b = failed \<or> b = aborted
      | verifying \<Rightarrow> b = uploading \<or> b = ready \<or> b = failed \<or> b = aborted
      | failed \<Rightarrow> b = aborted
      | ready \<Rightarrow> False
      | aborted \<Rightarrow> False))"

lemma parse_name [simp]: "parseMediaState (mediaStateName s) = Inr s"
  by (cases s) (simp_all add: parseMediaState_def)

lemma parse_iff: "parseMediaState v = Inr s \<longleftrightarrow> v = mediaStateName s"
  by (cases s) (auto simp: parseMediaState_def split: if_splits)

section \<open>Progress\<close>

record MediaProgress =
  mp_stateVersion :: int
  mp_receivedChunks :: int
  mp_receivedBytes :: int
  mp_nextMissingIndex :: int
  mp_leaseExpiresAtMs :: int
  mp_receivedIndices :: "int list"

definition max_ll :: int where
  "max_ll = 2 ^ 63 - 1"

text \<open>A chunk's index, size and digest.\<close>

type_synonym chunk_identity = "int \<times> int \<times> string"

definition decode_chunk :: "int \<Rightarrow> json \<Rightarrow> string + chunk_identity" where
  "decode_chunk chunkCount chunk =
     (if \<not> is_object chunk then Inl ''media chunk metadata must be an object''
      else
        case (jvalue get_ll chunk ''index'' (- 1), jvalue get_ll chunk ''size_bytes'' (- 1), jvalue get_str chunk ''sha256'' []) of
          (Some index, Some sz, Some sha256) \<Rightarrow>
            (if index < 0 \<or> chunkCount \<le> index \<or> sz < 0 then Inl ''media chunk progress is out of range''
             else Inr (index, sz, sha256))
        | _ \<Rightarrow> Inl ''type_error'')"

text \<open>\<open>emplace\<close> into the ordered map: the entry there is for the index, and whether it is new.\<close>

fun emplace :: "chunk_identity \<Rightarrow> chunk_identity list \<Rightarrow> chunk_identity list \<times> (int \<times> string)" where
  "emplace (i, v) [] = ([(i, v)], v)"
| "emplace (i, v) ((j, w) # xs) =
     (if i < j then ((i, v) # (j, w) # xs, v)
      else if i = j then ((j, w) # xs, w)
      else case emplace (i, v) xs of (ys, u) \<Rightarrow> ((j, w) # ys, u))"

fun collect_chunks :: "int \<Rightarrow> json list \<Rightarrow> chunk_identity list \<Rightarrow> string + chunk_identity list" where
  "collect_chunks chunkCount [] durable = Inr durable"
| "collect_chunks chunkCount (c # cs) durable =
     (case decode_chunk chunkCount c of
        Inl e \<Rightarrow> Inl e
      | Inr (i, v) \<Rightarrow>
         (case emplace (i, v) durable of
            (durable1, w) \<Rightarrow>
              if w \<noteq> v then Inl ''conflicting duplicate media chunk metadata''
              else collect_chunks chunkCount cs durable1))"

text \<open>The loop over the map: the bytes and indices received so far.\<close>

fun sum_chunks :: "int \<Rightarrow> chunk_identity list \<Rightarrow> int \<Rightarrow> int list \<Rightarrow> string + int \<times> int list" where
  "sum_chunks sizeBytes [] n is = Inr (n, is)"
| "sum_chunks sizeBytes ((i, sz, sha) # xs) n is =
     (if max_ll - n < sz then Inl ''media progress size overflow''
      else if sizeBytes < n + sz then Inl ''media progress exceeds manifest size''
      else sum_chunks sizeBytes xs (n + sz) (is @ [i]))"

text \<open>The loop that looks for the first missing index.\<close>

function first_missing :: "int \<Rightarrow> int set \<Rightarrow> int \<Rightarrow> int" where
  "first_missing chunkCount received index =
     (if index < chunkCount
      then if index \<notin> received then index else first_missing chunkCount received (index + 1)
      else chunkCount)"
  by pat_completeness auto
termination
  by (relation "measure (\<lambda>(n, r, i). nat (n - i))") auto

declare first_missing.simps [simp del]

text \<open>\<open>value("state_version", 1)\<close> reads an \<open>int\<close>: the low 32 bits.\<close>

definition get_int32 :: "json \<Rightarrow> int option" where
  "get_int32 j = map_option (\<lambda>n. sint (word_of_int n :: 32 word)) (get_ll j)"

definition read_lease :: "json \<Rightarrow> string + int" where
  "read_lease manifest =
     (if \<not> jcontains manifest ''lease_expires_at_ms'' then Inr 0
      else
        case jvalue get_ll manifest ''lease_expires_at_ms'' 0 of
          None \<Rightarrow> Inl ''type_error''
        | Some e \<Rightarrow> if e \<le> 0 then Inl ''media lease expiry must be positive'' else Inr e)"

text \<open>The computation once the manifest's fields are read.\<close>

definition progress_of :: "int \<Rightarrow> int \<Rightarrow> int \<Rightarrow> int \<Rightarrow> json list \<Rightarrow> string + MediaProgress" where
  "progress_of chunkCount sizeBytes version lease chunks =
     (case collect_chunks chunkCount chunks [] of
        Inl e \<Rightarrow> Inl e
      | Inr durable \<Rightarrow>
         (case sum_chunks sizeBytes durable 0 [] of
            Inl e \<Rightarrow> Inl e
          | Inr (n, is) \<Rightarrow>
             Inr \<lparr>mp_stateVersion = version, mp_receivedChunks = int (length durable), mp_receivedBytes = n,
                  mp_nextMissingIndex = first_missing chunkCount (fst ` set durable) 0,
                  mp_leaseExpiresAtMs = lease, mp_receivedIndices = is\<rparr>))"

definition reconstructMediaProgress :: "json \<Rightarrow> json list \<Rightarrow> string + MediaProgress" where
  "reconstructMediaProgress manifest chunks =
     (if \<not> is_object manifest then Inl ''media manifest must be an object''
      else
        case jvalue get_str manifest ''status'' [] of
          None \<Rightarrow> Inl ''type_error''
        | Some status \<Rightarrow>
           (case parseMediaState status of
              Inl e \<Rightarrow> Inl e
            | Inr _ \<Rightarrow>
               (case (jvalue get_ll manifest ''chunk_count'' (- 1), jvalue get_ll manifest ''size_bytes'' (- 1)) of
                  (Some chunkCount, Some sizeBytes) \<Rightarrow>
                    (if chunkCount \<le> 0 \<or> sizeBytes < 0 then Inl ''media manifest limits are invalid''
                     else
                       case jvalue get_int32 manifest ''state_version'' 1 of
                         None \<Rightarrow> Inl ''type_error''
                       | Some version \<Rightarrow>
                          (if version < 1 \<or> 2 < version then Inl ''unsupported media state version''
                           else
                             case read_lease manifest of
                               Inl e \<Rightarrow> Inl e
                             | Inr lease \<Rightarrow> progress_of chunkCount sizeBytes version lease chunks))
                | _ \<Rightarrow> Inl ''type_error'')))"

definition leaseExpired :: "json \<Rightarrow> int \<Rightarrow> string + bool" where
  "leaseExpired manifest nowMs =
     (if \<not> is_object manifest \<or> \<not> jcontains manifest ''lease_expires_at_ms'' then Inr False
      else
        case jvalue get_ll manifest ''lease_expires_at_ms'' 0 of
          None \<Rightarrow> Inl ''type_error''
        | Some e \<Rightarrow> if e \<le> 0 then Inl ''media lease expiry must be positive'' else Inr (e \<le> nowMs))"

section \<open>What the loops compute\<close>

definition keyed :: "chunk_identity list \<Rightarrow> bool" where
  "keyed xs \<longleftrightarrow> sorted_wrt (<) (map fst xs)"

lemma emplace_spec:
  assumes "keyed xs" "emplace (i, v) xs = (ys, w)"
  shows "keyed ys \<and> (i, w) \<in> set ys \<and> set ys = insert (i, w) (set xs)
     \<and> ((\<exists>u. (i, u) \<in> set xs) \<longrightarrow> (i, w) \<in> set xs) \<and> ((\<nexists>u. (i, u) \<in> set xs) \<longrightarrow> w = v)"
  using assms
proof (induction xs arbitrary: ys)
  case (Cons p xs)
  obtain j u where p: "p = (j, u)"
    by (cases p)
  have low: "\<forall>(k, x) \<in> set xs. j < k" and k: "keyed xs"
    using Cons.prems(1) p by (auto simp: keyed_def)
  consider "i < j" | "i = j" | "j < i"
    by linarith
  then show ?case
  proof cases
    case 3
    obtain zs where zs: "emplace (i, v) xs = (zs, w)" "ys = (j, u) # zs"
      using Cons.prems(2) p 3 by (auto split: prod.splits)
    have "\<forall>(k, x) \<in> set zs. j < k"
      using Cons.IH [OF k zs(1)] low 3 by auto
    then show ?thesis
      using Cons.IH [OF k zs(1)] zs(2) p 3 by (auto simp: keyed_def)
  qed (use Cons.prems p low in \<open>(cases w, fastforce simp: keyed_def)+\<close>)
qed (auto simp: keyed_def)

text \<open>Two keyed lists with the same entries are equal, so the map does not depend on the order of arrival.\<close>

lemma keyed_unique:
  assumes "keyed xs" "keyed ys" "set xs = set ys"
  shows "xs = ys"
proof -
  have s: "sorted_wrt (\<lambda>x y. fst x < fst y) xs" "sorted_wrt (\<lambda>x y. fst x < fst y) ys"
    using assms(1,2) by (simp_all add: keyed_def sorted_wrt_map)
  have "distinct xs" "distinct ys"
    using assms(1,2) by (auto simp: keyed_def strict_sorted_iff distinct_map)
  then have "mset xs = mset ys"
    using assms(3) by (simp add: set_eq_iff_mset_eq_distinct)
  moreover have "sorted (map fst xs)" "sorted (map fst ys)" "inj_on fst (set xs)"
    using assms(1,2) by (auto simp: keyed_def strict_sorted_iff distinct_map)
  ultimately show ?thesis
    by (metis properties_for_sort_key sort_key_inj_key_eq)
qed

text \<open>What the collection loop accepts: every chunk decodes, and chunks with one index agree.\<close>

definition agree :: "chunk_identity set \<Rightarrow> bool" where
  "agree X \<longleftrightarrow> (\<forall>(i, v) \<in> X. \<forall>(j, w) \<in> X. i = j \<longrightarrow> v = w)"

definition decoded :: "int \<Rightarrow> json list \<Rightarrow> chunk_identity set" where
  "decoded n cs = {x. \<exists>c\<in>set cs. decode_chunk n c = Inr x}"

lemma keyed_agree: "keyed xs \<Longrightarrow> agree (set xs)"
  by (fastforce simp: keyed_def agree_def strict_sorted_iff distinct_map inj_on_def)

lemma collect_sound:
  assumes "keyed acc" "collect_chunks n cs acc = Inr d"
  shows "keyed d \<and> set d = set acc \<union> decoded n cs \<and> (\<forall>c\<in>set cs. \<exists>x. decode_chunk n c = Inr x)"
  using assms
proof (induction cs arbitrary: acc)
  case (Cons c cs)
  obtain i v where x: "decode_chunk n c = Inr (i, v)"
    using Cons.prems(2) by (auto split: sum.splits)
  obtain acc1 where e: "emplace (i, v) acc = (acc1, v)" "collect_chunks n cs acc1 = Inr d"
    using Cons.prems(2) x by (auto split: prod.splits if_splits)
  note sp = emplace_spec [OF Cons.prems(1) e(1)]
  show ?case
    using Cons.IH [OF _ e(2)] sp x by (auto simp: decoded_def)
qed (simp add: decoded_def)

lemma collect_complete:
  assumes "keyed acc" "\<forall>c\<in>set cs. \<exists>x. decode_chunk n c = Inr x" "agree (set acc \<union> decoded n cs)"
  shows "\<exists>d. collect_chunks n cs acc = Inr d"
  using assms
proof (induction cs arbitrary: acc)
  case (Cons c cs)
  obtain i v where x: "decode_chunk n c = Inr (i, v)"
    using Cons.prems(2) by fastforce
  obtain acc1 w where e: "emplace (i, v) acc = (acc1, w)"
    by (cases "emplace (i, v) acc") simp
  note sp = emplace_spec [OF Cons.prems(1) e]
  have dec: "decoded n (c # cs) = insert (i, v) (decoded n cs)"
    using x by (auto simp: decoded_def)
  have "w = v"
    using sp Cons.prems(3) unfolding dec agree_def by fastforce
  then show ?case
    using Cons.IH [of acc1] sp Cons.prems(2,3) x e by (auto simp: dec)
qed simp

lemma collect_perm:
  assumes "collect_chunks n cs [] = Inr d" "set cs' = set cs"
  shows "collect_chunks n cs' [] = Inr d"
proof -
  have k: "keyed []"
    by (simp add: keyed_def)
  note s = collect_sound [OF k assms(1)]
  have dec: "decoded n cs' = decoded n cs"
    using assms(2) by (simp add: decoded_def)
  have "agree (set [] \<union> decoded n cs')"
    using keyed_agree [of d] s dec by simp
  then obtain d' where d': "collect_chunks n cs' [] = Inr d'"
    using collect_complete [OF k, of cs' n] s assms(2) by auto
  then show ?thesis
    using collect_sound [OF k d'] s dec keyed_unique [of d' d] by simp
qed

lemma sum_chunks_spec:
  assumes "sum_chunks s xs n is = Inr (m, js)"
  shows "m = n + (\<Sum>(i, sz, sha)\<leftarrow>xs. sz) \<and> js = is @ map fst xs \<and> (xs \<noteq> [] \<longrightarrow> m \<le> s \<and> m \<le> max_ll)"
  using assms
proof (induction xs arbitrary: n "is")
  case (Cons p xs)
  obtain i sz sha where p: "p = (i, sz, sha)"
    by (cases p)
  have rest: "sum_chunks s xs (n + sz) (is @ [i]) = Inr (m, js)" "n + sz \<le> s" "n + sz \<le> max_ll"
    using Cons.prems p by (auto split: if_splits)
  show ?case
    using Cons.IH [OF rest(1)] rest(2,3) p by (cases xs) auto
qed simp

lemma first_missing_spec:
  assumes "i \<le> n"
  shows "i \<le> first_missing n r i \<and> first_missing n r i \<le> n \<and> (first_missing n r i < n \<longrightarrow> first_missing n r i \<notin> r)
     \<and> {i..<first_missing n r i} \<subseteq> r"
  using assms
proof (induction n r i rule: first_missing.induct)
  case (1 n r i)
  show ?case
  proof (cases "i < n \<and> i \<in> r")
    case True
    then have "first_missing n r i = first_missing n r (i + 1)"
      by (simp add: first_missing.simps [of n r i])
    moreover have "{i..<k} \<subseteq> insert i {i + 1..<k}" for k
      by auto
    ultimately show ?thesis
      using 1 True by auto
  next
    case False
    then show ?thesis
      using 1(2) by (auto simp: first_missing.simps [of n r i])
  qed
qed

end
