(* ===== verification/Media_Catalog.thy ===== *)
theory Media_Catalog
  imports Media_Upload
begin

text \<open>
  The media operations of the catalog (\<open>engine/src/community_catalog.cpp\<close>).  The two collections of documents
  are kept in storage order; a find, an insertion, an update and a deletion are durable one by one, so an
  operation is the list of durable states it passes through and its result, and a crash leaves any of them.
  OpenSSL (base64 decoding, SHA-256), the clock, the configured lease and the generated identifiers are
  arguments.  The operations on one upload are serialised by its mutex.
\<close>

section \<open>Documents\<close>

record media_manifest =
  mf_database :: string
  mf_collection :: string
  mf_filename :: string
  mf_contentType :: string
  mf_size :: int
  mf_count :: int
  mf_sha256 :: string
  mf_status :: MediaState
  mf_receivedChunks :: int
  mf_receivedBytes :: int
  mf_next :: int
  mf_indices :: "int list"
  mf_lease :: int
  mf_resumable :: bool

record media_chunk =
  mc_media :: string
  mc_index :: int
  mc_size :: int
  mc_sha256 :: string
  mc_data :: string

record media_db =
  md_manifests :: "(string \<times> media_manifest) list"
  md_chunks :: "(string \<times> media_chunk) list"

record media_env =
  me_decode :: "string \<Rightarrow> bytes option"
  me_sha256 :: "bytes \<Rightarrow> string"
  me_lease :: int

type_synonym 'a media_run = "media_db list \<times> (string + 'a)"

fun dec_string :: "nat \<Rightarrow> string" where
  "dec_string n = (if n < 10 then [digit_char n] else dec_string (n div 10) @ [digit_char (n mod 10)])"

declare dec_string.simps [simp del]

definition chunkId :: "string \<Rightarrow> int \<Rightarrow> string" where
  "chunkId mediaId index = mediaId @ '':'' @ dec_string (nat index)"

definition rawMedia :: "string \<Rightarrow> media_db \<Rightarrow> media_manifest option" where
  "rawMedia m db = map_of (md_manifests db) m"

definition updateManifest :: "string \<Rightarrow> (media_manifest \<Rightarrow> media_manifest) \<Rightarrow> media_db \<Rightarrow> media_db" where
  "updateManifest m f db = db\<lparr>md_manifests := map (\<lambda>(k, v). (k, if k = m then f v else v)) (md_manifests db)\<rparr>"

definition owned :: "string \<Rightarrow> media_db \<Rightarrow> (string \<times> media_chunk) list" where
  "owned m db = filter (\<lambda>(k, c). mc_media c = m) (md_chunks db)"

definition delete_chunk :: "string \<Rightarrow> media_db \<Rightarrow> media_db" where
  "delete_chunk k db = db\<lparr>md_chunks := filter (\<lambda>(k', c). k' \<noteq> k) (md_chunks db)\<rparr>"

text \<open>Row after row: the states passed through.\<close>

fun delete_rows :: "string list \<Rightarrow> media_db \<Rightarrow> media_db list" where
  "delete_rows [] db = []"
| "delete_rows (k # ks) db = delete_chunk k db # delete_rows ks (delete_chunk k db)"

definition deleteOwnedChunks :: "string \<Rightarrow> media_db \<Rightarrow> media_db list" where
  "deleteOwnedChunks m db = delete_rows (map fst (owned m db)) db"

section \<open>Progress\<close>

text \<open>The fields \<open>reconstructMediaProgress\<close> reads.\<close>

definition manifest_doc :: "media_manifest \<Rightarrow> json" where
  "manifest_doc mf = JObj [(''chunk_count'', JInt (word_of_int (mf_count mf))),
     (''lease_expires_at_ms'', JInt (word_of_int (mf_lease mf))), (''size_bytes'', JInt (word_of_int (mf_size mf))),
     (''state_version'', JInt 2), (''status'', JStr (mediaStateName (mf_status mf)))]"

definition chunk_doc :: "media_chunk \<Rightarrow> json" where
  "chunk_doc c = JObj [(''index'', JInt (word_of_int (mc_index c))), (''media_id'', JStr (mc_media c)),
     (''sha256'', JStr (mc_sha256 c)), (''size_bytes'', JInt (word_of_int (mc_size c)))]"

text \<open>The rows named by the manifest's indices, up to the first that does not check.\<close>

fun hinted_chunks :: "string \<Rightarrow> media_db \<Rightarrow> int \<Rightarrow> int \<Rightarrow> int list \<Rightarrow> media_chunk list" where
  "hinted_chunks m db bound previous [] = []"
| "hinted_chunks m db bound previous (i # is) =
     (if i \<le> previous \<or> bound \<le> i then []
      else
        case map_of (md_chunks db) (chunkId m i) of
          None \<Rightarrow> []
        | Some c \<Rightarrow> if mc_media c \<noteq> m \<or> mc_index c \<noteq> i then [] else c # hinted_chunks m db bound i is)"

definition rawMediaChunks :: "string \<Rightarrow> media_db \<Rightarrow> media_chunk list" where
  "rawMediaChunks m db =
     (case rawMedia m db of
        None \<Rightarrow> []
      | Some mf \<Rightarrow>
         (let durable = length (owned m db); hinted = hinted_chunks m db (mf_count mf) (- 1) (mf_indices mf)
          in if length (mf_indices mf) = durable \<and> length hinted = durable then hinted
             else sort_key mc_index (map snd (owned m db))))"

text \<open>The lease is written back only when the progress carries one.\<close>

definition apply_progress :: "MediaProgress \<Rightarrow> media_manifest \<Rightarrow> media_manifest" where
  "apply_progress p mf =
     mf\<lparr>mf_receivedChunks := mp_receivedChunks p, mf_receivedBytes := mp_receivedBytes p, mf_next := mp_nextMissingIndex p,
        mf_indices := mp_receivedIndices p, mf_lease := (if 0 < mp_leaseExpiresAtMs p then mp_leaseExpiresAtMs p else mf_lease mf),
        mf_resumable := (mf_status mf = uploading \<or> mf_status mf = verifying)\<rparr>"

definition progressFields :: "media_manifest \<Rightarrow> media_chunk list \<Rightarrow> string + (media_manifest \<Rightarrow> media_manifest)" where
  "progressFields mf chunks =
     (case reconstructMediaProgress (manifest_doc mf) (map chunk_doc chunks) of
        Inl e \<Rightarrow> Inl e | Inr p \<Rightarrow> Inr (apply_progress p))"

definition insert_index :: "int \<Rightarrow> int list \<Rightarrow> int list" where
  "insert_index i xs = takeWhile (\<lambda>x. x < i) xs @ i # dropWhile (\<lambda>x. x < i) xs"

definition advanceMediaProgress :: "media_env \<Rightarrow> media_manifest \<Rightarrow> int \<Rightarrow> int \<Rightarrow> int
    \<Rightarrow> string + (media_manifest \<Rightarrow> media_manifest)" where
  "advanceMediaProgress env mf index sz timestamp =
     (let found = dropWhile (\<lambda>x. x < index) (mf_indices mf); indices = insert_index index (mf_indices mf);
          previous = mf_receivedBytes mf
      in if found \<noteq> [] \<and> hd found = index then Inl ''media progress requires reconciliation''
         else if previous < 0 \<or> max_ll - previous < sz \<or> mf_size mf < previous + sz
         then Inl ''media progress exceeds manifest size''
         else if max_ll - timestamp < me_lease env then Inl ''media upload lease is too large''
         else
           Inr (\<lambda>x. x\<lparr>mf_receivedChunks := int (length indices), mf_receivedBytes := previous + sz,
                       mf_next := first_missing (mf_count mf) (set indices) (max 0 (mf_next mf)),
                       mf_indices := indices, mf_lease := timestamp + me_lease env, mf_resumable := True\<rparr>))"

section \<open>Operations\<close>

definition xdigit :: "char \<Rightarrow> bool" where
  "xdigit c \<longleftrightarrow> is_digit c \<or> c \<in> set ''abcdefABCDEF''"

definition requireSha256 :: "string \<Rightarrow> bool" where
  "requireSha256 v \<longleftrightarrow> length v = 64 \<and> list_all xdigit v"

definition requireText :: "string \<Rightarrow> bool" where
  "requireText v \<longleftrightarrow> v \<noteq> [] \<and> length v \<le> 128"

record media_request =
  mr_database :: string
  mr_collection :: string
  mr_filename :: string
  mr_contentType :: string
  mr_size :: int
  mr_count :: int
  mr_sha256 :: string

definition request_ok :: "media_request \<Rightarrow> bool" where
  "request_ok r \<longleftrightarrow> requireText (mr_database r) \<and> requireText (mr_collection r) \<and> requireText (mr_filename r)
     \<and> requireText (mr_contentType r) \<and> requireSha256 (mr_sha256 r) \<and> \<not> mr_size r < 0 \<and> \<not> mr_count r \<le> 0"

definition new_manifest :: "media_env \<Rightarrow> media_request \<Rightarrow> int \<Rightarrow> media_manifest" where
  "new_manifest env r timestamp =
     \<lparr>mf_database = mr_database r, mf_collection = mr_collection r, mf_filename = mr_filename r,
      mf_contentType = mr_contentType r, mf_size = mr_size r, mf_count = mr_count r, mf_sha256 = mr_sha256 r,
      mf_status = uploading, mf_receivedChunks = 0, mf_receivedBytes = 0, mf_next = 0, mf_indices = [],
      mf_lease = timestamp + me_lease env, mf_resumable = True\<rparr>"

text \<open>\<open>mediaId\<close> is the generated identifier.\<close>

definition beginMedia :: "media_env \<Rightarrow> string \<Rightarrow> media_request \<Rightarrow> int \<Rightarrow> media_db \<Rightarrow> string media_run" where
  "beginMedia env mediaId r timestamp db =
     (if \<not> request_ok r then ([], Inl ''invalid media request'')
      else if max_ll - timestamp < me_lease env then ([], Inl ''media upload lease is too large'')
      else ([db\<lparr>md_manifests := md_manifests db @ [(mediaId, new_manifest env r timestamp)]\<rparr>], Inr mediaId))"

definition resumeMedia :: "media_env \<Rightarrow> string \<Rightarrow> media_request \<Rightarrow> int \<Rightarrow> media_db \<Rightarrow> string media_run" where
  "resumeMedia env m r timestamp db =
     (if \<not> request_ok r then ([], Inl ''invalid media request'')
      else
        case rawMedia m db of
          None \<Rightarrow> ([], Inl ''media upload not found'')
        | Some mf \<Rightarrow>
           (if mf_status mf = ready
            then ([], case progressFields mf (rawMediaChunks m db) of Inl e \<Rightarrow> Inl e | Inr f \<Rightarrow> Inr m)
            else if mf_status mf = failed \<or> mf_status mf = aborted then ([], Inl ''media upload is not resumable'')
            else if mf_database mf \<noteq> mr_database r \<or> mf_collection mf \<noteq> mr_collection r \<or> mf_filename mf \<noteq> mr_filename r
                    \<or> mf_contentType mf \<noteq> mr_contentType r \<or> mf_size mf \<noteq> mr_size r \<or> mf_count mf \<noteq> mr_count r
                    \<or> mf_sha256 mf \<noteq> mr_sha256 r
            then ([], Inl ''resume metadata does not match existing upload'')
            else if max_ll - timestamp < me_lease env then ([], Inl ''media upload lease is too large'')
            else
              let lease = timestamp + me_lease env
              in case progressFields (mf\<lparr>mf_lease := lease\<rparr>) (rawMediaChunks m db) of
                   Inl e \<Rightarrow> ([], Inl e)
                 | Inr f \<Rightarrow> ([updateManifest m (\<lambda>x. (f x)\<lparr>mf_lease := lease\<rparr>) db], Inr m)))"

text \<open>Fail the upload and drop its chunks.\<close>

definition fail_media :: "string \<Rightarrow> media_db \<Rightarrow> media_db list" where
  "fail_media m db =
     (let db1 = updateManifest m (\<lambda>x. x\<lparr>mf_status := failed, mf_resumable := False\<rparr>) db
      in db1 # deleteOwnedChunks m db1)"

text \<open>The result is whether the chunk was stored before.\<close>

definition putMediaChunk ::
    "media_env \<Rightarrow> string \<Rightarrow> int \<Rightarrow> string \<Rightarrow> int \<Rightarrow> string \<Rightarrow> int \<Rightarrow> media_db \<Rightarrow> bool media_run" where
  "putMediaChunk env m index dataBase64 sz sha256 timestamp db =
     (if \<not> requireSha256 sha256 then ([], Inl ''sha256 must contain 64 hexadecimal characters'')
      else
        case me_decode env dataBase64 of
          None \<Rightarrow> ([], Inl ''invalid base64 media chunk'')
        | Some payload \<Rightarrow>
           (if sz < 0 \<or> int (length payload) \<noteq> sz then ([], Inl ''media chunk size does not match payload'')
            else if me_sha256 env payload \<noteq> sha256 then ([], Inl ''media chunk checksum does not match payload'')
            else
              case rawMedia m db of
                None \<Rightarrow> ([], Inl ''media upload not found'')
              | Some mf \<Rightarrow>
                 (if mf_status mf \<noteq> uploading then ([], Inl ''media upload is not accepting chunks'')
                  else if index < 0 \<or> mf_count mf \<le> index then ([], Inl ''media chunk index is out of range'')
                  else
                    case map_of (md_chunks db) (chunkId m index) of
                      Some c \<Rightarrow>
                        (if mc_sha256 c = sha256 \<and> mc_size c = sz
                         then
                           let lease = timestamp + me_lease env
                           in case progressFields (mf\<lparr>mf_lease := lease\<rparr>) (rawMediaChunks m db) of
                                Inl e \<Rightarrow> ([], Inl e)
                              | Inr f \<Rightarrow> ([updateManifest m (\<lambda>x. (f x)\<lparr>mf_lease := lease\<rparr>) db], Inr True)
                         else (fail_media m db, Inl ''media chunk conflicts with committed chunk''))
                    | None \<Rightarrow>
                        (let db1 = db\<lparr>md_chunks := md_chunks db @ [(chunkId m index,
                               \<lparr>mc_media = m, mc_index = index, mc_size = sz, mc_sha256 = sha256, mc_data = dataBase64\<rparr>)]\<rparr>
                         in case advanceMediaProgress env mf index sz timestamp of
                              Inl e \<Rightarrow> ([db1], Inl e)
                            | Inr f \<Rightarrow> ([db1, updateManifest m f db1], Inr False)))))"

text \<open>The verification loop over the chunks, with the bytes hashed so far.\<close>

fun verify_loop ::
    "media_env \<Rightarrow> string \<Rightarrow> media_db \<Rightarrow> media_chunk list \<Rightarrow> int list \<Rightarrow> int \<Rightarrow> bytes \<Rightarrow> string + int \<times> bytes" where
  "verify_loop env m db chunks [] tot hashed = Inr (tot, hashed)"
| "verify_loop env m db chunks (i # is) tot hashed =
     (if length chunks \<le> nat i \<or> mc_index (chunks ! nat i) \<noteq> i then Inl ''media upload has missing chunks''
      else
        case map_of (md_chunks db) (chunkId m i) of
          None \<Rightarrow> Inl ''media upload has missing chunks''
        | Some c \<Rightarrow>
           (case me_decode env (mc_data c) of
              None \<Rightarrow> Inl ''invalid base64 media chunk''
            | Some b \<Rightarrow>
               (if me_sha256 env b \<noteq> mc_sha256 c \<or> int (length b) \<noteq> mc_size c then Inl ''media chunk checksum mismatch''
                else if max_ll - tot < int (length b) then Inl ''media size overflow''
                else verify_loop env m db chunks is (tot + int (length b)) (hashed @ b))))"

text \<open>The result is whether the upload is ready (and not still missing chunks).\<close>

definition finalizeMedia :: "media_env \<Rightarrow> string \<Rightarrow> media_db \<Rightarrow> bool media_run" where
  "finalizeMedia env m db =
     (case rawMedia m db of
        None \<Rightarrow> ([], Inl ''media upload not found'')
      | Some mf \<Rightarrow>
         (let chunks = rawMediaChunks m db
          in if mf_status mf = ready
             then ([], case progressFields mf chunks of Inl e \<Rightarrow> Inl e | Inr f \<Rightarrow> Inr True)
             else if mf_status mf = failed \<or> mf_status mf = aborted then ([], Inl ''media upload is not finalizable'')
             else
               case progressFields mf chunks of
                 Inl e \<Rightarrow> ([], Inl e)
               | Inr f \<Rightarrow>
                  (let db1 = updateManifest m f db
                   in if mf_receivedChunks (f mf) \<noteq> mf_count mf then ([db1], Inr False)
                      else if \<not> canTransition (mf_status mf) verifying
                      then ([db1], Inl ''illegal media verification transition'')
                      else
                        let db2 = updateManifest m (\<lambda>x. x\<lparr>mf_status := verifying, mf_resumable := True\<rparr>) db1
                        in case verify_loop env m db2 chunks [0..mf_count mf - 1] 0 [] of
                             Inl e \<Rightarrow> (db1 # db2 # fail_media m db2, Inl e)
                           | Inr (tot, hashed) \<Rightarrow>
                              (if tot \<noteq> mf_size mf \<or> me_sha256 env hashed \<noteq> mf_sha256 mf
                               then (db1 # db2 # fail_media m db2, Inl ''media checksum or size does not match manifest'')
                               else ([db1, db2, updateManifest m (\<lambda>x. (f x)\<lparr>mf_status := ready, mf_resumable := False\<rparr>) db2],
                                     Inr True)))))"

definition deleteMedia :: "string \<Rightarrow> bool \<Rightarrow> media_db \<Rightarrow> bool media_run" where
  "deleteMedia m allowReady db =
     (case rawMedia m db of
        None \<Rightarrow> ([], Inr False)
      | Some mf \<Rightarrow>
         (if \<not> allowReady \<and> mf_status mf = ready then ([], Inr False)
          else
            let dbs = deleteOwnedChunks m db; db1 = last (db # dbs)
            in (dbs @ [db1\<lparr>md_manifests := filter (\<lambda>(k, v). k \<noteq> m) (md_manifests db1)\<rparr>], Inr True)))"

text \<open>Drop the chunks, then mark the upload as aborted.\<close>

definition abort_media :: "string \<Rightarrow> media_manifest \<Rightarrow> media_db \<Rightarrow> media_db list" where
  "abort_media m mf db =
     (let dbs = deleteOwnedChunks m db
      in dbs @ [updateManifest m (\<lambda>x. x\<lparr>mf_status := aborted, mf_resumable := False, mf_receivedChunks := 0,
                  mf_receivedBytes := 0, mf_next := mf_count mf, mf_indices := []\<rparr>) (last (db # dbs))])"

definition cleanupMedia :: "string \<Rightarrow> media_db \<Rightarrow> int media_run" where
  "cleanupMedia m db =
     (case rawMedia m db of
        None \<Rightarrow> ([], Inr 0)
      | Some mf \<Rightarrow>
         (if mf_status mf = ready \<or> mf_status mf = aborted then ([], Inr 0)
          else if \<not> canTransition (mf_status mf) aborted then ([], Inl ''illegal media cleanup transition'')
          else (abort_media m mf db, Inr 1)))"

section \<open>Reconciliation\<close>

text \<open>The body of the loop for one upload: \<open>mf\<close> is the manifest as it was read before the lock was taken.\<close>

definition reconcile_upload :: "string \<Rightarrow> media_manifest \<Rightarrow> int \<Rightarrow> media_db \<Rightarrow> unit media_run" where
  "reconcile_upload m mf timestamp db =
     (let reset = (mf_status mf = verifying);
          mf1 = (if reset then mf\<lparr>mf_status := uploading\<rparr> else mf);
          db1 = (if reset then updateManifest m (\<lambda>x. x\<lparr>mf_status := uploading, mf_resumable := True\<rparr>) db else db);
          pre = (if reset then [db1] else [])
      in if mf_status mf1 \<noteq> ready \<and> mf_status mf1 \<noteq> aborted \<and> mf_lease mf1 \<le> 0
         then (pre, Inl ''media lease expiry must be positive'')
         else if mf_status mf1 \<noteq> ready \<and> mf_status mf1 \<noteq> aborted \<and> mf_lease mf1 \<le> timestamp
         then (pre @ abort_media m mf1 db1, Inr ())
         else
           let dels = (if mf_status mf1 = failed \<or> mf_status mf1 = aborted then deleteOwnedChunks m db1 else []);
               db2 = last (db1 # dels)
           in case progressFields mf1 (rawMediaChunks m db2) of
                Inl e \<Rightarrow> (pre @ dels, Inl e)
              | Inr f \<Rightarrow>
                 (let new = f mf1
                  in if mf_receivedChunks mf1 \<noteq> mf_receivedChunks new \<or> mf_receivedBytes mf1 \<noteq> mf_receivedBytes new
                        \<or> mf_next mf1 \<noteq> mf_next new \<or> mf_indices mf1 \<noteq> mf_indices new
                        \<or> mf_resumable mf1 \<noteq> mf_resumable new
                     then (pre @ dels @ [updateManifest m f db2], Inr ())
                     else (pre @ dels, Inr ())))"

text \<open>Rows whose owner is not among the uploads that were listed.\<close>

definition remove_orphans :: "string set \<Rightarrow> media_db \<Rightarrow> media_db list" where
  "remove_orphans known db =
     delete_rows (map fst (filter (\<lambda>(k, c). mc_media c = [] \<or> mc_media c \<notin> known) (md_chunks db))) db"

text \<open>What is left of \<open>reconcileMedia\<close> for one named upload: the named upload when it exists and the caller
  may touch its database, and otherwise the rows that carry its name.\<close>

definition reconcile_named :: "(string \<Rightarrow> bool) \<Rightarrow> string \<Rightarrow> int \<Rightarrow> media_db \<Rightarrow> unit media_run" where
  "reconcile_named authorize m timestamp db =
     (case rawMedia m db of
        Some mf \<Rightarrow> if authorize (mf_database mf) then reconcile_upload m mf timestamp db else (deleteOwnedChunks m db, Inr ())
      | None \<Rightarrow> (deleteOwnedChunks m db, Inr ()))"

end
