(* ===== verification/Media_Laws.thy ===== *)
theory Media_Laws
  imports Media_Catalog
begin

text \<open>
  The lifecycle of uploads under operations and crashes: an upload that says \<open>ready\<close> has all its bytes, and
  the status only moves the way \<open>canTransition\<close> allows.
\<close>

section \<open>Runs\<close>

text \<open>The operations on uploads.  A reconciliation reads the manifest and works on it in one step; the orphans are
  removed with every upload listed.\<close>

datatype media_op =
    Begin string media_request int
  | Resume string media_request int
  | Put string int string int string int
  | Finalize string
  | Delete string bool
  | Cleanup string
  | Reconcile string int
  | Orphans

fun run_op :: "media_env \<Rightarrow> media_op \<Rightarrow> media_db \<Rightarrow> media_db list" where
  "run_op env (Begin m r t) db = (if m \<noteq> [] \<and> rawMedia m db = None then fst (beginMedia env m r t db) else [])"
| "run_op env (Resume m r t) db = fst (resumeMedia env m r t db)"
| "run_op env (Put m i dat sz sha t) db = fst (putMediaChunk env m i dat sz sha t db)"
| "run_op env (Finalize m) db = fst (finalizeMedia env m db)"
| "run_op env (Delete m allowReady) db = fst (deleteMedia m allowReady db)"
| "run_op env (Cleanup m) db = fst (cleanupMedia m db)"
| "run_op env (Reconcile m t) db = (case rawMedia m db of None \<Rightarrow> [] | Some mf \<Rightarrow> fst (reconcile_upload m mf t db))"
| "run_op env Orphans db = remove_orphans (fst ` set (md_manifests db)) db"

text \<open>The removal of an upload that is ready: its rows go first and its manifest last.\<close>

definition removes_ready :: "media_op \<Rightarrow> media_db \<Rightarrow> bool" where
  "removes_ready op db = (case op of Delete m allowReady \<Rightarrow> map_option mf_status (rawMedia m db) = Some ready | _ \<Rightarrow> False)"

definition empty_db :: media_db where
  "empty_db = \<lparr>md_manifests = [], md_chunks = []\<rparr>"

inductive media_reachable :: "media_env \<Rightarrow> media_db \<Rightarrow> bool" for env where
  start: "media_reachable env empty_db"
| finish: "media_reachable env db \<Longrightarrow> media_reachable env (last (db # run_op env op db))"
| crash: "media_reachable env db \<Longrightarrow> db' \<in> set (run_op env op db) \<Longrightarrow> \<not> removes_ready op db \<Longrightarrow> media_reachable env db'"

section \<open>The invariant\<close>

definition row_bytes :: "media_env \<Rightarrow> string \<Rightarrow> media_db \<Rightarrow> int \<Rightarrow> bytes option" where
  "row_bytes env m db i = Option.bind (map_of (md_chunks db) (chunkId m i)) (\<lambda>c. me_decode env (mc_data c))"

text \<open>What a reader gets who fetches the chunks one by one.\<close>

definition media_content :: "media_env \<Rightarrow> string \<Rightarrow> int \<Rightarrow> media_db \<Rightarrow> bytes option" where
  "media_content env m n db = map_option concat (those (map (row_bytes env m db) [0..n - 1]))"

definition content_ok :: "media_env \<Rightarrow> media_db \<Rightarrow> string \<Rightarrow> media_manifest \<Rightarrow> bool" where
  "content_ok env db m mf \<longleftrightarrow> (case media_content env m (mf_count mf) db of
     None \<Rightarrow> False | Some b \<Rightarrow> int (length b) = mf_size mf \<and> me_sha256 env b = mf_sha256 mf)"

definition media_inv :: "media_env \<Rightarrow> media_db \<Rightarrow> bool" where
  "media_inv env db \<longleftrightarrow> rawMedia [] db = None \<and> distinct (map fst (md_manifests db)) \<and> distinct (map fst (md_chunks db))
     \<and> (\<forall>(k, c) \<in> set (md_chunks db). \<exists>i. k = chunkId (mc_media c) i)
     \<and> (\<forall>(m, mf) \<in> set (md_manifests db). mf_status mf = ready \<longrightarrow> content_ok env db m mf)"

lemma dec_string_no_colon: "CHR '':'' \<notin> set (dec_string n)"
proof (induction n rule: dec_string.induct)
  case (1 n)
  have d: "digit_char k \<noteq> CHR '':''" if "k < 10" for k
  proof
    assume "digit_char k = CHR '':''"
    then have "(of_char (char_of (48 + k)) :: nat) = of_char CHR '':''"
      by (simp add: digit_char_def)
    then show False
      using that by simp
  qed
  show ?case
    using 1 d [of n] d [of "n mod 10"] by (auto simp: dec_string.simps [of n])
qed

lemma chunkId_media: "chunkId a i = chunkId b j \<Longrightarrow> a = b"
proof -
  have split: "dropWhile (\<lambda>c. c \<noteq> CHR '':'') (rev (chunkId m k)) = CHR '':'' # rev m" for m k
    unfolding chunkId_def using dec_string_no_colon [of "nat k"]
    by (simp, subst dropWhile_append2) auto
  assume "chunkId a i = chunkId b j"
  then have "CHR '':'' # rev a = CHR '':'' # rev b"
    using split [of a i] split [of b j] by simp
  then show "a = b"
    by simp
qed

lemma map_of_update_at:
  "map_of (map (\<lambda>(k, v). (k, if k = m then f v else v)) xs) m' = (if m' = m then map_option f (map_of xs m) else map_of xs m')"
  by (induction xs) auto

lemma rawMedia_update:
  "rawMedia m' (updateManifest m f db) = (if m' = m then map_option f (rawMedia m db) else rawMedia m' db)"
  by (simp add: rawMedia_def updateManifest_def map_of_update_at)

lemma chunks_update [simp]: "md_chunks (updateManifest m f db) = md_chunks db"
  by (simp add: updateManifest_def)

lemma content_ok_chunks: "md_chunks db' = md_chunks db \<Longrightarrow> content_ok env db' m mf = content_ok env db m mf"
proof -
  assume eq: "md_chunks db' = md_chunks db"
  have "row_bytes env m db' = row_bytes env m db"
    by (intro ext) (simp add: row_bytes_def eq)
  then show ?thesis
    by (simp add: content_ok_def media_content_def)
qed

lemma content_ok_fields:
  "mf_count mf' = mf_count mf \<Longrightarrow> mf_size mf' = mf_size mf \<Longrightarrow> mf_sha256 mf' = mf_sha256 mf
   \<Longrightarrow> content_ok env db m mf \<Longrightarrow> content_ok env db m mf'"
  by (auto simp: content_ok_def split: option.splits)

text \<open>The rows of a ready upload are all there, so what keeps them keeps its content.\<close>

lemma content_ok_mono:
  assumes "content_ok env db m mf"
    and "\<And>i c. map_of (md_chunks db) (chunkId m i) = Some c \<Longrightarrow> map_of (md_chunks db') (chunkId m i) = Some c"
  shows "content_ok env db' m mf"
proof -
  have "those (map (row_bytes env m db') is) = Some bs" if "those (map (row_bytes env m db) is) = Some bs" for "is" bs
    using that
  proof (induction "is" arbitrary: bs)
    case (Cons i "is")
    then obtain b bs' where b: "row_bytes env m db i = Some b" "those (map (row_bytes env m db) is) = Some bs'" "bs = b # bs'"
      by (auto split: option.splits)
    have "row_bytes env m db' i = Some b"
      using b(1) assms(2) by (auto simp: row_bytes_def bind_eq_Some_conv)
    then show ?case
      using Cons.IH [OF b(2)] b(3) by simp
  qed simp
  then show ?thesis
    using assms(1) by (auto simp: content_ok_def media_content_def split: option.splits)
qed

lemma media_inv_ready:
  "media_inv env db \<Longrightarrow> rawMedia m db = Some mf \<Longrightarrow> mf_status mf = ready \<Longrightarrow> content_ok env db m mf"
  by (auto simp: media_inv_def rawMedia_def dest: map_of_SomeD)

lemma media_invI:
  assumes "rawMedia [] db = None" "distinct (map fst (md_manifests db))" "distinct (map fst (md_chunks db))"
    "\<forall>(k, c) \<in> set (md_chunks db). \<exists>i. k = chunkId (mc_media c) i"
    "\<And>m mf. rawMedia m db = Some mf \<Longrightarrow> mf_status mf = ready \<Longrightarrow> content_ok env db m mf"
  shows "media_inv env db"
  using assms by (auto simp: media_inv_def rawMedia_def)

lemma update_inv:
  assumes "media_inv env db"
    and "\<And>mf. rawMedia m db = Some mf \<Longrightarrow> mf_status (f mf) = ready \<Longrightarrow> content_ok env db m (f mf)"
  shows "media_inv env (updateManifest m f db)"
proof (rule media_invI)
  show "distinct (map fst (md_manifests (updateManifest m f db)))"
    using assms(1) by (simp add: media_inv_def updateManifest_def comp_def case_prod_unfold)
  fix m' mf'
  assume "rawMedia m' (updateManifest m f db) = Some mf'" "mf_status mf' = ready"
  then show "content_ok env (updateManifest m f db) m' mf'"
    using assms media_inv_ready [of env db m' mf']
    by (auto simp: rawMedia_update content_ok_chunks [of "updateManifest m f db" db] split: if_splits)
qed (use assms(1) in \<open>simp_all add: media_inv_def rawMedia_update\<close>)

text \<open>A row may go when its owner is not ready.\<close>

definition removable :: "string \<Rightarrow> media_db \<Rightarrow> bool" where
  "removable k db \<longleftrightarrow> (\<forall>c mf. (k, c) \<in> set (md_chunks db) \<longrightarrow> rawMedia (mc_media c) db = Some mf \<longrightarrow> mf_status mf \<noteq> ready)"

lemma map_of_filter_key: "map_of (filter (\<lambda>(k', c). k' \<noteq> k) xs) k'' = (if k'' = k then None else map_of xs k'')"
  by (induction xs) auto

lemma rawMedia_delete [simp]: "rawMedia m (delete_chunk k db) = rawMedia m db"
  by (simp add: rawMedia_def delete_chunk_def)

lemma delete_inv:
  assumes inv: "media_inv env db" and rem: "removable k db"
  shows "media_inv env (delete_chunk k db)"
proof (rule media_invI)
  fix m mf
  assume mf: "rawMedia m (delete_chunk k db) = Some mf" "mf_status mf = ready"
  have "map_of (md_chunks (delete_chunk k db)) (chunkId m i) = Some c" if c: "map_of (md_chunks db) (chunkId m i) = Some c" for i c
  proof -
    have row: "(chunkId m i, c) \<in> set (md_chunks db)"
      using c by (rule map_of_SomeD)
    then obtain j where "chunkId m i = chunkId (mc_media c) j"
      using inv by (auto simp: media_inv_def)
    then have "mc_media c = m"
      using chunkId_media by metis
    then have "chunkId m i \<noteq> k"
      using rem row mf by (auto simp: removable_def)
    then show ?thesis
      using c by (simp add: delete_chunk_def map_of_filter_key)
  qed
  then show "content_ok env (delete_chunk k db) m mf"
    using content_ok_mono [OF media_inv_ready [OF inv]] mf by simp
next
  show "rawMedia [] (delete_chunk k db) = None"
    using inv by (simp add: media_inv_def)
qed (use inv in \<open>auto simp: media_inv_def delete_chunk_def distinct_map_filter\<close>)

lemma delete_rows_keep:
  "db' \<in> set (delete_rows ks db) \<Longrightarrow> md_manifests db' = md_manifests db \<and> set (md_chunks db') \<subseteq> set (md_chunks db)"
proof (induction ks arbitrary: db)
  case (Cons k ks)
  have d: "md_manifests (delete_chunk k db) = md_manifests db" "set (md_chunks (delete_chunk k db)) \<subseteq> set (md_chunks db)"
    by (auto simp: delete_chunk_def)
  show ?case
    using Cons.prems Cons.IH [of "delete_chunk k db"] d by auto
qed simp

lemma delete_rows_inv:
  assumes "media_inv env db" "\<forall>k\<in>set ks. removable k db"
  shows "\<forall>db'\<in>set (delete_rows ks db). media_inv env db'"
  using assms
proof (induction ks arbitrary: db)
  case (Cons k ks)
  have "removable k' (delete_chunk k db)" if "k' \<in> set ks" for k'
    using Cons.prems(2) that by (auto simp: removable_def delete_chunk_def rawMedia_def)
  then show ?case
    using Cons.IH [of "delete_chunk k db"] delete_inv Cons.prems by auto
qed simp

lemma owned_removable:
  assumes "rawMedia m db = Some mf" "mf_status mf \<noteq> ready" "distinct (map fst (md_chunks db))"
  shows "\<forall>k\<in>set (map fst (owned m db)). removable k db"
proof
  fix k
  assume "k \<in> set (map fst (owned m db))"
  then obtain c where c: "(k, c) \<in> set (md_chunks db)" "mc_media c = m"
    by (auto simp: owned_def)
  have "c' = c" if "(k, c') \<in> set (md_chunks db)" for c'
    using assms(3) that c(1) by (rule eq_key_imp_eq_value)
  then show "removable k db"
    using assms(1,2) c(2) by (auto simp: removable_def)
qed

lemma insert_inv:
  assumes inv: "media_inv env db" and new: "map_of (md_chunks db) (chunkId m i) = None" "mc_media c = m"
  shows "media_inv env (db\<lparr>md_chunks := md_chunks db @ [(chunkId m i, c)]\<rparr>)" (is "media_inv env ?db")
proof (rule media_invI)
  fix m' mf
  assume mf: "rawMedia m' ?db = Some mf" "mf_status mf = ready"
  then have "content_ok env db m' mf"
    using media_inv_ready [OF inv] by (simp add: rawMedia_def)
  then show "content_ok env ?db m' mf"
    by (rule content_ok_mono) (simp add: map_add_Some_iff)
next
  show "rawMedia [] ?db = None" "distinct (map fst (md_manifests ?db))" "distinct (map fst (md_chunks ?db))"
    using inv new(1) by (simp_all add: media_inv_def rawMedia_def map_of_eq_None_iff)
  show "\<forall>(k, c') \<in> set (md_chunks ?db). \<exists>j. k = chunkId (mc_media c') j"
  proof -
    have "\<forall>(k, c') \<in> set (md_chunks db). \<exists>j. k = chunkId (mc_media c') j" "\<exists>j. chunkId m i = chunkId (mc_media c) j"
      using inv new(2) by (auto simp only: media_inv_def)
    then show ?thesis
      by (simp add: ball_Un)
  qed
qed

section \<open>Operations keep it\<close>

definition legal :: "media_db \<Rightarrow> media_db \<Rightarrow> bool" where
  "legal db db' \<longleftrightarrow> (\<forall>m mf mf'. rawMedia m db = Some mf \<longrightarrow> rawMedia m db' = Some mf'
     \<longrightarrow> canTransition (mf_status mf) (mf_status mf'))"

definition ok_run :: "media_env \<Rightarrow> media_db \<Rightarrow> media_db list \<Rightarrow> bool" where
  "ok_run env db dbs \<longleftrightarrow> (\<forall>d\<in>set dbs. media_inv env d) \<and> successively legal (db # dbs)"

lemma canTransition_refl [simp]: "canTransition s s"
  by (simp add: canTransition_def)

lemma legal_same: "md_manifests db' = md_manifests db \<Longrightarrow> legal db db'"
  by (simp add: legal_def rawMedia_def)

lemma legal_update:
  "rawMedia m db = Some mf \<Longrightarrow> canTransition (mf_status mf) (mf_status (f mf)) \<Longrightarrow> legal db (updateManifest m f db)"
  by (auto simp: legal_def rawMedia_update split: if_splits)

lemma ok_run_Nil [simp]: "ok_run env db []"
  by (simp add: ok_run_def)

lemma ok_run_Cons [simp]: "ok_run env db (d # ds) \<longleftrightarrow> media_inv env d \<and> legal db d \<and> ok_run env d ds"
  by (auto simp: ok_run_def)

lemma ok_run_append: "ok_run env db xs \<Longrightarrow> ok_run env (last (db # xs)) ys \<Longrightarrow> ok_run env db (xs @ ys)"
  by (induction xs arbitrary: db) auto

lemma ok_run_last: "media_inv env db \<Longrightarrow> ok_run env db xs \<Longrightarrow> media_inv env (last (db # xs))"
  by (induction xs arbitrary: db) auto

lemma update_run:
  assumes "media_inv env db" "rawMedia m db = Some mf" "canTransition (mf_status mf) (mf_status (f mf))"
    and "mf_status (f mf) = ready \<Longrightarrow> content_ok env db m (f mf)"
  shows "ok_run env db [updateManifest m f db]"
  using assms update_inv [of env db m f] legal_update by auto

lemma delete_rows_legal: "successively legal (db # delete_rows ks db)"
  by (induction ks arbitrary: db) (auto intro: legal_same simp: delete_chunk_def)

lemma delete_owned_run:
  assumes "media_inv env db" "rawMedia m db = Some mf" "mf_status mf \<noteq> ready"
  shows "ok_run env db (deleteOwnedChunks m db)"
    and "rawMedia m' (last (db # deleteOwnedChunks m db)) = rawMedia m' db"
proof -
  have "distinct (map fst (md_chunks db))"
    using assms(1) by (simp add: media_inv_def)
  then show "ok_run env db (deleteOwnedChunks m db)"
    unfolding ok_run_def deleteOwnedChunks_def
    using delete_rows_inv [OF assms(1) owned_removable [OF assms(2,3)]] delete_rows_legal by blast
  have "md_manifests (last (db # deleteOwnedChunks m db)) = md_manifests db"
    using delete_rows_keep last_in_set unfolding deleteOwnedChunks_def by fastforce
  then show "rawMedia m' (last (db # deleteOwnedChunks m db)) = rawMedia m' db"
    by (simp add: rawMedia_def)
qed

lemma fail_run:
  assumes inv: "media_inv env db" and mf: "rawMedia m db = Some mf" "mf_status mf = uploading \<or> mf_status mf = verifying"
  shows "ok_run env db (fail_media m db)"
proof -
  let ?f = "\<lambda>x. x\<lparr>mf_status := failed, mf_resumable := False\<rparr>" and ?db = "updateManifest m (\<lambda>x. x\<lparr>mf_status := failed, mf_resumable := False\<rparr>) db"
  have u: "ok_run env db [?db]"
    by (rule update_run [OF inv mf(1)]) (use mf(2) in \<open>auto simp: canTransition_def\<close>)
  have "ok_run env ?db (deleteOwnedChunks m ?db)"
    by (rule delete_owned_run(1) [where mf = "?f mf"]) (use u mf(1) in \<open>simp_all add: rawMedia_update\<close>)
  then show ?thesis
    using u by (simp add: fail_media_def Let_def)
qed

lemma abort_run:
  assumes inv: "media_inv env db" and mf: "rawMedia m db = Some mf" "mf_status mf \<noteq> ready" "mf_status mf \<noteq> aborted"
  shows "ok_run env db (abort_media m mf' db)"
proof -
  let ?dbs = "deleteOwnedChunks m db"
  let ?f = "\<lambda>x. x\<lparr>mf_status := aborted, mf_resumable := False, mf_receivedChunks := 0,
      mf_receivedBytes := 0, mf_next := mf_count mf', mf_indices := []\<rparr>"
  note d = delete_owned_run [OF inv mf(1,2)]
  have ct: "canTransition (mf_status mf) aborted"
    using mf(2,3) by (cases "mf_status mf") (simp_all add: canTransition_def)
  have "ok_run env (last (db # ?dbs)) [updateManifest m ?f (last (db # ?dbs))]"
    by (rule update_run [OF ok_run_last [OF inv d(1)], where mf = mf])
      (use mf d(2) ct in simp_all)
  then show ?thesis
    unfolding abort_media_def Let_def by (rule ok_run_append [OF d(1)])
qed

lemma progress_status: "progressFields mf cs = Inr f \<Longrightarrow> mf_status (f x) = mf_status x \<and> mf_count (f x) = mf_count x
    \<and> mf_size (f x) = mf_size x \<and> mf_sha256 (f x) = mf_sha256 x"
  by (auto simp: progressFields_def apply_progress_def split: sum.splits)

lemma advance_status: "advanceMediaProgress env mf i sz t = Inr f \<Longrightarrow> mf_status (f x) = mf_status x"
  by (auto simp: advanceMediaProgress_def Let_def split: if_splits)

lemma begin_run: "media_inv env db \<Longrightarrow> m \<noteq> [] \<Longrightarrow> rawMedia m db = None \<Longrightarrow> ok_run env db (fst (beginMedia env m r t db))"
proof -
  assume inv: "media_inv env db" and new: "rawMedia m db = None" and ne: "m \<noteq> []"
  let ?db = "db\<lparr>md_manifests := md_manifests db @ [(m, new_manifest env r t)]\<rparr>"
  have raw: "rawMedia m' ?db = (if m' = m then Some (new_manifest env r t) else rawMedia m' db)" for m'
    using new by (auto simp: rawMedia_def map_add_def split: option.splits)
  have "media_inv env ?db"
  proof (rule media_invI)
    fix m' mf
    assume "rawMedia m' ?db = Some mf" "mf_status mf = ready"
    then have "content_ok env db m' mf"
      using media_inv_ready [OF inv] unfolding raw by (auto simp: new_manifest_def split: if_splits)
    then show "content_ok env ?db m' mf"
      using content_ok_chunks [of ?db db] by simp
  next
    show "rawMedia [] ?db = None"
      using inv ne unfolding raw by (simp add: media_inv_def)
  qed (use inv new in \<open>simp_all add: media_inv_def rawMedia_def map_of_eq_None_iff\<close>)
  moreover have "legal db ?db"
    using new unfolding legal_def raw by auto
  ultimately show ?thesis
    by (simp add: beginMedia_def)
qed

lemma resume_run:
  assumes "media_inv env db"
  shows "ok_run env db (fst (resumeMedia env m r t db))"
proof (cases "rawMedia m db")
  case (Some mf)
  have "ok_run env db [updateManifest m (\<lambda>x. (f x)\<lparr>mf_lease := l\<rparr>) db]"
    if "progressFields mf' cs = Inr f" "mf_status mf \<noteq> ready" for f l mf' cs
    by (rule update_run [OF assms Some]) (use progress_status [OF that(1)] that(2) in simp_all)
  then show ?thesis
    using Some by (auto simp: resumeMedia_def Let_def split: sum.splits)
qed (simp add: resumeMedia_def)

lemma put_run:
  assumes inv: "media_inv env db"
  shows "ok_run env db (fst (putMediaChunk env m i dat sz sha t db))"
proof (cases "rawMedia m db")
  case (Some mf)
  let ?c = "\<lparr>mc_media = m, mc_index = i, mc_size = sz, mc_sha256 = sha, mc_data = dat\<rparr>"
  let ?db = "db\<lparr>md_chunks := md_chunks db @ [(chunkId m i, ?c)]\<rparr>"
  have dup: "ok_run env db [updateManifest m (\<lambda>x. (f x)\<lparr>mf_lease := l\<rparr>) db]"
    if "progressFields mf' cs = Inr f" "mf_status mf = uploading" for f l mf' cs
    by (rule update_run [OF inv Some]) (use progress_status [OF that(1)] that(2) in simp_all)
  have fail: "ok_run env db (fail_media m db)" if "mf_status mf = uploading"
    using fail_run [OF inv Some] that by simp
  have new: "ok_run env db [?db]" if "map_of (md_chunks db) (chunkId m i) = None"
    using insert_inv [OF inv that, of ?c] legal_same [of ?db db] by simp
  have adv: "ok_run env db [?db, updateManifest m f ?db]"
    if st: "mf_status mf = uploading" and no: "map_of (md_chunks db) (chunkId m i) = None"
      and f: "advanceMediaProgress env mf i sz t = Inr f" for f
  proof -
    have "ok_run env ?db [updateManifest m f ?db]"
      by (rule update_run [where mf = mf]) (use new [OF no] Some st advance_status [OF f] in \<open>simp_all add: rawMedia_def\<close>)
    then show ?thesis
      using new [OF no] by simp
  qed
  show ?thesis
    using Some dup fail new adv
    by (auto simp: putMediaChunk_def Let_def simp del: ok_run_Cons split: option.splits sum.splits)
qed (simp add: putMediaChunk_def split: option.splits)

lemma verify_content:
  assumes "verify_loop env m db cs is n h = Inr (n', h')"
  shows "\<exists>bs. those (map (row_bytes env m db) is) = Some bs \<and> h' = h @ concat bs \<and> n' = n + int (length (concat bs))"
  using assms
proof (induction "is" arbitrary: n h)
  case (Cons i "is")
  obtain c b where row: "map_of (md_chunks db) (chunkId m i) = Some c" "me_decode env (mc_data c) = Some b"
    and rest: "verify_loop env m db cs is (n + int (length b)) (h @ b) = Inr (n', h')"
    using Cons.prems by (auto split: option.splits if_splits)
  have "row_bytes env m db i = Some b"
    using row by (simp add: row_bytes_def)
  then show ?case
    using Cons.IH [OF rest] by auto
qed simp

lemma finalize_run:
  assumes inv: "media_inv env db"
  shows "ok_run env db (fst (finalizeMedia env m db))"
proof (cases "rawMedia m db")
  case (Some mf)
  let ?g = "\<lambda>x. x\<lparr>mf_status := verifying, mf_resumable := True\<rparr>"
  let ?db1 = "\<lambda>f. updateManifest m f db" and ?db2 = "\<lambda>f. updateManifest m ?g (updateManifest m f db)"
  let ?h = "\<lambda>f x. (f x)\<lparr>mf_status := ready, mf_resumable := False\<rparr>"
  have run: "ok_run env db [?db1 f]" "ok_run env (?db1 f) [?db2 f]" "ok_run env (?db2 f) (fail_media m (?db2 f))"
    and fin: "tot = mf_size mf \<Longrightarrow> me_sha256 env hashed = mf_sha256 mf
      \<Longrightarrow> verify_loop env m (?db2 f) cs [0..mf_count mf - 1] 0 [] = Inr (tot, hashed)
      \<Longrightarrow> ok_run env (?db2 f) [updateManifest m (?h f) (?db2 f)]"
    if f: "progressFields mf cs' = Inr f" and st: "mf_status mf = uploading \<or> mf_status mf = verifying"
    for f cs cs' tot hashed
  proof -
    note pf = progress_status [OF f]
    show 1: "ok_run env db [?db1 f]"
      by (rule update_run [OF inv Some]) (use pf st in auto)
    show 2: "ok_run env (?db1 f) [?db2 f]"
      by (rule update_run [where mf = "f mf"]) (use 1 pf st Some in \<open>auto simp: rawMedia_update canTransition_def\<close>)
    have raw: "rawMedia m (?db2 f) = Some (?g (f mf))"
      using Some by (simp add: rawMedia_update)
    show "ok_run env (?db2 f) (fail_media m (?db2 f))"
      by (rule fail_run [OF _ raw]) (use 2 in simp_all)
    show "ok_run env (?db2 f) [updateManifest m (?h f) (?db2 f)]"
      if v: "tot = mf_size mf" "me_sha256 env hashed = mf_sha256 mf"
        "verify_loop env m (?db2 f) cs [0..mf_count mf - 1] 0 [] = Inr (tot, hashed)"
    proof (rule update_run [OF _ raw])
      show "content_ok env (?db2 f) m (?h f (?g (f mf)))"
        using verify_content [OF v(3)] v(1,2) pf by (auto simp: content_ok_def media_content_def)
    qed (use 2 pf in \<open>simp_all add: canTransition_def\<close>)
  qed
  show ?thesis
    using Some run fin
    by (cases "mf_status mf") (auto simp: finalizeMedia_def Let_def split: sum.splits)
qed (simp add: finalizeMedia_def)

text \<open>The removal of an upload: in the end its manifest and its rows are gone, which is the same as dropping
  the manifest first.\<close>

definition drop_manifest :: "string \<Rightarrow> media_db \<Rightarrow> media_db" where
  "drop_manifest m db = db\<lparr>md_manifests := filter (\<lambda>(k, v). k \<noteq> m) (md_manifests db)\<rparr>"

lemma rawMedia_drop: "rawMedia m' (drop_manifest m db) = (if m' = m then None else rawMedia m' db)"
  by (simp add: rawMedia_def drop_manifest_def map_of_filter_key)

lemma chunks_drop [simp]: "md_chunks (drop_manifest m db) = md_chunks db"
  by (simp add: drop_manifest_def)

lemma drop_inv: "media_inv env db \<Longrightarrow> media_inv env (drop_manifest m db)"
proof (rule media_invI)
  fix m' mf
  assume inv: "media_inv env db" and "rawMedia m' (drop_manifest m db) = Some mf" "mf_status mf = ready"
  then have "content_ok env db m' mf"
    using media_inv_ready by (simp add: rawMedia_drop split: if_splits)
  then show "content_ok env (drop_manifest m db) m' mf"
    using content_ok_chunks [of "drop_manifest m db" db] by (simp add: drop_manifest_def)
next
  assume "media_inv env db"
  then show "rawMedia [] (drop_manifest m db) = None"
    by (simp add: rawMedia_drop media_inv_def)
qed (simp_all add: media_inv_def drop_manifest_def distinct_map_filter)

lemma drop_delete_rows: "drop_manifest m (last (db # delete_rows ks db)) = last (drop_manifest m db # delete_rows ks (drop_manifest m db))"
proof (induction ks arbitrary: db)
  case (Cons k ks)
  have "drop_manifest m (delete_chunk k db) = delete_chunk k (drop_manifest m db)"
    by (simp add: drop_manifest_def delete_chunk_def)
  then show ?case
    using Cons.IH [of "delete_chunk k db"] by simp
qed simp

lemma owned_dropped_removable:
  assumes "distinct (map fst (md_chunks db))"
  shows "\<forall>k\<in>set (map fst (owned m db)). removable k (drop_manifest m db)"
proof
  fix k
  assume "k \<in> set (map fst (owned m db))"
  then obtain c where c: "(k, c) \<in> set (md_chunks db)" "mc_media c = m"
    by (auto simp: owned_def)
  have "c' = c" if "(k, c') \<in> set (md_chunks db)" for c'
    using assms that c(1) by (rule eq_key_imp_eq_value)
  then show "removable k (drop_manifest m db)"
    using c(2) chunks_drop by (auto simp: removable_def rawMedia_drop)
qed

lemma delete_final_inv:
  assumes inv: "media_inv env db"
  shows "media_inv env (drop_manifest m (last (db # deleteOwnedChunks m db)))"
proof -
  let ?db = "drop_manifest m db"
  have "distinct (map fst (md_chunks db))"
    using inv by (simp add: media_inv_def)
  then have "\<forall>d\<in>set (delete_rows (map fst (owned m db)) ?db). media_inv env d"
    using delete_rows_inv [OF drop_inv [OF inv]] owned_dropped_removable by blast
  then show ?thesis
    unfolding deleteOwnedChunks_def drop_delete_rows using drop_inv [OF inv] by simp
qed

lemma delete_run:
  assumes inv: "media_inv env db" and nr: "\<not> removes_ready (Delete m allow) db"
  shows "ok_run env db (fst (deleteMedia m allow db))"
proof (cases "rawMedia m db")
  case (Some mf)
  have st: "mf_status mf \<noteq> ready"
    using nr Some by (simp add: removes_ready_def)
  note d = delete_owned_run [OF inv Some st]
  have "ok_run env (last (db # deleteOwnedChunks m db)) [drop_manifest m (last (db # deleteOwnedChunks m db))]"
    using delete_final_inv [OF inv] by (auto simp: legal_def rawMedia_drop)
  then have "ok_run env db (deleteOwnedChunks m db @ [drop_manifest m (last (db # deleteOwnedChunks m db))])"
    by (rule ok_run_append [OF d(1)])
  then show ?thesis
    using Some st by (simp add: deleteMedia_def Let_def drop_manifest_def)
qed (simp add: deleteMedia_def)

lemma cleanup_run: "media_inv env db \<Longrightarrow> ok_run env db (fst (cleanupMedia m db))"
  using abort_run by (auto simp: cleanupMedia_def split: option.splits)

lemma reconcile_run:
  assumes inv: "media_inv env db" and mf: "rawMedia m db = Some mf"
  shows "ok_run env db (fst (reconcile_upload m mf t db))"
proof -
  define mf' where "mf' = (if mf_status mf = verifying then mf\<lparr>mf_status := uploading\<rparr> else mf)"
  define db' where "db' = (if mf_status mf = verifying
     then updateManifest m (\<lambda>x. x\<lparr>mf_status := uploading, mf_resumable := True\<rparr>) db else db)"
  define pre where "pre = (if mf_status mf = verifying then [db'] else [])"
  define dels where "dels = (if mf_status mf' = failed \<or> mf_status mf' = aborted then deleteOwnedChunks m db' else [])"
  note defs = mf'_def db'_def pre_def dels_def
  have pre: "ok_run env db pre" "last (db # pre) = db'"
    using update_run [OF inv mf, of "\<lambda>x. x\<lparr>mf_status := uploading, mf_resumable := True\<rparr>"] by (auto simp: pre_def db'_def canTransition_def)
  have inv1: "media_inv env db'"
    using ok_run_last [OF inv pre(1)] unfolding pre(2) .
  obtain mf1 where mf1: "rawMedia m db' = Some mf1" "mf_status mf1 = mf_status mf'"
    using mf by (cases "mf_status mf = verifying") (simp_all add: db'_def mf'_def rawMedia_update)
  have abort: "ok_run env db (pre @ abort_media m mf' db')" if "mf_status mf' \<noteq> ready" "mf_status mf' \<noteq> aborted"
    by (rule ok_run_append [OF pre(1)], unfold pre(2), rule abort_run [OF inv1 mf1(1)]) (use that mf1(2) in simp_all)
  have dels: "ok_run env db' dels" "rawMedia m (last (db' # dels)) = rawMedia m db'"
    using delete_owned_run [OF inv1 mf1(1)] mf1(2) by (auto simp: dels_def)
  have rest: "ok_run env db (pre @ dels)"
    by (rule ok_run_append [OF pre(1)]) (unfold pre(2), rule dels(1))
  have upd: "ok_run env db (pre @ dels @ [updateManifest m f (last (db' # dels))])"
    if f: "progressFields mf' cs = Inr f" for f cs
  proof -
    have i2: "media_inv env (last (db' # dels))"
      by (rule ok_run_last [OF inv1 dels(1)])
    have r2: "rawMedia m (last (db' # dels)) = Some mf1"
      using dels(2) mf1(1) by simp
    have "ok_run env (last (db' # dels)) [updateManifest m f (last (db' # dels))]"
    proof (rule update_run [OF i2 r2])
      assume "mf_status (f mf1) = ready"
      then have "content_ok env (last (db' # dels)) m mf1"
        using media_inv_ready [OF i2 r2] progress_status [OF f] by simp
      then show "content_ok env (last (db' # dels)) m (f mf1)"
        by (rule content_ok_fields [rotated 3]) (use progress_status [OF f, of mf1] in simp_all)
    qed (use progress_status [OF f] in simp)
    then have "ok_run env db' (dels @ [updateManifest m f (last (db' # dels))])"
      by (rule ok_run_append [OF dels(1)])
    then show ?thesis
      by (intro ok_run_append [OF pre(1)]) (unfold pre(2))
  qed
  have eq: "reconcile_upload m mf t db =
     (if mf_status mf' \<noteq> ready \<and> mf_status mf' \<noteq> aborted \<and> mf_lease mf' \<le> 0
      then (pre, Inl ''media lease expiry must be positive'')
      else if mf_status mf' \<noteq> ready \<and> mf_status mf' \<noteq> aborted \<and> mf_lease mf' \<le> t
      then (pre @ abort_media m mf' db', Inr ())
      else case progressFields mf' (rawMediaChunks m (last (db' # dels))) of
             Inl e \<Rightarrow> (pre @ dels, Inl e)
           | Inr f \<Rightarrow>
              (if mf_receivedChunks mf' \<noteq> mf_receivedChunks (f mf') \<or> mf_receivedBytes mf' \<noteq> mf_receivedBytes (f mf')
                  \<or> mf_next mf' \<noteq> mf_next (f mf') \<or> mf_indices mf' \<noteq> mf_indices (f mf')
                  \<or> mf_resumable mf' \<noteq> mf_resumable (f mf')
               then (pre @ dels @ [updateManifest m f (last (db' # dels))], Inr ())
               else (pre @ dels, Inr ())))"
    unfolding reconcile_upload_def Let_def defs by (rule refl)
  show ?thesis
  proof (cases "progressFields mf' (rawMediaChunks m (last (db' # dels)))")
    case (Inl e)
    then show ?thesis
      unfolding eq using pre(1) abort rest by (simp del: last.simps)
  next
    case (Inr f)
    then show ?thesis
      unfolding eq using pre(1) abort rest upd [OF Inr] by (simp del: last.simps)
  qed
qed

lemma orphans_run:
  assumes inv: "media_inv env db"
  shows "ok_run env db (run_op env Orphans db)"
proof -
  let ?ks = "map fst (filter (\<lambda>(k, c). mc_media c = [] \<or> mc_media c \<notin> fst ` set (md_manifests db)) (md_chunks db))"
  have "removable k db" if k: "k \<in> set ?ks" for k
  proof -
    obtain c where c: "(k, c) \<in> set (md_chunks db)" "mc_media c = [] \<or> mc_media c \<notin> fst ` set (md_manifests db)"
      using k by auto
    have "c' = c" if "(k, c') \<in> set (md_chunks db)" for c'
      using inv that c(1) by (auto simp: media_inv_def intro: eq_key_imp_eq_value)
    moreover have "rawMedia (mc_media c) db = None"
      using c(2) inv by (cases "mc_media c = []") (simp_all add: media_inv_def rawMedia_def map_of_eq_None_iff)
    ultimately show ?thesis
      by (auto simp: removable_def)
  qed
  then show ?thesis
    using delete_rows_inv [OF inv, of ?ks] delete_rows_legal [of db ?ks]
    by (simp add: ok_run_def remove_orphans_def)
qed

lemma op_run:
  assumes "media_inv env db" "\<not> removes_ready op db"
  shows "ok_run env db (run_op env op db)"
  using assms begin_run resume_run put_run finalize_run delete_run cleanup_run reconcile_run orphans_run
  by (cases op) (auto split: option.splits)

lemma op_last:
  assumes "media_inv env db"
  shows "media_inv env (last (db # run_op env op db))"
proof (cases "removes_ready op db")
  case False
  then show ?thesis
    using ok_run_last [OF assms op_run [OF assms]] by blast
next
  case True
  then obtain m allow mf where op: "op = Delete m allow" "rawMedia m db = Some mf"
    by (auto simp: removes_ready_def split: media_op.splits)
  then show ?thesis
    using assms delete_final_inv [OF assms, of m] by (auto simp: deleteMedia_def Let_def drop_manifest_def)
qed

lemma media_reachable_inv: "media_reachable env db \<Longrightarrow> media_inv env db"
proof (induction rule: media_reachable.induct)
  case start
  then show ?case
    by (simp add: media_inv_def empty_db_def rawMedia_def)
next
  case (finish db op)
  then show ?case
    using op_last by blast
next
  case (crash db db' op)
  then show ?case
    using op_run [OF crash.IH crash.hyps(3)] by (simp add: ok_run_def)
qed

end
