(* ===== verification/Media_Props.thy ===== *)
theory Media_Props
  imports Media_Laws
begin

text \<open>The properties of media uploads, and runs that show where the code does not keep them.\<close>

section \<open>Lifecycle\<close>


definition sample_env :: media_env where
  "sample_env = \<lparr>me_decode = (\<lambda>s. Some (map of_char s)), me_sha256 = (\<lambda>b. replicate 64 (CHR ''a'')), me_lease = 1000\<rparr>"

definition sample_request :: "int \<Rightarrow> media_request" where
  "sample_request sz = \<lparr>mr_database = ''db'', mr_collection = ''c'', mr_filename = ''f'', mr_contentType = ''t'', mr_size = sz,
     mr_count = 2, mr_sha256 = replicate 64 (CHR ''a'')\<rparr>"

definition sample_put :: "int \<Rightarrow> string \<Rightarrow> media_op" where
  "sample_put i s = Put ''m'' i s (int (length s)) (replicate 64 (CHR ''a'')) 5"

fun run_ops :: "media_env \<Rightarrow> media_op list \<Rightarrow> media_db \<Rightarrow> media_db" where
  "run_ops env [] db = db"
| "run_ops env (op # ops) db = run_ops env ops (last (db # run_op env op db))"


definition sample_upload :: "media_op list" where
  "sample_upload = [Begin ''m'' (sample_request 5) 5, sample_put 1 ''xyz'', sample_put 0 ''ab'', Finalize ''m'']"





section \<open>Progress\<close>

lemma first_missing_Min:
  assumes "i \<le> n"
  shows "first_missing n r i = Min (insert n ({i..<n} - r))"
proof (rule Min_eqI [symmetric])
  note sp = first_missing_spec [OF assms, of r]
  show "first_missing n r i \<in> insert n ({i..<n} - r)"
    using sp by (cases "first_missing n r i = n") auto
  show "first_missing n r i \<le> y" if "y \<in> insert n ({i..<n} - r)" for y
    using that sp by (cases "y < first_missing n r i") auto
qed simp

text \<open>When the progress of an upload is computed from its chunk documents, the received indices are the
  distinct indices of the documents in increasing order, the bytes are the sum of their sizes and within the
  manifest's size, the next missing index is the least one not received, and neither the order nor repeated
  documents matter: any list with the same documents gives the same progress.\<close>

theorem media_progress_exact:
  assumes "reconstructMediaProgress manifest chunks = Inr p" "jvalue get_ll manifest ''chunk_count'' (- 1) = Some n"
    and "jvalue get_ll manifest ''size_bytes'' (- 1) = Some s" "set chunks' = set chunks"
  shows "reconstructMediaProgress manifest chunks' = Inr p
     \<and> mp_receivedIndices p = sorted_list_of_set (fst ` decoded n chunks)
     \<and> mp_receivedChunks p = int (card (decoded n chunks))
     \<and> mp_receivedBytes p = (\<Sum>(i, sz, sha) \<in> decoded n chunks. sz) \<and> mp_receivedBytes p \<le> s
     \<and> mp_nextMissingIndex p = Min (insert n ({0..<n} - fst ` decoded n chunks))"
proof -
  obtain v l where pr: "progress_of n s v l chunks = Inr p" and n: "0 < n" "0 \<le> s"
    and same: "reconstructMediaProgress manifest cs = progress_of n s v l cs" for cs
    using assms(1-3) by (fastforce simp: reconstructMediaProgress_def split: if_splits option.splits sum.splits)
  obtain d b js where d: "collect_chunks n chunks [] = Inr d" "sum_chunks s d 0 [] = Inr (b, js)"
    and p: "p = \<lparr>mp_stateVersion = v, mp_receivedChunks = int (length d), mp_receivedBytes = b,
      mp_nextMissingIndex = first_missing n (fst ` set d) 0, mp_leaseExpiresAtMs = l, mp_receivedIndices = js\<rparr>"
    using pr by (auto simp: progress_of_def split: sum.splits)
  have "reconstructMediaProgress manifest chunks' = Inr p"
    unfolding same progress_of_def collect_perm [OF d(1) assms(4)] using d(2) p by simp
  moreover have k: "keyed d" "set d = decoded n chunks"
    using collect_sound [OF _ d(1)] by (simp_all add: keyed_def)
  have dist: "distinct d" "distinct (map fst d)" "sorted (map fst d)"
    using k(1) by (auto simp: keyed_def strict_sorted_iff distinct_map)
  have sum: "b = (\<Sum>(i, sz, sha)\<leftarrow>d. sz)" "js = map fst d" "b \<le> s"
    using sum_chunks_spec [OF d(2)] n(2) by (cases d; simp)+
  moreover have "map fst d = sorted_list_of_set (fst ` set d)"
    using sorted_list_of_set.idem_if_sorted_distinct [OF dist(3,2)] by simp
  moreover have "b = (\<Sum>(i, sz, sha) \<in> set d. sz)"
    using sum(1) sum_list_distinct_conv_sum_set [OF dist(1)] by metis
  moreover have "length d = card (set d)"
    using distinct_card [OF dist(1)] by simp
  moreover have "first_missing n (fst ` set d) 0 = Min (insert n ({0..<n} - fst ` set d))"
    using first_missing_Min [of 0 n] n(1) by simp
  ultimately show ?thesis
    using p k(2) by simp
qed

definition sample_chunk :: "int \<Rightarrow> int \<Rightarrow> json" where
  "sample_chunk i sz = JObj [(''index'', JInt (word_of_int i)), (''sha256'', JStr ''h''), (''size_bytes'', JInt (word_of_int sz))]"

definition sample_manifest :: json where
  "sample_manifest = JObj [(''chunk_count'', JInt 3), (''size_bytes'', JInt 9), (''status'', JStr ''uploading'')]"

theorem media_progress_exact_witness:
  "\<exists>p. reconstructMediaProgress sample_manifest [sample_chunk 2 4, sample_chunk 0 3, sample_chunk 2 4] = Inr p
     \<and> reconstructMediaProgress sample_manifest [sample_chunk 0 3, sample_chunk 2 4] = Inr p
     \<and> mp_receivedIndices p = [0, 2] \<and> mp_nextMissingIndex p = 1"
proof -
  let ?cs = "[sample_chunk 2 4, sample_chunk 0 3, sample_chunk 2 4]"
  have "(case reconstructMediaProgress sample_manifest ?cs of Inl e \<Rightarrow> None
      | Inr p \<Rightarrow> Some (mp_receivedIndices p, mp_nextMissingIndex p)) = Some ([0, 2], 1)"
    by code_simp
  then obtain p where p: "reconstructMediaProgress sample_manifest ?cs = Inr p" "mp_receivedIndices p = [0, 2]" "mp_nextMissingIndex p = 1"
    by (auto split: sum.splits)
  have m: "jvalue get_ll sample_manifest ''chunk_count'' (- 1) = Some 3" "jvalue get_ll sample_manifest ''size_bytes'' (- 1) = Some 9"
    by code_simp+
  have "set [sample_chunk 0 3, sample_chunk 2 4] = set ?cs"
    by auto
  from media_progress_exact [OF p(1) m this] show ?thesis
    using p by blast
qed

section \<open>Where the code falls short\<close>

text \<open>The reconciliation of all uploads reads a manifest before it takes the upload's mutex.  When a finalization
  ends in between, the stale manifest still says \<open>verifying\<close> and a ready upload goes back to \<open>uploading\<close>.\<close>

lemma reconcile_reopens_ready:
  assumes "mf_status stale = verifying" "rawMedia m db = Some mf" "mf_status mf = ready"
  shows "\<exists>db' dbs mf'. fst (reconcile_upload m stale t db) = db' # dbs \<and> rawMedia m db' = Some mf' \<and> mf_status mf' = uploading
     \<and> \<not> canTransition (mf_status mf) (mf_status mf')"
  using assms
  by (auto simp: reconcile_upload_def Let_def rawMedia_update canTransition_def split: sum.splits)

text \<open>Reconciling a named upload of a database the caller may not touch deletes its chunks.\<close>

lemma unauthorized_reconcile_deletes:
  "let db = run_ops sample_env sample_upload empty_db
   in map_option mf_status (rawMedia ''m'' db) = Some ready \<and> length (owned ''m'' db) = 2
      \<and> owned ''m'' (last (db # fst (reconcile_named (\<lambda>_. False) ''m'' 6 db))) = []"
  by code_simp

text \<open>A chunk that does not fit the announced size is stored before it is refused; from then on the progress
  of the upload cannot be computed, and neither finalization nor reconciliation gets past it.\<close>

lemma oversized_chunk_sticks:
  "let db = run_ops sample_env [Begin ''m'' (sample_request 4) 5, sample_put 0 ''abc'', sample_put 1 ''xyz''] empty_db
   in length (owned ''m'' db) = 2
      \<and> snd (finalizeMedia sample_env ''m'' db) = Inl ''media progress exceeds manifest size''
      \<and> (case rawMedia ''m'' db of None \<Rightarrow> False
         | Some mf \<Rightarrow> snd (reconcile_upload ''m'' mf 6 db) = Inl ''media progress exceeds manifest size'')"
  by code_simp

text \<open>A crash inside the removal of a ready upload leaves a manifest that says \<open>ready\<close> without its chunks.\<close>

lemma interrupted_removal_stays_ready:
  "let db = run_ops sample_env sample_upload empty_db; d = hd (fst (deleteMedia ''m'' True db))
   in map_option mf_status (rawMedia ''m'' d) = Some ready \<and> media_content sample_env ''m'' 2 d = None"
  by code_simp

end
