(* ===== verification/Durable_Dir.thy ===== *)
theory Durable_Dir
  imports Json
begin

text \<open>
  A directory of regular files as the engine uses it through \<open>durable_file_ops.cpp\<close> and \<open>std::ofstream\<close>:
  names bound to file objects, what of the contents has been synchronised, and which bindings may be found
  after a crash.  A file that has not been synchronised may hold anything after a crash; a name may be bound
  as it was at the last synchronisation of the directory or as any later operation left it, each name on its
  own, which allows more outcomes than a journalling file system produces.  Every system call may fail.
\<close>

section \<open>Directories\<close>

record inode =
  in_data :: bytes
  in_synced :: bool

record disk =
  d_nodes :: "inode list"
  d_live :: "(string \<times> nat) list" \<comment> \<open>the names as the process sees them, in name order\<close>
  d_durable :: "(string \<times> nat) list" \<comment> \<open>the names at the last synchronisation\<close>
  d_pending :: "(string \<times> nat option) list" \<comment> \<open>the changes since\<close>

definition node_of :: "disk \<Rightarrow> string \<Rightarrow> inode option" where
  "node_of d n = map_option (\<lambda>i. d_nodes d ! i) (map_of (d_live d) n)"

definition file_of :: "disk \<Rightarrow> string \<Rightarrow> bytes option" where
  "file_of d n = map_option in_data (node_of d n)"

text \<open>Truncating and writing a file; a new name is a new file object.\<close>

definition put_file :: "disk \<Rightarrow> string \<Rightarrow> bytes \<Rightarrow> disk" where
  "put_file d n bs =
     (let x = \<lparr>in_data = bs, in_synced = False\<rparr>
      in case map_of (d_live d) n of
           Some i \<Rightarrow> d\<lparr>d_nodes := (d_nodes d)[i := x]\<rparr>
         | None \<Rightarrow> d\<lparr>d_nodes := d_nodes d @ [x], d_live := obj_insert n (length (d_nodes d)) (d_live d),
                      d_pending := (n, Some (length (d_nodes d))) # d_pending d\<rparr>)"

definition sync_node :: "disk \<Rightarrow> string \<Rightarrow> disk" where
  "sync_node d n =
     (case map_of (d_live d) n of
        Some i \<Rightarrow> d\<lparr>d_nodes := (d_nodes d)[i := (d_nodes d ! i)\<lparr>in_synced := True\<rparr>]\<rparr>
      | None \<Rightarrow> d)"

definition sync_names :: "disk \<Rightarrow> disk" where
  "sync_names d = d\<lparr>d_durable := d_live d, d_pending := []\<rparr>"

definition move_name :: "disk \<Rightarrow> string \<Rightarrow> string \<Rightarrow> disk" where
  "move_name d a b =
     (case map_of (d_live d) a of
        Some i \<Rightarrow> d\<lparr>d_live := obj_insert b i (obj_erase a (d_live d)),
                   d_pending := (b, Some i) # (a, None) # d_pending d\<rparr>
      | None \<Rightarrow> d)"

definition drop_name :: "disk \<Rightarrow> string \<Rightarrow> disk" where
  "drop_name d n = d\<lparr>d_live := obj_erase n (d_live d), d_pending := (n, None) # d_pending d\<rparr>"

section \<open>System calls\<close>

text \<open>
  \<open>fs_fail\<close> decides per call whether it fails; a failing write has written the given number of bytes.
  \<open>fs_past\<close> keeps the directory before every call: the states a crash can interrupt.
\<close>

record fsys =
  fs_disk :: disk
  fs_past :: "disk list"
  fs_fail :: "nat \<Rightarrow> nat option"
  fs_calls :: nat

definition fs_do :: "disk \<Rightarrow> fsys \<Rightarrow> fsys" where
  "fs_do d s = s\<lparr>fs_disk := d, fs_past := fs_disk s # fs_past s, fs_calls := fs_calls s + 1\<rparr>"

abbreviation fs_fails :: "fsys \<Rightarrow> nat option" where
  "fs_fails s \<equiv> fs_fail s (fs_calls s)"

definition writeFile :: "fsys \<Rightarrow> string \<Rightarrow> bytes \<Rightarrow> fsys \<times> bool" where
  "writeFile s n bs =
     (case fs_fails s of
        None \<Rightarrow> (fs_do (put_file (fs_disk s) n bs) s, True)
      | Some k \<Rightarrow> (fs_do (put_file (fs_disk s) n (take k bs)) s, False))"

definition syncFile :: "fsys \<Rightarrow> string \<Rightarrow> fsys \<times> bool" where
  "syncFile s n =
     (if map_of (d_live (fs_disk s)) n = None \<or> fs_fails s \<noteq> None then (fs_do (fs_disk s) s, False)
      else (fs_do (sync_node (fs_disk s) n) s, True))"

definition syncDirectory :: "fsys \<Rightarrow> fsys \<times> bool" where
  "syncDirectory s =
     (if fs_fails s \<noteq> None then (fs_do (fs_disk s) s, False) else (fs_do (sync_names (fs_disk s)) s, True))"

definition renameFile :: "fsys \<Rightarrow> string \<Rightarrow> string \<Rightarrow> fsys \<times> bool" where
  "renameFile s a b =
     (if map_of (d_live (fs_disk s)) a = None \<or> fs_fails s \<noteq> None then (fs_do (fs_disk s) s, False)
      else (fs_do (move_name (fs_disk s) a b) s, True))"

definition removeFile :: "fsys \<Rightarrow> string \<Rightarrow> fsys" where
  "removeFile s n =
     (if map_of (d_live (fs_disk s)) n = None \<or> fs_fails s \<noteq> None then fs_do (fs_disk s) s
      else fs_do (drop_name (fs_disk s) n) s)"

section \<open>Crashes\<close>

definition may_bind :: "disk \<Rightarrow> string \<Rightarrow> nat option \<Rightarrow> bool" where
  "may_bind d n b \<longleftrightarrow> b = map_of (d_durable d) n \<or> (n, b) \<in> set (d_pending d)"

text \<open>\<open>f\<close> may be found under the name after a crash.\<close>

definition crash_file :: "disk \<Rightarrow> string \<Rightarrow> bytes option \<Rightarrow> bool" where
  "crash_file d n f \<longleftrightarrow>
     (\<exists>b. may_bind d n b
        \<and> (case b of
             None \<Rightarrow> f = None
           | Some i \<Rightarrow> f \<noteq> None \<and> (in_synced (d_nodes d ! i) \<longrightarrow> f = Some (in_data (d_nodes d ! i)))))"

definition disk_wf :: "disk \<Rightarrow> bool" where
  "disk_wf d \<longleftrightarrow> obj_wf (d_live d)
     \<and> (\<forall>m n i. map_of (d_live d) m = Some i \<longrightarrow> map_of (d_live d) n = Some i \<longrightarrow> m = n)
     \<and> (\<forall>n i. map_of (d_live d) n = Some i \<longrightarrow> i < length (d_nodes d))
     \<and> (\<forall>n i. may_bind d n (Some i) \<longrightarrow> i < length (d_nodes d))"

text \<open>A name whose contents a crash cannot change.\<close>

definition data_synced :: "disk \<Rightarrow> string \<Rightarrow> bool" where
  "data_synced d n \<longleftrightarrow> (\<forall>i. map_of (d_live d) n = Some i \<longrightarrow> in_synced (d_nodes d ! i))"

definition settled :: "disk \<Rightarrow> string \<Rightarrow> bool" where
  "settled d n \<longleftrightarrow> (\<forall>b. may_bind d n b \<longrightarrow> b = map_of (d_live d) n) \<and> data_synced d n"

lemma may_bind_durable: "may_bind d n (map_of (d_durable d) n)"
  by (simp add: may_bind_def)

lemma settled_crash:
  assumes "settled d n"
  shows "crash_file d n f \<longleftrightarrow> f = file_of d n"
proof -
  have "may_bind d n b \<longleftrightarrow> b = map_of (d_live d) n" for b
    using assms may_bind_durable [of d n] by (metis settled_def)
  then show ?thesis
    using assms
    by (cases "map_of (d_live d) n")
      (auto simp: crash_file_def settled_def data_synced_def file_of_def node_of_def)
qed

text \<open>A name is as it was when its binding, what may be bound to it and the file object are.\<close>

lemma same_file:
  assumes "map_of (d_live d') n = map_of (d_live d) n" "may_bind d' n = may_bind d n"
    "\<And>i. map_of (d_live d) n = Some i \<Longrightarrow> d_nodes d' ! i = d_nodes d ! i"
  shows "file_of d' n = file_of d n" "data_synced d' n = data_synced d n" "settled d' n = settled d n"
  using assms by (cases "map_of (d_live d) n"; simp add: file_of_def node_of_def data_synced_def settled_def)+

lemma obj_wf_obj_erase [simp]: "obj_wf xs \<Longrightarrow> obj_wf (obj_erase k xs)"
  unfolding obj_wf_def obj_erase_def by (simp add: sorted_wrt_map sorted_wrt_filter)

section \<open>What the operations keep\<close>

text \<open>The two shapes of a write: over an existing name and under a new one.\<close>

lemma put_file_cases:
  assumes "disk_wf d"
  obtains i where "map_of (d_live d) n = Some i" "i < length (d_nodes d)"
      "put_file d n bs = d\<lparr>d_nodes := (d_nodes d)[i := \<lparr>in_data = bs, in_synced = False\<rparr>]\<rparr>"
  | "map_of (d_live d) n = None"
      "put_file d n bs = d\<lparr>d_nodes := d_nodes d @ [\<lparr>in_data = bs, in_synced = False\<rparr>],
         d_live := obj_insert n (length (d_nodes d)) (d_live d), d_pending := (n, Some (length (d_nodes d))) # d_pending d\<rparr>"
  using assms by (cases "map_of (d_live d) n") (auto simp: put_file_def disk_wf_def)

lemma put_file_wf: "disk_wf d \<Longrightarrow> disk_wf (put_file d n bs)"
proof -
  assume wf: "disk_wf d"
  show ?thesis
  proof (rule put_file_cases [OF wf, of n bs])
    fix i
    assume "put_file d n bs = d\<lparr>d_nodes := (d_nodes d)[i := \<lparr>in_data = bs, in_synced = False\<rparr>]\<rparr>"
    then show ?thesis
      using wf by (simp add: disk_wf_def may_bind_def)
  next
    assume p: "put_file d n bs = d\<lparr>d_nodes := d_nodes d @ [\<lparr>in_data = bs, in_synced = False\<rparr>],
         d_live := obj_insert n (length (d_nodes d)) (d_live d), d_pending := (n, Some (length (d_nodes d))) # d_pending d\<rparr>"
    have "i < length (d_nodes d)" if "map_of (d_live d) m = Some i \<or> may_bind d m (Some i)" for m i
      using wf that by (auto simp: disk_wf_def)
    then have le: "i < Suc (length (d_nodes d))" "i \<noteq> length (d_nodes d)"
      if "map_of (d_live d) m = Some i \<or> may_bind d m (Some i)" for m i
      using that by (force intro: less_SucI)+
    have "may_bind (put_file d n bs) m (Some i) \<longleftrightarrow> (m = n \<and> i = length (d_nodes d)) \<or> may_bind d m (Some i)" for m i
      by (auto simp: p may_bind_def)
    then show ?thesis
      using wf le unfolding disk_wf_def p by auto
  qed
qed

lemma sync_node_wf: "disk_wf d \<Longrightarrow> disk_wf (sync_node d n)"
  by (simp add: disk_wf_def sync_node_def may_bind_def split: option.splits)

lemma sync_names_wf: "disk_wf d \<Longrightarrow> disk_wf (sync_names d)"
  by (simp add: disk_wf_def sync_names_def may_bind_def)

lemma move_name_wf: "disk_wf d \<Longrightarrow> disk_wf (move_name d a b)"
  by (cases "map_of (d_live d) a") (auto simp: disk_wf_def move_name_def may_bind_def)

lemma drop_name_wf: "disk_wf d \<Longrightarrow> disk_wf (drop_name d n)"
  by (auto simp: disk_wf_def drop_name_def may_bind_def)

lemmas disk_wf_ops = put_file_wf sync_node_wf sync_names_wf move_name_wf drop_name_wf

lemma put_file_other:
  assumes wf: "disk_wf d" and mn: "m \<noteq> n"
  shows "file_of (put_file d n bs) m = file_of d m" "data_synced (put_file d n bs) m = data_synced d m"
    "settled d m \<Longrightarrow> settled (put_file d n bs) m"
proof -
  let ?d = "put_file d n bs"
  have live: "map_of (d_live ?d) m = map_of (d_live d) m" "may_bind ?d m = may_bind d m"
    using put_file_cases [OF wf, of n bs] wf mn
    by (cases; simp add: may_bind_def disk_wf_def fun_eq_iff)+
  have node: "d_nodes ?d ! i = d_nodes d ! i" if "map_of (d_live d) m = Some i" for i
    using put_file_cases [OF wf, of n bs] wf mn that
    by cases (auto simp: disk_wf_def nth_append nth_list_update)
  show "file_of ?d m = file_of d m" "data_synced ?d m = data_synced d m" "settled d m \<Longrightarrow> settled ?d m"
    using same_file [OF live node] by simp_all
qed

lemma put_file_file: "disk_wf d \<Longrightarrow> file_of (put_file d n bs) n = Some bs"
  by (rule put_file_cases [of d n bs]) (auto simp: file_of_def node_of_def disk_wf_def)

lemma put_file_live: "disk_wf d \<Longrightarrow> map_of (d_live (put_file d n bs)) n \<noteq> None"
  by (rule put_file_cases [of d n bs]) (auto simp: disk_wf_def)

lemma sync_node_names [simp]: "d_live (sync_node d n) = d_live d" "may_bind (sync_node d n) = may_bind d"
  by (auto simp: sync_node_def may_bind_def fun_eq_iff split: option.splits)

lemma sync_node_nth:
  assumes "disk_wf d" "map_of (d_live d) m = Some i"
  shows "in_data (d_nodes (sync_node d n) ! i) = in_data (d_nodes d ! i)"
    "in_synced (d_nodes (sync_node d n) ! i) \<longleftrightarrow> m = n \<or> in_synced (d_nodes d ! i)"
  using assms by (auto simp: disk_wf_def sync_node_def nth_list_update split: option.splits)

lemma sync_node_file: "disk_wf d \<Longrightarrow> file_of (sync_node d n) m = file_of d m"
  by (cases "map_of (d_live d) m") (simp_all add: file_of_def node_of_def sync_node_nth)

lemma sync_node_data: "disk_wf d \<Longrightarrow> data_synced (sync_node d n) m \<longleftrightarrow> m = n \<or> data_synced d m"
  by (cases "map_of (d_live d) m") (simp_all add: data_synced_def sync_node_nth)

lemma sync_node_settled: "disk_wf d \<Longrightarrow> settled d m \<Longrightarrow> settled (sync_node d n) m"
  by (simp add: settled_def sync_node_data)

lemma sync_names_file: "file_of (sync_names d) m = file_of d m"
  by (simp add: sync_names_def file_of_def node_of_def)

lemma sync_names_settled: "settled (sync_names d) n \<longleftrightarrow> data_synced d n"
  by (simp add: settled_def data_synced_def sync_names_def may_bind_def)

lemma move_name_other:
  assumes "disk_wf d" "n \<noteq> a" "n \<noteq> b"
  shows "file_of (move_name d a b) n = file_of d n" "data_synced (move_name d a b) n = data_synced d n"
    "settled (move_name d a b) n = settled d n"
proof -
  have "map_of (d_live (move_name d a b)) n = map_of (d_live d) n" "may_bind (move_name d a b) n = may_bind d n"
    "d_nodes (move_name d a b) = d_nodes d"
    using assms by (cases "map_of (d_live d) a"; simp add: disk_wf_def move_name_def may_bind_def fun_eq_iff)+
  then show "file_of (move_name d a b) n = file_of d n" "data_synced (move_name d a b) n = data_synced d n"
    "settled (move_name d a b) n = settled d n"
    using same_file [of "move_name d a b" n d] by simp_all
qed

lemma drop_name_other:
  assumes "n \<noteq> m"
  shows "file_of (drop_name d m) n = file_of d n" "data_synced (drop_name d m) n = data_synced d n"
    "settled (drop_name d m) n = settled d n"
proof -
  have "map_of (d_live (drop_name d m)) n = map_of (d_live d) n" "may_bind (drop_name d m) n = may_bind d n"
    "d_nodes (drop_name d m) = d_nodes d"
    using assms by (simp_all add: drop_name_def may_bind_def fun_eq_iff)
  then show "file_of (drop_name d m) n = file_of d n" "data_synced (drop_name d m) n = data_synced d n"
    "settled (drop_name d m) n = settled d n"
    using same_file [of "drop_name d m" n d] by simp_all
qed

text \<open>A synchronised file moved over a settled name: a crash finds the old contents or the new.\<close>

lemma move_name_crash:
  assumes wf: "disk_wf d" and old: "settled d b" and new: "data_synced d a" "map_of (d_live d) a \<noteq> None" and ab: "a \<noteq> b"
  shows "crash_file (move_name d a b) b f \<Longrightarrow> f = file_of d b \<or> f = file_of d a"
    and "file_of (move_name d a b) b = file_of d a" "data_synced (move_name d a b) b"
proof -
  obtain i where i: "map_of (d_live d) a = Some i" "in_synced (d_nodes d ! i)"
    using new by (auto simp: data_synced_def)
  have m: "move_name d a b = d\<lparr>d_live := obj_insert b i (obj_erase a (d_live d)), d_pending := (b, Some i) # (a, None) # d_pending d\<rparr>"
    using i by (simp add: move_name_def)
  have live: "map_of (d_live (move_name d a b)) b = Some i"
    using wf by (simp add: m disk_wf_def)
  show "file_of (move_name d a b) b = file_of d a" "data_synced (move_name d a b) b"
    using live i by (simp_all add: file_of_def node_of_def data_synced_def m)
  have nodes: "d_nodes (move_name d a b) = d_nodes d"
    by (simp add: m)
  have bs: "may_bind (move_name d a b) b x \<longleftrightarrow> x = Some i \<or> may_bind d b x" for x
    using ab by (auto simp: m may_bind_def)
  assume "crash_file (move_name d a b) b f"
  then consider "f = Some (in_data (d_nodes d ! i))" | "crash_file d b f"
    unfolding crash_file_def bs nodes using i(2) by auto
  then show "f = file_of d b \<or> f = file_of d a"
    using settled_crash [OF old] i(1) by cases (auto simp: file_of_def node_of_def)
qed

end
