(* ===== verification/Msgpack.thy ===== *)
theory Msgpack
  imports Json
begin

unbundle bit_operations_syntax

text \<open>
  The MessagePack rows of the table files.  The encoder is the one of the vendored JSON library
  (\<open>binary_writer::write_msgpack\<close>); the navigation is the engine's own (\<open>storage_format_v2.cpp\<close>):
  \<open>skipMsgpack\<close>, \<open>readMsgpackString\<close>, the scalar fast path \<open>decodeMsgpackField\<close> and the row views with
  and without a field index.  The compact encoding of doubles (\<open>write_compact_float\<close>) and the library's
  general decoder (\<open>from_msgpack\<close>), which containers, binary and extension values fall back to, are
  arguments.
\<close>

section \<open>Big-endian numbers\<close>

definition be_bytes :: "nat \<Rightarrow> 'a::len word \<Rightarrow> bytes" where
  "be_bytes n w = rev (le_bytes n w)"

definition readBigEndian :: "nat \<Rightarrow> bytes \<Rightarrow> (u64 \<times> bytes) option" where
  "readBigEndian n bs =
     (if length bs < n then None
      else Some (foldl (\<lambda>v b. push_bit 8 v OR ucast b) 0 (take n bs), drop n bs))"

lemma length_be_bytes [simp, len_simps]: "length (be_bytes n w) = n"
  by (simp add: be_bytes_def)

lemma foldl_be: "foldl (\<lambda>v b. push_bit 8 v OR ucast b) 0 (rev bs) = (le_word bs :: u64)"
  by (induction bs) (simp_all add: or.commute)

lemma readBigEndian_be_bytes [codec_simps]:
  "readBigEndian n (be_bytes n w @ r) = Some (take_bit (8 * n) (w :: u64), r)"
  by (simp add: readBigEndian_def be_bytes_def foldl_be le_word_le_bytes)

lemma take_bit_u64_small: "unat (w :: u64) < 2 ^ k \<Longrightarrow> take_bit k w = w"
  by (metis take_bit_nat_eq_self_iff unsigned_take_bit_eq unsigned_word_eqI)

lemma readBigEndian_small [codec_simps]:
  "N < 2 ^ (8 * n) \<Longrightarrow> N < 2 ^ 64 \<Longrightarrow>
     readBigEndian n (be_bytes n (of_nat N :: u64) @ r) = Some (of_nat N, r)"
  by (simp add: readBigEndian_be_bytes take_bit_u64_small unat_of_nat)

section \<open>The encoder\<close>

definition mp_uint :: "u64 \<Rightarrow> bytes" where
  "mp_uint w =
     (if w < 128 then be_bytes 1 w
      else if w \<le> 0xFF then 0xCC # be_bytes 1 w
      else if w \<le> 0xFFFF then 0xCD # be_bytes 2 w
      else if w \<le> 0xFFFFFFFF then 0xCE # be_bytes 4 w
      else 0xCF # be_bytes 8 w)"

definition mp_int :: "u64 \<Rightarrow> bytes" where
  "mp_int w =
     (let i = sint w
      in if 0 \<le> i then mp_uint w
         else if - 32 \<le> i then be_bytes 1 w
         else if - (2 ^ 7) \<le> i then 0xD0 # be_bytes 1 w
         else if - (2 ^ 15) \<le> i then 0xD1 # be_bytes 2 w
         else if - (2 ^ 31) \<le> i then 0xD2 # be_bytes 4 w
         else 0xD3 # be_bytes 8 w)"

text \<open>Beyond 32 bits of length the writer emits no header at all.\<close>

definition mp_str_head :: "nat \<Rightarrow> bytes" where
  "mp_str_head N =
     (if N \<le> 31 then [0xA0 OR of_nat N]
      else if N \<le> 0xFF then 0xD9 # be_bytes 1 (of_nat N :: u64)
      else if N \<le> 0xFFFF then 0xDA # be_bytes 2 (of_nat N :: u64)
      else if N \<le> 0xFFFFFFFF then 0xDB # be_bytes 4 (of_nat N :: u64)
      else [])"

definition mp_string :: "string \<Rightarrow> bytes" where
  "mp_string s = mp_str_head (length s) @ bytes_of s"

definition mp_arr_head :: "nat \<Rightarrow> bytes" where
  "mp_arr_head N =
     (if N \<le> 15 then [0x90 OR of_nat N]
      else if N \<le> 0xFFFF then 0xDC # be_bytes 2 (of_nat N :: u64)
      else if N \<le> 0xFFFFFFFF then 0xDD # be_bytes 4 (of_nat N :: u64)
      else [])"

definition mp_map_head :: "nat \<Rightarrow> bytes" where
  "mp_map_head N =
     (if N \<le> 15 then [0x80 OR (of_nat N AND 0xF)]
      else if N \<le> 0xFFFF then 0xDE # be_bytes 2 (of_nat N :: u64)
      else if N \<le> 0xFFFFFFFF then 0xDF # be_bytes 4 (of_nat N :: u64)
      else [])"

lemma size_obj_value [termination_simp]: "(k, v) \<in> set xs \<Longrightarrow> size v < Suc (size_list (size_prod (\<lambda>_. 0) size) xs)"
  by (induction xs) auto

fun write_msgpack :: "(dbl \<Rightarrow> bytes) \<Rightarrow> json \<Rightarrow> bytes" where
  "write_msgpack flt JNull = [0xC0]"
| "write_msgpack flt (JBool b) = [if b then 0xC3 else 0xC2]"
| "write_msgpack flt (JInt w) = mp_int w"
| "write_msgpack flt (JUInt w) = mp_uint w"
| "write_msgpack flt (JFloat d) = flt d"
| "write_msgpack flt (JStr s) = mp_string s"
| "write_msgpack flt (JArr xs) = mp_arr_head (length xs) @ concat (map (write_msgpack flt) xs)"
| "write_msgpack flt (JObj xs) =
     mp_map_head (length xs) @ concat (map (\<lambda>(k, v). mp_string k @ write_msgpack flt v) xs)"

section \<open>Skipping a value\<close>

definition skip_bytes :: "nat \<Rightarrow> bytes \<Rightarrow> bytes option" where
  "skip_bytes n bs = (if length bs < n then None else Some (drop n bs))"

text \<open>The \<open>switch\<close>: the width of the fixed part after the tag.\<close>

definition mp_fixed :: "byte \<Rightarrow> nat option" where
  "mp_fixed tag =
     (if tag = 0xC4 \<or> tag = 0xD9 then Some 1
      else if tag = 0xC5 \<or> tag = 0xDA then Some 2
      else if tag = 0xC6 \<or> tag = 0xDB then Some 4
      else if tag = 0xC7 then Some 1
      else if tag = 0xC8 then Some 2
      else if tag = 0xC9 then Some 4
      else if tag = 0xCA \<or> tag = 0xCE \<or> tag = 0xD2 then Some 4
      else if tag = 0xCB \<or> tag = 0xCF \<or> tag = 0xD3 then Some 8
      else if tag = 0xCC \<or> tag = 0xD0 then Some 1
      else if tag = 0xCD \<or> tag = 0xD1 then Some 2
      else if tag = 0xD4 then Some 2
      else if tag = 0xD5 then Some 3
      else if tag = 0xD6 then Some 5
      else if tag = 0xD7 then Some 9
      else if tag = 0xD8 then Some 17
      else if tag = 0xDC then Some 2
      else if tag = 0xDD then Some 4
      else if tag = 0xDE then Some 2
      else if tag = 0xDF then Some 4
      else None)"

text \<open>
  The two loops of the source (elements of an array, keys and values of a map) are \<open>skip_many\<close>.  The
  count of an extension includes its type byte.
\<close>

function (sequential) skipMsgpack :: "nat \<Rightarrow> bytes \<Rightarrow> bytes option"
  and skip_many :: "nat \<Rightarrow> nat \<Rightarrow> bytes \<Rightarrow> bytes option" where
  "skipMsgpack depth [] = None"
| "skipMsgpack depth (tag # r) =
     (if 64 < depth then None
      else if tag \<le> 0x7F \<or> 0xE0 \<le> tag \<or> tag = 0xC0 \<or> tag = 0xC2 \<or> tag = 0xC3 then Some r
      else if tag AND 0xE0 = 0xA0 then skip_bytes (unat (tag AND 0x1F)) r
      else if tag AND 0xF0 = 0x90 then skip_many (unat (tag AND 0x0F)) (Suc depth) r
      else if tag AND 0xF0 = 0x80 then skip_many (2 * unat (tag AND 0x0F)) (Suc depth) r
      else case mp_fixed tag of None \<Rightarrow> None
      | Some fixed \<Rightarrow>
          if 0xCA \<le> tag \<and> tag \<le> 0xD8 then skip_bytes fixed r
          else case readBigEndian fixed r of None \<Rightarrow> None
          | Some (n, r2) \<Rightarrow>
              (let c = (if tag = 0xC7 \<or> tag = 0xC8 \<or> tag = 0xC9 then n + 1 else n)
               in if tag = 0xDC \<or> tag = 0xDD then skip_many (unat c) (Suc depth) r2
                  else if tag = 0xDE \<or> tag = 0xDF then skip_many (2 * unat c) (Suc depth) r2
                  else skip_bytes (unat c) r2))"
| "skip_many 0 depth bs = Some bs"
| "skip_many (Suc n) depth bs =
     (case skipMsgpack depth bs of None \<Rightarrow> None | Some r \<Rightarrow> skip_many n depth r)"
  by pat_completeness auto
termination
  by (relation "inv_image (less_than <*lex*> less_than)
      (\<lambda>x. case x of Inl (d, bs) \<Rightarrow> (66 - d, 0) | Inr (n, d, bs) \<Rightarrow> (66 - d, Suc n))") auto

declare skipMsgpack.simps(2) [simp del]


section \<open>Laws of skipping\<close>

text \<open>What the format can carry: lengths below 32 bits, and a double as tag and four or eight bytes.\<close>

definition flt_frame :: "bytes \<Rightarrow> bool" where
  "flt_frame bs =
     (case bs of [] \<Rightarrow> False | t # r \<Rightarrow> t = 0xCA \<and> length r = 4 \<or> t = 0xCB \<and> length r = 8)"

fun mp_ok :: "(dbl \<Rightarrow> bytes) \<Rightarrow> json \<Rightarrow> bool" where
  "mp_ok flt (JFloat d) = flt_frame (flt d)"
| "mp_ok flt (JStr s) = (length s < 2 ^ 32)"
| "mp_ok flt (JArr xs) = (length xs < 2 ^ 32 \<and> (\<forall>x \<in> set xs. mp_ok flt x))"
| "mp_ok flt (JObj xs) = (length xs < 2 ^ 32 \<and> (\<forall>(k, v) \<in> set xs. length k < 2 ^ 32 \<and> mp_ok flt v))"
| "mp_ok flt _ = True"

text \<open>Nesting of a value as \<open>skipMsgpack\<close> counts it: a container opens a level for its elements.\<close>

fun jdepth :: "json \<Rightarrow> nat" where
  "jdepth (JArr xs) = (if xs = [] then 0 else Suc (foldr max (map jdepth xs) 0))"
| "jdepth (JObj xs) = (if xs = [] then 0 else Suc (foldr max (map (\<lambda>(k, v). jdepth v) xs) 0))"
| "jdepth _ = 0"

lemma foldr_max_le: "foldr max (map f xs) 0 \<le> (n :: nat) \<longleftrightarrow> (\<forall>x \<in> set xs. f x \<le> n)"
  by (induction xs) auto

lemma foldr_max_room: "xs \<noteq> [] \<Longrightarrow> d + foldr max (map f xs) 0 \<le> (n :: nat) \<longleftrightarrow> (\<forall>x \<in> set xs. d + f x \<le> n)"
proof (induction xs)
  case (Cons x xs)
  then show ?case
    by (cases "xs = []") auto
qed simp

lemma jdepth_room:
  "d + jdepth (JArr xs) \<le> n \<longleftrightarrow> d \<le> n \<and> (\<forall>x \<in> set xs. Suc d + jdepth x \<le> n)"
  "d + jdepth (JObj kvs) \<le> n \<longleftrightarrow> d \<le> n \<and> (\<forall>(k, v) \<in> set kvs. Suc d + jdepth v \<le> n)"
proof -
  show "d + jdepth (JArr xs) \<le> n \<longleftrightarrow> d \<le> n \<and> (\<forall>x \<in> set xs. Suc d + jdepth x \<le> n)"
  proof (cases "xs = []")
    case False
    then obtain y where "y \<in> set xs" by (cases xs) auto
    then show ?thesis
      using foldr_max_room [OF False, of "Suc d" jdepth n] False by fastforce
  qed simp
  show "d + jdepth (JObj kvs) \<le> n \<longleftrightarrow> d \<le> n \<and> (\<forall>(k, v) \<in> set kvs. Suc d + jdepth v \<le> n)"
  proof (cases "kvs = []")
    case False
    then obtain y where "y \<in> set kvs" by (cases kvs) auto
    then show ?thesis
      using foldr_max_room [OF False, of "Suc d" "\<lambda>(k, v). jdepth v" n] False by fastforce
  qed simp
qed

lemma byte_tag_table:
  "\<forall>N \<in> set [0..<32]. (0xA0 OR of_nat N :: byte) AND 0xE0 = 0xA0 \<and> unat ((0xA0 OR of_nat N :: byte) AND 0x1F) = N
      \<and> 0x7F < (0xA0 OR of_nat N :: byte) \<and> (0xA0 OR of_nat N :: byte) < 0xC0"
  "\<forall>N \<in> set [0..<16]. (0x90 OR of_nat N :: byte) AND 0xF0 = 0x90 \<and> unat ((0x90 OR of_nat N :: byte) AND 0x0F) = N
      \<and> (0x90 OR of_nat N :: byte) AND 0xE0 = 0x80
      \<and> 0x7F < (0x90 OR of_nat N :: byte) \<and> (0x90 OR of_nat N :: byte) < 0xC0"
  "\<forall>N \<in> set [0..<16]. (0x80 OR (of_nat N AND 0xF) :: byte) AND 0xF0 = 0x80
      \<and> unat ((0x80 OR (of_nat N AND 0xF) :: byte) AND 0x0F) = N
      \<and> (0x80 OR (of_nat N AND 0xF) :: byte) AND 0xE0 = 0x80
      \<and> 0x7F < (0x80 OR (of_nat N AND 0xF) :: byte) \<and> (0x80 OR (of_nat N AND 0xF) :: byte) < 0xC0"
  by code_simp+


lemma fixstr_tag:
  assumes "N \<le> 31"
  shows "(0xA0 OR of_nat N :: byte) AND 0xE0 = 0xA0" "unat ((0xA0 OR of_nat N :: byte) AND 0x1F) = N"
    "0x7F < (0xA0 OR of_nat N :: byte)" "(0xA0 OR of_nat N :: byte) < 0xC0"
  using byte_tag_table(1) assms by simp_all

lemma fixarr_tag:
  assumes "N \<le> 15"
  shows "(0x90 OR of_nat N :: byte) AND 0xF0 = 0x90" "unat ((0x90 OR of_nat N :: byte) AND 0x0F) = N"
    "(0x90 OR of_nat N :: byte) AND 0xE0 = 0x80"
    "0x7F < (0x90 OR of_nat N :: byte)" "(0x90 OR of_nat N :: byte) < 0xC0"
  using byte_tag_table(2) assms by simp_all

lemma fixmap_tag:
  assumes "N \<le> 15"
  shows "(0x80 OR (of_nat N AND 0xF) :: byte) AND 0xF0 = 0x80"
    "unat ((0x80 OR (of_nat N AND 0xF) :: byte) AND 0x0F) = N"
    "(0x80 OR (of_nat N AND 0xF) :: byte) AND 0xE0 = 0x80"
    "0x7F < (0x80 OR (of_nat N AND 0xF) :: byte)" "(0x80 OR (of_nat N AND 0xF) :: byte) < 0xC0"
  using byte_tag_table(3) assms by simp_all

text \<open>A tag between the fixed ranges is none of the single-byte values.\<close>

lemma mid_tag:
  assumes "0x7F < (t :: byte)" "t < 0xC0"
  shows "\<not> (t \<le> 0x7F \<or> 0xE0 \<le> t \<or> t = 0xC0 \<or> t = 0xC2 \<or> t = 0xC3)"
  using assms by (auto simp: word_less_nat_alt word_le_nat_alt)

lemma skip_str_head:
  assumes "N < 2 ^ 32"
  shows "skipMsgpack d (mp_str_head N @ r) = (if 64 < d then None else skip_bytes N r)"
proof (cases "N \<le> 31")
  case True
  then show ?thesis
    using mid_tag [OF fixstr_tag(3,4) [OF True]]
    by (simp add: mp_str_head_def skipMsgpack.simps(2) fixstr_tag)
next
  case False
  then show ?thesis
    using assms
    by (auto simp: mp_str_head_def skipMsgpack.simps(2) mp_fixed_def readBigEndian_small unat_of_nat)
qed

lemma skip_arr_head:
  assumes "N < 2 ^ 32"
  shows "skipMsgpack d (mp_arr_head N @ r) = (if 64 < d then None else skip_many N (Suc d) r)"
proof (cases "N \<le> 15")
  case True
  then show ?thesis
    using mid_tag [OF fixarr_tag(4,5) [OF True]]
    by (simp add: mp_arr_head_def skipMsgpack.simps(2) fixarr_tag)
next
  case False
  then show ?thesis
    using assms
    by (auto simp: mp_arr_head_def skipMsgpack.simps(2) mp_fixed_def readBigEndian_small unat_of_nat)
qed

lemma skip_map_head:
  assumes "N < 2 ^ 32"
  shows "skipMsgpack d (mp_map_head N @ r) = (if 64 < d then None else skip_many (2 * N) (Suc d) r)"
proof (cases "N \<le> 15")
  case True
  then show ?thesis
    using mid_tag [OF fixmap_tag(4,5) [OF True]]
    by (simp add: mp_map_head_def skipMsgpack.simps(2) fixmap_tag)
next
  case False
  then show ?thesis
    using assms
    by (auto simp: mp_map_head_def skipMsgpack.simps(2) mp_fixed_def readBigEndian_small unat_of_nat)
qed

lemma skip_bytes_append [simp]: "length xs = n \<Longrightarrow> skip_bytes n (xs @ r) = Some r"
  by (simp add: skip_bytes_def)

lemma be_bytes_1: "be_bytes 1 w = [ucast (w :: u64)]"
proof -
  have "ucast (w AND 255) = (ucast w :: byte)"
    by (intro bit_eqI) (auto simp: and_255_take_bit bit_simps)
  then show ?thesis
    by (simp add: be_bytes_def)
qed

lemma unat_ucast_byte: "unat (ucast (w :: u64) :: byte) = unat w mod 256"
  by (simp add: unsigned_ucast_eq take_bit_eq_mod)

lemma posfix_byte: "w < (128 :: u64) \<Longrightarrow> unat (ucast w :: byte) = unat w \<and> (ucast w :: byte) \<le> 0x7F"
  by (simp add: word_less_nat_alt word_le_nat_alt unat_ucast_byte)

lemma negfix_byte:
  assumes "sint (w :: u64) < 0" "- 32 \<le> sint w"
  shows "uint (ucast w :: byte) = sint w + 256"
proof -
  have "uint (ucast w :: byte) = take_bit 8 (uint w)"
    by (simp add: unsigned_ucast_eq)
  also have "\<dots> = take_bit 8 (sint w)"
    by (simp add: sint_uint take_bit_signed_take_bit)
  finally have "uint (ucast w :: byte) = sint w mod 256"
    by (simp add: take_bit_eq_mod)
  then show ?thesis
    using mod_pos_pos_trivial [of "sint w + 256" 256] assms by simp
qed

lemma skip_uint: "skipMsgpack d (mp_uint w @ r) = (if 64 < d then None else Some r)"
proof (cases "w < 128")
  case True
  then show ?thesis
    using posfix_byte [OF True] by (simp add: mp_uint_def be_bytes_1 [simplified] skipMsgpack.simps(2))
next
  case False
  then show ?thesis
    by (auto simp: mp_uint_def skipMsgpack.simps(2) mp_fixed_def)
qed

lemma skip_int: "skipMsgpack d (mp_int w @ r) = (if 64 < d then None else Some r)"
proof (cases "0 \<le> sint w")
  case True
  then show ?thesis
    by (simp add: mp_int_def skip_uint)
next
  case neg: False
  show ?thesis
  proof (cases "- 32 \<le> sint w")
    case True
    then have "0xE0 \<le> (ucast w :: byte)"
      using negfix_byte [of w] neg by (simp add: word_le_def)
    then show ?thesis
      using neg True by (simp add: mp_int_def be_bytes_1 [simplified] skipMsgpack.simps(2))
  next
    case False
    then show ?thesis
      using neg by (auto simp: mp_int_def Let_def skipMsgpack.simps(2) mp_fixed_def)
  qed
qed

lemma skip_flt: "flt_frame bs \<Longrightarrow> skipMsgpack d (bs @ r) = (if 64 < d then None else Some r)"
  by (auto simp: flt_frame_def skipMsgpack.simps(2) mp_fixed_def split: list.splits)

lemma skip_string:
  "length s < 2 ^ 32 \<Longrightarrow> skipMsgpack d (mp_string s @ r) = (if 64 < d then None else Some r)"
  by (simp add: mp_string_def skip_str_head)

lemma skip_many_write:
  assumes "\<And>x d r. x \<in> set xs \<Longrightarrow> skipMsgpack d (w x @ r) = (if d + jdepth x \<le> 64 then Some r else None)"
  shows "skip_many (length xs) d (concat (map w xs) @ r)
           = (if \<forall>x \<in> set xs. d + jdepth x \<le> 64 then Some r else None)"
  using assms
proof (induction xs arbitrary: r)
  case (Cons x xs)
  then show ?case
    by (simp add: Cons.prems [of x])
qed simp

text \<open>The keys and values of an object in the order they are written.\<close>

definition obj_items :: "(string \<times> json) list \<Rightarrow> json list" where
  "obj_items kvs = concat (map (\<lambda>(k, v). [JStr k, v]) kvs)"

lemma length_obj_items [simp]: "length (obj_items kvs) = 2 * length kvs"
  by (induction kvs) (auto simp: obj_items_def)

lemma set_obj_items: "set (obj_items kvs) = JStr ` fst ` set kvs \<union> snd ` set kvs"
  by (induction kvs) (auto simp: obj_items_def)

lemma concat_obj_items:
  "concat (map (write_msgpack flt) (obj_items kvs))
     = concat (map (\<lambda>(k, v). mp_string k @ write_msgpack flt v) kvs)"
  by (induction kvs) (auto simp: obj_items_def)

text \<open>Skipping an encoded value lands exactly behind it, unless it is nested too deep.\<close>

lemma skip_write_msgpack:
  "mp_ok flt j \<Longrightarrow> skipMsgpack d (write_msgpack flt j @ r) = (if d + jdepth j \<le> 64 then Some r else None)"
proof (induction flt j arbitrary: d r rule: write_msgpack.induct)
  case (7 flt xs)
  then have "skip_many (length xs) (Suc d) (concat (map (write_msgpack flt) xs) @ r)
      = (if \<forall>x \<in> set xs. Suc d + jdepth x \<le> 64 then Some r else None)"
    by (intro skip_many_write) simp
  then show ?case
    using 7 by (simp add: skip_arr_head jdepth_room(1) not_less del: jdepth.simps)
next
  case (8 flt xs)
  have ok: "skipMsgpack e (write_msgpack flt x @ s) = (if e + jdepth x \<le> 64 then Some s else None)"
    if mem: "x \<in> set (obj_items xs)" for x e s
  proof -
    consider k v where "(k, v) \<in> set xs" "x = JStr k" | k v where "(k, v) \<in> set xs" "x = v"
      using mem by (auto simp: set_obj_items)
    then show ?thesis
    proof cases
      case 1
      then show ?thesis
        using 8(2) by (auto simp: skip_string not_less)
    next
      case 2
      then have "mp_ok flt v"
        using 8(2) by auto
      then show ?thesis
        using 8(1) [OF 2(1) refl] 2(2) by simp
    qed
  qed
  have "skip_many (2 * length xs) (Suc d) (concat (map (write_msgpack flt) (obj_items xs)) @ r)
      = (if \<forall>x \<in> set (obj_items xs). Suc d + jdepth x \<le> 64 then Some r else None)"
    using skip_many_write [OF ok, of "obj_items xs"] by simp
  moreover have "(\<forall>x \<in> set (obj_items xs). Suc d + jdepth x \<le> 64)
      \<longleftrightarrow> (\<forall>(k, v) \<in> set xs. Suc d + jdepth v \<le> 64)"
    unfolding set_obj_items by (simp add: ball_Un split_beta) (metis add_leD1 last_in_set)
  ultimately show ?case
    using 8(2) by (simp add: skip_map_head jdepth_room(2) not_less concat_obj_items del: jdepth.simps add_Suc)
qed (simp_all add: skip_uint skip_int skip_flt skip_string skipMsgpack.simps(2) not_le)

end
