(* ===== verification/Msgpack_Row.thy ===== *)
theory Msgpack_Row
  imports Msgpack
begin

unbundle bit_operations_syntax

text \<open>
  Row views over MessagePack documents (\<open>MsgpackRowView\<close> of \<open>storage_format_v2.cpp\<close>): reading a string,
  the scalar fast path of \<open>decodeMsgpackField\<close>, the field index built once per row, and the lookups
  \<open>field\<close> and \<open>project\<close>.  The laws: a view over an encoded object finds exactly the fields of the object,
  whether it is indexed or not, and an indexed view answers like a plain one.
\<close>

section \<open>Strings and scalars\<close>

text \<open>The text a run of bytes holds, the inverse of \<open>bytes_of\<close>.\<close>

definition text_of :: "bytes \<Rightarrow> string" where
  "text_of bs = map (\<lambda>b. char_of (unat b)) bs"

lemma text_of_bytes_of [simp]: "text_of (bytes_of s) = s"
proof -
  have "char_of (unat (of_char c :: byte)) = c" for c
  proof -
    have "(of_char c :: byte) = of_nat (of_char c)"
      by (simp add: of_nat_of_char)
    then show ?thesis
      by (simp add: unat_of_nat)
  qed
  then show ?thesis
    by (simp add: text_of_def bytes_of_def comp_def)
qed

lemma bytes_of_inject [simp]: "bytes_of s = bytes_of t \<longleftrightarrow> s = t"
  by (metis text_of_bytes_of)

lemma bytes_of_text_of [simp]: "bytes_of (text_of bs) = bs"
proof -
  have "(of_char (char_of (unat b)) :: byte) = b" for b :: byte
  proof -
    have "(of_char (char_of (unat b)) :: byte) = of_nat (unat b mod 256)"
      by (metis of_char_of of_nat_of_char)
    moreover have "unat b < 256"
      using unsigned_less [of b, where 'a = nat] by simp
    ultimately show ?thesis
      by simp
  qed
  then show ?thesis
    by (simp add: text_of_def bytes_of_def comp_def)
qed

definition readMsgpackString :: "bytes \<Rightarrow> (bytes \<times> bytes) option" where
  "readMsgpackString bs =
     (case bs of [] \<Rightarrow> None
      | tag # r \<Rightarrow>
        (case (if tag AND 0xE0 = 0xA0 then Some (ucast (tag AND 0x1F), r)
               else if tag = 0xD9 then readBigEndian 1 r
               else if tag = 0xDA then readBigEndian 2 r
               else if tag = 0xDB then readBigEndian 4 r
               else None) of
           None \<Rightarrow> None
         | Some (n, r2) \<Rightarrow>
             if length r2 < unat n then None else Some (take (unat n) r2, drop (unat n) r2)))"

text \<open>\<open>memcpy\<close> of the bits into a \<open>float\<close> or \<open>double\<close>: the IEEE value with \<open>eb\<close> exponent and \<open>mb\<close>
  mantissa bits.\<close>

definition ieee_value :: "nat \<Rightarrow> nat \<Rightarrow> nat \<Rightarrow> dbl" where
  "ieee_value eb mb n =
     (let m = n mod 2 ^ mb; e = (n div 2 ^ mb) mod 2 ^ eb; neg = odd (n div 2 ^ (mb + eb));
          bias = 2 ^ (eb - 1) - 1
      in if e = 2 ^ eb - 1 then (if m \<noteq> 0 then NaN else if neg then NegInf else PosInf)
         else Fin ((if neg then - 1 else 1) *
                   (if e = 0 then of_nat m * 2 / 2 ^ (bias + mb)
                    else of_nat (2 ^ mb + m) * 2 ^ e / 2 ^ (bias + mb))))"

definition mp_float :: "bytes \<Rightarrow> dbl option" where
  "mp_float bs =
     (case bs of [] \<Rightarrow> None
      | tag # r \<Rightarrow>
        (case readBigEndian (if tag = 0xCA then 4 else 8) r of
           Some (b, []) \<Rightarrow> Some (if tag = 0xCA then ieee_value 8 23 (unat (ucast b :: u32))
                                  else ieee_value 11 52 (unat b))
         | _ \<Rightarrow> None))"

definition mp_integer :: "byte \<Rightarrow> bytes \<Rightarrow> json option" where
  "mp_integer tag r =
     (let isSigned = 0xD0 \<le> tag;
          width = (2 :: nat) ^ unat (tag - (if isSigned then 0xD0 else 0xCC))
      in case readBigEndian width r of
           Some (b, []) \<Rightarrow>
             Some (if \<not> isSigned then JUInt b
                   else JInt (if width < 8 \<and> bit b (width * 8 - 1)
                              then b OR push_bit (width * 8) 0xFFFFFFFFFFFFFFFF else b))
         | _ \<Rightarrow> None)"

definition mp_scalar :: "bytes \<Rightarrow> json option" where
  "mp_scalar bs =
     (case bs of [] \<Rightarrow> None
      | tag # r \<Rightarrow>
        if r = [] \<and> tag \<le> 0x7F then Some (JUInt (ucast tag))
        else if r = [] \<and> 0xE0 \<le> tag then Some (JInt (word_of_int (uint tag - 256)))
        else if r = [] \<and> tag = 0xC0 then Some JNull
        else if r = [] \<and> (tag = 0xC2 \<or> tag = 0xC3) then Some (JBool (tag = 0xC3))
        else if 0xCC \<le> tag \<and> tag \<le> 0xCF \<or> 0xD0 \<le> tag \<and> tag \<le> 0xD3 then mp_integer tag r
        else if tag = 0xCA \<or> tag = 0xCB then map_option JFloat (mp_float bs)
        else if tag AND 0xE0 = 0xA0 \<or> tag = 0xD9 \<or> tag = 0xDA \<or> tag = 0xDB then
          (case readMsgpackString bs of Some (v, []) \<Rightarrow> Some (JStr (text_of v)) | _ \<Rightarrow> None)
        else None)"

definition decodeMsgpackField :: "(bytes \<Rightarrow> json option) \<Rightarrow> bytes \<Rightarrow> json option" where
  "decodeMsgpackField dec bs = (case mp_scalar bs of Some j \<Rightarrow> Some j | None \<Rightarrow> dec bs)"

section \<open>Views\<close>

record row_view =
  rv_data :: bytes
  rv_indexed :: bool
  rv_fields :: "(bytes \<times> bytes) list" \<comment> \<open>name and encoded value, at most 32\<close>
  rv_valid :: bool

text \<open>The map header every reader of a row starts with.\<close>

definition row_header :: "bytes \<Rightarrow> (nat \<times> bytes) option" where
  "row_header bs =
     (case bs of [] \<Rightarrow> None
      | tag # r \<Rightarrow>
        if tag AND 0xF0 = 0x80 then Some (unat (tag AND 0x0F), r)
        else if tag = 0xDE \<or> tag = 0xDF then
          map_option (\<lambda>(n, r2). (unat n, r2)) (readBigEndian (if tag = 0xDE then 2 else 4) r)
        else None)"

fun index_fields :: "nat \<Rightarrow> bytes \<Rightarrow> (bytes \<times> bytes) list \<Rightarrow> (bytes \<times> bytes) list \<times> bool" where
  "index_fields 0 bs acc = (acc, bs = [])"
| "index_fields (Suc n) bs acc =
     (case readMsgpackString bs of None \<Rightarrow> (acc, False)
      | Some (name, r) \<Rightarrow>
        (case skipMsgpack 0 r of None \<Rightarrow> (acc, False)
         | Some r2 \<Rightarrow>
             index_fields n r2
               (if length acc < 32 then acc @ [(name, take (length r - length r2) r)] else acc)))"

definition buildFieldIndex :: "bytes \<Rightarrow> (bytes \<times> bytes) list \<times> bool" where
  "buildFieldIndex bs =
     (case row_header bs of None \<Rightarrow> ([], False) | Some (n, r) \<Rightarrow> index_fields n r [])"

definition row_view :: "bytes \<Rightarrow> bool \<Rightarrow> row_view" where
  "row_view bs indexFields =
     (let (fs, ok) = (if indexFields then buildFieldIndex bs else ([], False))
      in \<lparr>rv_data = bs, rv_indexed = indexFields, rv_fields = fs, rv_valid = ok\<rparr>)"

fun walk_field :: "(bytes \<Rightarrow> json option) \<Rightarrow> bytes \<Rightarrow> nat \<Rightarrow> bytes \<Rightarrow> json option" where
  "walk_field dec name 0 bs = None"
| "walk_field dec name (Suc n) bs =
     (case readMsgpackString bs of None \<Rightarrow> None
      | Some (key, r) \<Rightarrow>
        (case skipMsgpack 0 r of None \<Rightarrow> None
         | Some r2 \<Rightarrow>
             if key = name then decodeMsgpackField dec (take (length r - length r2) r)
             else walk_field dec name n r2))"

definition plain_field :: "(bytes \<Rightarrow> json option) \<Rightarrow> bytes \<Rightarrow> string \<Rightarrow> json option" where
  "plain_field dec bs name =
     (case row_header bs of None \<Rightarrow> None | Some (n, r) \<Rightarrow> walk_field dec (bytes_of name) n r)"

definition row_field :: "(bytes \<Rightarrow> json option) \<Rightarrow> row_view \<Rightarrow> string \<Rightarrow> json option" where
  "row_field dec v name =
     (if rv_indexed v then
        if \<not> rv_valid v then None
        else case map_of (rv_fields v) (bytes_of name) of
               Some sp \<Rightarrow> decodeMsgpackField dec sp
             | None \<Rightarrow> if length (rv_fields v) < 32 then None else plain_field dec (rv_data v) name
      else plain_field dec (rv_data v) name)"

text \<open>\<open>project\<close>: the selected root fields; \<open>None\<close> is the exception.\<close>

fun walk_project :: "(bytes \<Rightarrow> json option) \<Rightarrow> string list \<Rightarrow> nat \<Rightarrow> bytes \<Rightarrow> (string \<times> json) list
    \<Rightarrow> (string \<times> json) list option" where
  "walk_project dec names 0 bs acc = (if bs = [] then Some acc else None)"
| "walk_project dec names (Suc n) bs acc =
     (case readMsgpackString bs of None \<Rightarrow> None
      | Some (key, r) \<Rightarrow>
        (case skipMsgpack 0 r of None \<Rightarrow> None
         | Some r2 \<Rightarrow>
            (case find (\<lambda>name. bytes_of name = key) names of
               Some name \<Rightarrow>
                 if map_of acc name = None then
                   (case decodeMsgpackField dec (take (length r - length r2) r) of None \<Rightarrow> None
                    | Some j \<Rightarrow> walk_project dec names n r2 (obj_insert name j acc))
                 else walk_project dec names n r2 acc
             | None \<Rightarrow> walk_project dec names n r2 acc)))"

definition row_project :: "(bytes \<Rightarrow> json option) \<Rightarrow> row_view \<Rightarrow> string list \<Rightarrow> json option" where
  "row_project dec v names =
     (if rv_indexed v then
        if \<not> rv_valid v then None
        else Some (JObj (foldl (\<lambda>acc name. case row_field dec v name of
               Some j \<Rightarrow> obj_insert name j acc | None \<Rightarrow> acc) [] names))
      else case row_header (rv_data v) of None \<Rightarrow> None
           | Some (n, r) \<Rightarrow> map_option JObj (walk_project dec names n r []))"

definition row_materialize :: "(bytes \<Rightarrow> json option) \<Rightarrow> row_view \<Rightarrow> json option" where
  "row_materialize dec v = (if rv_data v = [] then None else dec (rv_data v))"


section \<open>Decoding what was encoded\<close>

text \<open>A non-negative signed integer comes back as an unsigned one.\<close>

fun jnorm :: "json \<Rightarrow> json" where
  "jnorm (JInt w) = (if 0 \<le> sint w then JUInt w else JInt w)"
| "jnorm (JArr xs) = JArr (map jnorm xs)"
| "jnorm (JObj xs) = JObj (map (\<lambda>(k, v). (k, jnorm v)) xs)"
| "jnorm j = j"

text \<open>What is asked of the arguments: the compact encoding of a double keeps its value, and the general
  decoder reads back the containers.\<close>

fun mp_decodes :: "(bytes \<Rightarrow> json option) \<Rightarrow> (dbl \<Rightarrow> bytes) \<Rightarrow> json \<Rightarrow> bool" where
  "mp_decodes dec flt (JFloat d) = (mp_float (flt d) = Some d)"
| "mp_decodes dec flt (JArr xs) = (dec (write_msgpack flt (JArr xs)) = Some (jnorm (JArr xs)))"
| "mp_decodes dec flt (JObj xs) = (dec (write_msgpack flt (JObj xs)) = Some (jnorm (JObj xs)))"
| "mp_decodes dec flt _ = True"

lemma readMsgpackString_write [codec_simps]:
  assumes "length s < 2 ^ 32"
  shows "readMsgpackString (mp_string s @ r) = Some (bytes_of s, r)"
proof (cases "length s \<le> 31")
  case True
  have "unat (ucast ((0xA0 OR of_nat (length s) :: byte) AND 0x1F) :: u64) = length s"
    using fixstr_tag(2) [OF True] True by (simp add: unsigned_ucast_eq take_bit_nat_eq_self_iff)
  then show ?thesis
    using True by (simp add: readMsgpackString_def mp_string_def mp_str_head_def fixstr_tag)
next
  case False
  then show ?thesis
    using assms
    by (auto simp: readMsgpackString_def mp_string_def mp_str_head_def readBigEndian_small unat_of_nat)
qed

lemma mp_string_Cons:
  assumes "length s < 2 ^ 32"
  obtains t r where "mp_string s = t # r" "0x9F < t" "t \<noteq> 0xC0" "t \<noteq> 0xC2" "t \<noteq> 0xC3" "t < 0xE0"
    "t < 0xCA \<or> 0xD3 < t" "t AND 0xE0 = 0xA0 \<or> t = 0xD9 \<or> t = 0xDA \<or> t = 0xDB"
proof -
  have fx: "\<forall>N \<in> set [0..<32]. 0x9F < (0xA0 OR of_nat N :: byte)"
    by code_simp
  show thesis
  proof (cases "length s \<le> 31")
    case True
    then have "0x9F < (0xA0 OR of_nat (length s) :: byte)"
      using fx by simp
    then show thesis
      using True fixstr_tag [OF True]
      by (intro that [of "0xA0 OR of_nat (length s)" "bytes_of s"])
        (auto simp: mp_string_def mp_str_head_def word_less_nat_alt)
  next
    case False
    then consider "length s \<le> 0xFF" | "0xFF < length s" "length s \<le> 0xFFFF" | "0xFFFF < length s" "length s \<le> 0xFFFFFFFF"
      using assms by fastforce
    then show thesis
      by cases (use False in \<open>auto intro!: that simp: mp_string_def mp_str_head_def\<close>)
  qed
qed

lemma mp_scalar_string:
  assumes "length s < 2 ^ 32"
  shows "mp_scalar (mp_string s) = Some (JStr s)"
proof -
  obtain t r where tr: "mp_string s = t # r" "0x9F < t" "t \<noteq> 0xC0" "t \<noteq> 0xC2" "t \<noteq> 0xC3" "t < 0xE0"
    "t < 0xCA \<or> 0xD3 < t" "t AND 0xE0 = 0xA0 \<or> t = 0xD9 \<or> t = 0xDA \<or> t = 0xDB"
    using mp_string_Cons [OF assms] .
  have rd: "readMsgpackString (t # r) = Some (bytes_of s, [])"
    using readMsgpackString_write [OF assms, of "[]"] tr(1) by simp
  have "\<not> t \<le> 0x7F" "\<not> 0xE0 \<le> t" "\<not> (0xCC \<le> t \<and> t \<le> 0xCF \<or> 0xD0 \<le> t \<and> t \<le> 0xD3)" "t \<noteq> 0xCA" "t \<noteq> 0xCB"
    using tr(2,6,7) by (auto simp: word_less_nat_alt word_le_nat_alt)
  then show ?thesis
    using tr rd by (auto simp: mp_scalar_def)
qed

lemma readBigEndian_exact:
  "readBigEndian n (be_bytes n w) = Some (take_bit (8 * n) (w :: u64), [])"
  using readBigEndian_be_bytes [of n w "[]"] by simp

lemma ucast_byte_u64: "w < (128 :: u64) \<Longrightarrow> (ucast (ucast w :: byte) :: u64) = w"
proof -
  assume "w < 128"
  then have "take_bit 8 w = w"
    by (simp add: take_bit_u64_small word_less_nat_alt)
  moreover have "(ucast (ucast w :: byte) :: u64) = take_bit 8 w"
    by (intro bit_eqI) (auto simp: bit_simps)
  ultimately show ?thesis
    by simp
qed

lemma mp_scalar_uint: "mp_scalar (mp_uint w) = Some (JUInt w)"
proof (cases "w < 128")
  case True
  then show ?thesis
    using posfix_byte [OF True]
    by (simp add: mp_uint_def be_bytes_1 [simplified] mp_scalar_def ucast_byte_u64)
next
  case False
  have tb: "w \<le> 0xFF \<Longrightarrow> take_bit 8 w = w" "w \<le> 0xFFFF \<Longrightarrow> take_bit 16 w = w"
    "w \<le> 0xFFFFFFFF \<Longrightarrow> take_bit 32 w = w" "take_bit 64 w = w"
    by (simp_all add: take_bit_u64_small word_le_nat_alt take_bit_word_eq_self)
  show ?thesis
    using False
    by (simp add: mp_uint_def mp_scalar_def mp_integer_def readBigEndian_exact tb)
qed


text \<open>Sign extension: the low bytes of a negative number in range give the number back.\<close>

lemma sign_extend_u64:
  assumes "- (2 ^ (k - 1)) \<le> sint (w :: u64)" "sint w < 0" "0 < k" "k < 64"
  shows "bit (take_bit k w) (k - 1) \<and> take_bit k w OR push_bit k 0xFFFFFFFFFFFFFFFF = w"
proof -
  have high: "bit w i" if i: "k - 1 \<le> i" "i < 64" for i
  proof -
    have "bit (sint w) i"
    proof -
      have "sint w div 2 ^ i = - 1"
      proof -
        have "- (2 ^ i) \<le> sint w"
          using assms(1) i(1) by (meson le_minus_iff minus_le_iff order_trans power_increasing one_le_numeral)
        then show ?thesis
          using assms(2) by (intro int_div_pos_eq [of _ _ _ "sint w + 2 ^ i"]) simp_all
      qed
      then show ?thesis
        by (simp add: bit_iff_odd)
    qed
    then show ?thesis
      using i(2) by (simp add: bit_sint_iff)
  qed
  have ones: "bit (0xFFFFFFFFFFFFFFFF :: u64) i \<longleftrightarrow> i < 64" for i
    using bit_mask_iff [of 64 i, where 'a = u64]
    by (auto simp: mask_eq_exp_minus_1 dest: bit_imp_le_length)
  show ?thesis
  proof
    show "bit (take_bit k w) (k - 1)"
      using high [of "k - 1"] assms by (simp add: bit_take_bit_iff)
    show "take_bit k w OR push_bit k 0xFFFFFFFFFFFFFFFF = w"
    proof (rule bit_eqI)
      fix n
      show "bit (take_bit k w OR push_bit k 0xFFFFFFFFFFFFFFFF) n = bit w n"
        using high [of n] ones [of "n - k"]
        by (auto simp: bit_or_iff bit_take_bit_iff bit_push_bit_iff dest: bit_imp_le_length)
    qed
  qed
qed


lemma mp_scalar_int: "mp_scalar (mp_int w) = Some (jnorm (JInt w))"
proof (cases "0 \<le> sint w")
  case True
  then show ?thesis
    by (simp add: mp_int_def mp_scalar_uint)
next
  case neg: False
  show ?thesis
  proof (cases "- 32 \<le> sint w")
    case True
    have u: "uint (ucast w :: byte) = sint w + 256"
      using negfix_byte [of w] neg True by simp
    have "0xE0 \<le> (ucast w :: byte)" "\<not> (ucast w :: byte) \<le> 0x7F"
      using u neg True by (simp_all add: word_le_def)
    then show ?thesis
      using neg True u by (simp add: mp_int_def be_bytes_1 [simplified] mp_scalar_def)
  next
    case False
    have ext: "bit (take_bit k w) (k - 1)" "take_bit k w OR push_bit k 0xFFFFFFFFFFFFFFFF = w"
      if "- (2 ^ (k - 1)) \<le> sint w" "0 < k" "k < 64" for k
      using sign_extend_u64 [of k w] that neg by simp_all
    have w64: "take_bit 64 w = w"
      by (simp add: take_bit_word_eq_self)
    show ?thesis
      using neg False ext [of 8] ext [of 16] ext [of 32]
      by (simp add: mp_int_def Let_def mp_scalar_def mp_integer_def readBigEndian_exact w64)
  qed
qed

lemma mp_scalar_container:
  "length xs < 2 ^ 32 \<Longrightarrow> mp_scalar (write_msgpack flt (JArr xs)) = None"
  "length ys < 2 ^ 32 \<Longrightarrow> mp_scalar (write_msgpack flt (JObj ys)) = None"
proof -
  have none: "mp_scalar (t # r) = None"
    if "0x7F < t" "t < 0xE0" "t AND 0xE0 = 0x80 \<or> t \<in> {0xDC, 0xDD, 0xDE, 0xDF}" "t < 0xC0 \<or> t \<in> {0xDC, 0xDD, 0xDE, 0xDF}"
    for t r
  proof -
    have "\<not> t \<le> 0x7F" "\<not> 0xE0 \<le> t" "t \<noteq> 0xC0" "t \<noteq> 0xC2" "t \<noteq> 0xC3" "t \<noteq> 0xCA" "t \<noteq> 0xCB"
      "\<not> (0xCC \<le> t \<and> t \<le> 0xCF)" "\<not> (0xD0 \<le> t \<and> t \<le> 0xD3)" "t \<noteq> 0xD9" "t \<noteq> 0xDA" "t \<noteq> 0xDB"
      using that(1,2,4) by (auto simp: word_less_nat_alt word_le_nat_alt)
    moreover have "t AND 0xE0 \<noteq> 0xA0"
      using that(3) by auto
    ultimately show ?thesis
      by (auto simp: mp_scalar_def)
  qed
  show "mp_scalar (write_msgpack flt (JArr xs)) = None" if "length xs < 2 ^ 32"
  proof (cases "length xs \<le> 15")
    case True
    then show ?thesis
      using fixarr_tag [OF True] none [of "0x90 OR of_nat (length xs)"]
      by (simp add: mp_arr_head_def word_less_nat_alt)
  next
    case False
    then show ?thesis
      using that none by (auto simp: mp_arr_head_def)
  qed
  show "mp_scalar (write_msgpack flt (JObj ys)) = None" if "length ys < 2 ^ 32"
  proof (cases "length ys \<le> 15")
    case True
    then show ?thesis
      using fixmap_tag [OF True] none [of "0x80 OR (of_nat (length ys) AND 0xF)"]
      by (simp add: mp_map_head_def word_less_nat_alt)
  next
    case False
    then show ?thesis
      using that none by (auto simp: mp_map_head_def)
  qed
qed

lemma mp_scalar_float: "flt_frame bs \<Longrightarrow> mp_scalar bs = map_option JFloat (mp_float bs)"
  by (auto simp: flt_frame_def mp_scalar_def split: list.splits)

lemma mp_scalar_word: "mp_scalar [0xC0] = Some JNull" "mp_scalar [0xC2] = Some (JBool False)"
  "mp_scalar [0xC3] = Some (JBool True)"
  by (simp_all add: mp_scalar_def)

lemma decodeMsgpackField_write:
  assumes "mp_ok flt v" "mp_decodes dec flt v"
  shows "decodeMsgpackField dec (write_msgpack flt v) = Some (jnorm v)"
  using assms mp_scalar_container [of _ flt]
  by (cases v) (auto simp: decodeMsgpackField_def mp_scalar_uint mp_scalar_int mp_scalar_string
      mp_scalar_float mp_scalar_word simp del: write_msgpack.simps(7,8) jnorm.simps(2,3))

section \<open>Fields of an encoded object\<close>

lemma row_header_write [codec_simps]:
  assumes "length xs < 2 ^ 32"
  shows "row_header (mp_map_head (length xs) @ r) = Some (length xs, r)"
proof (cases "length xs \<le> 15")
  case True
  then show ?thesis
    using fixmap_tag [OF True] by (simp add: row_header_def mp_map_head_def)
next
  case False
  then show ?thesis
    using assms by (auto simp: row_header_def mp_map_head_def readBigEndian_small unat_of_nat)
qed


text \<open>The entries of an object behind its header, and the condition under which the readers can walk
  over them: no value nested deeper than the skipping allows.\<close>

definition entries :: "(dbl \<Rightarrow> bytes) \<Rightarrow> (string \<times> json) list \<Rightarrow> bytes" where
  "entries flt kvs = concat (map (\<lambda>(k, v). mp_string k @ write_msgpack flt v) kvs)"

definition row_ok :: "(bytes \<Rightarrow> json option) \<Rightarrow> (dbl \<Rightarrow> bytes) \<Rightarrow> (string \<times> json) list \<Rightarrow> bool" where
  "row_ok dec flt kvs \<longleftrightarrow> length kvs < 2 ^ 32
     \<and> (\<forall>(k, v) \<in> set kvs. length k < 2 ^ 32 \<and> mp_ok flt v \<and> jdepth v \<le> 64 \<and> mp_decodes dec flt v)"

lemma entries_simps [simp]:
  "entries flt [] = []"
  "entries flt ((k, v) # kvs) = mp_string k @ write_msgpack flt v @ entries flt kvs"
  by (simp_all add: entries_def)

lemma row_ok_Cons:
  "row_ok dec flt ((k, v) # kvs) \<Longrightarrow> row_ok dec flt kvs \<and> length k < 2 ^ 32 \<and> mp_ok flt v
     \<and> jdepth v \<le> 64 \<and> mp_decodes dec flt v"
  by (auto simp: row_ok_def)

lemma write_obj: "write_msgpack flt (JObj kvs) = mp_map_head (length kvs) @ entries flt kvs"
  by (simp add: entries_def)

lemma walk_field_entries:
  "row_ok dec flt kvs \<Longrightarrow>
     walk_field dec (bytes_of name) (length kvs) (entries flt kvs) = map_option jnorm (map_of kvs name)"
proof (induction kvs)
  case (Cons kv kvs)
  obtain k v where kv: "kv = (k, v)" by (cases kv)
  show ?case
    using row_ok_Cons [OF Cons.prems [unfolded kv]] Cons.IH
    by (auto simp: kv readMsgpackString_write skip_write_msgpack [where d = 0] decodeMsgpackField_write)
qed simp

lemma plain_field_write:
  assumes "row_ok dec flt kvs"
  shows "plain_field dec (write_msgpack flt (JObj kvs)) name = map_option jnorm (map_of kvs name)"
proof -
  have "length kvs < 2 ^ 32"
    using assms by (simp add: row_ok_def)
  then show ?thesis
    using walk_field_entries [OF assms]
    by (simp add: plain_field_def write_obj row_header_write del: write_msgpack.simps)
qed

section \<open>The field index is transparent\<close>

text \<open>
  A built index holds the first 32 fields in order; the walk over the row agrees with the index as far
  as it reaches.
\<close>

lemma index_fields_walk:
  assumes "index_fields n bs acc = (fs, True)" "length acc \<le> 32"
  shows "\<exists>new. fs = acc @ new \<and> length fs \<le> 32
      \<and> (\<forall>sp. map_of new name = Some sp \<longrightarrow> walk_field dec name n bs = decodeMsgpackField dec sp)
      \<and> (map_of new name = None \<and> length fs < 32 \<longrightarrow> walk_field dec name n bs = None)"
  using assms
proof (induction n arbitrary: bs acc)
  case 0
  then show ?case by simp
next
  case (Suc n)
  obtain key r where rd: "readMsgpackString bs = Some (key, r)"
    using Suc.prems(1) by (auto split: option.splits)
  obtain r2 where sk: "skipMsgpack 0 r = Some r2"
    using Suc.prems(1) rd by (auto split: option.splits)
  let ?sp = "take (length r - length r2) r"
  let ?acc = "if length acc < 32 then acc @ [(key, ?sp)] else acc"
  have rec: "index_fields n r2 ?acc = (fs, True)"
    using Suc.prems(1) rd sk by simp
  obtain new where new: "fs = ?acc @ new" "length fs \<le> 32"
    "\<forall>sp. map_of new name = Some sp \<longrightarrow> walk_field dec name n r2 = decodeMsgpackField dec sp"
    "map_of new name = None \<and> length fs < 32 \<longrightarrow> walk_field dec name n r2 = None"
  proof -
    have "length ?acc \<le> 32"
      using Suc.prems(2) by simp
    then show thesis
      using Suc.IH [OF rec] that by blast
  qed
  show ?case
  proof (cases "length acc < 32")
    case True
    then show ?thesis
      using new rd sk by (intro exI [of _ "(key, ?sp) # new"]) auto
  next
    case False
    then have "length fs = length acc + length new"
      using new(1) by simp
    then have "length new = 0"
      using new(2) False by linarith
    then have "new = []"
      by simp
    then show ?thesis
      using False new by (intro exI [of _ "[]"]) auto
  qed
qed

lemma row_field_indexed:
  assumes "rv_valid (row_view bs True)"
  shows "row_field dec (row_view bs True) name = row_field dec (row_view bs False) name"
proof -
  obtain n r fs where h: "row_header bs = Some (n, r)" and ix: "index_fields n r [] = (fs, True)"
    and fs: "buildFieldIndex bs = (fs, True)"
    using assms by (auto simp: row_view_def buildFieldIndex_def split: option.splits prod.splits)
  obtain new where "fs = [] @ new" "length fs \<le> 32"
    "\<forall>sp. map_of new (bytes_of name) = Some sp \<longrightarrow> walk_field dec (bytes_of name) n r = decodeMsgpackField dec sp"
    "map_of new (bytes_of name) = None \<and> length fs < 32 \<longrightarrow> walk_field dec (bytes_of name) n r = None"
    using index_fields_walk [OF ix, of "bytes_of name" dec] by auto
  then show ?thesis
    using fs h by (auto simp: row_field_def row_view_def plain_field_def split: option.splits)
qed

lemma index_fields_entries: "row_ok dec flt kvs \<Longrightarrow> snd (index_fields (length kvs) (entries flt kvs) acc)"
proof (induction kvs arbitrary: acc)
  case (Cons kv kvs)
  obtain k v where kv: "kv = (k, v)" by (cases kv)
  show ?case
    using row_ok_Cons [OF Cons.prems [unfolded kv]] Cons.IH
    by (auto simp: kv readMsgpackString_write skip_write_msgpack [where d = 0])
qed simp

lemma rv_valid_write:
  assumes "row_ok dec flt kvs"
  shows "rv_valid (row_view (write_msgpack flt (JObj kvs)) True)"
proof -
  have "length kvs < 2 ^ 32"
    using assms by (simp add: row_ok_def)
  then show ?thesis
    using index_fields_entries [OF assms, of "[]"]
    by (simp add: row_view_def buildFieldIndex_def write_obj row_header_write split_beta del: write_msgpack.simps)
qed

text \<open>A view over an encoded object, indexed or not, finds the fields of the object.\<close>

theorem row_field_write:
  assumes "row_ok dec flt kvs"
  shows "row_field dec (row_view (write_msgpack flt (JObj kvs)) ix) name = map_option jnorm (map_of kvs name)"
proof -
  have plain: "row_field dec (row_view (write_msgpack flt (JObj kvs)) False) name
      = map_option jnorm (map_of kvs name)"
    using plain_field_write [OF assms] by (simp add: row_field_def row_view_def del: write_msgpack.simps)
  show ?thesis
    using plain row_field_indexed [OF rv_valid_write [OF assms], of dec name] by (cases ix) simp_all
qed

text \<open>
  A value nested deeper than 64 levels is encoded all the same, but hides every field behind it: the
  readers give up on the whole row.
\<close>

lemma walk_field_too_deep:
  assumes "length k < 2 ^ 32" "mp_ok flt v" "64 < jdepth v"
  shows "walk_field dec (bytes_of name) (Suc n) (entries flt ((k, v) # kvs)) = None"
  using assms by (simp add: readMsgpackString_write skip_write_msgpack [where d = 0])

end
