(* ===== verification/Sst_Format.thy ===== *)
theory Sst_Format
  imports Msgpack_Row Checksum Raft_Log "HOL-Library.Monad_Syntax"
begin

unbundle bit_operations_syntax

text \<open>
  The binary table files of the storage engine (\<open>storage_format_v2.cpp\<close>): the header, the blocks of
  MessagePack rows, the block index behind them, the writer \<open>writeSst\<close> and the readers \<open>loadMetadata\<close>,
  \<open>readBlockPayload\<close>, \<open>visitBlockRows\<close> and \<open>scanSst\<close>.  A file is a byte string; every message the code
  reports is a constructor of \<open>sst_error\<close>.  LZ4 and the JSON codec are arguments.
\<close>

section \<open>Fields\<close>

datatype sst_error =
    CannotStat | CannotReadHeader | NotBinarySst | TruncatedHeader | UnsupportedHeader | HeaderChecksum
  | BadIndexOffset | TruncatedIndex | BadIndexMagic | IndexChecksum | BadBlockCount
  | TruncatedEntry | TruncatedKeyRange | BlockOutside | IndexTrailing
  | TruncatedBlockHeader | BadBlockHeader | BlockMismatch | TruncatedPayload | BadPlainLength
  | DecompressionFailed | UnsupportedCompression | BlockChecksum
  | BadRowLength | BlockTrailing | BadRow | RowTooLarge
  | BlockCrossesIndex | BadSequentialBlock | BadCompression | RowCountMismatch
  | BadCursorRow | RowWithoutId | UnsortedIds | BadLegacyRow
  | BadIndexSize | MissingIndexChecksum | FooterMismatch

definition kSstMagic :: bytes where
  "kSstMagic = bytes_of ''PDBSST2'' @ [0]"

definition kSstIndexMagic :: bytes where
  "kSstIndexMagic = bytes_of ''PDBSIX2'' @ [0]"

definition kVersion :: u32 where
  "kVersion = 2"

definition kBlockMagic :: u32 where
  "kBlockMagic = 0x324b4c42"

definition kSstHeaderBytes :: nat where
  "kSstHeaderBytes = 64"

definition kBlockHeaderBytes :: nat where
  "kBlockHeaderBytes = 24"

definition kMaxFieldBytes :: nat where
  "kMaxFieldBytes = 64 * 1024 * 1024"

definition kMaxBlocks :: nat where
  "kMaxBlocks = 16 * 1024 * 1024"

definition readU32 :: "bytes \<Rightarrow> (u32 \<times> bytes) option" where
  "readU32 bs = (if length bs < 4 then None else Some (le_word (take 4 bs), drop 4 bs))"

definition readU64 :: "bytes \<Rightarrow> (u64 \<times> bytes) option" where
  "readU64 bs = (if length bs < 8 then None else Some (le_word (take 8 bs), drop 8 bs))"

text \<open>A read of \<open>n\<close> bytes at an offset of the file fails when the file ends before.\<close>

definition read_at :: "bytes \<Rightarrow> nat \<Rightarrow> nat \<Rightarrow> bytes option" where
  "read_at f off n = (if off + n \<le> length f then Some (take n (drop off f)) else None)"

lemma readU32_append [codec_simps]: "readU32 (le_bytes 4 w @ r) = Some (w, r)"
  by (simp add: readU32_def le_word_roundtrip)

lemma readU64_append [codec_simps]: "readU64 (le_bytes 8 w @ r) = Some (w, r)"
  by (simp add: readU64_def le_word_roundtrip)

lemma read_at_append [codec_simps]:
  "length p = off \<Longrightarrow> length x = n \<Longrightarrow> read_at (p @ x @ r) off n = Some x"
  by (auto simp: read_at_def)

lemma length_kSstMagic [simp, len_simps]: "length kSstMagic = 8" "length kSstIndexMagic = 8"
  by (simp_all add: kSstMagic_def kSstIndexMagic_def)

section \<open>Header\<close>

definition sst_header :: "u32 \<Rightarrow> u64 \<Rightarrow> u64 \<Rightarrow> u32 \<Rightarrow> u32 \<Rightarrow> bytes" where
  "sst_header targetBlockBytes rows indexOffset blocks crc =
     kSstMagic @ le_bytes 4 kVersion @ le_bytes 4 (of_nat kSstHeaderBytes :: u32)
       @ le_bytes 4 targetBlockBytes @ le_bytes 4 (0 :: u32) @ le_bytes 8 rows @ le_bytes 8 indexOffset
       @ le_bytes 4 blocks @ le_bytes 4 (0 :: u32) @ le_bytes 4 crc @ replicate 12 0"

definition header_fields :: "bytes \<Rightarrow> (u32 \<times> u32 \<times> u64 \<times> u64 \<times> u32 \<times> u32) option" where
  "header_fields bs = do {
     (version, r1) \<leftarrow> readU32 bs;
     (headerBytes, r2) \<leftarrow> readU32 r1;
     (targetBytes, r3) \<leftarrow> readU32 r2;
     (reserved, r4) \<leftarrow> readU32 r3;
     (rowCount, r5) \<leftarrow> readU64 r4;
     (indexOffset, r6) \<leftarrow> readU64 r5;
     (blockCount, r7) \<leftarrow> readU32 r6;
     (flags, r8) \<leftarrow> readU32 r7;
     (storedCrc, r9) \<leftarrow> readU32 r8;
     Some (version, headerBytes, rowCount, indexOffset, blockCount, storedCrc) }"

definition parseSstHeader :: "bytes \<Rightarrow> sst_error + u64 \<times> u64 \<times> u32" where
  "parseSstHeader header =
     (if take 8 header \<noteq> kSstMagic then Inl NotBinarySst
      else case header_fields (drop 8 header) of
        None \<Rightarrow> Inl TruncatedHeader
      | Some (version, headerBytes, rowCount, indexOffset, blockCount, storedCrc) \<Rightarrow>
          if version \<noteq> kVersion \<or> unat headerBytes \<noteq> kSstHeaderBytes \<or> kMaxBlocks < unat blockCount
          then Inl UnsupportedHeader
          else if crc32 (take 48 header @ replicate 4 0 @ drop 52 header) \<noteq> storedCrc then Inl HeaderChecksum
          else Inr (rowCount, indexOffset, blockCount))"

section \<open>Block index\<close>

record BlockIndexEntry =
  be_offset :: u64
  be_stored :: u32
  be_original :: u32
  be_rows :: u32
  be_firstKey :: string
  be_lastKey :: string

record SstMetadata =
  md_fileSize :: nat
  md_mtime :: int
  md_rowCount :: u64
  md_blocks :: "BlockIndexEntry list"

definition entry_bytes :: "BlockIndexEntry \<Rightarrow> bytes" where
  "entry_bytes e =
     le_bytes 8 (be_offset e) @ le_bytes 4 (be_stored e) @ le_bytes 4 (be_original e) @ le_bytes 4 (be_rows e)
       @ le_bytes 4 (of_nat (length (be_firstKey e)) :: u32) @ bytes_of (be_firstKey e)
       @ le_bytes 4 (of_nat (length (be_lastKey e)) :: u32) @ bytes_of (be_lastKey e)"

text \<open>A length-prefixed key of the index.\<close>

definition read_key :: "bytes \<Rightarrow> (string \<times> bytes) option" where
  "read_key bs =
     (case readU32 bs of None \<Rightarrow> None
      | Some (n, r) \<Rightarrow>
          if kMaxFieldBytes < unat n \<or> length r < unat n then None
          else Some (text_of (take (unat n) r), drop (unat n) r))"

definition entry_fields :: "bytes \<Rightarrow> (u64 \<times> u32 \<times> u32 \<times> u32 \<times> string \<times> bytes) option" where
  "entry_fields bs = do {
     (off, r1) \<leftarrow> readU64 bs;
     (stored, r2) \<leftarrow> readU32 r1;
     (original, r3) \<leftarrow> readU32 r2;
     (rows, r4) \<leftarrow> readU32 r3;
     (firstKey, r5) \<leftarrow> read_key r4;
     Some (off, stored, original, rows, firstKey, r5) }"

definition read_entry :: "u64 \<Rightarrow> bytes \<Rightarrow> sst_error + BlockIndexEntry \<times> bytes" where
  "read_entry indexOffset bs =
     (case entry_fields bs of
        None \<Rightarrow> Inl TruncatedEntry
      | Some (off, stored, original, rows, firstKey, r5) \<Rightarrow>
        (case read_key r5 of
           None \<Rightarrow> Inl TruncatedKeyRange
         | Some (lastKey, r6) \<Rightarrow>
             if off < of_nat kSstHeaderBytes \<or> indexOffset < off + of_nat kBlockHeaderBytes + ucast stored
             then Inl BlockOutside
             else Inr (\<lparr>be_offset = off, be_stored = stored, be_original = original, be_rows = rows,
                        be_firstKey = firstKey, be_lastKey = lastKey\<rparr>, r6)))"

fun read_entries :: "nat \<Rightarrow> u64 \<Rightarrow> bytes \<Rightarrow> sst_error + BlockIndexEntry list \<times> bytes" where
  "read_entries 0 indexOffset bs = Inr ([], bs)"
| "read_entries (Suc n) indexOffset bs =
     (case read_entry indexOffset bs of Inl e \<Rightarrow> Inl e
      | Inr (x, r) \<Rightarrow>
        (case read_entries n indexOffset r of Inl e \<Rightarrow> Inl e | Inr (xs, r2) \<Rightarrow> Inr (x # xs, r2)))"

text \<open>
  The part of \<open>loadMetadata\<close> behind the cache: everything is read from the file.  First the block index
  (from its offset to the end of the file), then the file around it.
\<close>

definition parse_index :: "u64 \<Rightarrow> u32 \<Rightarrow> bytes \<Rightarrow> sst_error + BlockIndexEntry list" where
  "parse_index indexOffset blockCount indexBytes =
     (let body = take (length indexBytes - 4) indexBytes
      in if length indexBytes < 16 \<or> take 8 indexBytes \<noteq> kSstIndexMagic then Inl BadIndexMagic
         else if crc32 body \<noteq> le_word (drop (length indexBytes - 4) indexBytes) then Inl IndexChecksum
         else case readU32 (drop 8 body) of
                None \<Rightarrow> Inl BadBlockCount
              | Some (n, r) \<Rightarrow>
                  if n \<noteq> blockCount \<or> kMaxBlocks < unat n then Inl BadBlockCount
                  else (case read_entries (unat n) indexOffset r of
                          Inl e \<Rightarrow> Inl e
                        | Inr (blocks, rest) \<Rightarrow> if rest \<noteq> [] then Inl IndexTrailing else Inr blocks))"

definition parseMetadata :: "bytes \<Rightarrow> int \<Rightarrow> sst_error + SstMetadata" where
  "parseMetadata f mtime =
     (if length f < kSstHeaderBytes then Inl CannotStat
      else case parseSstHeader (take kSstHeaderBytes f) of
        Inl e \<Rightarrow> Inl e
      | Inr (rowCount, indexOffset, blockCount) \<Rightarrow>
          if indexOffset < of_nat kSstHeaderBytes \<or> length f \<le> unat indexOffset then Inl BadIndexOffset
          else (case parse_index indexOffset blockCount (drop (unat indexOffset) f) of
                  Inl e \<Rightarrow> Inl e
                | Inr blocks \<Rightarrow>
                    Inr \<lparr>md_fileSize = length f, md_mtime = mtime, md_rowCount = rowCount, md_blocks = blocks\<rparr>))"

section \<open>Blocks\<close>

definition block_fields :: "bytes \<Rightarrow> (u32 \<times> byte \<times> u32 \<times> u32 \<times> u32 \<times> u32) option" where
  "block_fields bs = do {
     (magic, r1) \<leftarrow> readU32 bs;
     (stored, r2) \<leftarrow> readU32 (drop 4 r1);
     (original, r3) \<leftarrow> readU32 r2;
     (rows, r4) \<leftarrow> readU32 r3;
     (checksum, r5) \<leftarrow> readU32 r4;
     Some (magic, hd r1, stored, original, rows, checksum) }"

text \<open>The stored bytes of a block as its plain bytes: shared by both block readers up to the error they
  report for a plain block of the wrong length and for an unknown compression.\<close>

definition unpack_block :: "lz4 \<Rightarrow> sst_error \<Rightarrow> sst_error \<Rightarrow> byte \<Rightarrow> nat \<Rightarrow> bytes \<Rightarrow> sst_error + bytes" where
  "unpack_block z badLength badKind compression original encoded =
     (if compression = 0 then (if length encoded \<noteq> original then Inl badLength else Inr encoded)
      else if compression = 1 then
        (case lz_decompress z encoded original of
           Some plain \<Rightarrow> if length plain \<noteq> original then Inl DecompressionFailed else Inr plain
         | None \<Rightarrow> Inl DecompressionFailed)
      else Inl badKind)"

definition readBlockPayload :: "lz4 \<Rightarrow> bytes \<Rightarrow> BlockIndexEntry \<Rightarrow> sst_error + bytes \<times> nat" where
  "readBlockPayload z f expected =
     (case read_at f (unat (be_offset expected)) kBlockHeaderBytes of
        None \<Rightarrow> Inl TruncatedBlockHeader
      | Some header \<Rightarrow>
        (case block_fields header of
           None \<Rightarrow> Inl BadBlockHeader
         | Some (magic, compression, stored, original, rows, checksum) \<Rightarrow>
             if magic \<noteq> kBlockMagic then Inl BadBlockHeader
             else if stored \<noteq> be_stored expected \<or> original \<noteq> be_original expected
                     \<or> rows \<noteq> be_rows expected \<or> kMaxFieldBytes * 4 < unat original
             then Inl BlockMismatch
             else (case read_at f (unat (be_offset expected) + kBlockHeaderBytes) (unat stored) of
                     None \<Rightarrow> Inl TruncatedPayload
                   | Some encoded \<Rightarrow>
                     (case unpack_block z BadPlainLength UnsupportedCompression compression (unat original) encoded of
                        Inl e \<Rightarrow> Inl e
                      | Inr plain \<Rightarrow>
                          if crc32 plain \<noteq> checksum then Inl BlockChecksum else Inr (plain, unat rows)))))"

section \<open>Visiting the rows\<close>

text \<open>A visitor updates its own state and continues, stops or throws.\<close>

datatype visit = Go | Stop | Throw

datatype outcome = Finished | Stopped | Failed sst_error

fun visitBlockRows :: "('s \<Rightarrow> bytes \<Rightarrow> 's \<times> visit) \<Rightarrow> nat \<Rightarrow> bytes \<Rightarrow> 's \<Rightarrow> 's \<times> outcome" where
  "visitBlockRows v 0 payload s = (s, if payload = [] then Finished else Failed BlockTrailing)"
| "visitBlockRows v (Suc n) payload s =
     (case readU32 payload of
        None \<Rightarrow> (s, Failed BadRowLength)
      | Some (sz, r) \<Rightarrow>
          if sz = 0 \<or> kMaxFieldBytes < unat sz \<or> length r < unat sz then (s, Failed BadRowLength)
          else (case v s (take (unat sz) r) of
                  (s', Go) \<Rightarrow> visitBlockRows v n (drop (unat sz) r) s'
                | (s', Stop) \<Rightarrow> (s', Stopped)
                | (s', Throw) \<Rightarrow> (s', Failed BadRow)))"

fun scan_blocks :: "lz4 \<Rightarrow> bytes \<Rightarrow> ('s \<Rightarrow> bytes \<Rightarrow> 's \<times> visit) \<Rightarrow> BlockIndexEntry list \<Rightarrow> 's \<Rightarrow> 's \<times> outcome" where
  "scan_blocks z f v [] s = (s, Finished)"
| "scan_blocks z f v (b # bs) s =
     (case readBlockPayload z f b of
        Inl e \<Rightarrow> (s, Failed e)
      | Inr (plain, n) \<Rightarrow>
        (case visitBlockRows v n plain s of
           (s', Finished) \<Rightarrow> scan_blocks z f v bs s'
         | r \<Rightarrow> r))"

definition scanSstViews :: "lz4 \<Rightarrow> bytes \<Rightarrow> ('s \<Rightarrow> bytes \<Rightarrow> 's \<times> visit) \<Rightarrow> 's \<Rightarrow> 's \<times> outcome" where
  "scanSstViews z f v s =
     (case parseMetadata f 0 of Inl e \<Rightarrow> (s, Failed e) | Inr md \<Rightarrow> scan_blocks z f v (md_blocks md) s)"

text \<open>\<open>scanSst\<close> decodes each row before it calls the visitor.\<close>

definition scanSst :: "json_codec \<Rightarrow> lz4 \<Rightarrow> bytes \<Rightarrow> ('s \<Rightarrow> json \<Rightarrow> 's \<times> visit) \<Rightarrow> 's \<Rightarrow> 's \<times> outcome" where
  "scanSst c z f v s =
     scanSstViews z f
       (\<lambda>s row. case row_materialize (from_msgpack c) (row_view row False) of
                  Some j \<Rightarrow> v s j | None \<Rightarrow> (s, Throw)) s"


section \<open>Writing\<close>

record SstWriteStats =
  ss_rows :: nat
  ss_blocks :: nat
  ss_uncompressedBytes :: nat
  ss_storedBytes :: nat

record sst_writer =
  w_out :: bytes
  w_index :: "BlockIndexEntry list"
  w_block :: bytes
  w_firstKey :: string
  w_lastKey :: string
  w_blockRows :: nat
  w_stats :: SstWriteStats

definition rowId :: "json_codec \<Rightarrow> json \<Rightarrow> string" where
  "rowId c row =
     (case jlookup row ''id'' of
        None \<Rightarrow> []
      | Some v \<Rightarrow> (case v of JStr i \<Rightarrow> i | _ \<Rightarrow> text_of (jdump c v)))"

text \<open>The stored form of a block: compressed only when that saves more than eight bytes.\<close>

definition pack_block :: "lz4 \<Rightarrow> bytes \<Rightarrow> byte \<times> bytes" where
  "pack_block z block =
     (if lz_bound z (length block) > 0 then
        (case lz_compress z block of
           Some e \<Rightarrow> if e \<noteq> [] \<and> length e + 8 < length block then (1, e) else (0, block)
         | None \<Rightarrow> (0, block))
      else (0, block))"

definition block_header :: "byte \<Rightarrow> u32 \<Rightarrow> u32 \<Rightarrow> u32 \<Rightarrow> u32 \<Rightarrow> bytes" where
  "block_header compression stored original rows checksum =
     le_bytes 4 kBlockMagic @ [compression, 0, 0, 0] @ le_bytes 4 stored @ le_bytes 4 original
       @ le_bytes 4 rows @ le_bytes 4 checksum"

definition flushBlock :: "lz4 \<Rightarrow> sst_writer \<Rightarrow> sst_writer" where
  "flushBlock z w =
     (if w_blockRows w = 0 then w
      else
        let (compression, data) = pack_block z (w_block w);
            entry = \<lparr>be_offset = of_nat (length (w_out w)), be_stored = of_nat (length data),
                     be_original = of_nat (length (w_block w)), be_rows = of_nat (w_blockRows w),
                     be_firstKey = w_firstKey w, be_lastKey = w_lastKey w\<rparr>;
            hdr = block_header compression (be_stored entry) (be_original entry) (be_rows entry)
                    (crc32 (w_block w));
            st = w_stats w
        in w\<lparr>w_out := w_out w @ hdr @ data, w_index := w_index w @ [entry],
             w_block := [], w_firstKey := [], w_lastKey := [], w_blockRows := 0,
             w_stats := st\<lparr>ss_blocks := Suc (ss_blocks st),
                           ss_uncompressedBytes := ss_uncompressedBytes st + length (w_block w),
                           ss_storedBytes := ss_storedBytes st + length hdr + length data\<rparr>\<rparr>)"

definition add_row :: "json_codec \<Rightarrow> lz4 \<Rightarrow> nat \<Rightarrow> json \<Rightarrow> sst_writer \<Rightarrow> sst_error + sst_writer" where
  "add_row c z targetBlockBytes row w =
     (let packed = to_msgpack c row
      in if packed = [] \<or> kMaxFieldBytes < length packed then Inl RowTooLarge
         else
           let w1 = (if 0 < w_blockRows w \<and> targetBlockBytes < length (w_block w) + (4 + length packed)
                     then flushBlock z w else w);
               i = rowId c row
           in Inr (w1\<lparr>w_firstKey := (if w_blockRows w1 = 0 then i else w_firstKey w1), w_lastKey := i,
                      w_block := w_block w1 @ le_bytes 4 (of_nat (length packed) :: u32) @ packed,
                      w_blockRows := Suc (w_blockRows w1),
                      w_stats := (w_stats w1)\<lparr>ss_rows := Suc (ss_rows (w_stats w1))\<rparr>\<rparr>))"

fun add_rows :: "json_codec \<Rightarrow> lz4 \<Rightarrow> nat \<Rightarrow> json list \<Rightarrow> sst_writer \<Rightarrow> sst_error + sst_writer" where
  "add_rows c z tb [] w = Inr w"
| "add_rows c z tb (row # rows) w =
     (case add_row c z tb row w of Inl e \<Rightarrow> Inl e | Inr w' \<Rightarrow> add_rows c z tb rows w')"

definition writer_init :: sst_writer where
  "writer_init = \<lparr>w_out = replicate kSstHeaderBytes 0, w_index = [], w_block = [], w_firstKey = [],
     w_lastKey = [], w_blockRows = 0,
     w_stats = \<lparr>ss_rows = 0, ss_blocks = 0, ss_uncompressedBytes = 0, ss_storedBytes = 0\<rparr>\<rparr>"

definition index_bytes :: "BlockIndexEntry list \<Rightarrow> bytes" where
  "index_bytes es =
     (let body = kSstIndexMagic @ le_bytes 4 (of_nat (length es) :: u32) @ concat (map entry_bytes es)
      in body @ le_bytes 4 (crc32 body))"

definition final_header :: "nat \<Rightarrow> nat \<Rightarrow> nat \<Rightarrow> nat \<Rightarrow> bytes" where
  "final_header tb rows indexOffset blocks =
     sst_header (of_nat tb) (of_nat rows) (of_nat indexOffset) (of_nat blocks)
       (crc32 (sst_header (of_nat tb) (of_nat rows) (of_nat indexOffset) (of_nat blocks) 0))"

text \<open>The bytes \<open>writeSst\<close> leaves in the file and its statistics.\<close>

definition sst_image :: "json_codec \<Rightarrow> lz4 \<Rightarrow> nat \<Rightarrow> json list \<Rightarrow> sst_error + bytes \<times> SstWriteStats" where
  "sst_image c z targetBlockBytes rows =
     (let tb = max 4096 (min targetBlockBytes 16384)
      in case add_rows c z tb rows writer_init of
           Inl e \<Rightarrow> Inl e
         | Inr w0 \<Rightarrow>
             (let w = flushBlock z w0; ix = index_bytes (w_index w); st = w_stats w
              in Inr (final_header tb (ss_rows st) (length (w_out w)) (length (w_index w))
                        @ drop kSstHeaderBytes (w_out w) @ ix,
                      st\<lparr>ss_storedBytes := ss_storedBytes st + kSstHeaderBytes + length ix\<rparr>)))"

end
