(* ===== verification/Sst_Laws.thy ===== *)
theory Sst_Laws
  imports Sst_Format
begin

unbundle bit_operations_syntax

text \<open>
  What a written table file looks like and what the readers make of it.  The writer cuts the rows into
  chunks, one per block; \<open>table_of\<close> is the file of a list of chunks, and every written file is one.  The
  readers are proved against \<open>table_of\<close>: the metadata are the entries of the chunks, a block gives back
  its rows, and a scan visits the packed rows in order.
\<close>

section \<open>The layout of a file\<close>

definition row_bytes :: "json_codec \<Rightarrow> json \<Rightarrow> bytes" where
  "row_bytes c row = le_bytes 4 (of_nat (length (to_msgpack c row)) :: u32) @ to_msgpack c row"

definition plain_of :: "json_codec \<Rightarrow> json list \<Rightarrow> bytes" where
  "plain_of c rs = concat (map (row_bytes c) rs)"

definition block_of :: "json_codec \<Rightarrow> lz4 \<Rightarrow> json list \<Rightarrow> bytes" where
  "block_of c z rs =
     (let p = plain_of c rs; (k, d) = pack_block z p
      in block_header k (of_nat (length d)) (of_nat (length p)) (of_nat (length rs)) (crc32 p) @ d)"

definition entry_of :: "json_codec \<Rightarrow> lz4 \<Rightarrow> nat \<Rightarrow> json list \<Rightarrow> BlockIndexEntry" where
  "entry_of c z off rs =
     \<lparr>be_offset = of_nat off, be_stored = of_nat (length (snd (pack_block z (plain_of c rs)))),
      be_original = of_nat (length (plain_of c rs)), be_rows = of_nat (length rs),
      be_firstKey = rowId c (hd rs), be_lastKey = rowId c (last rs)\<rparr>"

fun entries_from :: "json_codec \<Rightarrow> lz4 \<Rightarrow> nat \<Rightarrow> json list list \<Rightarrow> BlockIndexEntry list" where
  "entries_from c z off [] = []"
| "entries_from c z off (rs # cs) = entry_of c z off rs # entries_from c z (off + length (block_of c z rs)) cs"

definition blocks_of :: "json_codec \<Rightarrow> lz4 \<Rightarrow> json list list \<Rightarrow> bytes" where
  "blocks_of c z cs = concat (map (block_of c z) cs)"

definition table_of :: "json_codec \<Rightarrow> lz4 \<Rightarrow> nat \<Rightarrow> json list list \<Rightarrow> bytes" where
  "table_of c z tb cs =
     final_header tb (length (concat cs)) (64 + length (blocks_of c z cs)) (length cs)
       @ blocks_of c z cs @ index_bytes (entries_from c z 64 cs)"

text \<open>A row the format carries, and a chunk as the writer forms it.\<close>

definition packed_ok :: "json_codec \<Rightarrow> json \<Rightarrow> bool" where
  "packed_ok c row \<longleftrightarrow> to_msgpack c row \<noteq> [] \<and> length (to_msgpack c row) \<le> kMaxFieldBytes"

definition chunk_ok :: "json_codec \<Rightarrow> json list \<Rightarrow> bool" where
  "chunk_ok c rs \<longleftrightarrow> rs \<noteq> [] \<and> (\<forall>r \<in> set rs. packed_ok c r) \<and> length (plain_of c rs) \<le> kMaxFieldBytes + 4"

lemma length_row_bytes [simp]: "length (row_bytes c row) = 4 + length (to_msgpack c row)"
  by (simp add: row_bytes_def)

lemma plain_of_simps [simp]:
  "plain_of c [] = []" "plain_of c (r # rs) = row_bytes c r @ plain_of c rs"
  "plain_of c (rs @ ss) = plain_of c rs @ plain_of c ss"
  by (simp_all add: plain_of_def)

lemma length_plain_of: "\<forall>r \<in> set rs. packed_ok c r \<Longrightarrow> 5 * length rs \<le> length (plain_of c rs)"
proof (induction rs)
  case (Cons r rs)
  then have "1 \<le> length (to_msgpack c r)"
    by (cases "to_msgpack c r") (auto simp: packed_ok_def)
  then show ?case
    using Cons by simp
qed simp

lemma entries_from_append:
  "entries_from c z off (cs @ ds) = entries_from c z off cs @ entries_from c z (off + length (blocks_of c z cs)) ds"
  by (induction cs arbitrary: off) (simp_all add: blocks_of_def add.assoc)

lemma length_entries_from [simp]: "length (entries_from c z off cs) = length cs"
  by (induction cs arbitrary: off) simp_all

lemma blocks_of_simps [simp]:
  "blocks_of c z [] = []" "blocks_of c z (cs @ ds) = blocks_of c z cs @ blocks_of c z ds"
  "blocks_of c z (rs # cs) = block_of c z rs @ blocks_of c z cs"
  by (simp_all add: blocks_of_def)

section \<open>The writer makes such a file\<close>

text \<open>The writer has flushed the chunks \<open>cs\<close> and holds the rows \<open>cur\<close> of the block it fills.\<close>

definition writer_holds :: "json_codec \<Rightarrow> lz4 \<Rightarrow> json list list \<Rightarrow> json list \<Rightarrow> sst_writer \<Rightarrow> bool" where
  "writer_holds c z cs cur w \<longleftrightarrow>
     w_out w = replicate 64 0 @ blocks_of c z cs \<and> w_index w = entries_from c z 64 cs
     \<and> w_block w = plain_of c cur \<and> w_blockRows w = length cur
     \<and> (cur \<noteq> [] \<longrightarrow> w_firstKey w = rowId c (hd cur) \<and> w_lastKey w = rowId c (last cur))
     \<and> ss_rows (w_stats w) = length (concat cs @ cur)
     \<and> (\<forall>rs \<in> set cs. chunk_ok c rs) \<and> (\<forall>r \<in> set cur. packed_ok c r)
     \<and> length (plain_of c cur) \<le> kMaxFieldBytes + 4"

lemma writer_holds_init: "writer_holds c z [] [] writer_init"
  by (simp add: writer_holds_def writer_init_def kSstHeaderBytes_def)

lemma writer_holds_flush:
  assumes "writer_holds c z cs cur w"
  shows "\<exists>ds. concat ds = concat cs @ cur \<and> writer_holds c z ds [] (flushBlock z w)"
proof (cases "cur = []")
  case True
  then show ?thesis
    using assms by (intro exI [of _ cs]) (simp add: flushBlock_def writer_holds_def)
next
  case False
  obtain k d where kd: "pack_block z (plain_of c cur) = (k, d)"
    by (cases "pack_block z (plain_of c cur)")
  have "block_of c z cur = block_header k (of_nat (length d)) (of_nat (length (plain_of c cur)))
      (of_nat (length cur)) (crc32 (plain_of c cur)) @ d"
    by (simp add: block_of_def kd Let_def)
  moreover have "chunk_ok c cur"
    using assms False by (auto simp: writer_holds_def chunk_ok_def)
  ultimately show ?thesis
    using assms False kd
    by (intro exI [of _ "cs @ [cur]"])
      (auto simp: writer_holds_def flushBlock_def Let_def entries_from_append entry_of_def)
qed

lemma writer_holds_add:
  assumes "writer_holds c z cs cur w" "add_row c z tb row w = Inr w'" "tb \<le> 16384"
  shows "\<exists>ds ns. concat ds @ ns = concat cs @ cur @ [row] \<and> writer_holds c z ds ns w'"
proof -
  let ?pk = "to_msgpack c row"
  let ?flush = "0 < w_blockRows w \<and> tb < length (w_block w) + (4 + length ?pk)"
  define w1 where "w1 = (if ?flush then flushBlock z w else w)"
  have pk: "packed_ok c row"
    using assms(2) by (auto simp: add_row_def packed_ok_def Let_def split: if_splits)
  obtain ds ns where h: "concat ds @ ns = concat cs @ cur" "writer_holds c z ds ns w1"
    and small: "length (plain_of c ns) + (4 + length ?pk) \<le> kMaxFieldBytes + 4"
  proof (cases ?flush)
    case True
    then show thesis
      using writer_holds_flush [OF assms(1)] pk that [of _ "[]"]
      by (auto simp: w1_def packed_ok_def)
  next
    case False
    then have "length (plain_of c cur) + (4 + length ?pk) \<le> kMaxFieldBytes + 4"
      using assms(1,3) pk by (auto simp: writer_holds_def packed_ok_def kMaxFieldBytes_def)
    moreover have "w1 = w"
      unfolding w1_def using False by (rule if_not_P)
    ultimately show thesis
      using assms(1) that [of cs cur] by simp
  qed
  have w': "w' = w1\<lparr>w_firstKey := (if w_blockRows w1 = 0 then rowId c row else w_firstKey w1),
      w_lastKey := rowId c row, w_block := w_block w1 @ row_bytes c row, w_blockRows := Suc (w_blockRows w1),
      w_stats := (w_stats w1)\<lparr>ss_rows := Suc (ss_rows (w_stats w1))\<rparr>\<rparr>"
    using assms(2) by (auto simp: add_row_def Let_def w1_def row_bytes_def split: if_splits)
  have "writer_holds c z ds (ns @ [row]) w'"
    using h(2) pk small by (cases "ns = []") (auto simp: writer_holds_def w')
  then show ?thesis
    using h(1) by (intro exI [of _ ds] exI [of _ "ns @ [row]"]) (metis append_assoc)
qed

lemma writer_holds_adds:
  "writer_holds c z cs cur w \<Longrightarrow> add_rows c z tb rows w = Inr w' \<Longrightarrow> tb \<le> 16384
     \<Longrightarrow> \<exists>ds ns. concat ds @ ns = concat cs @ cur @ rows \<and> writer_holds c z ds ns w'"
proof (induction rows arbitrary: cs cur w)
  case Nil
  then show ?case
    by auto
next
  case (Cons row rows)
  obtain w1 where w1: "add_row c z tb row w = Inr w1" "add_rows c z tb rows w1 = Inr w'"
    using Cons.prems(2) by (auto split: sum.splits)
  obtain ds ns where h: "concat ds @ ns = concat cs @ cur @ [row]" "writer_holds c z ds ns w1"
    using writer_holds_add [OF Cons.prems(1) w1(1) Cons.prems(3)] by blast
  obtain es ms where "concat es @ ms = concat ds @ ns @ rows" "writer_holds c z es ms w'"
    using Cons.IH [OF h(2) w1(2) Cons.prems(3)] by blast
  then show ?case
    using h(1) by (intro exI [of _ es] exI [of _ ms]) (metis append.assoc append_Cons append_Nil)
qed

lemma sst_image_table:
  assumes "sst_image c z target rows = Inr (f, st)"
  obtains cs tb where "concat cs = rows" "\<forall>rs \<in> set cs. chunk_ok c rs" "f = table_of c z tb cs"
    "ss_rows st = length rows"
proof -
  let ?tb = "max 4096 (min target 16384)"
  obtain w0 where w0: "add_rows c z ?tb rows writer_init = Inr w0"
    using assms by (auto simp: sst_image_def Let_def split: sum.splits)
  obtain ds ns where h: "concat ds @ ns = rows" "writer_holds c z ds ns w0"
    using writer_holds_adds [OF writer_holds_init w0] by auto
  obtain cs where cs: "concat cs = rows" "writer_holds c z cs [] (flushBlock z w0)"
    using writer_holds_flush [OF h(2)] h(1) by auto
  have f: "f = table_of c z ?tb cs" "ss_rows st = length rows"
    using assms cs by (auto simp: sst_image_def w0 Let_def table_of_def writer_holds_def kSstHeaderBytes_def)
  moreover have "\<forall>rs \<in> set cs. chunk_ok c rs"
    using cs(2) by (simp add: writer_holds_def)
  ultimately show thesis
    using that cs(1) by blast
qed


section \<open>Reading it back\<close>

text \<open>LZ4 inverts itself on the data at hand.\<close>

definition lz4_ok :: "lz4 \<Rightarrow> bytes \<Rightarrow> bool" where
  "lz4_ok z b \<longleftrightarrow> (case lz_compress z b of Some e \<Rightarrow> lz_decompress z e (length b) = Some b | None \<Rightarrow> True)"

lemma length_sst_header [simp, len_simps]: "length (sst_header t r i b k) = 64"
  by (simp add: sst_header_def)

lemma length_final_header [simp, len_simps]: "length (final_header tb rows off n) = 64"
  by (simp add: final_header_def)

lemma header_fields_append:
  "header_fields (le_bytes 4 v @ le_bytes 4 h @ le_bytes 4 (t :: u32) @ le_bytes 4 (x :: u32) @ le_bytes 8 rows
      @ le_bytes 8 off @ le_bytes 4 n @ le_bytes 4 (fl :: u32) @ le_bytes 4 k @ r) = Some (v, h, rows, off, n, k)"
  by (simp add: header_fields_def codec_simps)

lemma zeroed_header:
  "take 48 (sst_header t r i b k) @ replicate 4 0 @ drop 52 (sst_header t r i b k) = sst_header t r i b 0"
proof -
  have z: "le_bytes 4 (0 :: u32) = replicate 4 0"
    by code_simp
  let ?p = "kSstMagic @ le_bytes 4 kVersion @ le_bytes 4 (of_nat kSstHeaderBytes :: u32) @ le_bytes 4 t
    @ le_bytes 4 (0 :: u32) @ le_bytes 8 r @ le_bytes 8 i @ le_bytes 4 b @ le_bytes 4 (0 :: u32)"
  have eq: "sst_header t r i b w = ?p @ le_bytes 4 w @ replicate 12 0" for w
    by (simp add: sst_header_def)
  have len: "length ?p = 48"
    by simp
  show ?thesis
    unfolding eq using len by (simp add: z)
qed

lemma parse_final_header:
  assumes "n \<le> kMaxBlocks"
  shows "parseSstHeader (final_header tb rows off n) = Inr (of_nat rows, of_nat off, of_nat n)"
proof -
  have n: "unat (of_nat n :: u32) = n"
    using assms by (simp add: unat_of_nat kMaxBlocks_def)
  have h: "unat (of_nat kSstHeaderBytes :: u32) = kSstHeaderBytes"
    by (simp add: kSstHeaderBytes_def)
  have "take 8 (sst_header t r i b k) = kSstMagic" for t r i b k
    by (simp add: sst_header_def)
  moreover have "drop 8 (sst_header t r i b k) = le_bytes 4 kVersion @ le_bytes 4 (of_nat kSstHeaderBytes :: u32)
       @ le_bytes 4 t @ le_bytes 4 (0 :: u32) @ le_bytes 8 r @ le_bytes 8 i
       @ le_bytes 4 b @ le_bytes 4 (0 :: u32) @ le_bytes 4 k @ replicate 12 0" for t r i b k
    by (simp add: sst_header_def)
  ultimately show ?thesis
    using assms
    by (simp add: parseSstHeader_def final_header_def header_fields_append zeroed_header n h del: replicate.simps)
qed

lemma text_of_append_key [codec_simps]:
  assumes "length k \<le> kMaxFieldBytes"
  shows "read_key (le_bytes 4 (of_nat (length k) :: u32) @ bytes_of k @ r) = Some (k, r)"
proof -
  have "unat (of_nat (length k) :: u32) = length k"
    using assms by (simp add: unat_of_nat kMaxFieldBytes_def)
  then show ?thesis
    using assms by (simp add: read_key_def readU32_append)
qed

definition entry_ok :: "u64 \<Rightarrow> BlockIndexEntry \<Rightarrow> bool" where
  "entry_ok indexOffset e \<longleftrightarrow> length (be_firstKey e) \<le> kMaxFieldBytes \<and> length (be_lastKey e) \<le> kMaxFieldBytes
     \<and> of_nat kSstHeaderBytes \<le> be_offset e
     \<and> be_offset e + of_nat kBlockHeaderBytes + ucast (be_stored e) \<le> indexOffset"

lemma read_entry_append:
  assumes "entry_ok indexOffset e"
  shows "read_entry indexOffset (entry_bytes e @ r) = Inr (e, r)"
  using assms
  by (simp add: read_entry_def entry_fields_def entry_bytes_def entry_ok_def codec_simps not_less)

lemma read_entries_append:
  "\<forall>e \<in> set es. entry_ok indexOffset e
     \<Longrightarrow> read_entries (length es) indexOffset (concat (map entry_bytes es) @ r) = Inr (es, r)"
  by (induction es) (simp_all add: read_entry_append)

lemma parse_index_bytes:
  assumes "length es \<le> kMaxBlocks" "\<forall>e \<in> set es. entry_ok indexOffset e"
  shows "parse_index indexOffset (of_nat (length es)) (index_bytes es) = Inr es"
proof -
  let ?body = "kSstIndexMagic @ le_bytes 4 (of_nat (length es) :: u32) @ concat (map entry_bytes es)"
  have ib: "index_bytes es = ?body @ le_bytes 4 (crc32 ?body)"
    by (simp add: index_bytes_def)
  have n: "unat (of_nat (length es) :: u32) = length es"
    using assms(1) by (simp add: unat_of_nat kMaxBlocks_def)
  have "read_entries (length es) indexOffset (concat (map entry_bytes es)) = Inr (es, [])"
    using read_entries_append [OF assms(2), of "[]"] by simp
  moreover have "drop 8 ?body = le_bytes 4 (of_nat (length es) :: u32) @ concat (map entry_bytes es)"
    by simp
  ultimately show ?thesis
    unfolding ib parse_index_def Let_def
    using assms(1) n by (simp add: le_word_roundtrip readU32_append)
qed


lemma entries_from_mem:
  assumes "e \<in> set (entries_from c z off cs)"
  obtains pre rs post where "cs = pre @ rs # post" "e = entry_of c z (off + length (blocks_of c z pre)) rs"
  using assms
proof (induction cs arbitrary: off thesis)
  case (Cons rs cs)
  show ?case
  proof (cases "e = entry_of c z off rs")
    case True
    then show ?thesis
      using Cons.prems(1) [of "[]" rs cs] by simp
  next
    case False
    then have "e \<in> set (entries_from c z (off + length (block_of c z rs)) cs)"
      using Cons.prems(2) by simp
    then obtain pre rs' post where "cs = pre @ rs' # post"
      "e = entry_of c z (off + length (block_of c z rs) + length (blocks_of c z pre)) rs'"
      using Cons.IH by blast
    then show ?thesis
      using Cons.prems(1) [of "rs # pre" rs' post] by (simp add: add.assoc)
  qed
qed simp

lemma pack_block_le: "pack_block z p = (k, d) \<Longrightarrow> length d \<le> length p"
  by (auto simp: pack_block_def split: if_splits option.splits)

lemma unpack_pack:
  assumes "pack_block z p = (k, d)" "lz4_ok z p"
  shows "unpack_block z e1 e2 k (length p) d = Inr p"
proof -
  consider "k = 0" "d = p" | "k = 1" "lz_compress z p = Some d"
    using assms(1) by (auto simp: pack_block_def split: if_splits option.splits)
  then show ?thesis
    using assms(2) by cases (simp_all add: unpack_block_def lz4_ok_def)
qed

lemma length_block_of: "length (block_of c z rs) = 24 + length (snd (pack_block z (plain_of c rs)))"
  by (simp add: block_of_def block_header_def split_beta Let_def)

text \<open>The rows of a table, and the limits of the reader that the writer does not test.\<close>

definition table_fits :: "json_codec \<Rightarrow> lz4 \<Rightarrow> json list list \<Rightarrow> bool" where
  "table_fits c z cs \<longleftrightarrow> (\<forall>rs \<in> set cs. chunk_ok c rs) \<and> length cs \<le> kMaxBlocks
     \<and> (\<forall>rs \<in> set cs. \<forall>r \<in> set rs. length (rowId c r) \<le> kMaxFieldBytes)
     \<and> 64 + length (blocks_of c z cs) < 2 ^ 64"

lemma u64_of_nat: "n < 2 ^ 64 \<Longrightarrow> unat (of_nat n :: u64) = n"
  by (simp add: unat_of_nat)

lemma u64_range_le:
  assumes "a + 24 + d \<le> b" "b < 2 ^ 64" "d < 2 ^ 32"
  shows "(of_nat a :: u64) + 24 + ucast (of_nat d :: u32) \<le> of_nat b"
proof -
  have "(ucast (of_nat d :: u32) :: u64) = of_nat d"
    using assms(3) by (simp add: word_unat_eq_iff unat_of_nat unsigned_ucast_eq take_bit_nat_eq_self)
  then have "(of_nat a :: u64) + 24 + ucast (of_nat d :: u32) = of_nat (a + 24 + d)"
    by simp
  moreover have "(of_nat (a + 24 + d) :: u64) \<le> of_nat b"
    using assms(1,2) u64_of_nat [of b] u64_of_nat [of "a + 24 + d"] by (simp only: word_le_nat_alt)
  ultimately show ?thesis
    by simp
qed

lemma u64_ge_64: "64 \<le> n \<Longrightarrow> n < 2 ^ 64 \<Longrightarrow> (64 :: u64) \<le> of_nat n"
  by (simp add: word_le_nat_alt u64_of_nat)

lemma entry_of_ok:
  assumes fits: "table_fits c z cs" and cs: "cs = pre @ rs # post"
  shows "entry_ok (of_nat (64 + length (blocks_of c z cs))) (entry_of c z (64 + length (blocks_of c z pre)) rs)"
proof -
  have rs: "chunk_ok c rs" "rs \<noteq> []" "\<forall>r \<in> set rs. length (rowId c r) \<le> kMaxFieldBytes"
    using fits cs by (auto simp: table_fits_def chunk_ok_def)
  obtain k d where kd: "pack_block z (plain_of c rs) = (k, d)"
    by (cases "pack_block z (plain_of c rs)")
  define a where "a = 64 + length (blocks_of c z pre)"
  define b where "b = 64 + length (blocks_of c z cs)"
  have d: "length d < 2 ^ 32"
    using pack_block_le [OF kd] rs(1) by (simp add: chunk_ok_def kMaxFieldBytes_def)
  have sum: "a + 24 + length d \<le> b"
    using kd by (simp add: a_def b_def cs length_block_of)
  have b: "b < 2 ^ 64"
    using fits by (simp add: table_fits_def b_def)
  have "64 \<le> a" "a < 2 ^ 64"
    using sum b by (simp_all add: a_def)
  then have "(64 :: u64) \<le> of_nat a"
    by (rule u64_ge_64)
  then have "entry_ok (of_nat b) (entry_of c z a rs)"
    using rs u64_range_le [OF sum b d] kd
    by (simp add: entry_ok_def entry_of_def kSstHeaderBytes_def kBlockHeaderBytes_def hd_in_set last_in_set)
  then show ?thesis
    by (simp only: a_def b_def)
qed

lemma parse_table:
  assumes fits: "table_fits c z cs"
  shows "parseMetadata (table_of c z tb cs) mtime =
     Inr \<lparr>md_fileSize = length (table_of c z tb cs), md_mtime = mtime,
          md_rowCount = of_nat (length (concat cs)), md_blocks = entries_from c z 64 cs\<rparr>"
proof -
  define off where "off = 64 + length (blocks_of c z cs)"
  let ?f = "table_of c z tb cs"
  have bounds: "length cs \<le> kMaxBlocks" "off < 2 ^ 64" "64 \<le> off"
    using fits by (simp_all add: table_fits_def off_def)
  have ok: "\<forall>e \<in> set (entries_from c z 64 cs). entry_ok (of_nat off) e"
    using entry_of_ok [OF fits] unfolding off_def by (metis entries_from_mem)
  have ix: "parse_index (of_nat off) (of_nat (length cs)) (index_bytes (entries_from c z 64 cs))
      = Inr (entries_from c z 64 cs)"
    using parse_index_bytes [OF _ ok] bounds(1) by simp
  have f: "take 64 ?f = final_header tb (length (concat cs)) off (length cs)"
    "drop off ?f = index_bytes (entries_from c z 64 cs)" "off < length ?f"
    by (simp_all add: table_of_def off_def index_bytes_def Let_def)
  have ge: "\<not> (of_nat off :: u64) < 64"
    using u64_ge_64 [OF bounds(3,2)] by (simp add: not_less)
  show ?thesis
    using f(3) bounds(3) ge
    by (simp add: parseMetadata_def kSstHeaderBytes_def f(1,2) parse_final_header [OF bounds(1)]
        u64_of_nat [OF bounds(2)] ix)
qed

section \<open>Visiting the rows of a table\<close>

fun fold_visit :: "('s \<Rightarrow> 'a \<Rightarrow> 's \<times> visit) \<Rightarrow> 'a list \<Rightarrow> 's \<Rightarrow> 's \<times> outcome" where
  "fold_visit v [] s = (s, Finished)"
| "fold_visit v (x # xs) s =
     (case v s x of
        (s', Go) \<Rightarrow> fold_visit v xs s'
      | (s', Stop) \<Rightarrow> (s', Stopped)
      | (s', Throw) \<Rightarrow> (s', Failed BadRow))"

lemma fold_visit_append:
  "fold_visit v (xs @ ys) s =
     (case fold_visit v xs s of (s', Finished) \<Rightarrow> fold_visit v ys s' | r \<Rightarrow> r)"
  by (induction xs arbitrary: s) (auto split: prod.splits visit.splits)

lemma packed_length:
  assumes "packed_ok c r"
  shows "unat (of_nat (length (to_msgpack c r)) :: u32) = length (to_msgpack c r)"
    "(of_nat (length (to_msgpack c r)) :: u32) \<noteq> 0" "length (to_msgpack c r) \<le> kMaxFieldBytes"
proof -
  have le: "length (to_msgpack c r) \<le> kMaxFieldBytes" "to_msgpack c r \<noteq> []"
    using assms by (simp_all add: packed_ok_def)
  then show u: "unat (of_nat (length (to_msgpack c r)) :: u32) = length (to_msgpack c r)"
    by (simp add: unat_of_nat kMaxFieldBytes_def)
  show "(of_nat (length (to_msgpack c r)) :: u32) \<noteq> 0" "length (to_msgpack c r) \<le> kMaxFieldBytes"
    using u le by (metis length_0_conv unat_0) (rule le(1))
qed

lemma visitBlockRows_plain:
  "\<forall>r \<in> set rs. packed_ok c r
     \<Longrightarrow> visitBlockRows v (length rs) (plain_of c rs) s = fold_visit v (map (to_msgpack c) rs) s"
proof (induction rs arbitrary: s)
  case (Cons r rs)
  then show ?case
    using packed_length [of c r]
    by (auto simp: row_bytes_def readU32_append split: prod.splits visit.splits)
qed simp

text \<open>The header and the data of a block where both block readers look for them.\<close>

definition header_of :: "json_codec \<Rightarrow> byte \<Rightarrow> bytes \<Rightarrow> json list \<Rightarrow> bytes" where
  "header_of c k d rs = block_header k (of_nat (length d)) (of_nat (length (plain_of c rs)))
     (of_nat (length rs)) (crc32 (plain_of c rs))"

lemma block_read_at:
  assumes off: "length pre = off" and kd: "pack_block z (plain_of c rs) = (k, d)"
  shows "read_at (pre @ block_of c z rs @ post) off 24 = Some (header_of c k d rs)"
    and "read_at (pre @ block_of c z rs @ post) (off + 24) (length d) = Some d"
proof -
  have blk: "pre @ block_of c z rs @ post = pre @ header_of c k d rs @ d @ post"
    by (simp add: block_of_def header_of_def kd Let_def)
  have len: "length (header_of c k d rs) = 24"
    by (simp add: header_of_def block_header_def)
  show "read_at (pre @ block_of c z rs @ post) off 24 = Some (header_of c k d rs)"
    unfolding blk using read_at_append [OF off len, of "d @ post"] by simp
  show "read_at (pre @ block_of c z rs @ post) (off + 24) (length d) = Some d"
    unfolding blk using read_at_append [of "pre @ header_of c k d rs" "off + 24" d "length d" post] off len
    by simp
qed

lemma block_fields_at:
  assumes ok: "chunk_ok c rs" and kd: "pack_block z (plain_of c rs) = (k, d)"
  shows "block_fields (header_of c k d rs) = Some (kBlockMagic, k, of_nat (length d),
      of_nat (length (plain_of c rs)), of_nat (length rs), crc32 (plain_of c rs))"
    and "unat (of_nat (length (plain_of c rs)) :: u32) = length (plain_of c rs)"
    and "unat (of_nat (length d) :: u32) = length d" and "unat (of_nat (length rs) :: u32) = length rs"
proof -
  have p: "length (plain_of c rs) \<le> kMaxFieldBytes + 4" "\<forall>r \<in> set rs. packed_ok c r"
    using ok by (simp_all add: chunk_ok_def)
  show "unat (of_nat (length (plain_of c rs)) :: u32) = length (plain_of c rs)"
    "unat (of_nat (length d) :: u32) = length d" "unat (of_nat (length rs) :: u32) = length rs"
    using p(1) pack_block_le [OF kd] length_plain_of [OF p(2)]
    by (simp_all add: unat_of_nat kMaxFieldBytes_def)
  show "block_fields (header_of c k d rs) = Some (kBlockMagic, k, of_nat (length d),
      of_nat (length (plain_of c rs)), of_nat (length rs), crc32 (plain_of c rs))"
    using readU32_append [of "crc32 (plain_of c rs)" "[]"]
    by (simp add: header_of_def block_fields_def block_header_def readU32_append)
qed

lemma readBlockPayload_at:
  assumes ok: "chunk_ok c rs" "lz4_ok z (plain_of c rs)" and off: "length pre = off" "off < 2 ^ 64"
  shows "readBlockPayload z (pre @ block_of c z rs @ post) (entry_of c z off rs) = Inr (plain_of c rs, length rs)"
proof -
  obtain k d where kd: "pack_block z (plain_of c rs) = (k, d)"
    by (cases "pack_block z (plain_of c rs)")
  have lim: "\<not> kMaxFieldBytes * 4 < length (plain_of c rs)"
    using ok(1) by (simp add: chunk_ok_def kMaxFieldBytes_def)
  show ?thesis
    unfolding readBlockPayload_def
    using block_fields_at [OF ok(1) kd]
    by (simp add: entry_of_def kd u64_of_nat [OF off(2)] kBlockHeaderBytes_def block_read_at [OF off(1) kd] lim
        unpack_pack [OF kd ok(2)])
qed

lemma scan_blocks_from:
  assumes "table_fits c z ds" "\<forall>rs \<in> set ds. lz4_ok z (plain_of c rs)" "ds = pre @ cs"
    "length h = 64"
  shows "scan_blocks z (h @ blocks_of c z ds @ tail) v (entries_from c z (64 + length (blocks_of c z pre)) cs) s
           = fold_visit v (map (to_msgpack c) (concat cs)) s"
  using assms(3)
proof (induction cs arbitrary: pre s)
  case (Cons rs cs)
  let ?off = "64 + length (blocks_of c z pre)"
  have rs: "chunk_ok c rs" "lz4_ok z (plain_of c rs)" "\<forall>r \<in> set rs. packed_ok c r"
    using assms(1,2) Cons.prems by (auto simp: table_fits_def chunk_ok_def)
  have off: "?off < 2 ^ 64"
    using assms(1) Cons.prems by (simp add: table_fits_def)
  have rd: "readBlockPayload z (h @ blocks_of c z ds @ tail) (entry_of c z ?off rs) = Inr (plain_of c rs, length rs)"
    using readBlockPayload_at [OF rs(1,2), of "h @ blocks_of c z pre" ?off "blocks_of c z cs @ tail"]
      off assms(4) Cons.prems by simp
  have nx: "entries_from c z ?off (rs # cs)
      = entry_of c z ?off rs # entries_from c z (64 + length (blocks_of c z (pre @ [rs]))) cs"
    by (simp add: add.assoc)
  have ih: "scan_blocks z (h @ blocks_of c z ds @ tail) v
        (entries_from c z (64 + length (blocks_of c z (pre @ [rs]))) cs) s'
      = fold_visit v (map (to_msgpack c) (concat cs)) s'" for s'
    using Cons.IH [of "pre @ [rs]" s'] Cons.prems by simp
  show ?case
    unfolding nx scan_blocks.simps rd
    by (simp add: visitBlockRows_plain [OF rs(3)] fold_visit_append ih [simplified]
        split: prod.split outcome.split)
qed simp

theorem scan_table:
  assumes "table_fits c z cs" "\<forall>rs \<in> set cs. lz4_ok z (plain_of c rs)"
  shows "scanSstViews z (table_of c z tb cs) v s = fold_visit v (map (to_msgpack c) (concat cs)) s"
proof -
  have "length (final_header tb (length (concat cs)) (64 + length (blocks_of c z cs)) (length cs)) = 64"
    by simp
  from scan_blocks_from [OF assms _ this, of "[]" cs]
  have "scan_blocks z (table_of c z tb cs) v (entries_from c z 64 cs) s
      = fold_visit v (map (to_msgpack c) (concat cs)) s"
    by (simp add: table_of_def)
  then show ?thesis
    by (simp add: scanSstViews_def parse_table [OF assms(1)])
qed

end
