(* ===== verification/Sst_Cursor.thy ===== *)
theory Sst_Cursor
  imports Sst_Laws
begin

unbundle bit_operations_syntax

text \<open>
  The forward cursor over a table file (\<open>SstCursor\<close> of \<open>storage_format_v2.cpp\<close>), which reads block after
  block without the block index and also accepts the older text format of one JSON document per line, and
  the full check \<open>verifySst\<close> built on it.
\<close>

section \<open>Sequential blocks\<close>

definition readSequentialBlock :: "lz4 \<Rightarrow> bytes \<Rightarrow> nat \<Rightarrow> u64 \<Rightarrow> sst_error + bytes \<times> nat \<times> nat" where
  "readSequentialBlock z f pos indexOffset =
     (if unat indexOffset < pos + kBlockHeaderBytes then Inl BlockCrossesIndex
      else case read_at f pos kBlockHeaderBytes of
        None \<Rightarrow> Inl TruncatedBlockHeader
      | Some header \<Rightarrow>
        (case block_fields header of
           None \<Rightarrow> Inl BadBlockHeader
         | Some (magic, compression, stored, original, rows, checksum) \<Rightarrow>
             if magic \<noteq> kBlockMagic then Inl BadBlockHeader
             else if kMaxFieldBytes * 4 < unat original
                     \<or> unat indexOffset < pos + kBlockHeaderBytes + unat stored
             then Inl BadSequentialBlock
             else (case read_at f (pos + kBlockHeaderBytes) (unat stored) of
                     None \<Rightarrow> Inl TruncatedPayload
                   | Some encoded \<Rightarrow>
                     (case unpack_block z BadCompression BadCompression compression (unat original) encoded of
                        Inl e \<Rightarrow> Inl e
                      | Inr plain \<Rightarrow>
                          if crc32 plain \<noteq> checksum then Inl BlockChecksum
                          else Inr (plain, unat rows, pos + kBlockHeaderBytes + unat stored)))))"

section \<open>Cursor\<close>

record sst_cursor =
  cu_file :: bytes
  cu_pos :: nat \<comment> \<open>\<open>input.tellg()\<close>\<close>
  cu_binary :: bool
  cu_indexFields :: bool
  cu_rowCount :: u64
  cu_rowsRead :: nat
  cu_indexOffset :: u64
  cu_blockCount :: nat
  cu_blocksRead :: nat
  cu_rowsInBlock :: nat
  cu_rowIndex :: nat
  cu_rest :: bytes \<comment> \<open>from \<open>cursor\<close> to \<open>end\<close> of the current block\<close>
  cu_currentId :: string
  cu_previousId :: string
  cu_current :: bytes
  cu_valid :: bool

definition loadBlock :: "lz4 \<Rightarrow> sst_cursor \<Rightarrow> sst_error + sst_cursor" where
  "loadBlock z c =
     (case readSequentialBlock z (cu_file c) (cu_pos c) (cu_indexOffset c) of
        Inl e \<Rightarrow> Inl e
      | Inr (plain, rows, pos) \<Rightarrow>
          Inr (c\<lparr>cu_pos := pos, cu_blocksRead := Suc (cu_blocksRead c), cu_rowsInBlock := rows,
                 cu_rowIndex := 0, cu_rest := plain\<rparr>))"

text \<open>
  The loop that moves to a block with a row left; the flag in the result is false at the end of the file.
\<close>

function seek_block :: "lz4 \<Rightarrow> sst_cursor \<Rightarrow> sst_error + bool \<times> sst_cursor" where
  "seek_block z c =
     (if cu_rowIndex c < cu_rowsInBlock c then Inr (True, c)
      else if cu_blockCount c \<le> cu_blocksRead c then
        (if of_nat (cu_rowsRead c) \<noteq> cu_rowCount c \<or> cu_pos c \<noteq> unat (cu_indexOffset c)
         then Inl RowCountMismatch else Inr (False, c))
      else case loadBlock z c of Inl e \<Rightarrow> Inl e | Inr c' \<Rightarrow> seek_block z c')"
  by pat_completeness auto
termination
  by (relation "measure (\<lambda>(z, c). cu_blockCount c - cu_blocksRead c)")
    (auto simp: loadBlock_def split: sum.splits)

declare seek_block.simps [simp del]

text \<open>The next non-empty line of a text file.\<close>

definition next_line :: "bytes \<Rightarrow> (bytes \<times> bytes) option" where
  "next_line bs =
     (let r = dropWhile (\<lambda>b. b = 10) bs
      in if r = [] then None else Some (takeWhile (\<lambda>b. b \<noteq> 10) r, tl (dropWhile (\<lambda>b. b \<noteq> 10) r)))"

text \<open>The identity check every row passes before it becomes current.\<close>

definition id_text :: "json_codec \<Rightarrow> json \<Rightarrow> string" where
  "id_text c v = (case v of JStr i \<Rightarrow> i | _ \<Rightarrow> text_of (jdump c v))"

definition admit_row :: "json_codec \<Rightarrow> sst_cursor \<Rightarrow> bytes \<Rightarrow> sst_error + sst_cursor" where
  "admit_row c cu row =
     (case row_field (from_msgpack c) (row_view row (cu_indexFields cu)) ''id'' of
        None \<Rightarrow> Inl RowWithoutId
      | Some v \<Rightarrow>
         (let i = id_text c v
          in if i = [] \<or> (cu_previousId cu \<noteq> [] \<and> i < cu_previousId cu) then Inl UnsortedIds
             else Inr (cu\<lparr>cu_current := row, cu_currentId := i, cu_previousId := i, cu_valid := True\<rparr>)))"

definition advance_text :: "json_codec \<Rightarrow> sst_cursor \<Rightarrow> sst_error + sst_cursor" where
  "advance_text c cu =
     (case next_line (drop (cu_pos cu) (cu_file cu)) of
        None \<Rightarrow> Inr (cu\<lparr>cu_pos := length (cu_file cu), cu_valid := False\<rparr>)
      | Some (line, rest) \<Rightarrow>
        (case jparse c line of
           None \<Rightarrow> Inl BadLegacyRow
         | Some j \<Rightarrow> admit_row c (cu\<lparr>cu_pos := length (cu_file cu) - length rest\<rparr>) (to_msgpack c j)))"

definition advance_binary :: "json_codec \<Rightarrow> lz4 \<Rightarrow> sst_cursor \<Rightarrow> sst_error + sst_cursor" where
  "advance_binary c z cu =
     (case seek_block z cu of
        Inl e \<Rightarrow> Inl e
      | Inr (False, c1) \<Rightarrow> Inr (c1\<lparr>cu_valid := False\<rparr>)
      | Inr (True, c1) \<Rightarrow>
        (case readU32 (cu_rest c1) of
           None \<Rightarrow> Inl BadCursorRow
         | Some (sz, r) \<Rightarrow>
             if sz = 0 \<or> kMaxFieldBytes < unat sz \<or> length r < unat sz then Inl BadCursorRow
             else admit_row c (c1\<lparr>cu_rest := drop (unat sz) r, cu_rowIndex := Suc (cu_rowIndex c1),
                                  cu_rowsRead := Suc (cu_rowsRead c1)\<rparr>) (take (unat sz) r)))"


definition advance :: "json_codec \<Rightarrow> lz4 \<Rightarrow> sst_cursor \<Rightarrow> sst_error + sst_cursor" where
  "advance c z cu = (if cu_binary cu then advance_binary c z cu else advance_text c cu)"

definition cursor_init :: "bytes \<Rightarrow> bool \<Rightarrow> sst_cursor" where
  "cursor_init f indexFields = \<lparr>cu_file = f, cu_pos = 0, cu_binary = False, cu_indexFields = indexFields,
     cu_rowCount = 0, cu_rowsRead = 0, cu_indexOffset = 0, cu_blockCount = 0, cu_blocksRead = 0,
     cu_rowsInBlock = 0, cu_rowIndex = 0, cu_rest = [], cu_currentId = [], cu_previousId = [],
     cu_current = [], cu_valid = False\<rparr>"

text \<open>A file shorter than a header, or without the magic, is read as text.\<close>

definition cursor_open :: "json_codec \<Rightarrow> lz4 \<Rightarrow> bytes \<Rightarrow> bool \<Rightarrow> sst_error + sst_cursor" where
  "cursor_open c z f indexFields =
     (if kSstHeaderBytes \<le> length f \<and> take 8 f = kSstMagic then
        (case parseSstHeader (take kSstHeaderBytes f) of
           Inl e \<Rightarrow> Inl e
         | Inr (rows, indexOffset, blocks) \<Rightarrow>
             advance c z ((cursor_init f indexFields)\<lparr>cu_binary := True, cu_pos := kSstHeaderBytes,
               cu_rowCount := rows, cu_indexOffset := indexOffset, cu_blockCount := unat blocks\<rparr>))
      else advance c z (cursor_init f indexFields))"

section \<open>Every cursor comes to an end\<close>

text \<open>
  A block is preceded by its header and holds fewer than \<open>2\<^sup>3\<^sup>2\<close> rows, a line consumes at least its own
  bytes: \<open>cu_left\<close> bounds the number of steps that are left, on any file.
\<close>

definition cu_work :: "sst_cursor \<Rightarrow> nat" where
  "cu_work c =
     (if cu_binary c then (cu_blockCount c - cu_blocksRead c) * 2 ^ 32 + (cu_rowsInBlock c - cu_rowIndex c)
      else length (cu_file c) - cu_pos c)"

definition cu_left :: "sst_cursor \<Rightarrow> nat" where
  "cu_left c = cu_work c + (if cu_valid c then 1 else 0)"

lemma cu_work_valid [simp]: "cu_work (c\<lparr>cu_valid := b\<rparr>) = cu_work c"
  by (simp add: cu_work_def)

lemma loadBlock_keeps:
  assumes "loadBlock z c = Inr c'"
  shows "cu_binary c' = cu_binary c" "cu_blockCount c' = cu_blockCount c"
    "cu_blocksRead c' = Suc (cu_blocksRead c)" "cu_rowsInBlock c' < 2 ^ 32" "cu_rowIndex c' = 0"
    "cu_valid c' = cu_valid c" "cu_file c' = cu_file c"
proof -
  have "unat (w :: u32) < 2 ^ 32" for w
    using unsigned_less [of w, where 'a = nat] by simp
  then show "cu_rowsInBlock c' < 2 ^ 32"
    using assms
    by (auto simp: loadBlock_def readSequentialBlock_def split: sum.splits option.splits if_splits)
qed (use assms in \<open>auto simp: loadBlock_def split: sum.splits\<close>)

lemma seek_block_work:
  "seek_block z c = Inr (hasRow, c') \<Longrightarrow> cu_binary c
     \<Longrightarrow> cu_binary c' \<and> cu_work c' \<le> cu_work c \<and> (hasRow \<longrightarrow> cu_rowIndex c' < cu_rowsInBlock c')"
proof (induction z c rule: seek_block.induct)
  case (1 z c)
  show ?case
  proof (cases "cu_rowIndex c < cu_rowsInBlock c \<or> cu_blockCount c \<le> cu_blocksRead c")
    case True
    then show ?thesis
      using "1.prems" by (auto simp: seek_block.simps [of z c] split: if_splits)
  next
    case False
    obtain c1 where c1: "loadBlock z c = Inr c1" "seek_block z c1 = Inr (hasRow, c')"
      using "1.prems"(1) False by (auto simp: seek_block.simps [of z c] split: sum.splits)
    note k = loadBlock_keeps [OF c1(1)]
    have "cu_blockCount c - cu_blocksRead c = Suc (cu_blockCount c - Suc (cu_blocksRead c))"
      using False by (simp add: Suc_diff_Suc)
    then have "cu_work c1 \<le> cu_work c"
      using k "1.prems"(2) by (simp add: cu_work_def)
    then show ?thesis
      using "1.IH" [of c1] False c1 k(1) "1.prems"(2) by fastforce
  qed
qed

lemma admit_row_keeps:
  assumes "admit_row c cu row = Inr cu'"
  shows "cu_work cu' = cu_work cu" "cu_valid cu'"
  using assms by (auto simp: admit_row_def cu_work_def Let_def split: option.splits if_splits)

lemma next_line_shrinks: "next_line bs = Some (line, rest) \<Longrightarrow> length rest < length bs"
proof -
  assume "next_line bs = Some (line, rest)"
  then have r: "dropWhile (\<lambda>b. b = 10) bs \<noteq> []"
    "rest = tl (dropWhile (\<lambda>b. b \<noteq> 10) (dropWhile (\<lambda>b. b = 10) bs))"
    by (auto simp: next_line_def Let_def split: if_splits)
  let ?r = "dropWhile (\<lambda>b. b = 10) bs"
  have "length rest = length (dropWhile (\<lambda>b. b \<noteq> 10) ?r) - 1"
    using r(2) by simp
  moreover have "length (dropWhile (\<lambda>b. b \<noteq> 10) ?r) \<le> length ?r" "length ?r \<le> length bs"
    by (rule length_dropWhile_le)+
  moreover have "0 < length ?r"
    using r(1) by simp
  ultimately show ?thesis
    by linarith
qed

theorem advance_left:
  assumes "advance c z cu = Inr cu'" "cu_valid cu"
  shows "cu_left cu' < cu_left cu"
proof (cases "cu_binary cu")
  case True
  obtain hasRow c1 where sk: "seek_block z cu = Inr (hasRow, c1)"
    using assms(1) True by (auto simp: advance_def advance_binary_def split: sum.splits)
  note w = seek_block_work [OF sk True]
  show ?thesis
  proof (cases hasRow)
    case m: True
    then obtain sz :: u32 and r where "admit_row c (c1\<lparr>cu_rest := drop (unat sz) r, cu_rowIndex := Suc (cu_rowIndex c1),
        cu_rowsRead := Suc (cu_rowsRead c1)\<rparr>) (take (unat sz) r) = Inr cu'"
      using assms(1) True sk by (auto simp: advance_def advance_binary_def split: option.splits if_splits)
    then have "cu_work cu' = cu_work (c1\<lparr>cu_rest := drop (unat sz) r, cu_rowIndex := Suc (cu_rowIndex c1),
        cu_rowsRead := Suc (cu_rowsRead c1)\<rparr>)" "cu_valid cu'"
      by (rule admit_row_keeps)+
    moreover have "cu_work (c1\<lparr>cu_rest := drop (unat sz) r, cu_rowIndex := Suc (cu_rowIndex c1),
        cu_rowsRead := Suc (cu_rowsRead c1)\<rparr>) < cu_work c1"
    proof -
      have "cu_binary c1" "cu_rowIndex c1 < cu_rowsInBlock c1"
        using w m by simp_all
      then show ?thesis
        by (simp add: cu_work_def)
    qed
    ultimately show ?thesis
      using w assms(2) by (simp add: cu_left_def)
  next
    case False
    then have "cu' = c1\<lparr>cu_valid := False\<rparr>"
      using assms(1) True sk by (simp add: advance_def advance_binary_def)
    then show ?thesis
      using w assms(2) by (simp add: cu_left_def)
  qed
next
  case False
  show ?thesis
  proof (cases "next_line (drop (cu_pos cu) (cu_file cu))")
    case None
    then show ?thesis
      using assms False by (auto simp: advance_def advance_text_def cu_left_def cu_work_def)
  next
    case (Some lr)
    obtain line rest where lr: "lr = (line, rest)" by (cases lr)
    let ?c = "cu\<lparr>cu_pos := length (cu_file cu) - length rest\<rparr>"
    have sh: "length rest < length (cu_file cu) - cu_pos cu"
      using next_line_shrinks [of "drop (cu_pos cu) (cu_file cu)" line rest] Some lr by simp
    obtain j where "admit_row c ?c (to_msgpack c j) = Inr cu'"
      using assms(1) False Some lr by (auto simp: advance_def advance_text_def split: option.splits)
    then have "cu_work cu' = cu_work ?c" "cu_valid cu'"
      by (rule admit_row_keeps)+
    then show ?thesis
      using sh assms(2) False by (simp add: cu_left_def cu_work_def)
  qed
qed


section \<open>Verification of a file\<close>

definition isBinarySst :: "bytes \<Rightarrow> bool" where
  "isBinarySst f \<longleftrightarrow> 8 \<le> length f \<and> take 8 f = kSstMagic"

function verify_rows :: "json_codec \<Rightarrow> lz4 \<Rightarrow> sst_cursor \<Rightarrow> sst_error option" where
  "verify_rows c z cu =
     (if \<not> cu_valid cu then None
      else case row_materialize (from_msgpack c) (row_view (cu_current cu) (cu_indexFields cu)) of
             None \<Rightarrow> Some BadRow
           | Some _ \<Rightarrow>
             (case advance c z cu of Inl e \<Rightarrow> Some e | Inr cu' \<Rightarrow> verify_rows c z cu'))"
  by pat_completeness auto
termination
  by (relation "measure (\<lambda>(c, z, cu). cu_left cu)") (auto intro: advance_left)

declare verify_rows.simps [simp del]

text \<open>The checksum of the block index is computed in pieces of 64 KiB.\<close>

function crc_loop :: "bytes \<Rightarrow> nat \<Rightarrow> nat \<Rightarrow> u32 \<Rightarrow> u32 option" where
  "crc_loop f pos remaining st =
     (if remaining = 0 then Some st
      else let amount = min remaining 65536
           in case read_at f pos amount of
                None \<Rightarrow> None
              | Some b \<Rightarrow> crc_loop f (pos + amount) (remaining - amount) (crc32_update st b))"
  by pat_completeness auto
termination
  by (relation "measure (\<lambda>(f, pos, remaining, st). remaining)") auto

declare crc_loop.simps [simp del]

definition verify_footer :: "bytes \<Rightarrow> sst_error option" where
  "verify_footer f =
     (case parseSstHeader (take kSstHeaderBytes f) of
        Inl e \<Rightarrow> Some e
      | Inr (rows, indexOffset, blocks) \<Rightarrow>
          if (of_nat (length f) :: u64) < indexOffset + 16 then Some BadIndexSize
          else
            let checksumBytes = unat (of_nat (length f) - indexOffset - 4 :: u64);
                pos = unat indexOffset
            in case crc_loop f pos checksumBytes crc32_init of
                 None \<Rightarrow> Some TruncatedIndex
               | Some st \<Rightarrow>
                 (case read_at f (pos + checksumBytes) 4 of
                    None \<Rightarrow> Some MissingIndexChecksum
                  | Some storedBytes \<Rightarrow>
                      (let pre = take (min 12 checksumBytes) (drop pos f)
                       in if length pre < 12 \<or> take 8 pre \<noteq> kSstIndexMagic
                             \<or> (le_word (drop 8 pre) :: u32) \<noteq> blocks
                             \<or> crc32_finalize st \<noteq> le_word storedBytes
                          then Some FooterMismatch else None)))"

text \<open>\<open>None\<close> is the answer true.\<close>

definition verifySst :: "json_codec \<Rightarrow> lz4 \<Rightarrow> bytes \<Rightarrow> sst_error option" where
  "verifySst c z f =
     (case cursor_open c z f False of
        Inl e \<Rightarrow> Some e
      | Inr cu \<Rightarrow>
        (case verify_rows c z cu of
           Some e \<Rightarrow> Some e
         | None \<Rightarrow> if isBinarySst f then verify_footer f else None))"

lemma read_at_split:
  assumes "k \<le> n"
  shows "read_at f pos n = (case read_at f pos k of None \<Rightarrow> None
     | Some b \<Rightarrow> map_option ((@) b) (read_at f (pos + k) (n - k)))"
proof (cases "pos + n \<le> length f")
  case True
  have "take n (drop pos f) = take k (drop pos f) @ take (n - k) (drop (pos + k) f)"
    using assms by (metis add.commute drop_drop le_add_diff_inverse take_add)
  then show ?thesis
    using True assms by (simp add: read_at_def)
next
  case False
  then show ?thesis
    using assms by (auto simp: read_at_def)
qed

lemma crc_loop_eq: "crc_loop f pos n st = map_option (crc32_update st) (read_at f pos n)
    \<or> crc_loop f pos n st = Some st \<and> n = 0"
proof (induction f pos n st rule: crc_loop.induct)
  case (1 f pos n st)
  show ?case
  proof (cases "n = 0")
    case False
    let ?a = "min n 65536"
    show ?thesis
    proof (cases "read_at f pos ?a")
      case None
      then show ?thesis
        using False read_at_split [of ?a n f pos] by (simp add: crc_loop.simps [of f pos n st] Let_def)
    next
      case (Some b)
      have "crc_loop f pos n st = crc_loop f (pos + ?a) (n - ?a) (crc32_update st b)"
        using False Some by (simp add: crc_loop.simps [of f pos n st] Let_def)
      moreover have "crc_loop f (pos + ?a) (n - ?a) (crc32_update st b)
          = map_option (crc32_update (crc32_update st b)) (read_at f (pos + ?a) (n - ?a))"
        using "1.IH" [OF False refl Some] Some by (auto simp: read_at_def crc32_update_def)
      ultimately show ?thesis
        using read_at_split [of ?a n f pos] Some
        by (simp add: option.map_comp comp_def crc32_update_append)
    qed
  qed (simp add: crc_loop.simps [of f pos 0 st])
qed


section \<open>A cursor over a written table\<close>

text \<open>The rows a cursor still delivers, with the identity it reports for each.\<close>

inductive yields :: "json_codec \<Rightarrow> lz4 \<Rightarrow> sst_cursor \<Rightarrow> (string \<times> bytes) list \<Rightarrow> bool" for c z where
  yields_Nil: "\<not> cu_valid cu \<Longrightarrow> yields c z cu []"
| yields_Cons: "cu_valid cu \<Longrightarrow> advance c z cu = Inr cu' \<Longrightarrow> yields c z cu' rs
    \<Longrightarrow> yields c z cu ((cu_currentId cu, cu_current cu) # rs)"

inductive_simps yields_valid: "yields c z cu []" "yields c z cu (r # rs)"

definition packed_id :: "json_codec \<Rightarrow> bool \<Rightarrow> bytes \<Rightarrow> string option" where
  "packed_id c ix row = map_option (id_text c) (row_field (from_msgpack c) (row_view row ix) ''id'')"

definition keyed :: "json_codec \<Rightarrow> bool \<Rightarrow> json list \<Rightarrow> bool" where
  "keyed c ix rows \<longleftrightarrow>
     (\<forall>r \<in> set rows. packed_id c ix (to_msgpack c r) = Some (rowId c r) \<and> rowId c r \<noteq> [])
     \<and> sorted (map (rowId c) rows)"

definition keyed_rows :: "json_codec \<Rightarrow> json list \<Rightarrow> (string \<times> bytes) list" where
  "keyed_rows c rows = map (\<lambda>r. (rowId c r, to_msgpack c r)) rows"

text \<open>The cursor has loaded the chunks \<open>ds\<close>, of the last of which the rows \<open>b\<close> are left, and not yet \<open>es\<close>.\<close>

definition reader_at :: "json_codec \<Rightarrow> lz4 \<Rightarrow> nat \<Rightarrow> bool \<Rightarrow> json list list \<Rightarrow> json list \<Rightarrow> json list list \<Rightarrow> sst_cursor \<Rightarrow> bool" where
  "reader_at c z tb ix ds b es cu \<longleftrightarrow>
     cu_file cu = table_of c z tb (ds @ es) \<and> cu_binary cu \<and> cu_indexFields cu = ix
     \<and> cu_rowCount cu = of_nat (length (concat (ds @ es)))
     \<and> cu_indexOffset cu = of_nat (64 + length (blocks_of c z (ds @ es)))
     \<and> cu_blockCount cu = length (ds @ es) \<and> cu_blocksRead cu = length ds
     \<and> cu_pos cu = 64 + length (blocks_of c z ds) \<and> cu_rest cu = plain_of c b
     \<and> cu_rowIndex cu + length b = cu_rowsInBlock cu
     \<and> cu_rowsRead cu + length b = length (concat ds)"

lemma readSequentialBlock_at:
  assumes ok: "chunk_ok c rs" "lz4_ok z (plain_of c rs)"
    and lens: "length pre = pos" "off = pos + length (block_of c z rs) + more_bytes" "off < 2 ^ 64"
  shows "readSequentialBlock z (pre @ block_of c z rs @ post) pos (of_nat off)
           = Inr (plain_of c rs, length rs, pos + length (block_of c z rs))"
proof -
  obtain k d where kd: "pack_block z (plain_of c rs) = (k, d)"
    by (cases "pack_block z (plain_of c rs)")
  note bf = block_fields_at [OF ok(1) kd]
  have len: "length (block_of c z rs) = 24 + length d"
    by (simp add: length_block_of kd)
  have lim: "\<not> off < pos + 24" "\<not> off < pos + 24 + length d" "\<not> kMaxFieldBytes * 4 < length (plain_of c rs)"
    using lens(2) len ok(1) by (simp_all add: chunk_ok_def kMaxFieldBytes_def)
  show ?thesis
    unfolding readSequentialBlock_def
    using lim bf(2-) len
    by (simp add: u64_of_nat [OF lens(3)] kBlockHeaderBytes_def bf(1) block_read_at [OF lens(1) kd]
        unpack_pack [OF kd ok(2)])
qed


definition table_good :: "json_codec \<Rightarrow> lz4 \<Rightarrow> json list list \<Rightarrow> bool" where
  "table_good c z cs \<longleftrightarrow> table_fits c z cs \<and> (\<forall>rs \<in> set cs. lz4_ok z (plain_of c rs))"

lemma table_good_chunk:
  "table_good c z cs \<Longrightarrow> rs \<in> set cs
     \<Longrightarrow> chunk_ok c rs \<and> lz4_ok z (plain_of c rs) \<and> rs \<noteq> [] \<and> (\<forall>r \<in> set rs. packed_ok c r)"
  by (auto simp: table_good_def table_fits_def chunk_ok_def)

lemma loadBlock_at:
  assumes good: "table_good c z (ds @ rs # es)" and at: "reader_at c z tb ix ds [] (rs # es) cu"
  shows "\<exists>cu1. loadBlock z cu = Inr cu1 \<and> reader_at c z tb ix (ds @ [rs]) rs es cu1
      \<and> cu_previousId cu1 = cu_previousId cu"
proof -
  let ?pos = "64 + length (blocks_of c z ds)" and ?cs = "ds @ rs # es"
  let ?off = "64 + length (blocks_of c z ?cs)"
  let ?h = "final_header tb (length (concat ?cs)) ?off (length ?cs)"
  have rs: "chunk_ok c rs" "lz4_ok z (plain_of c rs)"
    using table_good_chunk [OF good, of rs] by simp_all
  have f: "cu_file cu = (?h @ blocks_of c z ds) @ block_of c z rs
      @ blocks_of c z es @ index_bytes (entries_from c z 64 ?cs)"
    using at by (simp add: reader_at_def table_of_def)
  have len: "length (?h @ blocks_of c z ds) = ?pos"
    by simp
  have off: "?off = ?pos + length (block_of c z rs) + length (blocks_of c z es)" "?off < 2 ^ 64"
    using good by (simp_all add: table_good_def table_fits_def)
  have "readSequentialBlock z (cu_file cu) ?pos (of_nat ?off)
      = Inr (plain_of c rs, length rs, ?pos + length (block_of c z rs))"
    unfolding f by (rule readSequentialBlock_at [OF rs len off])
  then have "loadBlock z cu = Inr (cu\<lparr>cu_pos := ?pos + length (block_of c z rs),
      cu_blocksRead := Suc (cu_blocksRead cu), cu_rowsInBlock := length rs, cu_rowIndex := 0, cu_rest := plain_of c rs\<rparr>)"
    using at by (simp add: loadBlock_def reader_at_def)
  then show ?thesis
    using at by (auto simp: reader_at_def)
qed

lemma seek_at:
  assumes good: "table_good c z (ds @ es)" and at: "reader_at c z tb ix ds b es cu"
  shows "b @ concat es = [] \<Longrightarrow> seek_block z cu = Inr (False, cu)"
    and "b @ concat es \<noteq> [] \<Longrightarrow> \<exists>cu1 ds1 b1 es1. seek_block z cu = Inr (True, cu1)
      \<and> reader_at c z tb ix ds1 b1 es1 cu1 \<and> ds1 @ es1 = ds @ es \<and> b1 \<noteq> [] \<and> b1 @ concat es1 = b @ concat es
      \<and> cu_previousId cu1 = cu_previousId cu"
proof -
  have ne: "rs \<noteq> []" if "rs \<in> set es" for rs
    using table_good_chunk [OF good, of rs] that by simp
  show "seek_block z cu = Inr (False, cu)" if "b @ concat es = []"
  proof -
    have "b = []" "es = []"
      using that ne by (cases es; auto)+
    moreover have "64 + length (blocks_of c z ds) < 2 ^ 64"
      using good \<open>es = []\<close> by (simp add: table_good_def table_fits_def)
    ultimately show ?thesis
      using at u64_of_nat [of "64 + length (blocks_of c z ds)"]
      by (simp add: reader_at_def seek_block.simps [of z cu] del: of_nat_add)
  qed
  show "\<exists>cu1 ds1 b1 es1. seek_block z cu = Inr (True, cu1)
      \<and> reader_at c z tb ix ds1 b1 es1 cu1 \<and> ds1 @ es1 = ds @ es \<and> b1 \<noteq> [] \<and> b1 @ concat es1 = b @ concat es
      \<and> cu_previousId cu1 = cu_previousId cu" if some: "b @ concat es \<noteq> []"
  proof (cases "b = []")
    case False
    then have "cu_rowIndex cu < cu_rowsInBlock cu"
      using at by (cases b) (auto simp: reader_at_def)
    then show ?thesis
      using at False by (auto simp: seek_block.simps [of z cu])
  next
    case True
    then obtain rs es1 where es: "es = rs # es1"
      using some by (cases es) auto
    obtain cu1 where cu1: "loadBlock z cu = Inr cu1" "reader_at c z tb ix (ds @ [rs]) rs es1 cu1"
      "cu_previousId cu1 = cu_previousId cu"
      using loadBlock_at [of c z ds rs es1 tb ix cu] good at True es by auto
    have "rs \<noteq> []"
      using ne es by simp
    then have "cu_rowIndex cu1 < cu_rowsInBlock cu1"
      using cu1(2) by (cases rs) (auto simp: reader_at_def)
    then have "seek_block z cu1 = Inr (True, cu1)"
      by (simp add: seek_block.simps [of z cu1])
    moreover have "\<not> cu_rowIndex cu < cu_rowsInBlock cu" "\<not> cu_blockCount cu \<le> cu_blocksRead cu"
      using at True es by (simp_all add: reader_at_def)
    ultimately have "seek_block z cu = Inr (True, cu1)"
      using cu1(1) by (simp add: seek_block.simps [of z cu])
    then show ?thesis
      using cu1 es True \<open>rs \<noteq> []\<close> by (intro exI [of _ cu1] exI [of _ "ds @ [rs]"] exI [of _ rs] exI [of _ es1]) simp
  qed
qed

lemma advance_at:
  assumes good: "table_good c z (ds @ es)" and at: "reader_at c z tb ix ds b es cu"
    and rem: "b @ concat es = r # rem"
    and r: "packed_ok c r" "packed_id c ix (to_msgpack c r) = Some (rowId c r)" "rowId c r \<noteq> []"
      "cu_previousId cu = [] \<or> cu_previousId cu \<le> rowId c r"
  shows "\<exists>cu' ds' b' es'. advance c z cu = Inr cu' \<and> cu_valid cu' \<and> cu_currentId cu' = rowId c r
      \<and> cu_current cu' = to_msgpack c r \<and> cu_previousId cu' = rowId c r
      \<and> reader_at c z tb ix ds' b' es' cu' \<and> ds' @ es' = ds @ es \<and> b' @ concat es' = rem"
proof -
  obtain cu1 ds1 b1 es1 where sk: "seek_block z cu = Inr (True, cu1)" "reader_at c z tb ix ds1 b1 es1 cu1"
    "ds1 @ es1 = ds @ es" "b1 \<noteq> []" "b1 @ concat es1 = b @ concat es" "cu_previousId cu1 = cu_previousId cu"
    using seek_at(2) [OF good at] rem by auto
  obtain b2 where b1: "b1 = r # b2"
    using sk(4,5) rem by (cases b1) auto
  let ?n = "length (to_msgpack c r)"
  let ?cu2 = "cu1\<lparr>cu_rest := plain_of c b2, cu_rowIndex := Suc (cu_rowIndex cu1), cu_rowsRead := Suc (cu_rowsRead cu1)\<rparr>"
  have n: "unat (of_nat ?n :: u32) = ?n" "(of_nat ?n :: u32) \<noteq> 0" "?n \<le> kMaxFieldBytes"
    using packed_length [OF r(1)] .
  have rest: "readU32 (cu_rest cu1) = Some (of_nat ?n, to_msgpack c r @ plain_of c b2)"
    using sk(2) by (simp add: reader_at_def b1 row_bytes_def readU32_append)
  have "advance c z cu = admit_row c ?cu2 (to_msgpack c r)"
    using at sk(1) rest n by (simp add: advance_def advance_binary_def reader_at_def)
  moreover obtain v where "row_field (from_msgpack c) (row_view (to_msgpack c r) ix) ''id'' = Some v" "id_text c v = rowId c r"
    using r(2) by (auto simp: packed_id_def)
  ultimately have "advance c z cu = Inr (?cu2\<lparr>cu_current := to_msgpack c r, cu_currentId := rowId c r,
      cu_previousId := rowId c r, cu_valid := True\<rparr>)"
    using r(3,4) sk(2,6) by (auto simp: admit_row_def reader_at_def Let_def)
  moreover have "reader_at c z tb ix ds1 b2 es1 (?cu2\<lparr>cu_current := to_msgpack c r, cu_currentId := rowId c r,
      cu_previousId := rowId c r, cu_valid := True\<rparr>)"
    using sk(2) by (simp add: reader_at_def b1)
  moreover have "b2 @ concat es1 = rem"
    using sk(5) rem by (simp add: b1)
  ultimately show ?thesis
    using sk(3) by (intro exI conjI) (assumption | simp)+
qed

lemma yields_at:
  assumes "table_good c z (ds @ es)" "reader_at c z tb ix ds b es cu" "cu_valid cu"
    "\<forall>r \<in> set (b @ concat es). packed_ok c r" "keyed c ix (b @ concat es)"
    "\<forall>r \<in> set (b @ concat es). cu_previousId cu \<le> rowId c r"
  shows "yields c z cu ((cu_currentId cu, cu_current cu) # keyed_rows c (b @ concat es))"
  using assms
proof (induction "b @ concat es" arbitrary: ds b es cu)
  case Nil
  have "seek_block z cu = Inr (False, cu)"
    using seek_at(1) [OF Nil.prems(1,2)] Nil.hyps by simp
  then have "advance c z cu = Inr (cu\<lparr>cu_valid := False\<rparr>)"
    using Nil.prems(2) by (simp add: advance_def advance_binary_def reader_at_def)
  then show ?case
    unfolding keyed_rows_def Nil.hyps [symmetric] list.map
    by (rule yields_Cons [OF Nil.prems(3)]) (simp add: yields_valid)
next
  case (Cons r rem)
  note eq = Cons.hyps(2) [symmetric]
  have r: "packed_ok c r" "packed_id c ix (to_msgpack c r) = Some (rowId c r)" "rowId c r \<noteq> []"
    "cu_previousId cu = [] \<or> cu_previousId cu \<le> rowId c r"
    and later: "\<forall>x \<in> set rem. rowId c r \<le> rowId c x" "keyed c ix rem" "\<forall>x \<in> set rem. packed_ok c x"
    using Cons.prems(4-6) unfolding eq by (auto simp: keyed_def)
  obtain cu' ds' b' es' where adv: "advance c z cu = Inr cu'" "cu_valid cu'" "cu_currentId cu' = rowId c r"
    "cu_current cu' = to_msgpack c r" "cu_previousId cu' = rowId c r" "reader_at c z tb ix ds' b' es' cu'"
    "ds' @ es' = ds @ es" "b' @ concat es' = rem"
    using advance_at [OF Cons.prems(1,2) eq r] by auto
  have "yields c z cu' ((cu_currentId cu', cu_current cu') # keyed_rows c (b' @ concat es'))"
    using Cons.hyps(1) [OF adv(8) [symmetric] _ adv(6,2)] Cons.prems(1) later adv(5,7,8) by simp
  then have "yields c z cu' (keyed_rows c (r # rem))"
    by (simp add: keyed_rows_def adv)
  then show ?case
    unfolding eq by (rule yields_Cons [OF Cons.prems(3) adv(1)])
qed

text \<open>Opening a written table gives a cursor that delivers its rows in order.\<close>

theorem cursor_open_table:
  assumes good: "table_good c z cs" and key: "keyed c ix (concat cs)"
  shows "\<exists>cu. cursor_open c z (table_of c z tb cs) ix = Inr cu \<and> cu_indexFields cu = ix
    \<and> yields c z cu (keyed_rows c (concat cs))"
proof -
  let ?f = "table_of c z tb cs" and ?off = "64 + length (blocks_of c z cs)"
  define cu where "cu = (cursor_init ?f ix)\<lparr>cu_binary := True, cu_pos := kSstHeaderBytes,
      cu_rowCount := of_nat (length (concat cs)), cu_indexOffset := of_nat ?off, cu_blockCount := length cs\<rparr>"
  have n: "length cs \<le> kMaxBlocks" "unat (of_nat (length cs) :: u32) = length cs"
    using good by (simp_all add: table_good_def table_fits_def unat_of_nat kMaxBlocks_def)
  have hd: "take 64 ?f = final_header tb (length (concat cs)) ?off (length cs)" "take 8 ?f = kSstMagic" "64 \<le> length ?f"
    by (simp_all add: table_of_def final_header_def sst_header_def)
  have op: "cursor_open c z ?f ix = advance c z cu"
    using hd n by (simp add: cursor_open_def kSstHeaderBytes_def parse_final_header cu_def)
  have at: "reader_at c z tb ix [] [] cs cu"
    by (simp add: reader_at_def cursor_init_def kSstHeaderBytes_def cu_def)
  have pk: "\<forall>r \<in> set (concat cs). packed_ok c r"
    using table_good_chunk [OF good] by auto
  show ?thesis
  proof (cases "concat cs")
    case Nil
    have "seek_block z cu = Inr (False, cu)"
      using seek_at(1) [of c z "[]" cs tb ix "[]" cu] good at Nil by simp
    then have "advance c z cu = Inr (cu\<lparr>cu_valid := False\<rparr>)"
      using at by (simp add: advance_def advance_binary_def reader_at_def)
    moreover have "yields c z (cu\<lparr>cu_valid := False\<rparr>) (keyed_rows c (concat cs))"
      unfolding Nil keyed_rows_def list.map by (simp add: yields_valid)
    ultimately show ?thesis
      using op at by (auto simp: reader_at_def)
  next
    case (Cons r rem)
    have r: "packed_ok c r" "packed_id c ix (to_msgpack c r) = Some (rowId c r)" "rowId c r \<noteq> []"
      "cu_previousId cu = [] \<or> cu_previousId cu \<le> rowId c r"
      using pk key unfolding Cons by (simp_all add: keyed_def cursor_init_def cu_def)
    obtain cu' ds' b' es' where adv: "advance c z cu = Inr cu'" "cu_valid cu'" "cu_currentId cu' = rowId c r"
      "cu_current cu' = to_msgpack c r" "cu_previousId cu' = rowId c r" "reader_at c z tb ix ds' b' es' cu'"
      "ds' @ es' = [] @ cs" "b' @ concat es' = rem"
      using advance_at [of c z "[]" cs tb ix "[]" cu r rem] good at Cons r by auto
    have "yields c z cu' ((cu_currentId cu', cu_current cu') # keyed_rows c (b' @ concat es'))"
      using yields_at [OF _ adv(6,2)] good adv(5,7,8) pk key Cons by (simp add: keyed_def)
    then have "yields c z cu' (keyed_rows c (concat cs))"
      by (simp add: keyed_rows_def adv Cons)
    moreover have "cu_indexFields cu' = ix"
      using adv(6) by (simp add: reader_at_def)
    ultimately show ?thesis
      using op adv(1) by auto
  qed
qed


section \<open>A written table verifies\<close>

lemma verify_rows_yields:
  assumes "yields c z cu rs" "\<forall>(i, r) \<in> set rs. r \<noteq> [] \<and> from_msgpack c r \<noteq> None"
  shows "verify_rows c z cu = None"
  using assms
proof induction
  case (yields_Nil cu)
  then show ?case by (simp add: verify_rows.simps [of c z cu])
next
  case (yields_Cons cu cu' rs)
  then show ?case
    by (auto simp: verify_rows.simps [of c z cu] row_materialize_def row_view_def split: prod.splits)
qed

lemma verify_footer_table:
  assumes fits: "table_fits c z cs" and small: "length (table_of c z tb cs) < 2 ^ 64"
  shows "verify_footer (table_of c z tb cs) = None"
proof -
  define f where "f = table_of c z tb cs"
  define off where "off = 64 + length (blocks_of c z cs)"
  let ?es = "entries_from c z 64 cs"
  define body where "body = kSstIndexMagic @ le_bytes 4 (of_nat (length ?es) :: u32) @ concat (map entry_bytes ?es)"
  define h where "h = final_header tb (length (concat cs)) off (length cs) @ blocks_of c z cs"
  have n: "length cs \<le> kMaxBlocks"
    using fits by (simp add: table_fits_def)
  have f: "f = h @ body @ le_bytes 4 (crc32 body)" "length h = off"
    by (simp_all add: f_def h_def off_def body_def table_of_def index_bytes_def)
  have lens: "length f = off + length body + 4" "12 \<le> length body" "length f < 2 ^ 64" "off < 2 ^ 64"
    using f small by (simp_all add: body_def f_def)
  have cb: "(of_nat (length f) - of_nat off - 4 :: u64) = of_nat (length body)"
    using lens(1) by simp
  have chk: "unat (of_nat (length f) - of_nat off - 4 :: u64) = length body" "unat (of_nat off :: u64) = off"
    using lens by (simp_all only: cb) (simp_all add: u64_of_nat)
  have big: "\<not> (of_nat (length f) :: u64) < of_nat off + 16"
  proof -
    have "(of_nat off + 16 :: u64) = of_nat (off + 16)"
      by simp
    moreover have "unat (of_nat (off + 16) :: u64) = off + 16"
      using lens by (intro u64_of_nat) simp
    ultimately show ?thesis
      using lens u64_of_nat [OF lens(3)] by (simp only: word_less_nat_alt)
  qed
  have crc: "crc_loop f off (length body) crc32_init = Some (crc32_update crc32_init body)"
    using crc_loop_eq [of f off "length body" crc32_init] read_at_append [OF f(2) refl, of body] lens(2)
    by (auto simp: f(1))
  have foot: "read_at f (off + length body) 4 = Some (le_bytes 4 (crc32 body))"
    using read_at_append [of "h @ body" "off + length body" "le_bytes 4 (crc32 body)" 4 "[]"] f by simp
  have pre: "take 12 (drop off f) = kSstIndexMagic @ le_bytes 4 (of_nat (length cs) :: u32)"
    using f by (simp add: body_def)
  have hd: "take 64 f = final_header tb (length (concat cs)) off (length cs)"
    by (simp add: f_def off_def table_of_def)
  have fin: "crc32_finalize (crc32_update crc32_init body) = crc32 body"
    by (simp add: crc32_finalize_def crc32_update_def crc32_init_def crc32_def)
  show ?thesis
    unfolding f_def [symmetric]
    using lens(2)
    by (simp add: verify_footer_def kSstHeaderBytes_def hd parse_final_header [OF n] big chk crc foot pre fin
        le_word_roundtrip Let_def)
qed

theorem verify_table:
  assumes "table_good c z cs" "keyed c False (concat cs)" "length (table_of c z tb cs) < 2 ^ 64"
    "\<forall>r \<in> set (concat cs). from_msgpack c (to_msgpack c r) \<noteq> None"
  shows "verifySst c z (table_of c z tb cs) = None"
proof -
  obtain cu where cu: "cursor_open c z (table_of c z tb cs) False = Inr cu" "yields c z cu (keyed_rows c (concat cs))"
    using cursor_open_table [OF assms(1,2)] by blast
  have "\<forall>(i, r) \<in> set (keyed_rows c (concat cs)). r \<noteq> [] \<and> from_msgpack c r \<noteq> None"
    using assms(4) table_good_chunk [OF assms(1)] by (fastforce simp: keyed_rows_def packed_ok_def)
  then have "verify_rows c z cu = None"
    by (rule verify_rows_yields [OF cu(2)])
  then show ?thesis
    using cu(1) verify_footer_table [OF _ assms(3)] assms(1) by (simp add: verifySst_def table_good_def)
qed

end
