(* ===== verification/Lsm_Manifest.thy ===== *)
theory Lsm_Manifest
  imports Durable_Dir Sst_Cursor
begin

text \<open>
  The manifest of a collection (\<open>lsm_manifest.cpp\<close>): the file that names the published tables of the
  collection, the generation and the WAL boundary they cover.  Loading checks the file and the tables it
  names; publishing checks the new manifest against the current one, synchronises the new tables, and replaces
  the file by a rename.  The publication lock of the collection is held throughout, so a publication is one
  sequence of system calls.  Paths are taken apart as \<open>std::filesystem\<close> does on POSIX.
\<close>

section \<open>Names\<close>

definition kManifestName :: string where
  "kManifestName = ''_manifest.json''"

definition kManifestTemporary :: string where
  "kManifestTemporary = ''_manifest.json.tmp''"

definition kMaxManifestBytes :: nat where
  "kMaxManifestBytes = 16 * 1024 * 1024"

text \<open>\<open>path::extension\<close> of a file name: from the last dot, unless that dot starts the name.\<close>

definition path_extension :: "string \<Rightarrow> string" where
  "path_extension name =
     (let suf = rev (takeWhile (\<lambda>ch. ch \<noteq> CHR ''.'') (rev name))
      in if suf = name \<or> length suf + 1 = length name \<or> name = ''..'' then [] else CHR ''.'' # suf)"

definition safeSstName :: "string \<Rightarrow> bool" where
  "safeSstName name \<longleftrightarrow> name \<noteq> [] \<and> CHR ''/'' \<notin> set name \<and> path_extension name = ''.sst'' \<and> name \<noteq> ''.sst''"

section \<open>Loading\<close>

record LsmManifest =
  mf_formatVersion :: u32
  mf_generation :: u64
  mf_coveredWalLsn :: u64
  mf_sstFiles :: "string list"

datatype manifest_error =
    UnsupportedVersion | DuplicateSst | UnsafeName | MissingSst string | InvalidSst string sst_error
  | BadSize | BadJson | MissingFields | Regressed | OutsideDirectory | UnlistedSst | ArtifactSync | SidecarSync
  | DirectorySync | TemporaryWrite | TemporarySync | ManifestRename | ManifestSync

datatype manifest_status = ABSENT | Loaded LsmManifest | LoadError manifest_error

fun check_ssts :: "json_codec \<Rightarrow> lz4 \<Rightarrow> disk \<Rightarrow> bool \<Rightarrow> string list \<Rightarrow> manifest_error option" where
  "check_ssts c z d verifyContents [] = None"
| "check_ssts c z d verifyContents (name # names) =
     (if \<not> safeSstName name then Some UnsafeName
      else case file_of d name of
             None \<Rightarrow> Some (MissingSst name)
           | Some f \<Rightarrow>
              (case (if verifyContents then verifySst c z f else None) of
                 Some e \<Rightarrow> Some (InvalidSst name e)
               | None \<Rightarrow> check_ssts c z d verifyContents names))"

definition validateManifest :: "json_codec \<Rightarrow> lz4 \<Rightarrow> disk \<Rightarrow> bool \<Rightarrow> LsmManifest \<Rightarrow> manifest_error + LsmManifest" where
  "validateManifest c z d verifyContents m =
     (if mf_formatVersion m \<noteq> 1 \<or> mf_generation m = 0 then Inl UnsupportedVersion
      else
        let files = sort (mf_sstFiles m)
        in if \<not> distinct files then Inl DuplicateSst
           else case check_ssts c z d verifyContents files of
                  Some e \<Rightarrow> Inl e
                | None \<Rightarrow> Inr (m\<lparr>mf_sstFiles := files\<rparr>))"

definition string_list :: "json \<Rightarrow> string list option" where
  "string_list j = (case j of JArr xs \<Rightarrow> those (map get_str xs) | _ \<Rightarrow> None)"

text \<open>\<open>None\<close>: a field of the wrong type throws.\<close>

definition manifest_fields :: "json \<Rightarrow> LsmManifest option" where
  "manifest_fields j =
     (case (jlookup j ''formatVersion'', jlookup j ''generation'', jlookup j ''coveredWalLsn'', jlookup j ''sstFiles'') of
        (Some v, Some g, Some w, Some s) \<Rightarrow>
          do {
            version \<leftarrow> get_u32 v; generation \<leftarrow> get_u64 g; covered \<leftarrow> get_u64 w; files \<leftarrow> string_list s;
            Some \<lparr>mf_formatVersion = version, mf_generation = generation,
                  mf_coveredWalLsn = covered, mf_sstFiles = files\<rparr> }
      | _ \<Rightarrow> None)"

definition is_array :: "json \<Rightarrow> bool" where
  "is_array j = (case j of JArr _ \<Rightarrow> True | _ \<Rightarrow> False)"

definition manifest_shape :: "json \<Rightarrow> bool" where
  "manifest_shape j \<longleftrightarrow> is_object j \<and> jcontains j ''formatVersion'' \<and> jcontains j ''generation''
     \<and> jcontains j ''coveredWalLsn'' \<and> (\<exists>s. jlookup j ''sstFiles'' = Some s \<and> is_array s)"

definition load :: "json_codec \<Rightarrow> lz4 \<Rightarrow> disk \<Rightarrow> manifest_status" where
  "load c z d =
     (case file_of d kManifestName of
        None \<Rightarrow> ABSENT
      | Some bs \<Rightarrow>
          if bs = [] \<or> kMaxManifestBytes < length bs then LoadError BadSize
          else case jparse c bs of
                 None \<Rightarrow> LoadError BadJson
               | Some j \<Rightarrow>
                   if \<not> manifest_shape j then LoadError MissingFields
                   else case manifest_fields j of
                          None \<Rightarrow> LoadError BadJson
                        | Some m \<Rightarrow>
                           (case validateManifest c z d False m of
                              Inl e \<Rightarrow> LoadError e
                            | Inr m' \<Rightarrow> Loaded m'))"

fun legacy_ssts :: "json_codec \<Rightarrow> lz4 \<Rightarrow> disk \<Rightarrow> string list \<Rightarrow> manifest_error + string list" where
  "legacy_ssts c z d [] = Inr []"
| "legacy_ssts c z d (name # names) =
     (if path_extension name = ''.sst''
      then case (case file_of d name of Some f \<Rightarrow> verifySst c z f | None \<Rightarrow> None) of
             Some e \<Rightarrow> Inl (InvalidSst name e)
           | None \<Rightarrow> (case legacy_ssts c z d names of Inl e \<Rightarrow> Inl e | Inr ns \<Rightarrow> Inr (name # ns))
      else legacy_ssts c z d names)"

definition publishedSsts :: "json_codec \<Rightarrow> lz4 \<Rightarrow> disk \<Rightarrow> manifest_error + string list" where
  "publishedSsts c z d =
     (case load c z d of
        LoadError e \<Rightarrow> Inl e
      | Loaded m \<Rightarrow> Inr (mf_sstFiles m)
      | ABSENT \<Rightarrow>
         (case legacy_ssts c z d (map fst (d_live d)) of Inl e \<Rightarrow> Inl e | Inr ns \<Rightarrow> Inr (sort ns)))"

section \<open>Publishing\<close>

definition manifest_json :: "LsmManifest \<Rightarrow> json" where
  "manifest_json m =
     JObj [(''coveredWalLsn'', JUInt (mf_coveredWalLsn m)), (''formatVersion'', JUInt (ucast (mf_formatVersion m))),
           (''generation'', JUInt (mf_generation m)), (''sstFiles'', JArr (map JStr (mf_sstFiles m)))]"

text \<open>An artifact is the normalised path of a new file: its parent and its name.\<close>

type_synonym artifact = "string \<times> string"

definition sidecar_names :: "string \<Rightarrow> string list" where
  "sidecar_names name = [name @ ''.bloom'', name @ ''.sidx'']"

fun sync_sidecars :: "fsys \<Rightarrow> string list \<Rightarrow> fsys \<times> bool" where
  "sync_sidecars s [] = (s, True)"
| "sync_sidecars s (n # ns) =
     (if file_of (fs_disk s) n = None then sync_sidecars s ns
      else let (s', ok) = syncFile s n in if ok then sync_sidecars s' ns else (s', False))"

fun sync_artifacts :: "json_codec \<Rightarrow> lz4 \<Rightarrow> bool \<Rightarrow> fsys \<Rightarrow> string list \<Rightarrow> fsys \<times> manifest_error option" where
  "sync_artifacts c z verify s [] = (s, None)"
| "sync_artifacts c z verify s (name # names) =
     (case file_of (fs_disk s) name of
        None \<Rightarrow> (s, Some ArtifactSync)
      | Some f \<Rightarrow>
         (let (s1, ok) = syncFile s name
          in if \<not> ok then (s1, Some ArtifactSync)
             else if path_extension name \<noteq> ''.sst'' then sync_artifacts c z verify s1 names
             else case (if verify then verifySst c z f else None) of
                    Some e \<Rightarrow> (s1, Some (InvalidSst name e))
                  | None \<Rightarrow>
                     (let (s2, ok2) = sync_sidecars s1 (sidecar_names name)
                      in if ok2 then sync_artifacts c z verify s2 names else (s2, Some SidecarSync))))"

definition replace_manifest :: "json_codec \<Rightarrow> LsmManifest \<Rightarrow> fsys \<Rightarrow> fsys \<times> manifest_error option" where
  "replace_manifest c m s =
     (let (s1, ok1) = writeFile s kManifestTemporary (jdump c (manifest_json m))
      in if \<not> ok1 then (s1, Some TemporaryWrite)
         else let (s2, ok2) = syncFile s1 kManifestTemporary
           in if \<not> ok2 then (s2, Some TemporarySync)
              else let (s3, ok3) = renameFile s2 kManifestTemporary kManifestName
                in if \<not> ok3 then (s3, Some ManifestRename)
                   else let (s4, ok4) = syncDirectory s3
                     in (s4, if ok4 then None else Some ManifestSync))"

definition publish :: "json_codec \<Rightarrow> lz4 \<Rightarrow> string \<Rightarrow> LsmManifest \<Rightarrow> artifact list \<Rightarrow> fsys \<Rightarrow> fsys \<times> manifest_error option" where
  "publish c z dir requested newArtifacts s =
     (let d = fs_disk s; current = load c z d
      in case current of
           LoadError e \<Rightarrow> (s, Some e)
         | _ \<Rightarrow>
          (case validateManifest c z d (current = ABSENT) requested of
             Inl e \<Rightarrow> (s, Some e)
           | Inr m \<Rightarrow>
               if (case current of Loaded cur \<Rightarrow> mf_generation m \<le> mf_generation cur
                                                \<or> mf_coveredWalLsn m < mf_coveredWalLsn cur | _ \<Rightarrow> False)
               then (s, Some Regressed)
               else if \<exists>a \<in> set newArtifacts. fst a \<noteq> dir then (s, Some OutsideDirectory)
               else
                 let names = map snd newArtifacts; newSsts = filter (\<lambda>n. path_extension n = ''.sst'') names
                 in if (case current of Loaded cur \<Rightarrow> \<exists>n \<in> set (mf_sstFiles m). n \<notin> set (mf_sstFiles cur) \<and> n \<notin> set newSsts
                                      | _ \<Rightarrow> False)
                    then (s, Some UnlistedSst)
                    else case sync_artifacts c z (current \<noteq> ABSENT) s names of
                           (s1, Some e) \<Rightarrow> (s1, Some e)
                         | (s1, None) \<Rightarrow>
                            (let (s2, ok) = syncDirectory s1
                             in if ok then replace_manifest c m s2 else (s2, Some DirectorySync))))"

section \<open>What a publication leaves on the disk\<close>

text \<open>A property of every state a crash can interrupt.\<close>

definition always :: "(disk \<Rightarrow> bool) \<Rightarrow> fsys \<Rightarrow> bool" where
  "always P s \<longleftrightarrow> (\<forall>d \<in> set (fs_disk s # fs_past s). P d)"

lemma always_do [simp]: "always P (fs_do d s) \<longleftrightarrow> P d \<and> always P s"
  by (auto simp: always_def fs_do_def)

lemma fs_disk_do [simp]: "fs_disk (fs_do d s) = d"
  by (simp add: fs_do_def)

lemma always_now: "always P s \<Longrightarrow> P (fs_disk s)"
  by (simp add: always_def)

lemma always_mono: "always P s \<Longrightarrow> (\<And>d. P d \<Longrightarrow> Q d) \<Longrightarrow> always Q s"
  by (auto simp: always_def)

text \<open>The names of \<open>N\<close> hold what they held and no crash can change it.\<close>

definition holds :: "disk \<Rightarrow> string set \<Rightarrow> disk \<Rightarrow> bool" where
  "holds d0 N d \<longleftrightarrow> disk_wf d \<and> (\<forall>n \<in> N. settled d n \<and> file_of d n = file_of d0 n)"

lemma holds_put: "holds d0 N d \<Longrightarrow> n \<notin> N \<Longrightarrow> holds d0 N (put_file d n bs)"
  unfolding holds_def using put_file_wf put_file_other by metis

lemma holds_sync_node: "holds d0 N d \<Longrightarrow> holds d0 N (sync_node d n)"
  by (simp add: holds_def sync_node_wf sync_node_settled sync_node_file)

lemma holds_sync_names: "holds d0 N d \<Longrightarrow> holds d0 N (sync_names d)"
  by (simp add: holds_def sync_names_wf sync_names_settled sync_names_file) (simp add: settled_def)

lemma holds_move: "holds d0 N d \<Longrightarrow> a \<notin> N \<Longrightarrow> b \<notin> N \<Longrightarrow> holds d0 N (move_name d a b)"
  unfolding holds_def using move_name_wf move_name_other by metis

lemma holds_drop: "holds d0 N d \<Longrightarrow> n \<notin> N \<Longrightarrow> holds d0 N (drop_name d n)"
  unfolding holds_def using drop_name_wf drop_name_other by metis

lemmas holds_ops = holds_put holds_sync_node holds_sync_names holds_move holds_drop

subsection \<open>Synchronising the artifacts\<close>

text \<open>\<open>s'\<close> is \<open>s\<close> with more contents synchronised.\<close>

definition only_syncs :: "fsys \<Rightarrow> fsys \<Rightarrow> bool" where
  "only_syncs s s' \<longleftrightarrow>
     (disk_wf (fs_disk s) \<longrightarrow> disk_wf (fs_disk s') \<and> d_live (fs_disk s') = d_live (fs_disk s)
        \<and> (\<forall>n. file_of (fs_disk s') n = file_of (fs_disk s) n)
        \<and> (\<forall>n. data_synced (fs_disk s) n \<longrightarrow> data_synced (fs_disk s') n))
     \<and> (\<forall>P. (\<forall>d n. P d \<longrightarrow> P (sync_node d n)) \<longrightarrow> always P s \<longrightarrow> always P s')"

lemma only_syncs_refl [simp]: "only_syncs s s"
  by (simp add: only_syncs_def)

lemma only_syncs_trans: "only_syncs s t \<Longrightarrow> only_syncs t u \<Longrightarrow> only_syncs s u"
  by (simp add: only_syncs_def)

lemma syncFile_only:
  assumes "syncFile s n = (s', ok)"
  shows "only_syncs s s'" "disk_wf (fs_disk s) \<Longrightarrow> ok \<Longrightarrow> data_synced (fs_disk s') n"
  using assms
  by (auto simp: syncFile_def only_syncs_def sync_node_wf sync_node_file sync_node_data always_now split: if_splits)

lemma sync_sidecars_only: "sync_sidecars s ns = (s', ok) \<Longrightarrow> only_syncs s s'"
proof (induction s ns rule: sync_sidecars.induct)
  case (2 s n ns)
  obtain s1 ok1 where s1: "syncFile s n = (s1, ok1)"
    by (cases "syncFile s n")
  show ?case
    using 2 s1 only_syncs_trans [OF syncFile_only(1) [OF s1]] syncFile_only(1) [OF s1]
    by (auto split: if_splits)
qed simp

lemma sync_artifacts_only:
  assumes "sync_artifacts c z verify s names = (s', r)" "disk_wf (fs_disk s)"
  shows "only_syncs s s' \<and> (r = None \<longrightarrow> (\<forall>n \<in> set names. data_synced (fs_disk s') n \<and> file_of (fs_disk s') n \<noteq> None
      \<and> (verify \<longrightarrow> path_extension n = ''.sst'' \<longrightarrow> verifySst c z (the (file_of (fs_disk s') n)) = None)))"
  using assms
proof (induction names arbitrary: s)
  case (Cons name names)
  show ?case
  proof (cases "file_of (fs_disk s) name")
    case None
    then show ?thesis
      using Cons.prems by auto
  next
    case (Some f)
    obtain s1 ok where s1: "syncFile s name = (s1, ok)"
      by (cases "syncFile s name")
    note o1 = syncFile_only [OF s1]
    obtain s2 ok2 where s2: "sync_sidecars s1 (sidecar_names name) = (s2, ok2)"
      by (cases "sync_sidecars s1 (sidecar_names name)")
    note o2 = sync_sidecars_only [OF s2]
    have wf: "disk_wf (fs_disk s1)" "disk_wf (fs_disk s2)"
      using o1(1) o2 Cons.prems(2) by (simp_all add: only_syncs_def)
    show ?thesis
    proof (cases "r = None \<or> (\<exists>t. only_syncs s1 t \<and> sync_artifacts c z verify t names = (s', r))")
      case True
      have "\<exists>t. only_syncs s1 t \<and> sync_artifacts c z verify t names = (s', r)
          \<and> (r = None \<longrightarrow> ok \<and> (verify \<longrightarrow> path_extension name = ''.sst'' \<longrightarrow> verifySst c z f = None))"
        using Cons.prems(1) True Some s1 s2 o2
        by (auto split: if_splits option.splits) (rule exI [of _ s1], simp)
      then obtain t where t: "only_syncs s1 t" "sync_artifacts c z verify t names = (s', r)"
          "r = None \<Longrightarrow> ok" "r = None \<Longrightarrow> verify \<Longrightarrow> path_extension name = ''.sst'' \<Longrightarrow> verifySst c z f = None"
        by blast
      have wft: "disk_wf (fs_disk t)"
        using t(1) wf(1) by (simp add: only_syncs_def)
      note IH = Cons.IH [OF t(2) wft]
      have st: "only_syncs s1 s'"
        using IH only_syncs_trans [OF t(1)] by simp
      have "file_of (fs_disk s') name = Some f"
        using st o1(1) wf(1) Cons.prems(2) Some by (simp add: only_syncs_def)
      moreover have "r = None \<Longrightarrow> data_synced (fs_disk s') name"
        using st o1(2) [OF Cons.prems(2)] t(3) wf(1) by (simp add: only_syncs_def)
      ultimately show ?thesis
        using IH t(4) only_syncs_trans [OF o1(1) st] by simp
    next
      case False
      then show ?thesis
        using Cons.prems(1) Some s1 s2 o1(1) o2 only_syncs_trans [OF o1(1) o2]
        by (auto split: if_splits option.splits)
    qed
  qed
qed simp

subsection \<open>Replacing the file\<close>

text \<open>
  What a crash may find: the names of \<open>N\<close> as they were, and under the manifest's name the old contents, or the
  new ones with the names of \<open>A\<close> safe on the disk.
\<close>

definition guarded :: "disk \<Rightarrow> string set \<Rightarrow> string set \<Rightarrow> bytes \<Rightarrow> disk \<Rightarrow> bool" where
  "guarded d0 N A new d \<longleftrightarrow> holds d0 N d
     \<and> (\<forall>f. crash_file d kManifestName f \<longrightarrow> f = file_of d0 kManifestName \<or> f = Some new \<and> holds d0 A d)"

definition special :: "string set" where
  "special = {kManifestName, kManifestTemporary}"

lemma holds_subset: "holds d0 N d \<Longrightarrow> M \<subseteq> N \<Longrightarrow> holds d0 M d"
  by (auto simp: holds_def)

lemma holds_union: "holds d0 N d \<Longrightarrow> holds d0 A d \<Longrightarrow> holds d0 (N \<union> A) d"
  by (auto simp: holds_def)

lemma guarded_old:
  assumes "holds d0 (insert kManifestName N) d"
  shows "guarded d0 N A new d"
proof -
  have "settled d kManifestName" "file_of d kManifestName = file_of d0 kManifestName"
    using assms by (simp_all add: holds_def)
  then show ?thesis
    using holds_subset [OF assms, of N] settled_crash [of d kManifestName] by (auto simp: guarded_def)
qed

lemma special_names: "kManifestTemporary \<noteq> kManifestName" "kManifestName \<in> special" "kManifestTemporary \<in> special"
  by (simp_all add: kManifestTemporary_def kManifestName_def special_def)

text \<open>The state just after the rename.\<close>

lemma rename_guarded:
  assumes hold: "holds d0 (insert kManifestName (N \<union> A)) d" and N: "N \<inter> special = {}" "A \<inter> special = {}"
    and tmp: "file_of d kManifestTemporary = Some new" "data_synced d kManifestTemporary"
  defines "d' \<equiv> move_name d kManifestTemporary kManifestName"
  shows "guarded d0 N A new d'" "holds d0 (N \<union> A) d'" "file_of d' kManifestName = Some new" "data_synced d' kManifestName"
proof -
  have live: "map_of (d_live d) kManifestTemporary \<noteq> None"
    using tmp(1) by (auto simp: file_of_def node_of_def)
  have d: "disk_wf d" "settled d kManifestName" "file_of d kManifestName = file_of d0 kManifestName"
    using hold by (simp_all add: holds_def)
  note mv = move_name_crash [OF d(1,2) tmp(2) live special_names(1), folded d'_def]
  have "holds d0 (N \<union> A) d"
    by (rule holds_subset [OF hold]) auto
  then show NA: "holds d0 (N \<union> A) d'"
    unfolding d'_def using N special_names by (intro holds_move) auto
  show "file_of d' kManifestName = Some new" "data_synced d' kManifestName"
    using mv(2,3) tmp(1) by simp_all
  show "guarded d0 N A new d'"
    unfolding guarded_def using mv(1) tmp(1) d(3) holds_subset [OF NA] by simp
qed

lemma replace_manifest_spec:
  assumes r: "replace_manifest c m s = (s', r)" and hold: "holds d0 (insert kManifestName (N \<union> A)) (fs_disk s)"
    and past: "always (guarded d0 N A (jdump c (manifest_json m))) s" and N: "N \<inter> special = {}" "A \<inter> special = {}"
  shows "always (guarded d0 N A (jdump c (manifest_json m))) s'
    \<and> (r = None \<longrightarrow> holds d0 (N \<union> A) (fs_disk s') \<and> settled (fs_disk s') kManifestName
          \<and> file_of (fs_disk s') kManifestName = Some (jdump c (manifest_json m)))"
proof -
  let ?new = "jdump c (manifest_json m)" and ?M = "insert kManifestName (N \<union> A)"
  let ?G = "guarded d0 N A ?new"
  have out: "kManifestTemporary \<notin> ?M"
    using N special_names by auto
  have old: "?G d" if "holds d0 ?M d" for d
    by (rule guarded_old) (rule holds_subset [OF that], auto)
  obtain s1 ok1 where s1: "writeFile s kManifestTemporary ?new = (s1, ok1)"
    by (cases "writeFile s kManifestTemporary ?new")
  have h1: "holds d0 ?M (fs_disk s1)" "always ?G s1" "ok1 \<Longrightarrow> file_of (fs_disk s1) kManifestTemporary = Some ?new"
    using s1 past holds_put [OF hold out] old put_file_file hold
    by (auto simp: writeFile_def holds_def split: option.splits)
  obtain s2 ok2 where s2: "syncFile s1 kManifestTemporary = (s2, ok2)"
    by (cases "syncFile s1 kManifestTemporary")
  have wf1: "disk_wf (fs_disk s1)"
    using h1(1) by (simp add: holds_def)
  have h2: "holds d0 ?M (fs_disk s2)" "always ?G s2" "file_of (fs_disk s2) n = file_of (fs_disk s1) n"
      "ok2 \<Longrightarrow> data_synced (fs_disk s2) kManifestTemporary" for n
    using s2 h1 holds_sync_node [OF h1(1)] old sync_node_file [OF wf1] syncFile_only(2) [OF s2 wf1]
    by (auto simp: syncFile_def split: if_splits)
  obtain s3 ok3 where s3: "renameFile s2 kManifestTemporary kManifestName = (s3, ok3)"
    by (cases "renameFile s2 kManifestTemporary kManifestName")
  have h3: "always ?G s3" "ok3 \<Longrightarrow> holds d0 (N \<union> A) (fs_disk s3)
      \<and> file_of (fs_disk s3) kManifestName = Some ?new \<and> data_synced (fs_disk s3) kManifestName" if "ok1" "ok2"
    using s3 h2(2) rename_guarded [OF h2(1) N _ h2(4) [OF that(2)]] h1(3) [OF that(1)] h2(3) always_now [OF h2(2)]
    by (auto simp: renameFile_def split: if_splits)
  obtain s4 ok4 where s4: "syncDirectory s3 = (s4, ok4)"
    by (cases "syncDirectory s3")
  have h4: "always ?G s4" "ok4 \<Longrightarrow> holds d0 (N \<union> A) (fs_disk s4) \<and> settled (fs_disk s4) kManifestName
      \<and> file_of (fs_disk s4) kManifestName = Some ?new" if "ok1" "ok2" "ok3"
  proof -
    let ?d = "sync_names (fs_disk s3)"
    have h: "holds d0 (N \<union> A) ?d" "settled ?d kManifestName" "file_of ?d kManifestName = Some ?new"
      using h3(2) [OF that] holds_sync_names by (auto simp: sync_names_settled sync_names_file)
    then have "?G ?d"
      unfolding guarded_def using settled_crash [OF h(2)] holds_subset [OF h(1)] by auto
    then show "always ?G s4" "ok4 \<Longrightarrow> holds d0 (N \<union> A) (fs_disk s4) \<and> settled (fs_disk s4) kManifestName
      \<and> file_of (fs_disk s4) kManifestName = Some ?new"
      using s4 h h3(1) [OF that(1,2)] always_now by (auto simp: syncDirectory_def split: if_splits)
  qed
  show ?thesis
    using r s1 s2 s3 s4 h1(2) h2(2) h3 h4 by (auto simp: replace_manifest_def split: if_splits)
qed

subsection \<open>The whole publication\<close>

abbreviation sorted_manifest :: "LsmManifest \<Rightarrow> LsmManifest" where
  "sorted_manifest m \<equiv> m\<lparr>mf_sstFiles := sort (mf_sstFiles m)\<rparr>"

text \<open>What the checks establish before anything is written.\<close>

definition may_publish :: "json_codec \<Rightarrow> lz4 \<Rightarrow> disk \<Rightarrow> string list \<Rightarrow> LsmManifest \<Rightarrow> bool" where
  "may_publish c z d newSsts m \<longleftrightarrow>
     validateManifest c z d (load c z d = ABSENT) m = Inr (sorted_manifest m)
     \<and> (load c z d = ABSENT \<or> (\<exists>cur. load c z d = Loaded cur \<and> mf_generation cur < mf_generation m
           \<and> mf_coveredWalLsn cur \<le> mf_coveredWalLsn m \<and> set (mf_sstFiles m) \<subseteq> set (mf_sstFiles cur) \<union> set newSsts))"

lemma validateManifest_sorted: "validateManifest c z d v m = Inr m' \<Longrightarrow> m' = sorted_manifest m"
  by (auto simp: validateManifest_def Let_def split: if_splits option.splits)

lemma publish_cases:
  assumes "publish c z dir m arts s = (s', r)"
  obtains "s' = s" "r \<noteq> None"
  | "may_publish c z (fs_disk s) (filter (\<lambda>n. path_extension n = ''.sst'') (map snd arts)) m"
    "(case sync_artifacts c z (load c z (fs_disk s) \<noteq> ABSENT) s (map snd arts) of
        (s1, Some e) \<Rightarrow> (s1, Some e)
      | (s1, None) \<Rightarrow> (let (s2, ok) = syncDirectory s1
                       in if ok then replace_manifest c (sorted_manifest m) s2 else (s2, Some DirectorySync))) = (s', r)"
proof (cases "load c z (fs_disk s)")
  case ABSENT
  then show ?thesis
    using assms that validateManifest_sorted [of c z "fs_disk s" True m]
    by (cases "validateManifest c z (fs_disk s) True m") (auto simp: publish_def may_publish_def Let_def split: if_splits)
next
  case (Loaded cur)
  then show ?thesis
    using assms that validateManifest_sorted [of c z "fs_disk s" False m]
    by (cases "validateManifest c z (fs_disk s) False m")
      (auto simp: publish_def may_publish_def Let_def subset_eq not_le not_less split: if_splits)
next
  case (LoadError e)
  then show ?thesis
    using assms that(1) by (auto simp: publish_def)
qed

lemma publish_spec:
  assumes r: "publish c z dir m arts s = (s', r)" and h0: "always (holds (fs_disk s) (insert kManifestName N)) s"
    and N: "N \<inter> special = {}" "snd ` set arts \<inter> special = {}"
  defines "A \<equiv> snd ` set arts" and "new \<equiv> jdump c (manifest_json (sorted_manifest m))"
  shows "always (guarded (fs_disk s) N A new) s'
    \<and> (r = None \<longrightarrow> holds (fs_disk s) (N \<union> A) (fs_disk s') \<and> settled (fs_disk s') kManifestName
          \<and> file_of (fs_disk s') kManifestName = Some new)"
proof -
  let ?d = "fs_disk s" and ?M = "insert kManifestName N"
  have wf: "disk_wf ?d"
    using always_now [OF h0] by (simp add: holds_def)
  have old: "guarded ?d N A new d" if "holds ?d ?M d" for d
    using that by (rule guarded_old)
  show ?thesis
  proof (rule publish_cases [OF r])
    assume "s' = s" "r \<noteq> None"
    then show ?thesis
      using always_mono [of "holds ?d ?M" s "guarded ?d N A new", OF h0 old] by auto
  next
    obtain s1 r1 where s1: "sync_artifacts c z (load c z ?d \<noteq> ABSENT) s (map snd arts) = (s1, r1)"
      by (cases "sync_artifacts c z (load c z ?d \<noteq> ABSENT) s (map snd arts)")
    have o1: "only_syncs s s1" "r1 = None \<Longrightarrow> n \<in> A \<Longrightarrow> data_synced (fs_disk s1) n" for n
      using sync_artifacts_only [OF s1 wf] by (auto simp: A_def)
    have h1: "always (holds ?d ?M) s1" "\<forall>n. file_of (fs_disk s1) n = file_of ?d n"
      using o1(1) h0 holds_sync_node wf unfolding only_syncs_def by blast+
    obtain s2 ok where s2: "syncDirectory s1 = (s2, ok)"
      by (cases "syncDirectory s1")
    have h2: "always (holds ?d ?M) s2" "\<forall>n. file_of (fs_disk s2) n = file_of ?d n"
      "ok \<Longrightarrow> r1 = None \<Longrightarrow> n \<in> A \<Longrightarrow> settled (fs_disk s2) n" for n
      using s2 h1 holds_sync_names always_now [OF h1(1)] o1(2)
      by (auto simp: syncDirectory_def sync_names_file sync_names_settled split: if_splits)
    assume run: "(case sync_artifacts c z (load c z ?d \<noteq> ABSENT) s (map snd arts) of
        (s1, Some e) \<Rightarrow> (s1, Some e)
      | (s1, None) \<Rightarrow> (let (s2, ok) = syncDirectory s1
                       in if ok then replace_manifest c (sorted_manifest m) s2 else (s2, Some DirectorySync))) = (s', r)"
    show ?thesis
    proof (cases "r1 = None \<and> ok")
      case True
      have "holds ?d (insert kManifestName (N \<union> A)) (fs_disk s2)"
        using always_now [OF h2(1)] h2(2,3) True by (auto simp: holds_def)
      then show ?thesis
        using replace_manifest_spec [of c "sorted_manifest m" s2 s' r ?d N A] run s1 s2 True
          always_mono [of "holds ?d ?M" s2 "guarded ?d N A new", OF h2(1) old] N by (simp add: new_def A_def)
    next
      case False
      then show ?thesis
        using run s1 s2 always_mono [of "holds ?d ?M" s1 "guarded ?d N A new", OF h1(1) old]
          always_mono [of "holds ?d ?M" s2 "guarded ?d N A new", OF h2(1) old]
        by (auto split: option.splits if_splits)
    qed
  qed
qed

section \<open>Loading after a crash\<close>

lemma check_ssts_None:
  "check_ssts c z d False names = None \<longleftrightarrow> (\<forall>n \<in> set names. safeSstName n \<and> file_of d n \<noteq> None)"
  by (induction names) (auto split: option.splits)

lemma check_ssts_weaker: "check_ssts c z d v names = None \<Longrightarrow> check_ssts c z d False names = None"
  by (induction names) (auto split: option.splits if_splits)

lemma those_map_Some [simp]: "those (map (\<lambda>x. Some (f x)) xs) = Some (map f xs)"
  by (induction xs) auto

lemma manifest_json_fields: "manifest_fields (manifest_json m) = Some m" "manifest_shape (manifest_json m)"
proof -
  have "ucast (ucast v :: u64) = v" for v :: u32
    by (rule ucast_up_ucast_id) (simp add: is_up)
  then show "manifest_fields (manifest_json m) = Some m" "manifest_shape (manifest_json m)"
    by (simp_all add: manifest_fields_def manifest_shape_def manifest_json_def string_list_def is_array_def
        jcontains_def comp_def)
qed

text \<open>What the library promises of the manifest's text, and its size.\<close>

definition manifest_text_ok :: "json_codec \<Rightarrow> LsmManifest \<Rightarrow> bool" where
  "manifest_text_ok c m \<longleftrightarrow>
     (let bs = jdump c (manifest_json m)
      in jparse c bs = Some (manifest_json m) \<and> bs \<noteq> [] \<and> length bs \<le> kMaxManifestBytes)"

lemma load_new:
  assumes "file_of d kManifestName = Some (jdump c (manifest_json (sorted_manifest m)))"
    and "manifest_text_ok c (sorted_manifest m)" "validateManifest c z d0 v m = Inr (sorted_manifest m)"
    and "\<forall>n \<in> set (mf_sstFiles m). file_of d n \<noteq> None"
  shows "load c z d = Loaded (sorted_manifest m)"
proof -
  have v: "mf_formatVersion m = 1" "mf_generation m \<noteq> 0" "distinct (mf_sstFiles m)"
    "check_ssts c z d0 v (sort (mf_sstFiles m)) = None"
    using assms(3) by (auto simp: validateManifest_def Let_def split: if_splits option.splits)
  have "check_ssts c z d False (sort (mf_sstFiles m)) = None"
    using check_ssts_weaker [OF v(4)] assms(4) by (simp add: check_ssts_None)
  then have "validateManifest c z d False (sorted_manifest m) = Inr (sorted_manifest m)"
    using v by (simp add: validateManifest_def sorted_sort_id)
  then show ?thesis
    using assms(1,2) by (simp add: load_def manifest_text_ok_def Let_def manifest_json_fields)
qed

lemma safe_not_special: "safeSstName n \<Longrightarrow> n \<notin> special"
  by (auto simp: safeSstName_def special_def kManifestName_def kManifestTemporary_def path_extension_def)

lemma load_files:
  assumes "load c z d = Loaded m"
  shows "\<forall>n \<in> set (mf_sstFiles m). safeSstName n \<and> file_of d n \<noteq> None"
proof -
  obtain m0 where "validateManifest c z d False m0 = Inr m"
    using assms by (auto simp: load_def split: option.splits if_splits sum.splits)
  then show ?thesis
    using check_ssts_None by (fastforce simp: validateManifest_def Let_def split: if_splits option.splits)
qed

text \<open>Loading depends on the manifest's file and on which of its tables exist.\<close>

lemma load_same:
  assumes "file_of d' kManifestName = file_of d kManifestName" "load c z d = Loaded m \<or> load c z d = ABSENT"
    and "load c z d = Loaded m \<Longrightarrow> \<forall>n \<in> set (mf_sstFiles m). file_of d' n = file_of d n"
  shows "load c z d' = load c z d"
proof (cases "load c z d = ABSENT")
  case True
  then have "file_of d kManifestName = None"
    by (auto simp: load_def split: option.splits if_splits sum.splits)
  then show ?thesis
    using assms(1) by (simp add: load_def)
next
  case False
  then have m: "load c z d = Loaded m"
    using assms(2) by simp
  obtain m0 bs j where b: "file_of d kManifestName = Some bs" "\<not> (bs = [] \<or> kMaxManifestBytes < length bs)"
      "jparse c bs = Some j" "manifest_shape j" "manifest_fields j = Some m0" "validateManifest c z d False m0 = Inr m"
    using m by (auto simp: load_def split: option.splits if_splits sum.splits)
  have "validateManifest c z d' False m0 = Inr m"
    using b(6) assms(3) [OF m] check_ssts_None [of c z d] check_ssts_None [of c z d']
    by (auto simp: validateManifest_def Let_def split: if_splits option.splits)
  then show ?thesis
    using m b assms(1) by (auto simp: load_def)
qed

definition recovered :: "disk \<Rightarrow> disk \<Rightarrow> bool" where
  "recovered d d' \<longleftrightarrow> (\<forall>n. crash_file d n (file_of d' n))"

text \<open>A crash is always possible: every name may fall back to what the directory durably binds it to.\<close>

lemma recovered_durable: "recovered d (d\<lparr>d_live := d_durable d\<rparr>)"
proof -
  have "crash_file d n (map_option (\<lambda>i. in_data (d_nodes d ! i)) (map_of (d_durable d) n))" for n
    by (cases "map_of (d_durable d) n")
      (auto simp: crash_file_def may_bind_def intro!: exI [of _ "map_of (d_durable d) n"])
  then show ?thesis
    by (simp add: recovered_def file_of_def node_of_def option.map_comp comp_def)
qed

text \<open>A store whose manifest and tables are on the disk.\<close>

definition store_ok :: "json_codec \<Rightarrow> lz4 \<Rightarrow> disk \<Rightarrow> bool" where
  "store_ok c z d \<longleftrightarrow> disk_wf d \<and> settled d kManifestName \<and> (\<forall>e. load c z d \<noteq> LoadError e)
     \<and> (\<forall>m. load c z d = Loaded m \<longrightarrow> (\<forall>n \<in> set (mf_sstFiles m). settled d n))"

text \<open>\<open>N\<close> has the tables of the loaded manifest.\<close>

abbreviation covers :: "json_codec \<Rightarrow> lz4 \<Rightarrow> disk \<Rightarrow> string set \<Rightarrow> bool" where
  "covers c z d N \<equiv> (\<forall>e. load c z d \<noteq> LoadError e) \<and> (\<forall>m. load c z d = Loaded m \<longrightarrow> set (mf_sstFiles m) \<subseteq> N)"

lemma covers_load_same:
  assumes "covers c z d N" "file_of d' kManifestName = file_of d kManifestName" "\<forall>n \<in> N. file_of d' n = file_of d n"
  shows "load c z d' = load c z d"
proof -
  obtain m0 where m0: "load c z d = Loaded m0 \<or> load c z d = ABSENT"
    using assms(1) by (cases "load c z d") auto
  show ?thesis
    by (rule load_same [OF assms(2) m0]) (use assms(1,3) in auto)
qed

text \<open>Every table of the new manifest is among the new files or was safe on the disk before.\<close>

lemma may_publish_files:
  assumes "covers c z d N" "may_publish c z d ns m" "set ns \<subseteq> A"
    and "load c z d = ABSENT \<Longrightarrow> set (mf_sstFiles m) \<subseteq> N \<union> A"
  shows "\<forall>n \<in> set (mf_sstFiles m). n \<in> N \<union> A \<and> file_of d n \<noteq> None"
proof
  fix n
  assume n: "n \<in> set (mf_sstFiles m)"
  have "check_ssts c z d (load c z d = ABSENT) (sort (mf_sstFiles m)) = None"
    using assms(2) by (auto simp: may_publish_def validateManifest_def Let_def split: if_splits option.splits)
  then have "file_of d n \<noteq> None"
    using check_ssts_weaker check_ssts_None n by (metis set_sort)
  moreover have "n \<in> N \<union> A"
    using assms n unfolding may_publish_def by blast
  ultimately show "n \<in> N \<union> A \<and> file_of d n \<noteq> None"
    by simp
qed

theorem publish_crash:
  assumes r: "publish c z dir m arts s = (s', r)" and past: "always (holds (fs_disk s) (insert kManifestName N)) s"
    and cov: "covers c z (fs_disk s) N" and N: "N \<inter> special = {}" and A: "snd ` set arts \<inter> special = {}"
    and enc: "manifest_text_ok c (sorted_manifest m)"
    and absent: "load c z (fs_disk s) = ABSENT \<Longrightarrow> set (mf_sstFiles m) \<subseteq> N \<union> snd ` set arts"
    and d: "d \<in> set (fs_disk s' # fs_past s')" "recovered d d'"
  shows "load c z d' = load c z (fs_disk s)
    \<or> load c z d' = Loaded (sorted_manifest m) \<and> (\<forall>n \<in> set (mf_sstFiles m). file_of d' n = file_of (fs_disk s) n)"
    and "n \<in> N \<Longrightarrow> file_of d' n = file_of (fs_disk s) n"
    and "r = None \<Longrightarrow> d = fs_disk s' \<Longrightarrow> load c z d' = Loaded (sorted_manifest m)"
proof -
  let ?d = "fs_disk s" and ?A = "snd ` set arts" and ?new = "jdump c (manifest_json (sorted_manifest m))"
  note spec = publish_spec [OF r past N A]
  have g: "guarded ?d N ?A ?new d"
    using spec d(1) by (auto simp: always_def)
  have keep: "file_of d' n = file_of ?d n" if "holds ?d M d" "n \<in> M" for n M
    using that d(2) settled_crash by (metis holds_def recovered_def)
  have N_keep: "file_of d' n = file_of ?d n" if "n \<in> N" for n
    using keep [of N n] g that by (simp add: guarded_def)
  show "file_of d' n = file_of ?d n" if "n \<in> N" for n
    by (rule N_keep [OF that])
  have old: "load c z d' = load c z ?d" if "file_of d' kManifestName = file_of ?d kManifestName"
    using covers_load_same [OF cov that] N_keep by simp
  have new: "load c z d' = Loaded (sorted_manifest m) \<and> (\<forall>n \<in> set (mf_sstFiles m). file_of d' n = file_of ?d n)"
    if f: "file_of d' kManifestName = Some ?new" "holds ?d ?A d"
      and may: "may_publish c z ?d (filter (\<lambda>n. path_extension n = ''.sst'') (map snd arts)) m"
  proof -
    have "\<forall>n \<in> set (mf_sstFiles m). n \<in> N \<union> ?A \<and> file_of ?d n \<noteq> None"
      by (rule may_publish_files [OF cov may _ absent]) auto
    then have files: "\<forall>n \<in> set (mf_sstFiles m). file_of d' n = file_of ?d n \<and> file_of ?d n \<noteq> None"
      using keep [OF f(2)] N_keep by blast
    then show ?thesis
      using load_new [OF f(1) enc, of z ?d "load c z ?d = ABSENT"] may by (simp add: may_publish_def)
  qed
  show "load c z d' = load c z ?d
    \<or> load c z d' = Loaded (sorted_manifest m) \<and> (\<forall>n \<in> set (mf_sstFiles m). file_of d' n = file_of ?d n)"
  proof (rule publish_cases [OF r])
    assume "s' = s"
    then have "holds ?d (insert kManifestName N) d"
      using past d(1) by (auto simp: always_def)
    then show ?thesis
      using old keep by blast
  next
    assume "may_publish c z ?d (filter (\<lambda>n. path_extension n = ''.sst'') (map snd arts)) m"
    then show ?thesis
      using g d(2) old new unfolding guarded_def recovered_def by metis
  qed
  show "load c z d' = Loaded (sorted_manifest m)" if "r = None" "d = fs_disk s'"
  proof (rule publish_cases [OF r])
    assume may: "may_publish c z ?d (filter (\<lambda>n. path_extension n = ''.sst'') (map snd arts)) m"
    have "holds ?d (N \<union> ?A) d" "settled d kManifestName" "file_of d kManifestName = Some ?new"
      using spec that by simp_all
    then show ?thesis
      using new [OF _ _ may] holds_subset d(2) settled_crash by (metis recovered_def sup_ge2)
  qed (use that in simp)
qed

text \<open>A publication that fails before the rename leaves the old manifest.\<close>

lemma replace_manifest_failed:
  assumes "replace_manifest c m s = (s', Some e)" "e \<noteq> ManifestSync" "always (holds d0 N) s" "kManifestTemporary \<notin> N"
  shows "always (holds d0 N) s'"
proof -
  obtain s1 ok1 where s1: "writeFile s kManifestTemporary (jdump c (manifest_json m)) = (s1, ok1)"
    by (cases "writeFile s kManifestTemporary (jdump c (manifest_json m))")
  have h1: "always (holds d0 N) s1"
    using s1 assms(3,4) by (auto simp: writeFile_def holds_put always_now split: option.splits)
  obtain s2 ok2 where s2: "syncFile s1 kManifestTemporary = (s2, ok2)"
    by (cases "syncFile s1 kManifestTemporary")
  have h2: "always (holds d0 N) s2"
    using s2 h1 by (auto simp: syncFile_def holds_sync_node always_now split: if_splits)
  obtain s3 ok3 where s3: "renameFile s2 kManifestTemporary kManifestName = (s3, ok3)"
    by (cases "renameFile s2 kManifestTemporary kManifestName")
  have h3: "\<not> ok3 \<Longrightarrow> always (holds d0 N) s3"
    using s3 h2 by (auto simp: renameFile_def always_now split: if_splits)
  obtain s4 ok4 where s4: "syncDirectory s3 = (s4, ok4)"
    by (cases "syncDirectory s3")
  have "replace_manifest c m s = (if \<not> ok1 then (s1, Some TemporaryWrite) else if \<not> ok2 then (s2, Some TemporarySync)
      else if \<not> ok3 then (s3, Some ManifestRename) else (s4, if ok4 then None else Some ManifestSync))"
    by (simp add: replace_manifest_def s1 s2 s3 s4)
  then show ?thesis
    using assms(1,2) h1 h2 h3 by (auto split: if_splits)
qed

theorem publish_failed:
  assumes r: "publish c z dir m arts s = (s', Some e)" "e \<noteq> ManifestSync"
    and h: "always (holds d0 N) s" and N: "kManifestTemporary \<notin> N"
  shows "always (holds d0 N) s'"
proof (rule publish_cases [OF r(1)])
  obtain s1 r1 where s1: "sync_artifacts c z (load c z (fs_disk s) \<noteq> ABSENT) s (map snd arts) = (s1, r1)"
    by (cases "sync_artifacts c z (load c z (fs_disk s) \<noteq> ABSENT) s (map snd arts)")
  have "disk_wf (fs_disk s)"
    using always_now [OF h] by (simp add: holds_def)
  then have h1: "always (holds d0 N) s1"
    using sync_artifacts_only [OF s1] h holds_sync_node unfolding only_syncs_def by blast
  obtain s2 ok where s2: "syncDirectory s1 = (s2, ok)"
    by (cases "syncDirectory s1")
  have h2: "always (holds d0 N) s2"
    using s2 h1 by (auto simp: syncDirectory_def holds_sync_names always_now split: if_splits)
  assume "(case sync_artifacts c z (load c z (fs_disk s) \<noteq> ABSENT) s (map snd arts) of
        (s1, Some e) \<Rightarrow> (s1, Some e)
      | (s1, None) \<Rightarrow> (let (s2, ok) = syncDirectory s1
                       in if ok then replace_manifest c (sorted_manifest m) s2 else (s2, Some DirectorySync))) = (s', Some e)"
  then show ?thesis
    using s1 s2 h1 h2 replace_manifest_failed [OF _ r(2) h2 N] by (auto split: option.splits if_splits)
qed (use h in simp)

text \<open>After a successful publication the new manifest is loaded and the store is safe again.\<close>

theorem publish_done:
  assumes r: "publish c z dir m arts s = (s', None)" and past: "always (holds (fs_disk s) (insert kManifestName N)) s"
    and cov: "covers c z (fs_disk s) N" and N: "N \<inter> special = {}" and A: "snd ` set arts \<inter> special = {}"
    and enc: "manifest_text_ok c (sorted_manifest m)"
    and absent: "load c z (fs_disk s) = ABSENT \<Longrightarrow> set (mf_sstFiles m) \<subseteq> N \<union> snd ` set arts"
  shows "store_ok c z (fs_disk s')" "load c z (fs_disk s') = Loaded (sorted_manifest m)"
    "may_publish c z (fs_disk s) (filter (\<lambda>n. path_extension n = ''.sst'') (map snd arts)) m"
    "n \<in> N \<union> snd ` set arts \<Longrightarrow> settled (fs_disk s') n \<and> file_of (fs_disk s') n = file_of (fs_disk s) n"
proof -
  let ?d = "fs_disk s" and ?A = "snd ` set arts"
  have h: "holds ?d (N \<union> ?A) (fs_disk s')" "settled (fs_disk s') kManifestName"
    "file_of (fs_disk s') kManifestName = Some (jdump c (manifest_json (sorted_manifest m)))"
    using publish_spec [OF r past N A] by simp_all
  show may: "may_publish c z ?d (filter (\<lambda>n. path_extension n = ''.sst'') (map snd arts)) m"
    by (rule publish_cases [OF r]) simp_all
  show keep: "settled (fs_disk s') n \<and> file_of (fs_disk s') n = file_of ?d n" if "n \<in> N \<union> ?A" for n
    using h(1) that by (auto simp: holds_def)
  have files: "\<forall>n \<in> set (mf_sstFiles m). n \<in> N \<union> ?A \<and> file_of ?d n \<noteq> None"
    by (rule may_publish_files [OF cov may _ absent]) auto
  show l: "load c z (fs_disk s') = Loaded (sorted_manifest m)"
  proof (rule load_new [OF h(3) enc])
    show "validateManifest c z ?d (load c z ?d = ABSENT) m = Inr (sorted_manifest m)"
      using may by (simp add: may_publish_def)
    show "\<forall>n \<in> set (mf_sstFiles m). file_of (fs_disk s') n \<noteq> None"
      using files keep by metis
  qed
  show "store_ok c z (fs_disk s')"
    using h(1,2) l files keep by (auto simp: store_ok_def holds_def)
qed

text \<open>The size limit binds the reader only: a longer manifest is published and then refused.\<close>

lemma load_oversized:
  assumes "file_of d kManifestName = Some bs" "kMaxManifestBytes < length bs"
  shows "load c z d = LoadError BadSize"
  using assms by (simp add: load_def)

end
