(* ===== verification/Sst_Merge.thy ===== *)
theory Sst_Merge
  imports Sst_Cursor "HOL-Library.Option_ord" "HOL-Library.Product_Lexorder"
begin

text \<open>
  The merge over several table files (\<open>visitLatestSstRows\<close> of \<open>storage_format_v2.cpp\<close>): a priority queue
  of cursors ordered by identity, the choice of the newest row of each identity, and the visit in ascending
  order of identities.  The cancellation hook \<open>check\<close>, which may only abort the merge by an exception, is
  left out.
\<close>

section \<open>Versions of a row\<close>

text \<open>\<open>std::stoll\<close>: \<open>None\<close> is \<open>invalid_argument\<close> or \<open>out_of_range\<close>.\<close>

definition stoll :: "string \<Rightarrow> int option" where
  "stoll s =
     (let s1 = dropWhile is_space s;
          neg = (case s1 of ch # _ \<Rightarrow> ch = CHR ''-'' | [] \<Rightarrow> False);
          s2 = (case s1 of ch # r \<Rightarrow> if ch = CHR ''-'' \<or> ch = CHR ''+'' then r else s1 | [] \<Rightarrow> []);
          ds = takeWhile is_digit s2; n = (if neg then - int (dec_val ds) else int (dec_val ds))
      in if ds = [] \<or> n < - (2 ^ 63) \<or> 2 ^ 63 \<le> n then None else Some n)"

definition field_version :: "json option \<Rightarrow> int option" where
  "field_version v =
     (case v of
        None \<Rightarrow> None
      | Some j \<Rightarrow>
          if is_number_integer j \<or> is_number_unsigned j then get_ll j
          else (case j of JStr s \<Rightarrow> stoll s | _ \<Rightarrow> None))"

definition version_fields :: "string list" where
  "version_fields = [''_mvcc_version'', ''version'', ''deleted_txn'', ''created_txn'', ''_timestamp'']"

definition rowVersion :: "(string \<Rightarrow> json option) \<Rightarrow> int option" where
  "rowVersion fld = map_option the (find (\<lambda>v. v \<noteq> None) (map (\<lambda>n. field_version (fld n)) version_fields))"

definition view_version :: "json_codec \<Rightarrow> bool \<Rightarrow> bytes \<Rightarrow> int option" where
  "view_version c ix row = rowVersion (row_field (from_msgpack c) (row_view row ix))"

section \<open>The priority queue of cursors\<close>

text \<open>
  The smallest identity first, and among equal identities the largest file number.  No two items of the
  queue are equal, so its top is determined; the queue is kept as the list of its items in that order.
\<close>

type_synonym item = "string \<times> nat"

definition before :: "item \<Rightarrow> item \<Rightarrow> bool" where
  "before a b \<longleftrightarrow> fst a < fst b \<or> (fst a = fst b \<and> snd b < snd a)"

fun pq_push :: "item \<Rightarrow> item list \<Rightarrow> item list" where
  "pq_push x [] = [x]"
| "pq_push x (y # ys) = (if before x y then x # y # ys else y # pq_push x ys)"

fun pop_matching :: "string \<Rightarrow> item list \<Rightarrow> nat list \<times> item list" where
  "pop_matching i [] = ([], [])"
| "pop_matching i ((j, file) # h) =
     (if j = i then (let (ms, h') = pop_matching i h in (file # ms, h')) else ([], (j, file) # h))"

section \<open>The newest row of an identity\<close>

record newest =
  nw_found :: bool
  nw_bytes :: bytes
  nw_version :: "int option"
  nw_file :: nat

definition nothing :: newest where
  "nothing = \<lparr>nw_found = False, nw_bytes = [], nw_version = None, nw_file = 0\<rparr>"

definition replaces :: "newest \<Rightarrow> int option \<Rightarrow> nat \<Rightarrow> bool" where
  "replaces best version file \<longleftrightarrow>
     \<not> nw_found best
     \<or> (case (version, nw_version best) of (Some a, Some b) \<Rightarrow> b < a | _ \<Rightarrow> False)
     \<or> ((version \<noteq> None) \<noteq> (nw_version best \<noteq> None) \<and> version \<noteq> None)
     \<or> (version = nw_version best \<and> nw_file best \<le> file)"

definition consider_row :: "(bytes \<Rightarrow> int option) \<Rightarrow> (bytes \<Rightarrow> bool) \<Rightarrow> nat \<Rightarrow> bytes \<Rightarrow> newest \<Rightarrow> newest" where
  "consider_row ver eligible file row best =
     (let version = ver row
      in if replaces best version file \<and> eligible row
         then \<lparr>nw_found = True, nw_bytes = row, nw_version = version, nw_file = file\<rparr> else best)"

text \<open>The run of rows with one identity in one file.\<close>

function consume_run :: "json_codec \<Rightarrow> lz4 \<Rightarrow> (bytes \<Rightarrow> int option) \<Rightarrow> (bytes \<Rightarrow> bool) \<Rightarrow> string \<Rightarrow> nat
    \<Rightarrow> sst_cursor \<Rightarrow> newest \<Rightarrow> sst_error + sst_cursor \<times> newest" where
  "consume_run c z ver eligible i file cu best =
     (if cu_valid cu \<and> cu_currentId cu = i then
        (case advance c z cu of
           Inl e \<Rightarrow> Inl e
         | Inr cu' \<Rightarrow> consume_run c z ver eligible i file cu' (consider_row ver eligible file (cu_current cu) best))
      else Inr (cu, best))"
  by pat_completeness auto
termination
  by (relation "measure (\<lambda>(c, z, ver, el, i, file, cu, best). cu_left cu)") (auto intro: advance_left)

declare consume_run.simps [simp del]

fun consume_files :: "json_codec \<Rightarrow> lz4 \<Rightarrow> (bytes \<Rightarrow> int option) \<Rightarrow> (bytes \<Rightarrow> bool) \<Rightarrow> string \<Rightarrow> nat list
    \<Rightarrow> sst_cursor list \<Rightarrow> item list \<Rightarrow> newest \<Rightarrow> sst_error + sst_cursor list \<times> item list \<times> newest" where
  "consume_files c z ver eligible i [] cus h best = Inr (cus, h, best)"
| "consume_files c z ver eligible i (file # files) cus h best =
     (case consume_run c z ver eligible i file (cus ! file) best of
        Inl e \<Rightarrow> Inl e
      | Inr (cu, best') \<Rightarrow>
          consume_files c z ver eligible i files (cus[file := cu])
            (if cu_valid cu then pq_push (cu_currentId cu, file) h else h) best')"

definition is_deleted :: "json_codec \<Rightarrow> bool \<Rightarrow> bytes \<Rightarrow> bool" where
  "is_deleted c ix row = (row_field (from_msgpack c) (row_view row ix) ''_deleted'' = Some (JBool True))"

text \<open>The main loop; \<open>None\<close> would be a merge that never ends, which \<open>merge_returns\<close> excludes.\<close>

partial_function (option) merge_loop :: "json_codec \<Rightarrow> lz4 \<Rightarrow> bool \<Rightarrow> bool \<Rightarrow> (bytes \<Rightarrow> bool) \<Rightarrow> ('s \<Rightarrow> bytes \<Rightarrow> 's \<times> visit)
    \<Rightarrow> sst_cursor list \<Rightarrow> item list \<Rightarrow> 's \<Rightarrow> ('s \<times> outcome) option" where
  "merge_loop c z ix includeDeleted eligible v cus h s =
     (if h = [] then Some (s, Finished)
      else
        let i = fst (hd h); (matching, h1) = pop_matching i h
        in case consume_files c z (view_version c ix) eligible i matching cus h1 nothing of
             Inl e \<Rightarrow> Some (s, Failed e)
           | Inr (cus', h2, best) \<Rightarrow>
               if nw_found best \<and> (includeDeleted \<or> \<not> is_deleted c ix (nw_bytes best)) then
                 let (s', go) = v s (nw_bytes best)
                 in if go = Go then merge_loop c z ix includeDeleted eligible v cus' h2 s'
                    else Some (s', if go = Stop then Stopped else Failed BadRow)
               else merge_loop c z ix includeDeleted eligible v cus' h2 s)"

declare merge_loop.simps [code]

fun open_all :: "json_codec \<Rightarrow> lz4 \<Rightarrow> bool \<Rightarrow> bytes list \<Rightarrow> sst_cursor list \<Rightarrow> item list \<Rightarrow> sst_error + sst_cursor list \<times> item list" where
  "open_all c z ix [] cus h = Inr (cus, h)"
| "open_all c z ix (f # fs) cus h =
     (case cursor_open c z f ix of
        Inl e \<Rightarrow> Inl e
      | Inr cu \<Rightarrow> open_all c z ix fs (cus @ [cu])
                    (if cu_valid cu then pq_push (cu_currentId cu, length cus) h else h))"

definition visitLatestSstRows :: "json_codec \<Rightarrow> lz4 \<Rightarrow> bytes list \<Rightarrow> bool \<Rightarrow> bool \<Rightarrow> (bytes \<Rightarrow> bool)
    \<Rightarrow> ('s \<Rightarrow> bytes \<Rightarrow> 's \<times> visit) \<Rightarrow> 's \<Rightarrow> ('s \<times> outcome) option" where
  "visitLatestSstRows c z oldestToNewest ix includeDeleted eligible v s =
     (case open_all c z ix oldestToNewest [] [] of
        Inl e \<Rightarrow> Some (s, Failed e)
      | Inr (cus, h) \<Rightarrow> merge_loop c z ix includeDeleted eligible v cus h s)"

section \<open>The merge ends on every input\<close>

definition heap_ok :: "sst_cursor list \<Rightarrow> item list \<Rightarrow> bool" where
  "heap_ok cus h \<longleftrightarrow>
     (\<forall>(i, file) \<in> set h. file < length cus \<and> cu_valid (cus ! file) \<and> cu_currentId (cus ! file) = i)
     \<and> distinct (map snd h)"

definition total_left :: "sst_cursor list \<Rightarrow> nat" where
  "total_left cus = sum_list (map cu_left cus)"

lemma set_pq_push [simp]: "set (pq_push x h) = insert x (set h)"
  by (induction h) auto

lemma distinct_pq_push: "distinct (map snd (pq_push x h)) \<longleftrightarrow> snd x \<notin> snd ` set h \<and> distinct (map snd h)"
  by (induction h) auto

lemma pop_matching_split:
  "pop_matching i h = (ms, h') \<Longrightarrow> h = map (Pair i) ms @ h' \<and> (h' = [] \<or> fst (hd h') \<noteq> i)"
  by (induction i h arbitrary: ms rule: pop_matching.induct) (auto split: if_splits prod.splits)

lemma consume_run_left:
  "consume_run c z ver el i fl cu best = Inr (cu', best') \<Longrightarrow>
     cu_left cu' \<le> cu_left cu \<and> (cu_valid cu \<and> cu_currentId cu = i \<longrightarrow> cu_left cu' < cu_left cu)"
proof (induction c z ver el i fl cu best rule: consume_run.induct)
  case (1 c z ver el i fl cu best)
  show ?case
  proof (cases "cu_valid cu \<and> cu_currentId cu = i")
    case True
    obtain cu1 where cu1: "advance c z cu = Inr cu1"
      "consume_run c z ver el i fl cu1 (consider_row ver el fl (cu_current cu) best) = Inr (cu', best')"
      using "1.prems" True by (auto simp: consume_run.simps [of c z ver el i fl cu best] split: sum.splits)
    then show ?thesis
      using "1.IH" [OF True cu1(1) cu1(2)] advance_left [OF cu1(1)] True by auto
  next
    case False
    then show ?thesis
      using "1.prems" by (auto simp: consume_run.simps [of c z ver el i fl cu best])
  qed
qed

lemma total_left_update:
  assumes "file < length cus"
  shows "total_left (cus[file := cu]) + cu_left (cus ! file) = total_left cus + cu_left cu"
proof -
  have "sum_list (map cu_left (cus[file := cu])) + cu_left (cus ! file) = sum_list (map cu_left cus) + cu_left cu"
    using assms elem_le_sum_list [of "file" "map cu_left cus"] by (simp add: map_update sum_list_update)
  then show ?thesis
    by (simp add: total_left_def)
qed

lemma consume_files_ok:
  assumes "consume_files c z ver el i files cus h best = Inr (cus', h', best')"
    "heap_ok cus h" "distinct files" "set files \<inter> snd ` set h = {}"
    "\<forall>f \<in> set files. f < length cus \<and> cu_valid (cus ! f) \<and> cu_currentId (cus ! f) = i"
  shows "heap_ok cus' h' \<and> length cus' = length cus \<and> total_left cus' + length files \<le> total_left cus"
  using assms
proof (induction files arbitrary: cus h best)
  case (Cons f files)
  obtain cu b where run: "consume_run c z ver el i f (cus ! f) best = Inr (cu, b)"
    and rest: "consume_files c z ver el i files (cus[f := cu])
      (if cu_valid cu then pq_push (cu_currentId cu, f) h else h) b = Inr (cus', h', best')"
    using Cons.prems(1) by (auto split: sum.splits)
  let ?h = "if cu_valid cu then pq_push (cu_currentId cu, f) h else h"
  have f: "f < length cus" "f \<notin> set files" "f \<notin> snd ` set h"
    using Cons.prems(3-5) by auto
  have less: "cu_left cu < cu_left (cus ! f)"
    using consume_run_left [OF run] Cons.prems(5) by simp
  have "heap_ok (cus[f := cu]) ?h"
    using Cons.prems(2) f by (force simp: heap_ok_def distinct_pq_push nth_list_update)
  moreover have "set files \<inter> snd ` set ?h = {}"
    using Cons.prems(4) f by auto
  moreover have "\<forall>g \<in> set files. g < length (cus[f := cu]) \<and> cu_valid (cus[f := cu] ! g)
      \<and> cu_currentId (cus[f := cu] ! g) = i"
    using Cons.prems(5) f(2) by (metis length_list_update list.set_intros(2) nth_list_update_neq)
  moreover have "distinct files"
    using Cons.prems(3) by simp
  ultimately have "heap_ok cus' h' \<and> length cus' = length (cus[f := cu])
      \<and> total_left cus' + length files \<le> total_left (cus[f := cu])"
    using Cons.IH [OF rest] by blast
  then show ?case
    using total_left_update [OF f(1), of cu] less by simp
qed simp

lemma heap_ok_pop:
  assumes "heap_ok cus h" "h \<noteq> []" "pop_matching (fst (hd h)) h = (ms, h1)"
  shows "ms \<noteq> []" "heap_ok cus h1" "distinct ms" "set ms \<inter> snd ` set h1 = {}"
    "\<forall>f \<in> set ms. f < length cus \<and> cu_valid (cus ! f) \<and> cu_currentId (cus ! f) = fst (hd h)"
proof -
  define i where "i = fst (hd h)"
  have h: "h = map (Pair i) ms @ h1" "h1 = [] \<or> fst (hd h1) \<noteq> i"
    using pop_matching_split [OF assms(3)] by (auto simp: i_def)
  show "ms \<noteq> []"
    using h assms(2) i_def by (cases ms) auto
  have ok: "heap_ok cus (map (Pair i) ms @ h1)"
    using assms(1) h(1) by simp
  then show "distinct ms" "set ms \<inter> snd ` set h1 = {}"
    by (auto simp: heap_ok_def comp_def)
  show "heap_ok cus h1"
    using ok by (simp add: heap_ok_def)
  show "\<forall>f \<in> set ms. f < length cus \<and> cu_valid (cus ! f) \<and> cu_currentId (cus ! f) = fst (hd h)"
    unfolding i_def [symmetric] using ok by (auto simp: heap_ok_def)
qed

theorem merge_returns: "heap_ok cus h \<Longrightarrow> \<exists>r. merge_loop c z ix inc el v cus h s = Some r"
proof (induction "total_left cus" arbitrary: cus h s rule: less_induct)
  case less
  show ?case
  proof (cases "h = []")
    case False
    obtain ms h1 where pm: "pop_matching (fst (hd h)) h = (ms, h1)"
      by (cases "pop_matching (fst (hd h)) h")
    note pop = heap_ok_pop [OF less.prems False pm]
    show ?thesis
    proof (cases "consume_files c z (view_version c ix) el (fst (hd h)) ms cus h1 nothing")
      case (Inl e)
      then show ?thesis
        using False pm by (subst merge_loop.simps) simp
    next
      case (Inr r)
      obtain cus' h2 best where r: "r = (cus', h2, best)" by (cases r)
      have "heap_ok cus' h2" "total_left cus' < total_left cus"
        using consume_files_ok [OF Inr [unfolded r] pop(2-5)] pop(1) by (cases ms; simp)+
      then have "\<exists>x. merge_loop c z ix inc el v cus' h2 s' = Some x" for s'
        using less.hyps by blast
      then show ?thesis
        using False pm Inr r by (subst merge_loop.simps) (auto split: prod.splits)
    qed
  qed (simp add: merge_loop.simps)
qed

lemma open_all_ok:
  "open_all c z ix fs cus h = Inr (cus', h') \<Longrightarrow> heap_ok cus h \<Longrightarrow> heap_ok cus' h'"
proof (induction fs arbitrary: cus h)
  case (Cons f fs)
  obtain cu where cu: "open_all c z ix fs (cus @ [cu])
      (if cu_valid cu then pq_push (cu_currentId cu, length cus) h else h) = Inr (cus', h')"
    using Cons.prems(1) by (auto split: sum.splits)
  have "heap_ok (cus @ [cu]) (if cu_valid cu then pq_push (cu_currentId cu, length cus) h else h)"
    using Cons.prems(2) by (fastforce simp: heap_ok_def distinct_pq_push nth_append)
  then show ?case
    using Cons.IH [OF cu] by blast
qed simp

theorem visitLatestSstRows_returns: "\<exists>r. visitLatestSstRows c z fs ix inc el v s = Some r"
proof (cases "open_all c z ix fs [] []")
  case (Inl e)
  then show ?thesis by (simp add: visitLatestSstRows_def)
next
  case (Inr p)
  obtain cus h where p: "p = (cus, h)" by (cases p)
  have "heap_ok cus h"
    using open_all_ok [of c z ix fs "[]" "[]" cus h] Inr p by (simp add: heap_ok_def)
  then show ?thesis
    using merge_returns Inr p by (simp add: visitLatestSstRows_def)
qed


section \<open>What the merge delivers\<close>

text \<open>
  The runs of the files, newest last.  The candidates for an identity are taken from the newest file to the
  oldest and in the order of each file.
\<close>

type_synonym run = "(string \<times> bytes) list"

definition ids_of :: "run list \<Rightarrow> string list" where
  "ids_of R = sorted_list_of_set (fst ` (\<Union> (set ` set R)))"

definition candidates :: "string \<Rightarrow> run list \<Rightarrow> (nat \<times> bytes) list" where
  "candidates i R =
     concat (map (\<lambda>k. map (\<lambda>x. (k, snd x)) (filter (\<lambda>x. fst x = i) (R ! k))) (rev [0..<length R]))"

definition newest_of :: "(bytes \<Rightarrow> int option) \<Rightarrow> (bytes \<Rightarrow> bool) \<Rightarrow> string \<Rightarrow> run list \<Rightarrow> newest" where
  "newest_of ver el i R = foldl (\<lambda>b x. consider_row ver el (fst x) (snd x) b) nothing (candidates i R)"

definition latest :: "(bytes \<Rightarrow> int option) \<Rightarrow> (bytes \<Rightarrow> bool) \<Rightarrow> (bytes \<Rightarrow> bool) \<Rightarrow> run list \<Rightarrow> bytes list" where
  "latest ver el keep R =
     concat (map (\<lambda>i. let b = newest_of ver el i R
                      in if nw_found b \<and> keep (nw_bytes b) then [nw_bytes b] else []) (ids_of R))"

text \<open>The rank of a candidate: first its version, a missing one lowest, then its file.\<close>

definition rank :: "(bytes \<Rightarrow> int option) \<Rightarrow> nat \<times> bytes \<Rightarrow> int option \<times> nat" where
  "rank ver x = (ver (snd x), fst x)"

lemma replaces_rank:
  "replaces best version file \<longleftrightarrow> \<not> nw_found best \<or> (nw_version best, nw_file best) \<le> (version, file)"
  by (cases version; cases "nw_version best") (auto simp: replaces_def less_eq_prod_def)

text \<open>
  The choice: of all eligible candidates one of the highest rank, and of those the last.
\<close>

definition chosen :: "(bytes \<Rightarrow> int option) \<Rightarrow> (bytes \<Rightarrow> bool) \<Rightarrow> (nat \<times> bytes) list \<Rightarrow> newest \<Rightarrow> bool" where
  "chosen ver el xs b \<longleftrightarrow>
     (if \<exists>x \<in> set xs. el (snd x) then
        \<exists>p < length xs. nw_found b \<and> xs ! p = (nw_file b, nw_bytes b) \<and> el (nw_bytes b)
          \<and> nw_version b = ver (nw_bytes b)
          \<and> (\<forall>q < length xs. el (snd (xs ! q)) \<longrightarrow> rank ver (xs ! q) < rank ver (xs ! p)
               \<or> (rank ver (xs ! q) = rank ver (xs ! p) \<and> q \<le> p))
      else b = nothing)"

lemma chosen_snoc:
  assumes "chosen ver el xs b"
  shows "chosen ver el (xs @ [x]) (consider_row ver el (fst x) (snd x) b)"
proof (cases "el (snd x)")
  case False
  then have "consider_row ver el (fst x) (snd x) b = b"
    by (simp add: consider_row_def)
  moreover have "chosen ver el (xs @ [x]) b"
  proof (cases "\<exists>y \<in> set xs. el (snd y)")
    case True
    then obtain p where "p < length xs" "nw_found b" "xs ! p = (nw_file b, nw_bytes b)" "el (nw_bytes b)"
      "nw_version b = ver (nw_bytes b)"
      "\<forall>q < length xs. el (snd (xs ! q)) \<longrightarrow> rank ver (xs ! q) < rank ver (xs ! p)
               \<or> (rank ver (xs ! q) = rank ver (xs ! p) \<and> q \<le> p)"
      using assms by (auto simp: chosen_def)
    then show ?thesis
      using False True by (auto simp: chosen_def nth_append less_Suc_eq intro!: exI [of _ p])
  qed (use False assms in \<open>auto simp: chosen_def\<close>)
  ultimately show ?thesis by simp
next
  case el: True
  let ?n = "\<lparr>nw_found = True, nw_bytes = snd x, nw_version = ver (snd x), nw_file = fst x\<rparr>"
  show ?thesis
  proof (cases "\<exists>y \<in> set xs. el (snd y)")
    case False
    then have "b = nothing"
      using assms by (simp add: chosen_def)
    then have "consider_row ver el (fst x) (snd x) b = ?n"
      using el by (simp add: consider_row_def replaces_def nothing_def)
    then show ?thesis
      using el False
      by (auto simp: chosen_def nth_append less_Suc_eq intro!: exI [of _ "length xs"])
  next
    case True
    then obtain p where p: "p < length xs" "nw_found b" "xs ! p = (nw_file b, nw_bytes b)" "el (nw_bytes b)"
      "nw_version b = ver (nw_bytes b)"
      and top: "\<forall>q < length xs. el (snd (xs ! q)) \<longrightarrow> rank ver (xs ! q) < rank ver (xs ! p)
               \<or> (rank ver (xs ! q) = rank ver (xs ! p) \<and> q \<le> p)"
      using assms by (auto simp: chosen_def)
    have rk: "rank ver (xs ! p) = (nw_version b, nw_file b)" "rank ver x = (ver (snd x), fst x)"
      using p by (simp_all add: rank_def)
    show ?thesis
    proof (cases "rank ver (xs ! p) \<le> rank ver x")
      case le: True
      then have "consider_row ver el (fst x) (snd x) b = ?n"
        using el rk by (simp add: consider_row_def replaces_rank)
      moreover have "\<forall>q < length xs. el (snd (xs ! q)) \<longrightarrow> rank ver (xs ! q) < rank ver x \<or> rank ver (xs ! q) = rank ver x"
      proof (intro allI impI)
        fix q
        assume "q < length xs" "el (snd (xs ! q))"
        then have "rank ver (xs ! q) \<le> rank ver (xs ! p)"
          using top by (auto intro: less_imp_le)
        from order_trans [OF this le] show "rank ver (xs ! q) < rank ver x \<or> rank ver (xs ! q) = rank ver x"
          unfolding order_le_less .
      qed
      ultimately show ?thesis
        using el le True
        by (auto simp: chosen_def nth_append less_Suc_eq intro!: exI [of _ "length xs"])
    next
      case False
      then have "consider_row ver el (fst x) (snd x) b = b"
        using p(2) rk by (auto simp: consider_row_def replaces_rank Let_def)
      then show ?thesis
        using False p top el
        by (auto simp: chosen_def nth_append less_Suc_eq intro!: exI [of _ p])
    qed
  qed
qed

theorem newest_chosen: "chosen ver el (candidates i R) (newest_of ver el i R)"
proof -
  have "chosen ver el xs (foldl (\<lambda>b x. consider_row ver el (fst x) (snd x) b) nothing xs)" for xs
  proof (induction xs rule: rev_induct)
    case Nil
    then show ?case by (simp add: chosen_def)
  next
    case (snoc x xs)
    then show ?case by (simp add: chosen_snoc)
  qed
  then show ?thesis
    by (simp add: newest_of_def)
qed


section \<open>The merge delivers the latest rows\<close>

lemma yields_head:
  "yields c z cu rs \<Longrightarrow> (cu_valid cu \<longleftrightarrow> rs \<noteq> []) \<and> (rs \<noteq> [] \<longrightarrow> cu_currentId cu = fst (hd rs))"
  by (erule yields.cases) auto

lemma consume_run_yields:
  "yields c z cu rs \<Longrightarrow> \<exists>cu'. consume_run c z ver el i fl cu best
       = Inr (cu', foldl (\<lambda>b x. consider_row ver el fl (snd x) b) best (takeWhile (\<lambda>x. fst x = i) rs))
     \<and> yields c z cu' (dropWhile (\<lambda>x. fst x = i) rs)"
proof (induction arbitrary: best rule: yields.induct)
  case (yields_Nil cu)
  then show ?case
    by (auto simp: consume_run.simps [of c z ver el i fl cu] intro: yields.yields_Nil)
next
  case (yields_Cons cu cu' rs)
  show ?case
  proof (cases "cu_currentId cu = i")
    case True
    then show ?thesis
      using yields_Cons by (simp add: consume_run.simps [of c z ver el i fl cu])
  next
    case False
    then show ?thesis
      using yields_Cons by (auto simp: consume_run.simps [of c z ver el i fl cu] intro: yields.yields_Cons)
  qed
qed

definition sorted_pq :: "item list \<Rightarrow> bool" where
  "sorted_pq h \<longleftrightarrow> sorted_wrt before h"

lemma sorted_pq_push: "sorted_pq h \<Longrightarrow> x \<notin> set h \<Longrightarrow> sorted_pq (pq_push x h)"
proof (induction h)
  case (Cons y h)
  have tr: "before a b \<Longrightarrow> before b d \<Longrightarrow> before a d" for a b d
    by (auto simp: before_def)
  have tot: "\<not> before x y \<Longrightarrow> x \<noteq> y \<Longrightarrow> before y x"
    by (cases x; cases y) (auto simp: before_def)
  show ?case
    using Cons tr [of x y] tot by (auto simp: sorted_pq_def)
qed (simp add: sorted_pq_def)

text \<open>The cursors deliver the runs, and the queue names exactly the runs that are not exhausted.\<close>

definition heads :: "run list \<Rightarrow> item set" where
  "heads R = {(fst (hd (R ! k)), k) | k. k < length R \<and> R ! k \<noteq> []}"

definition merge_inv :: "json_codec \<Rightarrow> lz4 \<Rightarrow> run list \<Rightarrow> sst_cursor list \<Rightarrow> item list \<Rightarrow> bool" where
  "merge_inv c z R cus h \<longleftrightarrow> length cus = length R \<and> (\<forall>k < length R. yields c z (cus ! k) (R ! k))
     \<and> (\<forall>rs \<in> set R. sorted (map fst rs)) \<and> set h = heads R \<and> sorted_pq h"

text \<open>One turn of the merge takes the run of an identity out of the named files.\<close>

definition taken :: "string \<Rightarrow> nat set \<Rightarrow> run list \<Rightarrow> run list" where
  "taken i fs R = map (\<lambda>k. if k \<in> fs then dropWhile (\<lambda>x. fst x = i) (R ! k) else R ! k) [0..<length R]"

lemma nth_taken [simp]: "k < length R \<Longrightarrow> taken i fs R ! k = (if k \<in> fs then dropWhile (\<lambda>x. fst x = i) (R ! k) else R ! k)"
  by (simp add: taken_def)

lemma length_taken [simp]: "length (taken i fs R) = length R"
  by (simp add: taken_def)

lemma consume_files_yields:
  assumes "length cus = length R" "\<forall>k < length R. yields c z (cus ! k) (R ! k)"
    "distinct files" "set files \<subseteq> {..<length R}"
    "sorted_pq h" "set h \<inter> (UNIV \<times> set files) = {}"
  shows "\<exists>cus' h'. consume_files c z ver el i files cus h best
       = Inr (cus', h', foldl (\<lambda>b x. consider_row ver el (fst x) (snd x) b) best
           (concat (map (\<lambda>k. map (\<lambda>x. (k, snd x)) (takeWhile (\<lambda>x. fst x = i) (R ! k))) files)))
     \<and> length cus' = length R \<and> (\<forall>k < length R. yields c z (cus' ! k) (taken i (set files) R ! k))
     \<and> sorted_pq h' \<and> set h' = set h \<union> {x \<in> heads (taken i (set files) R). snd x \<in> set files}"
  using assms
proof (induction files arbitrary: cus R h best)
  case Nil
  then show ?case
    by (auto simp: heads_def)
next
  case (Cons f files)
  let ?R = "R[f := dropWhile (\<lambda>x. fst x = i) (R ! f)]"
  have f: "f < length R" "f \<notin> set files"
    using Cons.prems(3,4) by auto
  obtain cu where cu: "consume_run c z ver el i f (cus ! f) best
      = Inr (cu, foldl (\<lambda>b x. consider_row ver el f (snd x) b) best (takeWhile (\<lambda>x. fst x = i) (R ! f)))"
    "yields c z cu (dropWhile (\<lambda>x. fst x = i) (R ! f))"
    using consume_run_yields Cons.prems(2) f(1) by blast
  let ?best = "foldl (\<lambda>b x. consider_row ver el f (snd x) b) best (takeWhile (\<lambda>x. fst x = i) (R ! f))"
  let ?h = "if cu_valid cu then pq_push (cu_currentId cu, f) h else h"
  have nf: "(j, f) \<notin> set h" for j
    using Cons.prems(6) by auto
  have tk: "taken i (set files) ?R = taken i (set (f # files)) R"
  proof (rule nth_equalityI)
    fix k
    assume "k < length (taken i (set files) ?R)"
    then show "taken i (set files) ?R ! k = taken i (set (f # files)) R ! k"
      using f(2) by (cases "k = f") simp_all
  qed simp
  have eqR: "map (\<lambda>k. map (\<lambda>x. (k, snd x)) (takeWhile (\<lambda>x. fst x = i) (?R ! k))) files
      = map (\<lambda>k. map (\<lambda>x. (k, snd x)) (takeWhile (\<lambda>x. fst x = i) (R ! k))) files"
    using f(2) by (intro map_cong refl) (metis nth_list_update_neq)
  have fold: "?best = foldl (\<lambda>b x. consider_row ver el (fst x) (snd x) b) best
      (map (\<lambda>x. (f, snd x)) (takeWhile (\<lambda>x. fst x = i) (R ! f)))"
    by (simp add: foldl_map)
  have hd: "heads (taken i (set (f # files)) R) \<inter> {x. snd x = f} = (if cu_valid cu then {(cu_currentId cu, f)} else {})"
    using yields_head [OF cu(2)] f(1) by (auto simp: heads_def simp del: dropWhile_eq_Nil_conv)
  have "\<exists>cus' h'. consume_files c z ver el i files (cus[f := cu]) ?h ?best
       = Inr (cus', h', foldl (\<lambda>b x. consider_row ver el (fst x) (snd x) b) ?best
           (concat (map (\<lambda>k. map (\<lambda>x. (k, snd x)) (takeWhile (\<lambda>x. fst x = i) (?R ! k))) files)))
     \<and> length cus' = length ?R \<and> (\<forall>k < length ?R. yields c z (cus' ! k) (taken i (set files) ?R ! k))
     \<and> sorted_pq h' \<and> set h' = set ?h \<union> {x \<in> heads (taken i (set files) ?R). snd x \<in> set files}"
  proof (rule Cons.IH)
    show "length (cus[f := cu]) = length ?R"
      using Cons.prems(1) by simp
    show "\<forall>k < length ?R. yields c z (cus[f := cu] ! k) (?R ! k)"
      using Cons.prems(1,2) cu(2) f(1) by (simp add: nth_list_update)
    show "distinct files" "set files \<subseteq> {..<length ?R}"
      using Cons.prems(3,4) by auto
    show "sorted_pq ?h"
      using Cons.prems(5) nf by (simp add: sorted_pq_push)
    show "set ?h \<inter> UNIV \<times> set files = {}"
      using Cons.prems(6) f(2) by auto
  qed
  then obtain cus' h' where r: "consume_files c z ver el i files (cus[f := cu]) ?h ?best
       = Inr (cus', h', foldl (\<lambda>b x. consider_row ver el (fst x) (snd x) b) ?best
           (concat (map (\<lambda>k. map (\<lambda>x. (k, snd x)) (takeWhile (\<lambda>x. fst x = i) (R ! k))) files)))"
     "length cus' = length R" "\<forall>k < length R. yields c z (cus' ! k) (taken i (set (f # files)) R ! k)"
     "sorted_pq h'" "set h' = set ?h \<union> {x \<in> heads (taken i (set (f # files)) R). snd x \<in> set files}"
    unfolding eqR tk by auto
  have "set h' = set h \<union> {x \<in> heads (taken i (set (f # files)) R). snd x \<in> set (f # files)}"
    using r(5) hd by (cases "cu_valid cu") auto
  then show ?case
    using r cu(1) fold by (intro exI [of _ cus'] exI [of _ h']) simp
qed


lemma concat_map_filter: "(\<And>x. x \<in> set xs \<Longrightarrow> \<not> P x \<Longrightarrow> g x = []) \<Longrightarrow> concat (map g xs) = concat (map g (filter P xs))"
  by (induction xs) auto

lemma takeWhile_least:
  assumes "sorted (map fst rs)" "\<forall>x \<in> set rs. i \<le> fst x"
  shows "takeWhile (\<lambda>x. fst x = i) rs = filter (\<lambda>x. fst x = i) rs"
  using assms
proof (induction rs)
  case (Cons r rs)
  have "filter (\<lambda>x. fst x = i) rs = []" if "fst r \<noteq> i"
    using Cons.prems that by (fastforce simp: filter_empty_conv)
  then show ?case
    using Cons by auto
qed simp

lemma filter_dropWhile_other: "j \<noteq> i \<Longrightarrow> filter (\<lambda>x. fst x = j) (dropWhile (\<lambda>x. fst x = i) rs) = filter (\<lambda>x. fst x = j) rs"
  by (induction rs) auto

lemma sorted_desc_unique:
  assumes "sorted_wrt (>) xs" "sorted_wrt (>) ys" "set xs = set (ys :: nat list)"
  shows "xs = ys"
proof -
  have d: "sorted_wrt (\<lambda>x y. y < x) zs \<Longrightarrow> sorted (rev zs) \<and> distinct zs" for zs :: "nat list"
    by (induction zs) (auto simp: sorted_append intro: less_imp_le)
  have "rev xs = rev ys"
    using d [OF assms(1)] d [OF assms(2)] assms(3)
    by (intro sorted_distinct_set_unique) auto
  then show ?thesis by simp
qed

text \<open>The first turn: the identity is the least one, and the popped files are those that hold it.\<close>

lemma merge_turn:
  assumes inv: "merge_inv c z R cus h" and ne: "h \<noteq> []" and pm: "pop_matching (fst (hd h)) h = (ms, h1)"
  defines "i \<equiv> fst (hd h)"
  shows "\<forall>rs \<in> set R. \<forall>x \<in> set rs. i \<le> fst x"
    and "set ms = {k. k < length R \<and> R ! k \<noteq> [] \<and> fst (hd (R ! k)) = i}"
    and "ms = filter (\<lambda>k. R ! k \<noteq> [] \<and> fst (hd (R ! k)) = i) (rev [0..<length R])"
    and "set h1 = {x \<in> heads R. i < fst x}" and "sorted_pq h1" and "ms \<noteq> []"
proof -
  have h: "h = map (Pair i) ms @ h1" "h1 = [] \<or> fst (hd h1) \<noteq> i"
    using pop_matching_split [OF pm] unfolding i_def by blast+
  show ms: "ms \<noteq> []"
  proof
    assume "ms = []"
    then have "h = h1"
      using h(1) by simp
    then show False
      using h(2) ne by (simp add: i_def)
  qed
  have srt: "sorted_wrt before (map (Pair i) ms @ h1)"
    using inv h(1) by (simp add: merge_inv_def sorted_pq_def)
  then show "sorted_pq h1"
    by (simp add: sorted_pq_def sorted_wrt_append)
  have desc: "sorted_wrt (>) ms"
    using srt by (simp add: sorted_wrt_append sorted_wrt_map before_def)
  have gt: "i < fst x" if x: "x \<in> set h1" for x
  proof -
    obtain y ys where h1: "h1 = y # ys"
      using x by (cases h1) auto
    obtain m ms' where m: "ms = m # ms'"
      using ms by (cases ms) auto
    have "before (i, m) y"
      using srt by (simp add: m h1)
    moreover have "x = y \<or> before y x"
      using srt x by (auto simp: h1 sorted_wrt_append)
    moreover have "fst y \<noteq> i"
      using h(2) h1 by simp
    ultimately have "i < fst y" "fst y \<le> fst x"
      by (auto simp: before_def)
    then show ?thesis
      by simp
  qed
  have hs: "heads R = Pair i ` set ms \<union> set h1"
  proof -
    have "set h = Pair i ` set ms \<union> set h1"
      by (simp only: h(1) set_append set_map)
    then show ?thesis
      using inv by (simp only: merge_inv_def)
  qed
  show "set h1 = {x \<in> heads R. i < fst x}"
    unfolding hs using gt by auto
  show mset: "set ms = {k. k < length R \<and> R ! k \<noteq> [] \<and> fst (hd (R ! k)) = i}"
  proof -
    have "k \<in> set ms \<longleftrightarrow> (i, k) \<in> heads R" for k
      using gt [of "(i, k)"] unfolding hs by auto
    then show ?thesis
      unfolding heads_def by blast
  qed
  show "ms = filter (\<lambda>k. R ! k \<noteq> [] \<and> fst (hd (R ! k)) = i) (rev [0..<length R])"
  proof (rule sorted_desc_unique [OF desc])
    have "sorted_wrt (>) (rev [0..<n])" for n
      by (induction n) (auto simp: sorted_wrt_append)
    then show "sorted_wrt (>) (filter (\<lambda>k. R ! k \<noteq> [] \<and> fst (hd (R ! k)) = i) (rev [0..<length R]))"
      by (rule sorted_wrt_filter)
  qed (use mset in auto)
  show "\<forall>rs \<in> set R. \<forall>x \<in> set rs. i \<le> fst x"
  proof (intro ballI)
    fix rs x
    assume rs: "rs \<in> set R" and x: "x \<in> set rs"
    obtain k where k: "k < length R" "R ! k = rs"
      using rs by (auto simp: in_set_conv_nth)
    have "(fst (hd rs), k) \<in> heads R"
      using k x by (auto simp: heads_def)
    then have "i \<le> fst (hd rs)"
      using gt [of "(fst (hd rs), k)"] unfolding hs by auto
    also have "fst (hd rs) \<le> fst x"
      using inv rs x by (cases rs) (auto simp: merge_inv_def)
    finally show "i \<le> fst x" .
  qed
qed


lemma candidates_taken:
  assumes "j \<noteq> i"
  shows "candidates j (taken i fs R) = candidates j R"
proof -
  have "filter (\<lambda>x. fst x = j) (taken i fs R ! k) = filter (\<lambda>x. fst x = j) (R ! k)" if "k < length R" for k
    using that assms by (simp add: filter_dropWhile_other)
  then show ?thesis
    unfolding candidates_def length_taken by (intro arg_cong [where f = concat] map_cong) auto
qed

lemma candidates_least:
  assumes least: "\<forall>rs \<in> set R. \<forall>x \<in> set rs. i \<le> fst x" and srt: "\<forall>rs \<in> set R. sorted (map fst rs)"
  shows "candidates i R = concat (map (\<lambda>k. map (\<lambda>x. (k, snd x)) (takeWhile (\<lambda>x. fst x = i) (R ! k)))
    (filter (\<lambda>k. R ! k \<noteq> [] \<and> fst (hd (R ! k)) = i) (rev [0..<length R])))"
proof -
  have tw: "filter (\<lambda>x. fst x = i) (R ! k) = takeWhile (\<lambda>x. fst x = i) (R ! k)" if "k < length R" for k
    using takeWhile_least [of "R ! k" i] least srt nth_mem [OF that] by auto
  have "candidates i R = concat (map (\<lambda>k. map (\<lambda>x. (k, snd x)) (takeWhile (\<lambda>x. fst x = i) (R ! k))) (rev [0..<length R]))"
    unfolding candidates_def by (intro arg_cong [where f = concat] map_cong) (auto simp: tw)
  also have "\<dots> = concat (map (\<lambda>k. map (\<lambda>x. (k, snd x)) (takeWhile (\<lambda>x. fst x = i) (R ! k)))
    (filter (\<lambda>k. R ! k \<noteq> [] \<and> fst (hd (R ! k)) = i) (rev [0..<length R])))"
  proof (rule concat_map_filter)
    fix k
    assume "\<not> (R ! k \<noteq> [] \<and> fst (hd (R ! k)) = i)"
    then show "map (\<lambda>x. (k, snd x)) (takeWhile (\<lambda>x. fst x = i) (R ! k)) = []"
      by (cases "R ! k") auto
  qed
  finally show ?thesis .
qed

lemma set_dropWhile_least:
  assumes "sorted (map fst rs)" "\<forall>x \<in> set rs. i \<le> fst x"
  shows "fst ` set (dropWhile (\<lambda>x. fst x = i) rs) = fst ` set rs - {i}"
  using assms
proof (induction rs)
  case (Cons r rs)
  show ?case
  proof (cases "fst r = i")
    case False
    then have "i < fst r"
      using Cons.prems by auto
    then have "\<forall>x \<in> set (r # rs). fst x \<noteq> i"
      using Cons.prems(1) by fastforce
    then show ?thesis
      using False by auto
  qed (use Cons in auto)
qed simp

lemma ids_of_taken:
  assumes least: "\<forall>rs \<in> set R. \<forall>x \<in> set rs. i \<le> fst x" and srt: "\<forall>rs \<in> set R. sorted (map fst rs)"
    and fs: "fs = {k. k < length R \<and> R ! k \<noteq> [] \<and> fst (hd (R ! k)) = i}" "fs \<noteq> {}"
  shows "ids_of R = i # ids_of (taken i fs R)"
proof -
  let ?A = "\<lambda>R. fst ` (\<Union> (set ` set R))"
  have un: "?A Q = (\<Union>k < length Q. fst ` set (Q ! k))" for Q :: "run list"
    by (auto simp: set_conv_nth image_UN)
  have each: "fst ` set (taken i fs R ! k) = fst ` set (R ! k) - {i}" if k: "k < length R" for k
  proof (cases "k \<in> fs")
    case True
    then show ?thesis
      using set_dropWhile_least [of "R ! k" i] least srt nth_mem [OF k] k by auto
  next
    case False
    have "i \<notin> fst ` set (R ! k)"
    proof
      assume "i \<in> fst ` set (R ! k)"
      then obtain x where x: "x \<in> set (R ! k)" "fst x = i"
        by auto
      then have ne: "R ! k \<noteq> []"
        by auto
      have "i \<le> fst (hd (R ! k))"
        using least nth_mem [OF k] hd_in_set [OF ne] by blast
      moreover have "sorted (map fst (R ! k))"
        using srt nth_mem [OF k] by blast
      then have "fst (hd (R ! k)) \<le> i"
        using x ne by (cases "R ! k") auto
      ultimately show False
        using False fs(1) k ne by simp
    qed
    then show ?thesis
      using k False by auto
  qed
  have eq: "?A (taken i fs R) = ?A R - {i}"
    unfolding un length_taken using each by auto
  obtain k where "k < length R" "R ! k \<noteq> []" "fst (hd (R ! k)) = i"
    using fs by auto
  then have mem: "i \<in> ?A R"
    unfolding un by (force intro: hd_in_set)
  have fin: "finite (?A R)"
    by simp
  have min: "Min (?A R) = i"
    using mem least by (intro Min_eqI) auto
  have "?A R \<noteq> {}"
    using mem by blast
  from sorted_list_of_set_nonempty [OF fin this] show ?thesis
    unfolding ids_of_def eq min .
qed

lemma merge_inv_taken:
  assumes inv: "merge_inv c z R cus h" and ne: "h \<noteq> []" and pm: "pop_matching (fst (hd h)) h = (ms, h1)"
  shows "\<exists>cus' h2. consume_files c z ver el (fst (hd h)) ms cus h1 nothing
       = Inr (cus', h2, newest_of ver el (fst (hd h)) R)
     \<and> merge_inv c z (taken (fst (hd h)) (set ms) R) cus' h2"
proof -
  define i where "i = fst (hd h)"
  note t = merge_turn [OF inv ne pm, folded i_def]
  have parts: "length cus = length R" "\<forall>k < length R. yields c z (cus ! k) (R ! k)"
    "\<forall>rs \<in> set R. sorted (map fst rs)"
    using inv by (simp_all add: merge_inv_def)
  have dist: "distinct ms"
    unfolding t(3) by simp
  have sub: "set ms \<subseteq> {..<length R}"
    using t(2) by auto
  have disj: "set h1 \<inter> UNIV \<times> set ms = {}"
    unfolding t(4) t(2) heads_def by auto
  obtain cus' h2 where cf: "consume_files c z ver el i ms cus h1 nothing = Inr (cus', h2,
      foldl (\<lambda>b x. consider_row ver el (fst x) (snd x) b) nothing
        (concat (map (\<lambda>k. map (\<lambda>x. (k, snd x)) (takeWhile (\<lambda>x. fst x = i) (R ! k))) ms)))"
    "length cus' = length R" "\<forall>k < length R. yields c z (cus' ! k) (taken i (set ms) R ! k)"
    "sorted_pq h2" "set h2 = set h1 \<union> {x \<in> heads (taken i (set ms) R). snd x \<in> set ms}"
    using consume_files_yields [OF parts(1,2) dist sub t(5) disj, of ver el i nothing] by blast
  have "newest_of ver el i R = foldl (\<lambda>b x. consider_row ver el (fst x) (snd x) b) nothing
        (concat (map (\<lambda>k. map (\<lambda>x. (k, snd x)) (takeWhile (\<lambda>x. fst x = i) (R ! k))) ms))"
    unfolding newest_of_def candidates_least [OF t(1) parts(3)] t(3) [symmetric] ..
  moreover have "set h2 = heads (taken i (set ms) R)"
  proof -
    have "i < fst x" if "x \<in> heads R" "snd x \<notin> set ms" for x
    proof -
      obtain k where k: "k < length R" "R ! k \<noteq> []" "x = (fst (hd (R ! k)), k)"
        using \<open>x \<in> heads R\<close> unfolding heads_def by blast
      have "i \<le> fst (hd (R ! k))"
        using t(1) nth_mem [OF k(1)] hd_in_set [OF k(2)] by blast
      moreover have "fst (hd (R ! k)) \<noteq> i"
        using t(2) k \<open>snd x \<notin> set ms\<close> by auto
      ultimately have "i < fst (hd (R ! k))"
        by simp
      then show ?thesis
        using k(3) by simp
    qed
    moreover have "snd x \<notin> set ms" if "x \<in> heads R" "i < fst x" for x
    proof
      assume "snd x \<in> set ms"
      then have "fst (hd (R ! snd x)) = i"
        using t(2) by blast
      then show False
        using that unfolding heads_def by auto
    qed
    ultimately have "set h1 = {x \<in> heads R. snd x \<notin> set ms}"
      unfolding t(4) by blast
    moreover have "{x \<in> heads R. snd x \<notin> set ms} = {x \<in> heads (taken i (set ms) R). snd x \<notin> set ms}"
      unfolding heads_def length_taken by force
    ultimately show ?thesis
      using cf(5) by blast
  qed
  moreover have "\<forall>rs \<in> set (taken i (set ms) R). sorted (map fst rs)"
  proof -
    have "sorted (map fst rs) \<Longrightarrow> sorted (map fst (dropWhile P rs))" for P :: "string \<times> bytes \<Rightarrow> bool" and rs
      by (induction rs) auto
    then show ?thesis
      using parts(3) by (auto simp: taken_def)
  qed
  ultimately show ?thesis
    unfolding i_def [symmetric] using cf by (auto simp: merge_inv_def)
qed

definition rows_left :: "run list \<Rightarrow> nat" where
  "rows_left R = (\<Sum>k < length R. length (R ! k))"

lemma rows_left_taken:
  assumes "fs = {k. k < length R \<and> R ! k \<noteq> [] \<and> fst (hd (R ! k)) = i}" "fs \<noteq> {}"
  shows "rows_left (taken i fs R) < rows_left R"
proof -
  obtain k where k: "k \<in> fs"
    using assms(2) by auto
  have "length (dropWhile (\<lambda>x. fst x = i) (R ! k)) < length (R ! k)"
  proof -
    obtain x xs where "R ! k = x # xs" "fst x = i"
      using k assms(1) by (cases "R ! k") auto
    then show ?thesis
      using length_dropWhile_le [of "\<lambda>x. fst x = i" xs] by simp
  qed
  then have "\<exists>k \<in> {..<length R}. length (taken i fs R ! k) < length (R ! k)"
    using k assms(1) by auto
  then show ?thesis
    unfolding rows_left_def length_taken
    by (intro sum_strict_mono_ex1) (auto simp: length_dropWhile_le)
qed

theorem merge_latest:
  "merge_inv c z R cus h \<Longrightarrow> merge_loop c z ix inc el v cus h s
     = Some (fold_visit v (latest (view_version c ix) el (\<lambda>b. inc \<or> \<not> is_deleted c ix b) R) s)"
proof (induction "rows_left R" arbitrary: R cus h s rule: less_induct)
  case less
  let ?ver = "view_version c ix" and ?keep = "\<lambda>b. inc \<or> \<not> is_deleted c ix b"
  show ?case
  proof (cases "h = []")
    case True
    then have "heads R = {}"
      using less.prems by (simp add: merge_inv_def)
    then have "\<forall>rs \<in> set R. rs = []"
      by (auto simp: heads_def in_set_conv_nth)
    then have "fst ` (\<Union> (set ` set R)) = {}"
      by auto
    then have "ids_of R = []"
      by (simp only: ids_of_def sorted_list_of_set_empty)
    then show ?thesis
      using True by (simp add: merge_loop.simps latest_def)
  next
    case False
    define i where "i = fst (hd h)"
    obtain ms h1 where pm: "pop_matching i h = (ms, h1)"
      by (cases "pop_matching i h")
    note t = merge_turn [OF less.prems False pm [unfolded i_def], folded i_def]
    let ?R = "taken i (set ms) R"
    obtain cus' h2 where cf: "consume_files c z ?ver el i ms cus h1 nothing = Inr (cus', h2, newest_of ?ver el i R)"
      "merge_inv c z ?R cus' h2"
      using merge_inv_taken [OF less.prems False pm [unfolded i_def], folded i_def] by blast
    have fs: "set ms \<noteq> {}"
      using t(6) by simp
    have ih: "merge_loop c z ix inc el v cus' h2 s' = Some (fold_visit v (latest ?ver el ?keep ?R) s')" for s'
      using less.hyps [OF rows_left_taken [OF t(2) fs] cf(2)] .
    have srt: "\<forall>rs \<in> set R. sorted (map fst rs)"
      using less.prems by (simp add: merge_inv_def)
    note ids = ids_of_taken [OF t(1) srt t(2) fs]
    let ?b = "newest_of ?ver el i R"
    have same: "newest_of ?ver el j ?R = newest_of ?ver el j R" if "j \<in> set (ids_of ?R)" for j
    proof -
      have "distinct (i # ids_of ?R)"
        unfolding ids [symmetric] by (simp add: ids_of_def)
      then have "j \<noteq> i"
        using that by auto
      then show ?thesis
        by (simp add: newest_of_def candidates_taken)
    qed
    have lat: "latest ?ver el ?keep R
        = (if nw_found ?b \<and> ?keep (nw_bytes ?b) then [nw_bytes ?b] else []) @ latest ?ver el ?keep ?R"
      using same by (simp add: latest_def ids Let_def cong: map_cong)
    show ?thesis
      unfolding lat
      using False pm cf(1) ih
      by (subst merge_loop.simps) (auto simp: i_def [symmetric] Let_def split: prod.split visit.split)
  qed
qed


section \<open>Merging written tables\<close>

lemma heads_snoc: "heads (R @ [rs]) = heads R \<union> (if rs \<noteq> [] then {(fst (hd rs), length R)} else {})"
proof -
  have "(i, k) \<in> heads Q \<longleftrightarrow> k < length Q \<and> Q ! k \<noteq> [] \<and> i = fst (hd (Q ! k))" for i k and Q :: "run list"
    by (auto simp: heads_def)
  then show ?thesis
    by (intro set_eqI) (auto simp: nth_append less_Suc_eq)
qed

lemma merge_inv_snoc:
  assumes inv: "merge_inv c z R cus h" and cu: "yields c z cu rs" and srt: "sorted (map fst rs)"
  shows "merge_inv c z (R @ [rs]) (cus @ [cu]) (if cu_valid cu then pq_push (cu_currentId cu, length cus) h else h)"
proof -
  have old: "length cus = length R" "set h = heads R" "sorted_pq h" "\<forall>k < length R. yields c z (cus ! k) (R ! k)"
    "\<forall>rs \<in> set R. sorted (map fst rs)"
    using inv by (simp_all add: merge_inv_def)
  have "(i, length R) \<notin> set h" for i
    using old(1,2) by (auto simp: heads_def)
  then have "sorted_pq (pq_push (i, length R) h)" for i
    using old(3) by (intro sorted_pq_push)
  moreover have "\<forall>k < length (R @ [rs]). yields c z ((cus @ [cu]) ! k) ((R @ [rs]) ! k)"
    using old(1,4) cu by (simp add: nth_append)
  ultimately show ?thesis
    unfolding merge_inv_def
    using old yields_head [OF cu] srt by (simp add: heads_snoc)
qed

lemma open_all_yields:
  assumes "list_all2 (\<lambda>f rs. \<exists>cu. cursor_open c z f ix = Inr cu \<and> yields c z cu rs) fs Q"
    "merge_inv c z R cus h" "\<forall>rs \<in> set Q. sorted (map fst rs)"
  shows "\<exists>cus' h'. open_all c z ix fs cus h = Inr (cus', h') \<and> merge_inv c z (R @ Q) cus' h'"
  using assms
proof (induction fs Q arbitrary: R cus h rule: list_all2_induct)
  case Nil
  then show ?case by simp
next
  case (Cons f fs rs Q)
  obtain cu where cu: "cursor_open c z f ix = Inr cu" "yields c z cu rs"
    using Cons.hyps(1) by blast
  have inv: "merge_inv c z (R @ [rs]) (cus @ [cu]) (if cu_valid cu then pq_push (cu_currentId cu, length cus) h else h)"
    using merge_inv_snoc [OF Cons.prems(1) cu(2)] Cons.prems(2) by simp
  show ?case
    using Cons.IH [OF inv] Cons.prems(2) cu(1) by simp
qed

theorem visitLatestSstRows_latest:
  assumes "list_all2 (\<lambda>f rs. \<exists>cu. cursor_open c z f ix = Inr cu \<and> yields c z cu rs) fs R"
    "\<forall>rs \<in> set R. sorted (map fst rs)"
  shows "visitLatestSstRows c z fs ix inc el v s
     = Some (fold_visit v (latest (view_version c ix) el (\<lambda>b. inc \<or> \<not> is_deleted c ix b) R) s)"
proof -
  have "merge_inv c z [] [] []"
    by (simp add: merge_inv_def heads_def sorted_pq_def)
  then obtain cus h where "open_all c z ix fs [] [] = Inr (cus, h)" "merge_inv c z R cus h"
    using open_all_yields [OF assms(1) _ assms(2), of "[]" "[]" "[]"] by auto
  then show ?thesis
    by (simp add: visitLatestSstRows_def merge_latest)
qed

end
