(* ===== verification/Lsm_Version.thy ===== *)
theory Lsm_Version
  imports Sst_Merge
begin

text \<open>
  Versions and visibility of documents in the storage engine (\<open>lsm.cpp\<close>): the engine version a document
  carries, which of two documents of one identity is the newer, the merge of documents by identity, and
  the rule that makes a row visible at a commit index.  A \<open>std::unordered_map\<close> from identities is an
  association list sorted by key; its iteration order, which the code leaves open, matters to no theorem.
\<close>

section \<open>The last greatest element of a list\<close>

text \<open>\<open>later b x\<close>: a candidate that comes later replaces the best so far unless it ranks lower.\<close>

fun later :: "('a \<Rightarrow> 'v::linorder) \<Rightarrow> 'a option \<Rightarrow> 'a option \<Rightarrow> 'a option" where
  "later f None y = y"
| "later f (Some x) None = Some x"
| "later f (Some x) (Some y) = (if f x \<le> f y then Some y else Some x)"

definition last_max :: "('a \<Rightarrow> 'v::linorder) \<Rightarrow> 'a list \<Rightarrow> 'a option" where
  "last_max f xs = foldl (later f) None (map Some xs)"

lemma later_None [simp]: "later f x None = x"
  by (cases x) auto

lemma later_assoc: "later f (later f x y) z = later f x (later f y z)"
  by (cases x; cases y; cases z) auto

lemma foldl_later: "foldl (later f) b (map Some xs) = later f b (last_max f xs)"
proof (induction xs arbitrary: b)
  case Nil
  then show ?case by (simp add: last_max_def)
next
  case (Cons x xs)
  have "foldl (later f) b (map Some (x # xs)) = later f (later f b (Some x)) (last_max f xs)"
    using Cons [of "later f b (Some x)"] by simp
  moreover have "last_max f (x # xs) = later f (Some x) (last_max f xs)"
    using Cons [of "Some x"] by (simp add: last_max_def)
  ultimately show ?case
    by (simp add: later_assoc)
qed

lemma last_max_Nil [simp]: "last_max f [] = None"
  by (simp add: last_max_def)

lemma last_max_Cons: "last_max f (x # xs) = later f (Some x) (last_max f xs)"
  using foldl_later [of f "Some x" xs] by (simp add: last_max_def)

lemma last_max_append: "last_max f (xs @ ys) = later f (last_max f xs) (last_max f ys)"
  by (induction xs) (simp_all add: last_max_Cons later_assoc)

lemma last_max_snoc: "last_max f (xs @ [x]) = later f (last_max f xs) (Some x)"
  by (simp add: last_max_append last_max_Cons)

lemma last_max_None [simp]: "last_max f xs = None \<longleftrightarrow> xs = []"
proof (cases xs)
  case (Cons a as)
  then show ?thesis
    by (cases "last_max f as") (simp_all add: last_max_Cons)
qed simp

lemma last_max_in: "last_max f xs = Some y \<Longrightarrow> y \<in> set xs"
  by (induction xs arbitrary: y)
    (auto simp: last_max_Cons elim!: later.elims split: option.splits if_splits)

lemma last_max_greatest: "last_max f xs = Some y \<Longrightarrow> x \<in> set xs \<Longrightarrow> f x \<le> f y"
proof (induction xs arbitrary: x y)
  case (Cons a xs)
  then show ?case
    by (cases "last_max f xs") (fastforce simp: last_max_Cons split: if_splits)+
qed simp

lemma last_max_idem: "later f (last_max f xs) (last_max f xs) = last_max f xs"
  by (cases "last_max f xs") auto

text \<open>Where no two elements rank alike the order of the list does not matter.\<close>

lemma last_max_unique:
  assumes "inj_on f (set xs)"
  shows "last_max f xs = Some y \<longleftrightarrow> y \<in> set xs \<and> (\<forall>x \<in> set xs. f x \<le> f y)"
proof
  assume "last_max f xs = Some y"
  then show "y \<in> set xs \<and> (\<forall>x \<in> set xs. f x \<le> f y)"
    using last_max_in last_max_greatest by metis
next
  assume y: "y \<in> set xs \<and> (\<forall>x \<in> set xs. f x \<le> f y)"
  obtain z where z: "last_max f xs = Some z"
    using y by (cases "last_max f xs") auto
  then have "f z = f y"
    using y last_max_in [OF z] last_max_greatest [OF z] by (simp add: order_antisym)
  then show "last_max f xs = Some y"
    using assms y z last_max_in [OF z] by (auto dest: inj_onD)
qed

lemma last_max_set:
  assumes "inj_on f (set xs)" "set ys = set xs"
  shows "last_max f ys = last_max f xs"
proof (cases "last_max f xs")
  case None
  then show ?thesis
    using assms by simp
next
  case (Some y)
  then show ?thesis
    using last_max_unique [of f xs y] last_max_unique [of f ys y] assms by simp
qed

section \<open>Versions\<close>

definition isDeletedDoc :: "json \<Rightarrow> bool" where
  "isDeletedDoc doc \<longleftrightarrow> is_object doc \<and> jlookup doc ''_deleted'' = Some (JBool True)"

definition extractDocVersionScore :: "json \<Rightarrow> int option" where
  "extractDocVersionScore doc = (if is_object doc then rowVersion (jlookup doc) else None)"

definition isCandidateNewer :: "json \<Rightarrow> json \<Rightarrow> bool" where
  "isCandidateNewer candidate current =
     (let candidateVersion = extractDocVersionScore candidate; currentVersion = extractDocVersionScore current;
          candidateHasVersion = (candidateVersion \<noteq> None); currentHasVersion = (currentVersion \<noteq> None)
      in if candidateHasVersion \<and> currentHasVersion \<and> the candidateVersion \<noteq> the currentVersion
         then the currentVersion < the candidateVersion
         else if candidateHasVersion \<noteq> currentHasVersion then candidateHasVersion
         else True)"

text \<open>The comparison is the order of the versions, no version being the least.\<close>

lemma isCandidateNewer_le:
  "isCandidateNewer a b \<longleftrightarrow> extractDocVersionScore b \<le> extractDocVersionScore a"
  by (cases "extractDocVersionScore a"; cases "extractDocVersionScore b") (auto simp: isCandidateNewer_def)

abbreviation newest_doc :: "json list \<Rightarrow> json option" where
  "newest_doc \<equiv> last_max extractDocVersionScore"

section \<open>Merging by identity\<close>

type_synonym docs = "(string \<times> json) list"

text \<open>\<open>None\<close>: the document has no identity to merge by.\<close>

definition doc_id :: "json_codec \<Rightarrow> json \<Rightarrow> string option" where
  "doc_id c doc =
     (if \<not> is_object doc \<or> \<not> jcontains doc ''id'' \<or> rowId c doc = [] then None else Some (rowId c doc))"

definition mergeLatestById :: "json_codec \<Rightarrow> docs \<times> json list \<Rightarrow> json \<Rightarrow> docs \<times> json list" where
  "mergeLatestById c st doc =
     (let (latestById, noIdDocs) = st
      in case doc_id c doc of
           None \<Rightarrow> (latestById, noIdDocs @ [doc])
         | Some i \<Rightarrow>
            (case map_of latestById i of
               None \<Rightarrow> (obj_insert i doc latestById, noIdDocs)
             | Some cur \<Rightarrow>
                 if isCandidateNewer doc cur then (obj_insert i doc latestById, noIdDocs)
                 else (latestById, noIdDocs)))"

abbreviation merge_docs :: "json_codec \<Rightarrow> docs \<times> json list \<Rightarrow> json list \<Rightarrow> docs \<times> json list" where
  "merge_docs c \<equiv> foldl (mergeLatestById c)"

abbreviation docs_of :: "json_codec \<Rightarrow> string \<Rightarrow> json list \<Rightarrow> json list" where
  "docs_of c i \<equiv> filter (\<lambda>d. doc_id c d = Some i)"

lemma mergeLatestById_lookup:
  assumes "obj_wf (fst st)"
  shows "obj_wf (fst (mergeLatestById c st doc))"
    and "map_of (fst (mergeLatestById c st doc)) i =
      later extractDocVersionScore (map_of (fst st) i) (newest_doc (docs_of c i [doc]))"
    and "snd (mergeLatestById c st doc) = snd st @ filter (\<lambda>d. doc_id c d = None) [doc]"
  using assms
  by (auto simp: mergeLatestById_def isCandidateNewer_le last_max_Cons split: prod.splits option.splits)

text \<open>What a merge over a sequence of documents leaves: per identity the last document of the highest version.\<close>

theorem merge_docs_lookup:
  assumes "obj_wf (fst st)"
  shows "obj_wf (fst (merge_docs c st ds))"
    and "map_of (fst (merge_docs c st ds)) i =
      later extractDocVersionScore (map_of (fst st) i) (newest_doc (docs_of c i ds))"
    and "snd (merge_docs c st ds) = snd st @ filter (\<lambda>d. doc_id c d = None) ds"
  using assms
proof (induction ds arbitrary: st)
  case Nil
  {
    case 1
    then show ?case by simp
  next
    case 2
    then show ?case by simp
  next
    case 3
    then show ?case by simp
  }
next
  case (Cons d ds)
  {
    case 1
    then show ?case
      using Cons.IH(1) [OF mergeLatestById_lookup(1) [OF 1, of c d]] by simp
  next
    case 2
    have "map_of (fst (merge_docs c st (d # ds))) i =
        later extractDocVersionScore (later extractDocVersionScore (map_of (fst st) i) (newest_doc (docs_of c i [d])))
          (newest_doc (docs_of c i ds))"
      using Cons.IH(2) [OF mergeLatestById_lookup(1) [OF 2, of c d]] mergeLatestById_lookup(2) [OF 2, of c d] by simp
    also have "\<dots> = later extractDocVersionScore (map_of (fst st) i) (newest_doc (docs_of c i ([d] @ ds)))"
      by (simp only: filter_append last_max_append later_assoc)
    finally show ?case by simp
  next
    case 3
    then show ?case
      using Cons.IH(3) [OF mergeLatestById_lookup(1) [OF 3, of c d]] mergeLatestById_lookup(3) [OF 3, of c d] by simp
  }
qed

end
