(* ===== verification/Lsm_Visibility.thy ===== *)
theory Lsm_Visibility
  imports Lsm_Version
begin

text \<open>
  Which rows a read may return (\<open>lsm.cpp\<close>): the visibility fields that a write stamps on a document, and
  the rule every read path applies to them.  The rule is written over a field lookup, so that one
  definition serves parsed documents and encoded rows; \<open>raft_status\<close> holds what the code asks \<open>RaftCore\<close>
  and the environment at the time of the call.
\<close>

section \<open>The rule\<close>

record raft_status =
  rs_enabled :: bool
  rs_leader :: bool
  rs_peers :: nat
  rs_bypass_off :: bool \<comment> \<open>a bypass variable of the environment is set to a false value\<close>

definition standaloneRaftVisibilityBypass :: "raft_status \<Rightarrow> bool" where
  "standaloneRaftVisibilityBypass rs \<longleftrightarrow>
     \<not> rs_bypass_off rs \<and> rs_enabled rs \<and> rs_leader rs \<and> rs_peers rs = 0"

fun first_string :: "(string \<Rightarrow> json option) \<Rightarrow> string list \<Rightarrow> string option" where
  "first_string lk [] = None"
| "first_string lk (n # ns) = (case lk n of Some (JStr s) \<Rightarrow> Some s | _ \<Rightarrow> first_string lk ns)"

definition flag_value :: "json option \<Rightarrow> bool" where
  "flag_value v = (case v of Some (JBool b) \<Rightarrow> b | _ \<Rightarrow> True)"

definition fieldsHaveVisibleCommitState :: "(string \<Rightarrow> json option) \<Rightarrow> bool" where
  "fieldsHaveVisibleCommitState lk =
     (case first_string lk [''_visibility_state'', ''visibility_state''] of
        Some s \<Rightarrow> s = ''COMMITTED_VISIBLE'' \<or> s = ''TOMBSTONED''
      | None \<Rightarrow> flag_value (lk ''committed''))"

definition index_value :: "json option \<Rightarrow> u64 option" where
  "index_value v = (case v of Some j \<Rightarrow> if is_number_integer j \<or> is_number_unsigned j then get_u64 j else None | None \<Rightarrow> None)"

definition fieldsRowCommitIndex :: "(string \<Rightarrow> json option) \<Rightarrow> u64 option" where
  "fieldsRowCommitIndex lk =
     (case index_value (lk ''_raft_commit_index'') of
        Some n \<Rightarrow> Some n
      | None \<Rightarrow> index_value (lk ''commit_index''))"

definition extractRowCommitIndex :: "json \<Rightarrow> u64 option" where
  "extractRowCommitIndex doc = fieldsRowCommitIndex (jlookup doc)"

definition fieldsVisibleByCommitIndex :: "raft_status \<Rightarrow> (string \<Rightarrow> json option) \<Rightarrow> u64 \<Rightarrow> bool" where
  "fieldsVisibleByCommitIndex rs lk committedIndex =
     (if \<not> rs_enabled rs then lk ''_visibility_state'' \<noteq> Some (JStr ''PENDING'')
      else if \<not> fieldsHaveVisibleCommitState lk then False
      else if standaloneRaftVisibilityBypass rs then True
      else case fieldsRowCommitIndex lk of
             None \<Rightarrow> False
           | Some rowCommit \<Rightarrow>
               rowCommit \<le> committedIndex
               \<and> (case index_value (lk ''_visibility_floor'') of Some fl \<Rightarrow> fl | None \<Rightarrow> rowCommit) \<le> committedIndex)"

definition hasVisibleCommitState :: "json \<Rightarrow> bool" where
  "hasVisibleCommitState doc \<longleftrightarrow> is_object doc \<and> fieldsHaveVisibleCommitState (jlookup doc)"

definition docVisibleByCommitIndex :: "raft_status \<Rightarrow> json \<Rightarrow> u64 \<Rightarrow> bool" where
  "docVisibleByCommitIndex rs doc committedIndex \<longleftrightarrow>
     is_object doc \<and> fieldsVisibleByCommitIndex rs (jlookup doc) committedIndex"

section \<open>The stamp\<close>

definition settled_state :: "json \<Rightarrow> json" where
  "settled_state doc = JStr (if isDeletedDoc doc then ''TOMBSTONED'' else ''COMMITTED_VISIBLE'')"

text \<open>\<open>None\<close>: a state that is no string makes the read of it throw.\<close>

definition stampVisibilityMetadata :: "raft_status \<Rightarrow> json \<Rightarrow> u64 \<Rightarrow> json option" where
  "stampVisibilityMetadata rs doc committedIndex =
     (if \<not> is_object doc then Some doc
      else if \<not> rs_enabled rs then
        Some (if jcontains doc ''_visibility_state'' then doc else jput doc ''_visibility_state'' (settled_state doc))
      else if standaloneRaftVisibilityBypass rs then
        (let d = (if jcontains doc ''_visibility_state'' then doc
                  else jput doc ''_visibility_state'' (settled_state doc))
         in if jcontains d ''committed'' then Some d
            else map_option (\<lambda>s. jput d ''committed'' (JBool (s \<noteq> ''PENDING'')))
                   (jvalue get_str d ''_visibility_state'' []))
      else
        (let (rowCommit, d1) = (case extractRowCommitIndex doc of
                 Some n \<Rightarrow> (n, doc)
               | None \<Rightarrow> (committedIndex, jput doc ''_raft_commit_index'' (JUInt committedIndex)));
             d2 = (if jcontains d1 ''_visibility_floor'' then d1
                   else jput d1 ''_visibility_floor'' (JUInt rowCommit));
             committed = (rowCommit \<le> committedIndex);
             d3 = jput d2 ''committed'' (JBool committed)
         in Some (jput d3 ''_visibility_state'' (if committed then settled_state d3 else JStr ''PENDING''))))"

section \<open>Visibility only grows\<close>

lemma visible_mono:
  assumes "fieldsVisibleByCommitIndex rs lk n" "n \<le> m"
  shows "fieldsVisibleByCommitIndex rs lk m"
  using assms by (auto simp: fieldsVisibleByCommitIndex_def split: if_splits option.splits)

section \<open>Encoded rows and documents agree\<close>

lemma index_value_jnorm [simp]: "index_value (map_option jnorm v) = index_value v"
  by (cases v; cases "the v") (auto simp: index_value_def)

lemma jnorm_string: "jnorm j = JStr s \<longleftrightarrow> j = JStr s"
  by (cases j) auto

lemma jnorm_bool: "jnorm j = JBool b \<longleftrightarrow> j = JBool b"
  by (cases j) auto

lemma first_string_jnorm: "first_string (\<lambda>n. map_option jnorm (lk n)) ns = first_string lk ns"
proof (induction ns)
  case (Cons n ns)
  then show ?case
    by (cases "lk n"; cases "the (lk n)") auto
qed simp

lemma flag_value_jnorm [simp]: "flag_value (map_option jnorm v) = flag_value v"
  by (cases v; cases "the v") (auto simp: flag_value_def)

lemma visible_state_jnorm:
  "fieldsHaveVisibleCommitState (\<lambda>n. map_option jnorm (lk n)) = fieldsHaveVisibleCommitState lk"
  by (simp only: fieldsHaveVisibleCommitState_def first_string_jnorm flag_value_jnorm)

lemma visible_jnorm:
  "fieldsVisibleByCommitIndex rs (\<lambda>n. map_option jnorm (lk n)) ci = fieldsVisibleByCommitIndex rs lk ci"
proof -
  have "map_option jnorm v = Some (JStr s) \<longleftrightarrow> v = Some (JStr s)" for v s
    by (cases v) (auto simp: jnorm_string)
  then show ?thesis
    by (simp only: fieldsVisibleByCommitIndex_def visible_state_jnorm fieldsRowCommitIndex_def index_value_jnorm)
qed

lemma rowVersion_jnorm: "rowVersion (\<lambda>n. map_option jnorm (lk n)) = rowVersion lk"
proof -
  have "field_version (map_option jnorm v) = field_version v" for v
    by (cases v; cases "the v") (auto simp: field_version_def)
  then show ?thesis
    by (simp add: rowVersion_def)
qed

lemma jlookup_JObj: "jlookup (JObj kvs) = map_of kvs"
  by (rule ext) simp

lemma row_field_encoded:
  assumes "row_ok dec flt kvs"
  shows "row_field dec (row_view (write_msgpack flt (JObj kvs)) ix) = (\<lambda>n. map_option jnorm (map_of kvs n))"
  using row_field_write [OF assms] by (rule ext)

theorem visible_encoded:
  assumes "row_ok dec flt kvs"
  shows "fieldsVisibleByCommitIndex rs (row_field dec (row_view (write_msgpack flt (JObj kvs)) ix)) ci
    = docVisibleByCommitIndex rs (JObj kvs) ci"
  unfolding row_field_encoded [OF assms] visible_jnorm docVisibleByCommitIndex_def jlookup_JObj
  by simp

theorem version_encoded:
  assumes "row_ok (from_msgpack c) flt kvs" "to_msgpack c (JObj kvs) = write_msgpack flt (JObj kvs)"
  shows "view_version c ix (to_msgpack c (JObj kvs)) = extractDocVersionScore (JObj kvs)"
  unfolding view_version_def assms(2) row_field_encoded [OF assms(1)] rowVersion_jnorm extractDocVersionScore_def
    jlookup_JObj
  by simp

section \<open>When a stamped row is visible\<close>

definition row_commit :: "json \<Rightarrow> u64 \<Rightarrow> u64" where
  "row_commit doc ci = (case extractRowCommitIndex doc of Some n \<Rightarrow> n | None \<Rightarrow> ci)"

definition row_floor :: "json \<Rightarrow> u64 \<Rightarrow> u64" where
  "row_floor doc ci = (case index_value (jlookup doc ''_visibility_floor'') of Some n \<Rightarrow> n | None \<Rightarrow> row_commit doc ci)"

lemma field_names:
  "''_visibility_floor'' \<noteq> ''_visibility_state''" "''_visibility_floor'' \<noteq> ''committed''"
  "''_raft_commit_index'' \<noteq> ''_visibility_state''" "''_raft_commit_index'' \<noteq> ''committed''"
  "''_raft_commit_index'' \<noteq> ''_visibility_floor''" "''_visibility_floor'' \<noteq> ''_raft_commit_index''"
  "''commit_index'' \<noteq> ''_visibility_state''" "''commit_index'' \<noteq> ''committed''"
  "''commit_index'' \<noteq> ''_visibility_floor''" "''commit_index'' \<noteq> ''_raft_commit_index''"
  "''_deleted'' \<noteq> ''_raft_commit_index''" "''_deleted'' \<noteq> ''_visibility_floor''" "''_deleted'' \<noteq> ''committed''"
  by simp_all

lemma stamp_cluster:
  assumes "rs_enabled rs" "\<not> standaloneRaftVisibilityBypass rs" "is_object doc" "json_wf doc"
    and "stampVisibilityMetadata rs doc ci = Some d"
  shows "is_object d" "json_wf d"
    and "jlookup d ''_visibility_state'' = Some (if row_commit doc ci \<le> ci then settled_state doc else JStr ''PENDING'')"
    and "extractRowCommitIndex d = Some (row_commit doc ci)"
    and "index_value (jlookup d ''_visibility_floor'')
          = (if jcontains doc ''_visibility_floor'' then index_value (jlookup doc ''_visibility_floor'')
             else Some (row_commit doc ci))"
proof -
  let ?rc = "row_commit doc ci"
  define d1 where "d1 = (if extractRowCommitIndex doc = None then jput doc ''_raft_commit_index'' (JUInt ci) else doc)"
  define d2 where "d2 = (if jcontains d1 ''_visibility_floor'' then d1 else jput d1 ''_visibility_floor'' (JUInt ?rc))"
  define d3 where "d3 = jput d2 ''committed'' (JBool (?rc \<le> ci))"
  have d: "d = jput d3 ''_visibility_state'' (if ?rc \<le> ci then settled_state d3 else JStr ''PENDING'')"
    unfolding d3_def d2_def d1_def using assms
    by (cases "extractRowCommitIndex doc") (auto simp: stampVisibilityMetadata_def Let_def row_commit_def)
  have wf: "is_object d1" "json_wf d1" "is_object d2" "json_wf d2" "is_object d3" "json_wf d3"
    using assms by (simp_all add: d1_def d2_def d3_def)
  show "is_object d" "json_wf d"
    using wf by (simp_all add: d)
  have "jlookup d3 ''_deleted'' = jlookup doc ''_deleted''"
    using wf assms by (simp add: d1_def d2_def d3_def jlookup_jput field_names)
  then show "jlookup d ''_visibility_state'' = Some (if ?rc \<le> ci then settled_state doc else JStr ''PENDING'')"
    using wf assms by (simp add: d jlookup_jput settled_state_def isDeletedDoc_def)
  have "jlookup d ''_raft_commit_index'' = jlookup d1 ''_raft_commit_index''" "jlookup d ''commit_index'' = jlookup d1 ''commit_index''"
    using wf by (simp_all add: d d2_def d3_def jlookup_jput field_names)
  then have "extractRowCommitIndex d = extractRowCommitIndex d1"
    by (simp only: extractRowCommitIndex_def fieldsRowCommitIndex_def)
  also have "\<dots> = Some ?rc"
    using assms by (cases "extractRowCommitIndex doc")
      (simp_all add: d1_def row_commit_def extractRowCommitIndex_def fieldsRowCommitIndex_def jlookup_jput index_value_def)
  finally show "extractRowCommitIndex d = Some ?rc" .
  show "index_value (jlookup d ''_visibility_floor'')
          = (if jcontains doc ''_visibility_floor'' then index_value (jlookup doc ''_visibility_floor'') else Some ?rc)"
    using wf assms by (simp add: d d3_def d2_def d1_def jlookup_jput field_names jcontains_def)
      (simp add: index_value_def)
qed

theorem stamped_visible:
  assumes "rs_enabled rs" "\<not> standaloneRaftVisibilityBypass rs" "is_object doc" "json_wf doc"
    and "stampVisibilityMetadata rs doc ci = Some d"
  shows "docVisibleByCommitIndex rs d n \<longleftrightarrow>
    row_commit doc ci \<le> ci \<and> row_commit doc ci \<le> n \<and> row_floor doc ci \<le> n"
proof -
  have st: "fieldsHaveVisibleCommitState (jlookup d) \<longleftrightarrow> row_commit doc ci \<le> ci"
    using stamp_cluster(3) [OF assms] by (auto simp: fieldsHaveVisibleCommitState_def settled_state_def)
  have fl: "(case index_value (jlookup d ''_visibility_floor'') of Some fl \<Rightarrow> fl | None \<Rightarrow> row_commit doc ci)
      = row_floor doc ci"
    using stamp_cluster(5) [OF assms]
    by (auto simp: row_floor_def jcontains_def index_value_def split: option.splits)
  show ?thesis
    using assms(1,2) stamp_cluster(1,4) [OF assms] st fl
    by (simp add: docVisibleByCommitIndex_def fieldsVisibleByCommitIndex_def extractRowCommitIndex_def)
qed

end
