(* ===== verification/Sst_Find.thy ===== *)
theory Sst_Find
  imports Sst_Merge
begin

text \<open>
  Point lookup in one table file (\<open>findInSst\<close> of \<open>storage_format_v2.cpp\<close>): a binary search in the block
  index, then the blocks that may hold the identity.  On a written table it returns the row the merge would
  choose.  Also the metadata cache of \<open>loadMetadata\<close>.
\<close>

section \<open>Binary search\<close>

text \<open>\<open>std::lower_bound\<close>: the range from \<open>first\<close> with \<open>n\<close> elements is halved.\<close>

function lower_bound :: "('a \<Rightarrow> bool) \<Rightarrow> 'a list \<Rightarrow> nat \<Rightarrow> nat \<Rightarrow> nat" where
  "lower_bound lt xs first n =
     (if n = 0 then first
      else let half = n div 2; middle = first + half
           in if lt (xs ! middle) then lower_bound lt xs (Suc middle) (n - half - 1)
              else lower_bound lt xs first half)"
  by pat_completeness auto
termination
  by (relation "measure (\<lambda>(lt, xs, first, n). n)") auto

declare lower_bound.simps [simp del]

text \<open>The range is partitioned: what is less comes first.\<close>

lemma lower_bound_partition:
  assumes "\<forall>i < first + n. i < k \<longrightarrow> lt (xs ! i)" "\<forall>i < first + n. k \<le> i \<longrightarrow> \<not> lt (xs ! i)"
    "first \<le> k" "k \<le> first + n"
  shows "lower_bound lt xs first n = k"
  using assms
proof (induction lt xs first n rule: lower_bound.induct)
  case (1 lt xs first n)
  show ?case
  proof (cases "n = 0")
    case False
    let ?m = "first + n div 2"
    have m: "?m < first + n"
      using False by simp
    show ?thesis
    proof (cases "lt (xs ! ?m)")
      case True
      then have "?m < k"
        using "1.prems"(2) m by (meson not_le)
      then show ?thesis
        using "1.IH"(1) [OF False refl refl True] "1.prems" False True
        by (subst lower_bound.simps) (simp add: Let_def)
    next
      case nl: False
      then have "k \<le> ?m"
        using "1.prems"(1) m by (meson not_le)
      then show ?thesis
        using "1.IH"(2) [OF False refl refl nl] "1.prems" False nl
        by (subst lower_bound.simps) (simp add: Let_def)
    qed
  qed (use "1.prems" in \<open>simp add: lower_bound.simps\<close>)
qed

lemma lower_bound_takeWhile:
  assumes "\<forall>x \<in> set (dropWhile lt xs). \<not> lt x"
  shows "lower_bound lt xs 0 (length xs) = length (takeWhile lt xs)"
proof (rule lower_bound_partition)
  show "\<forall>i < 0 + length xs. i < length (takeWhile lt xs) \<longrightarrow> lt (xs ! i)"
    by (metis nth_mem set_takeWhileD takeWhile_nth)
  show "\<forall>i < 0 + length xs. length (takeWhile lt xs) \<le> i \<longrightarrow> \<not> lt (xs ! i)"
  proof (intro allI impI)
    fix i
    assume i: "i < 0 + length xs" "length (takeWhile lt xs) \<le> i"
    have "xs ! i = dropWhile lt xs ! (i - length (takeWhile lt xs))"
      using i by (metis le_add_diff_inverse nth_append_length_plus takeWhile_dropWhile_id)
    moreover have "i - length (takeWhile lt xs) < length (dropWhile lt xs)"
    proof -
      have "length xs = length (takeWhile lt xs) + length (dropWhile lt xs)"
        by (metis length_append takeWhile_dropWhile_id)
      then show ?thesis
        using i by simp
    qed
    ultimately show "\<not> lt (xs ! i)"
      using assms by simp
  qed
qed (simp_all add: length_takeWhile_le)

section \<open>Lookup\<close>

record find_state =
  fs_found :: "json option"
  fs_version :: "int option"

definition find_replaces :: "find_state \<Rightarrow> int option \<Rightarrow> bool" where
  "find_replaces st version \<longleftrightarrow>
     fs_found st = None
     \<or> (case (version, fs_version st) of (Some a, Some b) \<Rightarrow> b \<le> a | _ \<Rightarrow> False)
     \<or> ((version \<noteq> None) \<noteq> (fs_version st \<noteq> None) \<and> version \<noteq> None)
     \<or> version = fs_version st"

text \<open>The identity of a row, with the whole row decoded when its \<open>id\<close> cannot be read alone.\<close>

definition find_key :: "json_codec \<Rightarrow> bytes \<Rightarrow> string option" where
  "find_key c row =
     (case packed_id c True row of
        Some i \<Rightarrow> Some i
      | None \<Rightarrow> map_option (rowId c) (row_materialize (from_msgpack c) (row_view row True)))"

definition find_visit :: "json_codec \<Rightarrow> (bytes \<Rightarrow> bool) \<Rightarrow> string \<Rightarrow> find_state \<Rightarrow> bytes \<Rightarrow> find_state \<times> visit" where
  "find_visit c eligible i st row =
     (case find_key c row of
        None \<Rightarrow> (st, Throw)
      | Some key \<Rightarrow>
          let go = (if key \<le> i then Go else Stop)
          in if key = i \<and> eligible row then
               let version = view_version c True row
               in if find_replaces st version then
                    (case row_materialize (from_msgpack c) (row_view row True) of
                       None \<Rightarrow> (st, Throw)
                     | Some j \<Rightarrow> (\<lparr>fs_found = Some j, fs_version = version\<rparr>, go))
                  else (st, go)
             else (st, go))"

fun find_blocks :: "json_codec \<Rightarrow> lz4 \<Rightarrow> bytes \<Rightarrow> (bytes \<Rightarrow> bool) \<Rightarrow> string \<Rightarrow> BlockIndexEntry list \<Rightarrow> find_state
    \<Rightarrow> sst_error + find_state" where
  "find_blocks c z f eligible i [] st = Inr st"
| "find_blocks c z f eligible i (b # bs) st =
     (if be_firstKey b \<le> i then
        (case readBlockPayload z f b of
           Inl e \<Rightarrow> Inl e
         | Inr (plain, n) \<Rightarrow>
           (case visitBlockRows (find_visit c eligible i) n plain st of
              (st', Failed e) \<Rightarrow> Inl e
            | (st', _) \<Rightarrow> find_blocks c z f eligible i bs st'))
      else Inr st)"

definition findInSst :: "json_codec \<Rightarrow> lz4 \<Rightarrow> bytes \<Rightarrow> (bytes \<Rightarrow> bool) \<Rightarrow> string \<Rightarrow> sst_error + json option" where
  "findInSst c z f eligible i =
     (case parseMetadata f 0 of
        Inl e \<Rightarrow> Inl e
      | Inr md \<Rightarrow>
          let bs = md_blocks md;
              start = lower_bound (\<lambda>e. be_lastKey e < i) bs 0 (length bs)
          in case find_blocks c z f eligible i (drop start bs) \<lparr>fs_found = None, fs_version = None\<rparr> of
               Inl e \<Rightarrow> Inl e
             | Inr st \<Rightarrow> Inr (fs_found st))"

section \<open>The metadata cache\<close>

type_synonym sst_cache = "string \<rightharpoonup> SstMetadata"

definition loadMetadata :: "sst_cache \<Rightarrow> string \<Rightarrow> bytes \<Rightarrow> int \<Rightarrow> sst_cache \<times> (sst_error + SstMetadata)" where
  "loadMetadata cache path f mtime =
     (if length f < kSstHeaderBytes then (cache, Inl CannotStat)
      else
        let miss = (case parseMetadata f mtime of
                      Inl e \<Rightarrow> (cache, Inl e)
                    | Inr md \<Rightarrow> (cache(path \<mapsto> md), Inr md))
        in case cache path of
             None \<Rightarrow> miss
           | Some md \<Rightarrow> if md_fileSize md = length f \<and> md_mtime md = mtime then (cache, Inr md) else miss)"

definition is_prefix_of :: "string \<Rightarrow> string \<Rightarrow> bool" where
  "is_prefix_of p s \<longleftrightarrow> take (length p) s = p"

definition invalidateCaches :: "string \<Rightarrow> sst_cache \<Rightarrow> sst_cache" where
  "invalidateCaches pathPrefix cache = (\<lambda>p. if is_prefix_of pathPrefix p then None else cache p)"

text \<open>
  Files with their modification times.  The cache is coherent when an entry that still passes the
  comparison is what the file holds.
\<close>

definition coherent :: "(string \<rightharpoonup> bytes \<times> int) \<Rightarrow> sst_cache \<Rightarrow> bool" where
  "coherent files cache \<longleftrightarrow>
     (\<forall>p md f t. cache p = Some md \<longrightarrow> files p = Some (f, t) \<longrightarrow> md_fileSize md = length f \<longrightarrow> md_mtime md = t
        \<longrightarrow> parseMetadata f t = Inr md)"

lemma loadMetadata_coherent:
  assumes "coherent files cache" "files p = Some (f, t)"
  shows "snd (loadMetadata cache p f t) = parseMetadata f t" "coherent files (fst (loadMetadata cache p f t))"
proof -
  have short: "length f < kSstHeaderBytes \<Longrightarrow> parseMetadata f t = Inl CannotStat"
    by (simp add: parseMetadata_def)
  have hit: "cache p = Some md \<Longrightarrow> md_fileSize md = length f \<and> md_mtime md = t \<Longrightarrow> parseMetadata f t = Inr md" for md
    using assms by (auto simp: coherent_def)
  show "snd (loadMetadata cache p f t) = parseMetadata f t"
    using short hit by (auto simp: loadMetadata_def Let_def split: option.splits sum.splits)
  show "coherent files (fst (loadMetadata cache p f t))"
    using assms by (auto simp: loadMetadata_def Let_def coherent_def split: option.splits sum.splits if_splits)
qed

text \<open>Publishing a file and then dropping its cache entry keeps the cache coherent.\<close>

lemma publish_coherent:
  assumes "coherent files cache"
  shows "coherent (files(p \<mapsto> (f, t))) (invalidateCaches p cache)"
  using assms by (auto simp: coherent_def invalidateCaches_def is_prefix_of_def split: if_splits)


section \<open>Lookup in a written table\<close>

lemma find_replaces_le: "find_replaces st version \<longleftrightarrow> fs_found st = None \<or> fs_version st \<le> version"
  by (cases version; cases "fs_version st") (auto simp: find_replaces_def)

definition find_step :: "json_codec \<Rightarrow> (bytes \<Rightarrow> bool) \<Rightarrow> find_state \<Rightarrow> bytes \<Rightarrow> find_state" where
  "find_step c el st row =
     (if el row \<and> find_replaces st (view_version c True row)
      then \<lparr>fs_found = from_msgpack c row, fs_version = view_version c True row\<rparr> else st)"

lemma find_visit_keyed:
  assumes "packed_id c True row = Some key" "row \<noteq> []" "from_msgpack c row \<noteq> None"
  shows "find_visit c el i st row = (if key = i then find_step c el st row else st, if key \<le> i then Go else Stop)"
  using assms
  by (auto simp: find_visit_def find_key_def find_step_def row_materialize_def row_view_def Let_def split: prod.splits)

definition decodable :: "json_codec \<Rightarrow> json list \<Rightarrow> bool" where
  "decodable c rows \<longleftrightarrow> (\<forall>r \<in> set rows. to_msgpack c r \<noteq> [] \<and> from_msgpack c (to_msgpack c r) \<noteq> None)"

lemma find_fold:
  assumes "keyed c True rs" "decodable c rs"
  shows "\<exists>x. (\<forall>e. x \<noteq> Failed e) \<and> fold_visit (find_visit c el i) (map (to_msgpack c) rs) st
    = (foldl (find_step c el) st (map (to_msgpack c) (filter (\<lambda>r. rowId c r = i) rs)), x)"
  using assms
proof (induction rs arbitrary: st)
  case (Cons r rs)
  have r: "find_visit c el i st (to_msgpack c r)
      = (if rowId c r = i then find_step c el st (to_msgpack c r) else st, if rowId c r \<le> i then Go else Stop)"
    using Cons.prems by (intro find_visit_keyed) (auto simp: keyed_def decodable_def)
  have tl: "keyed c True rs" "decodable c rs"
    using Cons.prems by (auto simp: keyed_def decodable_def)
  show ?case
  proof (cases "rowId c r \<le> i")
    case True
    then show ?thesis
      using Cons.IH [OF tl] r by auto
  next
    case False
    then have "\<forall>x \<in> set (r # rs). rowId c x \<noteq> i"
      using Cons.prems(1) by (fastforce simp: keyed_def)
    then have "filter (\<lambda>r. rowId c r = i) (r # rs) = []"
      by (simp add: filter_empty_conv)
    then show ?thesis
      using r False by (auto simp del: filter.simps)
  qed
qed simp

lemma entries_from_drop:
  "drop n (entries_from c z off cs) = entries_from c z (off + length (blocks_of c z (take n cs))) (drop n cs)"
  by (induction cs arbitrary: n off) (auto simp: drop_Cons' take_Cons' add.assoc split: nat.splits)

lemma keyed_append: "keyed c ix (xs @ ys) \<Longrightarrow> keyed c ix xs \<and> keyed c ix ys \<and> (\<forall>x \<in> set xs. \<forall>y \<in> set ys. rowId c x \<le> rowId c y)"
  by (auto simp: keyed_def sorted_append)

lemma find_blocks_from:
  assumes good: "table_good c z ds" and key: "keyed c True (concat ds)" and dec: "decodable c (concat ds)"
    and ds: "ds = pre @ cs"
  shows "find_blocks c z (table_of c z tb ds) el i (entries_from c z (64 + length (blocks_of c z pre)) cs) st
    = Inr (foldl (find_step c el) st (map (to_msgpack c) (filter (\<lambda>r. rowId c r = i) (concat cs))))"
  using ds
proof (induction cs arbitrary: pre st)
  case (Cons rs cs)
  let ?off = "64 + length (blocks_of c z pre)"
  let ?f = "table_of c z tb ds"
  have rs: "chunk_ok c rs" "lz4_ok z (plain_of c rs)" "rs \<noteq> []" "\<forall>r \<in> set rs. packed_ok c r"
    using table_good_chunk [OF good, of rs] Cons.prems by simp_all
  have keys: "keyed c True (rs @ concat cs)"
    using key Cons.prems keyed_append [of c True "concat pre" "rs @ concat cs"] by simp
  have decs: "decodable c rs"
    using dec Cons.prems by (simp add: decodable_def)
  have nx: "entries_from c z ?off (rs # cs)
      = entry_of c z ?off rs # entries_from c z (64 + length (blocks_of c z (pre @ [rs]))) cs"
    by (simp add: add.assoc)
  have ih: "find_blocks c z ?f el i (entries_from c z (64 + length (blocks_of c z (pre @ [rs]))) cs) st'
    = Inr (foldl (find_step c el) st' (map (to_msgpack c) (filter (\<lambda>r. rowId c r = i) (concat cs))))" for st'
    using Cons.IH [of "pre @ [rs]" st'] Cons.prems by simp
  show ?case
  proof (cases "rowId c (hd rs) \<le> i")
    case True
    let ?h = "final_header tb (length (concat ds)) (64 + length (blocks_of c z ds)) (length ds)"
    have off: "?off < 2 ^ 64"
      using good Cons.prems by (simp add: table_good_def table_fits_def)
    have f: "?f = (?h @ blocks_of c z pre) @ block_of c z rs @ blocks_of c z cs @ index_bytes (entries_from c z 64 ds)"
      using Cons.prems by (simp add: table_of_def)
    have rd: "readBlockPayload z ?f (entry_of c z ?off rs) = Inr (plain_of c rs, length rs)"
      unfolding f by (rule readBlockPayload_at [OF rs(1,2) _ off]) simp
    obtain x where x: "\<forall>e. x \<noteq> Failed e" "fold_visit (find_visit c el i) (map (to_msgpack c) rs) st
        = (foldl (find_step c el) st (map (to_msgpack c) (filter (\<lambda>r. rowId c r = i) rs)), x)"
      using find_fold [OF _ decs, of el i st] keyed_append [OF keys] by blast
    have "find_blocks c z ?f el i (entries_from c z ?off (rs # cs)) st
        = find_blocks c z ?f el i (entries_from c z (64 + length (blocks_of c z (pre @ [rs]))) cs)
            (foldl (find_step c el) st (map (to_msgpack c) (filter (\<lambda>r. rowId c r = i) rs)))"
      unfolding nx using True rd x
      by (cases x) (simp_all add: visitBlockRows_plain [OF rs(4)], simp_all add: entry_of_def)
    also have "\<dots> = Inr (foldl (find_step c el) st
        (map (to_msgpack c) (filter (\<lambda>r. rowId c r = i) (concat (rs # cs)))))"
      unfolding ih by simp
    finally show ?thesis .
  next
    case False
    obtain r0 rs' where r0: "rs = r0 # rs'"
      using rs(3) by (cases rs) auto
    have "\<forall>r \<in> set (rs' @ concat cs). rowId c r0 \<le> rowId c r"
      using keyed_append [of c True "[r0]" "rs' @ concat cs"] keys by (simp add: r0)
    then have "\<forall>r \<in> set (rs @ concat cs). rowId c (hd rs) \<le> rowId c r"
      by (simp add: r0)
    then have "\<forall>r \<in> set (concat (rs # cs)). rowId c r \<noteq> i"
      using False by auto
    then have none: "filter (\<lambda>r. rowId c r = i) (concat (rs # cs)) = []"
      by (simp add: filter_empty_conv)
    show ?thesis
      unfolding none nx using False by (simp add: entry_of_def)
  qed
qed simp


lemma find_step_newest:
  assumes "\<forall>r \<in> set rows. from_msgpack c r \<noteq> None"
    "fs_found st = (if nw_found b then from_msgpack c (nw_bytes b) else None)"
    "nw_found b \<longrightarrow> fs_version st = nw_version b \<and> from_msgpack c (nw_bytes b) \<noteq> None" "nw_file b = 0"
  shows "fs_found (foldl (find_step c el) st rows) =
    (let b' = foldl (\<lambda>b r. consider_row (view_version c True) el 0 r b) b rows
     in if nw_found b' then from_msgpack c (nw_bytes b') else None)"
  using assms
proof (induction rows arbitrary: st b)
  case (Cons r rows)
  let ?st = "find_step c el st r" and ?b = "consider_row (view_version c True) el 0 r b"
  have eq: "find_replaces st (view_version c True r) \<longleftrightarrow> replaces b (view_version c True r) 0"
    using Cons.prems by (auto simp: find_replaces_le replaces_rank)
  have "fs_found (foldl (find_step c el) ?st rows) =
    (let b' = foldl (\<lambda>b r. consider_row (view_version c True) el 0 r b) ?b rows
     in if nw_found b' then from_msgpack c (nw_bytes b') else None)"
    using Cons.prems by (intro Cons.IH) (auto simp: find_step_def consider_row_def eq Let_def)
  then show ?case
    by simp
qed simp

text \<open>The lookup returns the row the merge of this one table would choose.\<close>

theorem find_table:
  assumes good: "table_good c z cs" and key: "keyed c True (concat cs)" and dec: "decodable c (concat cs)"
  shows "findInSst c z (table_of c z tb cs) el i =
    (let b = newest_of (view_version c True) el i [keyed_rows c (concat cs)]
     in Inr (if nw_found b then from_msgpack c (nw_bytes b) else None))"
proof -
  let ?es = "entries_from c z 64 cs" and ?lt = "\<lambda>e. be_lastKey e < i"
  have fits: "table_fits c z cs"
    using good by (simp add: table_good_def)
  have ne: "\<forall>rs \<in> set cs. rs \<noteq> []"
    using table_good_chunk [OF good] by blast
  define n where "n = length (takeWhile ?lt ?es)"
  have keys: "map be_lastKey (entries_from c z off ds) = map (\<lambda>rs. rowId c (last rs)) ds" for off ds
    by (induction ds arbitrary: off) (simp_all add: entry_of_def)
  have srt: "\<forall>rs \<in> set ds. rs \<noteq> [] \<Longrightarrow> keyed c True (concat ds) \<Longrightarrow> sorted (map (\<lambda>rs. rowId c (last rs)) ds)" for ds
  proof (induction ds)
    case (Cons rs ds)
    have "rowId c (last rs) \<le> rowId c (last qs)" if "qs \<in> set ds" for qs
      using keyed_append [of c True rs "concat ds"] Cons.prems that by fastforce
    then show ?case
      using Cons keyed_append [of c True rs "concat ds"] by simp
  qed simp
  have sk: "sorted (map be_lastKey ?es)"
    unfolding keys by (rule srt [OF ne key])
  have "sorted (map be_lastKey es) \<Longrightarrow> \<forall>x \<in> set (dropWhile ?lt es). \<not> ?lt x" for es
    by (induction es) (auto simp: not_less dest: order_trans)
  from lower_bound_takeWhile [OF this [OF sk]] have lb: "lower_bound ?lt ?es 0 (length ?es) = n"
    unfolding n_def .
  have none: "filter (\<lambda>r. rowId c r = i) (concat (take n cs)) = []"
  proof -
    have "rowId c r < i" if rs: "rs \<in> set (take n cs)" and r: "r \<in> set rs" for rs r
    proof -
      have "take n ?es = takeWhile ?lt ?es"
        by (simp add: n_def takeWhile_eq_take [symmetric])
      then have lts: "\<forall>k \<in> set (map be_lastKey (take n ?es)). k < i"
        using set_takeWhileD by fastforce
      have tk: "map be_lastKey (take n ?es) = map (\<lambda>rs. rowId c (last rs)) (take n cs)"
        by (metis keys take_map)
      have "rowId c (last rs) < i"
        using lts rs unfolding tk by simp
      moreover have "rowId c r \<le> rowId c (last rs)"
      proof -
        obtain us vs where cs: "cs = us @ rs # vs"
          using rs by (meson in_set_takeD split_list)
        then have "keyed c True rs"
          using key keyed_append [of c True "concat us" "rs @ concat vs"] keyed_append [of c True rs "concat vs"] by simp
        then have "sorted (map (rowId c) rs)"
          by (simp add: keyed_def)
        then show ?thesis
          using r by (cases rs rule: rev_cases) (auto simp: sorted_append)
      qed
      ultimately show ?thesis by simp
    qed
    then show ?thesis
      by (force simp: filter_empty_conv)
  qed
  have all: "filter (\<lambda>r. rowId c r = i) (concat (drop n cs)) = filter (\<lambda>r. rowId c r = i) (concat cs)"
    using none by (metis append_Nil append_take_drop_id concat_append filter_append)
  have "cs = take n cs @ drop n cs"
    by simp
  note fb = find_blocks_from [OF good key dec this, of tb el i, folded entries_from_drop]
  have cand: "candidates i [keyed_rows c (concat cs)]
      = map (\<lambda>r. (0, to_msgpack c r)) (filter (\<lambda>r. rowId c r = i) (concat cs))"
    by (simp add: candidates_def keyed_rows_def filter_map comp_def)
  define st0 where "st0 = \<lparr>fs_found = None :: json option, fs_version = None :: int option\<rparr>"
  define rows where "rows = map (to_msgpack c) (filter (\<lambda>r. rowId c r = i) (concat cs))"
  have fi: "findInSst c z (table_of c z tb cs) el i = Inr (fs_found (foldl (find_step c el) st0 rows))"
    by (simp add: findInSst_def parse_table [OF fits] lb [simplified] fb all st0_def rows_def)
  have nw: "newest_of (view_version c True) el i [keyed_rows c (concat cs)]
      = foldl (\<lambda>b r. consider_row (view_version c True) el 0 r b) nothing rows"
    by (simp add: newest_of_def cand foldl_map rows_def)
  have "\<forall>r \<in> set rows. from_msgpack c r \<noteq> None"
    using dec by (auto simp: decodable_def rows_def)
  from find_step_newest [OF this, of st0 nothing el] show ?thesis
    unfolding fi nw by (simp add: st0_def nothing_def Let_def)
qed

end
