(* ===== verification/Sst_Bloom.thy ===== *)
theory Sst_Bloom
  imports Sst_Format
begin

unbundle bit_operations_syntax

text \<open>
  The Bloom filter beside a table file (\<open>buildBloom\<close>, \<open>mapBloom\<close> and \<open>bloomMayContain\<close> of
  \<open>storage_format_v2.cpp\<close>): seven probes per key from two hashes, kept in 64-bit words behind a header of
  48 bytes.  The words are mapped as they lie in the file, in the little-endian order of the targets.
\<close>

section \<open>Hashing\<close>

definition fnv1a :: "string \<Rightarrow> u64 \<Rightarrow> u64" where
  "fnv1a value seed =
     (let h1 = fnv1a_from (1469598103934665603 XOR seed) (bytes_of value);
          h2 = h1 XOR drop_bit 33 h1;
          h3 = h2 * 0xff51afd7ed558ccd
      in h3 XOR drop_bit 33 h3)"

definition bloom_bit :: "u64 \<Rightarrow> string \<Rightarrow> nat \<Rightarrow> nat" where
  "bloom_bit bitCount key i =
     (let first = fnv1a key 0x9e3779b97f4a7c15; second = fnv1a key 0xc2b2ae3d27d4eb4f OR 1
      in unat ((first + of_nat i * second) mod bitCount))"

section \<open>Building\<close>

definition kBloomMagic :: bytes where
  "kBloomMagic = bytes_of ''PDBBLM2'' @ [0]"

definition kBloomHeaderBytes :: nat where
  "kBloomHeaderBytes = 48"

definition bloom_bit_count :: "nat \<Rightarrow> u64" where
  "bloom_bit_count n = max 64 (((of_nat n * 10 + 63) div 64) * 64)"

definition set_word_bit :: "u64 list \<Rightarrow> nat \<Rightarrow> u64 list" where
  "set_word_bit ws b = ws[b div 64 := ws ! (b div 64) OR push_bit (b mod 64) 1]"

definition add_key :: "u64 \<Rightarrow> u64 list \<Rightarrow> string \<Rightarrow> u64 list" where
  "add_key bitCount ws key = foldl (\<lambda>ws i. set_word_bit ws (bloom_bit bitCount key i)) ws [0..<7]"

definition bloom_words :: "string list \<Rightarrow> u64 list" where
  "bloom_words keys =
     (let bitCount = bloom_bit_count (length keys)
      in foldl (add_key bitCount) (replicate (unat (bitCount div 64)) 0) keys)"

definition words_bytes :: "u64 list \<Rightarrow> bytes" where
  "words_bytes ws = concat (map (le_bytes 8) ws)"

definition bloom_header :: "u32 \<Rightarrow> u64 \<Rightarrow> u64 \<Rightarrow> u64 \<Rightarrow> u32 \<Rightarrow> bytes" where
  "bloom_header hashes bitCount keyCount wordCount crc =
     kBloomMagic @ le_bytes 4 kVersion @ le_bytes 4 hashes @ le_bytes 8 bitCount @ le_bytes 8 keyCount
       @ le_bytes 8 wordCount @ le_bytes 4 crc @ le_bytes 4 (0 :: u32)"

definition buildBloom :: "string list \<Rightarrow> bytes" where
  "buildBloom keys =
     (let ws = bloom_words keys
      in bloom_header 7 (bloom_bit_count (length keys)) (of_nat (length keys)) (of_nat (length ws))
           (crc32 (words_bytes ws)) @ words_bytes ws)"

section \<open>Asking\<close>

record BloomView =
  bv_bitCount :: u64
  bv_hashes :: nat
  bv_words :: "u64 list"

fun words_of :: "nat \<Rightarrow> bytes \<Rightarrow> u64 list" where
  "words_of 0 bs = []"
| "words_of (Suc n) bs = le_word (take 8 bs) # words_of n (drop 8 bs)"

definition bloom_fields :: "bytes \<Rightarrow> (u32 \<times> u32 \<times> u64 \<times> u64 \<times> u32) option" where
  "bloom_fields bs = do {
     (version, r1) \<leftarrow> readU32 bs;
     (hashes, r2) \<leftarrow> readU32 r1;
     (bitCount, r3) \<leftarrow> readU64 r2;
     (keyCount, r4) \<leftarrow> readU64 r3;
     (wordCount, r5) \<leftarrow> readU64 r4;
     (checksum, r6) \<leftarrow> readU32 r5;
     (reserved, r7) \<leftarrow> readU32 r6;
     Some (version, hashes, bitCount, wordCount, checksum) }"

definition mapBloom :: "bytes \<Rightarrow> BloomView option" where
  "mapBloom f =
     (if length f < kBloomHeaderBytes + 8 \<or> take 8 f \<noteq> kBloomMagic then None
      else case bloom_fields (drop 8 f) of
        None \<Rightarrow> None
      | Some (version, hashes, bitCount, wordCount, checksum) \<Rightarrow>
          if version \<noteq> kVersion \<or> hashes = 0 \<or> 16 < hashes \<or> bitCount < 64 \<or> bitCount mod 64 \<noteq> 0
             \<or> wordCount \<noteq> bitCount div 64
             \<or> of_nat kBloomHeaderBytes + wordCount * 8 \<noteq> of_nat (length f) then None
          else if crc32 (take (unat wordCount * 8) (drop kBloomHeaderBytes f)) \<noteq> checksum then None
          else Some \<lparr>bv_bitCount = bitCount, bv_hashes = unat hashes,
                     bv_words = words_of (unat wordCount) (drop kBloomHeaderBytes f)\<rparr>)"

text \<open>\<open>None\<close>: the sidecar is missing or invalid and the caller has to read the table.\<close>

definition bloomMayContain :: "bytes option \<Rightarrow> string \<Rightarrow> bool option" where
  "bloomMayContain sidecar key =
     (case sidecar of
        None \<Rightarrow> None
      | Some f \<Rightarrow>
         map_option (\<lambda>v. \<forall>i \<in> set [0..<bv_hashes v].
             let b = bloom_bit (bv_bitCount v) key i
             in bv_words v ! (b div 64) AND push_bit (b mod 64) 1 \<noteq> 0) (mapBloom f))"

section \<open>No key of the table is denied\<close>

definition word_bit :: "u64 list \<Rightarrow> nat \<Rightarrow> bool" where
  "word_bit ws b \<longleftrightarrow> bit (ws ! (b div 64)) (b mod 64)"

lemma and_push_bit: "(w :: u64) AND 2 ^ k \<noteq> 0 \<longleftrightarrow> bit w k"
  using bit_iff_and_push_bit_not_eq_0 [of w k] by simp

lemma word_bit_set_word_bit:
  assumes "b div 64 < length ws" "a div 64 < length ws"
  shows "word_bit (set_word_bit ws a) b \<longleftrightarrow> word_bit ws b \<or> a = b"
proof -
  have "a = b \<longleftrightarrow> a div 64 = b div 64 \<and> a mod 64 = b mod 64"
    by (metis div_mult_mod_eq)
  moreover have "bit (push_bit k (1 :: u64)) n \<longleftrightarrow> k = n \<and> n < 64" for k n
    by (auto simp: bit_simps dest: bit_imp_le_length)
  ultimately show ?thesis
    using assms by (auto simp: word_bit_def set_word_bit_def nth_list_update bit_or_iff)
qed

lemma length_set_word_bit [simp]: "length (set_word_bit ws b) = length ws"
  by (simp add: set_word_bit_def)

lemma set_bits_fold:
  assumes "\<forall>a \<in> set as. a div 64 < length ws" "b div 64 < length ws"
  shows "length (foldl set_word_bit ws as) = length ws"
    "word_bit (foldl set_word_bit ws as) b \<longleftrightarrow> word_bit ws b \<or> b \<in> set as"
  using assms by (induction as arbitrary: ws) (auto simp: word_bit_set_word_bit)

definition bloom_bits :: "u64 \<Rightarrow> string list \<Rightarrow> nat list" where
  "bloom_bits bitCount keys = concat (map (\<lambda>k. map (bloom_bit bitCount k) [0..<7]) keys)"

lemma add_keys_fold: "foldl (add_key bitCount) ws keys = foldl set_word_bit ws (bloom_bits bitCount keys)"
  by (induction keys arbitrary: ws) (simp_all add: bloom_bits_def add_key_def foldl_map)

lemma bloom_bit_less: "0 < bitCount \<Longrightarrow> bloom_bit bitCount key i < unat bitCount"
  by (simp add: bloom_bit_def Let_def unat_mod_distrib unat_gt_0)


definition bloom_bits_nat :: "nat \<Rightarrow> nat" where
  "bloom_bits_nat n = max 64 ((n * 10 + 63) div 64 * 64)"

lemma bloom_bits_nat_dvd: "bloom_bits_nat n mod 64 = 0" "64 \<le> bloom_bits_nat n"
  by (simp_all add: bloom_bits_nat_def max_def)

lemma bloom_bit_count_nat:
  assumes "n < 2 ^ 50"
  shows "bloom_bit_count n = of_nat (bloom_bits_nat n)" "bloom_bits_nat n < 2 ^ 55"
proof -
  let ?k = "(n * 10 + 63) div 64 * 64"
  have k: "?k < 2 ^ 55"
  proof -
    have "?k \<le> n * 10 + 63"
      by simp
    then show ?thesis
      using assms by simp
  qed
  have "(of_nat n * 10 + 63 :: u64) div 64 = of_nat ((n * 10 + 63) div 64)"
  proof -
    have "unat (of_nat n * 10 + 63 :: u64) = n * 10 + 63"
    proof -
      have "(of_nat n * 10 + 63 :: u64) = of_nat (n * 10 + 63)"
        by simp
      then show ?thesis
        using assms by (simp only: unat_of_nat) simp
    qed
    then show ?thesis
      using assms by (simp add: word_unat_eq_iff unat_div_distrib unat_of_nat)
  qed
  then have eq: "(of_nat n * 10 + 63 :: u64) div 64 * 64 = of_nat ?k"
    by simp
  have "unat (of_nat ?k :: u64) = ?k"
    using k by (simp only: unat_of_nat) simp
  then have "bloom_bit_count n = (if 64 \<le> ?k then of_nat ?k else 64)"
    unfolding bloom_bit_count_def eq max_def by (simp only: word_le_nat_alt) simp
  then show "bloom_bit_count n = of_nat (bloom_bits_nat n)"
    unfolding bloom_bits_nat_def max_def by (simp del: of_nat_mult)
  show "bloom_bits_nat n < 2 ^ 55"
    unfolding bloom_bits_nat_def using k by (simp add: max_def)
qed

lemma unat_small: "n < 2 ^ 55 \<Longrightarrow> unat (of_nat n :: u64) = n"
  by (simp add: unat_of_nat)

lemma length_words_bytes [simp]: "length (words_bytes ws) = 8 * length ws"
  by (induction ws) (simp_all add: words_bytes_def)

lemma words_of_words_bytes [codec_simps]: "words_of (length ws) (words_bytes ws) = ws"
  by (induction ws) (simp_all add: words_bytes_def le_word_roundtrip)

lemma length_bloom_header [simp]: "length (bloom_header h b k w c) = 48"
  by (simp add: bloom_header_def kBloomMagic_def)

lemma bloom_header_fields:
  "take 8 (bloom_header h b k w c) = kBloomMagic"
  "bloom_fields (drop 8 (bloom_header h b k w c) @ r) = Some (kVersion, h, b, w, c)"
proof -
  have m: "length kBloomMagic = 8"
    by (simp add: kBloomMagic_def)
  show "take 8 (bloom_header h b k w c) = kBloomMagic"
    using m by (simp add: bloom_header_def)
  have "drop 8 (bloom_header h b k w c) @ r = le_bytes 4 kVersion @ le_bytes 4 h @ le_bytes 8 b @ le_bytes 8 k
       @ le_bytes 8 w @ le_bytes 4 c @ le_bytes 4 (0 :: u32) @ r"
    using m by (simp add: bloom_header_def)
  then show "bloom_fields (drop 8 (bloom_header h b k w c) @ r) = Some (kVersion, h, b, w, c)"
    by (simp add: bloom_fields_def codec_simps)
qed

lemma bloom_words_bits:
  assumes n: "length keys < 2 ^ 50"
  defines "m \<equiv> bloom_bits_nat (length keys)"
  shows "length (bloom_words keys) = m div 64"
    and "key \<in> set keys \<Longrightarrow> i < 7 \<Longrightarrow> word_bit (bloom_words keys) (bloom_bit (of_nat m) key i)"
    and "bloom_bit (of_nat m) key i div 64 < m div 64"
proof -
  have m: "bloom_bit_count (length keys) = of_nat m" "m < 2 ^ 55" "m mod 64 = 0" "64 \<le> m"
    using bloom_bit_count_nat [OF n] bloom_bits_nat_dvd by (simp_all add: m_def)
  have um: "unat (of_nat m :: u64) = m"
    using unat_small [OF m(2)] .
  have pos: "(0 :: u64) < of_nat m"
    using um m(4) by (simp only: word_less_nat_alt) simp
  have lt: "bloom_bit (of_nat m) k j div 64 < m div 64" for k j
  proof -
    have "bloom_bit (of_nat m) k j < m"
      using bloom_bit_less [OF pos] um by simp
    then show ?thesis
      using m(3) by (metis div_mult_mod_eq add.right_neutral div_less_iff_less_mult zero_less_numeral)
  qed
  then show "bloom_bit (of_nat m) key i div 64 < m div 64" .
  have wn: "unat (of_nat m div 64 :: u64) = m div 64"
    using um by (simp add: unat_div_distrib)
  let ?ws = "replicate (m div 64) 0 :: u64 list"
  have bw: "bloom_words keys = foldl set_word_bit ?ws (bloom_bits (of_nat m) keys)"
    by (simp add: bloom_words_def m(1) add_keys_fold wn Let_def)
  have all: "\<forall>a \<in> set (bloom_bits (of_nat m) keys). a div 64 < length ?ws"
    using lt by (auto simp: bloom_bits_def)
  show "length (bloom_words keys) = m div 64"
    using set_bits_fold(1) [OF all, of "bloom_bit (of_nat m) key i"] lt unfolding bw by simp
  show "word_bit (bloom_words keys) (bloom_bit (of_nat m) key i)" if "key \<in> set keys" "i < 7"
  proof -
    have "bloom_bit (of_nat m) key i \<in> set (bloom_bits (of_nat m) keys)"
      using that by (force simp: bloom_bits_def)
    then show ?thesis
      using set_bits_fold(2) [OF all, of "bloom_bit (of_nat m) key i"] lt unfolding bw by simp
  qed
qed

lemma mapBloom_build:
  assumes n: "length keys < 2 ^ 50"
  shows "mapBloom (buildBloom keys)
    = Some \<lparr>bv_bitCount = of_nat (bloom_bits_nat (length keys)), bv_hashes = 7, bv_words = bloom_words keys\<rparr>"
proof -
  define m where "m = bloom_bits_nat (length keys)"
  define w where "w = bloom_words keys"
  have m: "bloom_bit_count (length keys) = of_nat m" "m < 2 ^ 55" "m mod 64 = 0" "64 \<le> m"
    using bloom_bit_count_nat [OF n] bloom_bits_nat_dvd by (simp_all add: m_def)
  have len: "length w = m div 64"
    using bloom_words_bits(1) [OF n] by (simp add: m_def w_def)
  have um: "unat (of_nat m :: u64) = m" "unat (of_nat (length w) :: u64) = length w"
    using m(2) len by (simp_all add: unat_small)
  have wc: "(of_nat (length w) :: u64) = of_nat m div 64"
    using um len by (simp add: word_unat_eq_iff unat_div_distrib)
  have md: "(of_nat m :: u64) mod 64 = 0" "\<not> (of_nat m :: u64) < 64"
    using um m(3,4) by (simp_all add: word_unat_eq_iff unat_mod_distrib word_less_nat_alt)
  have sz: "(48 + of_nat m div 64 * 8 :: u64) = of_nat (48 + 8 * length w)"
    by (simp add: wc [symmetric])
  have "0 < length w"
    using len m(4) by (simp add: div_greater_zero_iff)
  moreover have "words_of (length w) (words_bytes w) = w"
    by (rule words_of_words_bytes)
  ultimately show ?thesis
    unfolding m_def [symmetric] w_def [symmetric] mapBloom_def buildBloom_def Let_def
    using um(2) by (simp add: w_def [symmetric] m(1) bloom_header_fields kBloomHeaderBytes_def md wc sz)
qed

theorem bloom_member:
  assumes "length keys < 2 ^ 50" "key \<in> set keys"
  shows "bloomMayContain (Some (buildBloom keys)) key = Some True"
  using bloom_words_bits(2) [OF assms(1,2)]
  by (auto simp: bloomMayContain_def mapBloom_build [OF assms(1)] and_push_bit word_bit_def Let_def)

end
