(* ===== verification/Lsm_Table.thy ===== *)
theory Lsm_Table
  imports Lsm_Manifest Lsm_Visibility Sst_Find Sst_Bloom
begin

text \<open>
  The files of a collection's tables: writing a table and its Bloom sidecar through system calls
  (\<open>writeSst\<close>, \<open>buildBloom\<close> of \<open>storage_format_v2.cpp\<close>), scanning a table row by row and looking one
  identity up in it (\<open>scanSstRows\<close>, \<open>buildBloomForSST\<close>, \<open>mayExistInSST\<close>, \<open>seekDocInSSTById\<close> of
  \<open>lsm.cpp\<close>).  The sidecars of text tables, which no code writes any more, are left out.
\<close>

section \<open>Writing\<close>

datatype table_error = TableImage sst_error | TableWrite | TableSync | TablePublish

text \<open>The encoded table is written in one call; at a row the encoder refuses the temporary file keeps the blocks so far.\<close>

fun sst_partial :: "json_codec \<Rightarrow> lz4 \<Rightarrow> nat \<Rightarrow> json list \<Rightarrow> sst_writer \<Rightarrow> bytes" where
  "sst_partial c z tb [] w = w_out w"
| "sst_partial c z tb (row # rows) w =
     (case add_row c z tb row w of Inl e \<Rightarrow> w_out w | Inr w' \<Rightarrow> sst_partial c z tb rows w')"

definition writeSst :: "json_codec \<Rightarrow> lz4 \<Rightarrow> nat \<Rightarrow> fsys \<Rightarrow> string \<Rightarrow> json list \<Rightarrow> fsys \<times> table_error option" where
  "writeSst c z target s path rows =
     (let temporary = path @ ''.writing''; s0 = removeFile s temporary
      in case sst_image c z target rows of
           Inl e \<Rightarrow>
             (fst (writeFile s0 temporary (sst_partial c z (max 4096 (min target 16384)) rows writer_init)), Some (TableImage e))
         | Inr (f, st) \<Rightarrow>
             let (s1, ok1) = writeFile s0 temporary f
             in if \<not> ok1 then (s1, Some TableWrite)
                else let (s2, ok2) = syncFile s1 temporary
                  in if \<not> ok2 then (s2, Some TableSync)
                     else let (s3, ok3) = renameFile s2 temporary path
                       in if \<not> ok3 then (s3, Some TablePublish)
                          else let (s4, ok4) = syncDirectory s3
                            in (s4, if ok4 then None else Some TablePublish))"

definition writeBloom :: "fsys \<Rightarrow> string \<Rightarrow> string list \<Rightarrow> fsys \<times> bool" where
  "writeBloom s sstPath keys =
     (let finalPath = sstPath @ ''.bloom''; temporary = finalPath @ ''.tmp'';
          (s1, ok1) = writeFile s temporary (buildBloom keys)
      in if \<not> ok1 then (s1, False)
         else let (s2, ok2) = syncFile s1 temporary
           in if \<not> ok2 then (s2, False)
              else let (s3, ok3) = renameFile s2 temporary finalPath;
                       (s4, ok4) = (if ok3 then (s3, True) else renameFile (removeFile s3 finalPath) temporary finalPath)
                in if \<not> ok4 then (s4, False) else syncDirectory s4)"

section \<open>Reading\<close>

fun text_lines :: "nat \<Rightarrow> bytes \<Rightarrow> bytes list" where
  "text_lines 0 bs = []"
| "text_lines (Suc n) bs = (case next_line bs of None \<Rightarrow> [] | Some (l, r) \<Rightarrow> l # text_lines n r)"

definition scanSstRows :: "json_codec \<Rightarrow> lz4 \<Rightarrow> bytes \<Rightarrow> ('s \<Rightarrow> json \<Rightarrow> 's \<times> visit) \<Rightarrow> 's \<Rightarrow> 's \<times> outcome" where
  "scanSstRows c z f v s =
     (if isBinarySst f then scanSst c z f v s
      else fold_visit (\<lambda>s l. case jparse c l of Some j \<Rightarrow> v s j | None \<Rightarrow> (s, Throw)) (text_lines (length f) f) s)"

text \<open>All rows of a table, for the visitors that never stop.\<close>

definition sst_rows :: "json_codec \<Rightarrow> lz4 \<Rightarrow> bytes \<Rightarrow> sst_error + json list" where
  "sst_rows c z f =
     (case scanSstRows c z f (\<lambda>rs r. (rs @ [r], Go)) [] of
        (rs, Failed e) \<Rightarrow> Inl e
      | (rs, _) \<Rightarrow> Inr rs)"

definition buildBloomForSST :: "json_codec \<Rightarrow> lz4 \<Rightarrow> fsys \<Rightarrow> string \<Rightarrow> fsys" where
  "buildBloomForSST c z s path =
     (case file_of (fs_disk s) path of
        None \<Rightarrow> s
      | Some f \<Rightarrow>
         (if isBinarySst f then
            (case sst_rows c z f of
               Inl e \<Rightarrow> s
             | Inr rows \<Rightarrow> fst (writeBloom s path (map (rowId c) (filter (\<lambda>r. jcontains r ''id'') rows))))
          else s))"

definition mayExistInSST :: "disk \<Rightarrow> string \<Rightarrow> string \<Rightarrow> bool" where
  "mayExistInSST d path key = (case bloomMayContain (file_of d (path @ ''.bloom'')) key of None \<Rightarrow> True | Some b \<Rightarrow> b)"

text \<open>The projection of the visibility fields that the code checks has exactly these fields of the row.\<close>

definition row_visible :: "json_codec \<Rightarrow> raft_status \<Rightarrow> u64 \<Rightarrow> bytes \<Rightarrow> bool" where
  "row_visible c rs ci row = fieldsVisibleByCommitIndex rs (row_field (from_msgpack c) (row_view row True)) ci"

text \<open>A lookup in a binary table; \<open>Inl\<close> is the exception the caller sees.\<close>

definition seekDocInSSTById :: "json_codec \<Rightarrow> lz4 \<Rightarrow> raft_status \<Rightarrow> u64 \<Rightarrow> disk \<Rightarrow> string \<Rightarrow> string \<Rightarrow> sst_error + json option" where
  "seekDocInSSTById c z rs ci d path i =
     (if \<not> mayExistInSST d path i then Inr None
      else case file_of d path of
             None \<Rightarrow> Inl CannotStat
           | Some f \<Rightarrow> findInSst c z f (row_visible c rs ci) i)"

section \<open>What the calls keep\<close>

text \<open>
  A property of the directory that no call can break as long as the names of \<open>N\<close> are left alone; the routines
  that only touch other names keep it.
\<close>

locale call_invariant =
  fixes N :: "string set" and Q :: "fsys \<Rightarrow> bool"
  assumes writeFile_keeps: "Q s \<Longrightarrow> n \<notin> N \<Longrightarrow> writeFile s n bs = (s', ok) \<Longrightarrow> Q s'"
    and syncFile_keeps: "Q s \<Longrightarrow> syncFile s n = (s', ok) \<Longrightarrow> Q s'"
    and syncDirectory_keeps: "Q s \<Longrightarrow> syncDirectory s = (s', ok) \<Longrightarrow> Q s'"
    and renameFile_keeps: "Q s \<Longrightarrow> a \<notin> N \<Longrightarrow> b \<notin> N \<Longrightarrow> renameFile s a b = (s', ok) \<Longrightarrow> Q s'"
    and removeFile_keeps: "Q s \<Longrightarrow> n \<notin> N \<Longrightarrow> Q (removeFile s n)"
begin

lemma writeBloom_keeps:
  assumes h: "Q s" and N: "sstPath @ ''.bloom'' \<notin> N" "sstPath @ ''.bloom.tmp'' \<notin> N"
    and w: "writeBloom s sstPath keys = (s', ok)"
  shows "Q s'"
proof -
  let ?f = "sstPath @ ''.bloom''"
  let ?t = "?f @ ''.tmp''"
  have tN: "?t \<notin> N"
    using N(2) by simp
  obtain s1 ok1 where s1: "writeFile s ?t (buildBloom keys) = (s1, ok1)"
    by (cases "writeFile s ?t (buildBloom keys)")
  note h1 = writeFile_keeps [OF h tN s1]
  obtain s2 ok2 where s2: "syncFile s1 ?t = (s2, ok2)"
    by (cases "syncFile s1 ?t")
  note h2 = syncFile_keeps [OF h1 s2]
  obtain s3 ok3 where s3: "renameFile s2 ?t ?f = (s3, ok3)"
    by (cases "renameFile s2 ?t ?f")
  note h3 = renameFile_keeps [OF h2 tN N(1) s3]
  obtain s4 ok4 where s4: "(if ok3 then (s3, True) else renameFile (removeFile s3 ?f) ?t ?f) = (s4, ok4)"
    by (cases "if ok3 then (s3, True) else renameFile (removeFile s3 ?f) ?t ?f")
  have h4: "Q s4"
    using s4 h3 renameFile_keeps [OF removeFile_keeps [OF h3 N(1)] tN N(1)] by (auto split: if_splits)
  have "writeBloom s sstPath keys = (if \<not> ok1 then (s1, False) else if \<not> ok2 then (s2, False)
      else if \<not> ok4 then (s4, False) else syncDirectory s4)"
    unfolding writeBloom_def Let_def s1 prod.case s2 s3 s4 by simp
  then show ?thesis
    using w h1 h2 h4 syncDirectory_keeps [OF h4, of s' ok] by (auto split: if_splits)
qed

lemma buildBloomForSST_keeps:
  assumes "Q s" "path @ ''.bloom'' \<notin> N" "path @ ''.bloom.tmp'' \<notin> N"
  shows "Q (buildBloomForSST c z s path)"
  using assms writeBloom_keeps [OF assms, OF surjective_pairing]
  by (auto simp: buildBloomForSST_def split: option.splits sum.splits)

end

text \<open>Contents that were settled stay so, now and at every point a crash can interrupt.\<close>

interpretation now: call_invariant N "\<lambda>s. holds d0 N (fs_disk s)" for d0 N
  by unfold_locales
    (auto simp: writeFile_def syncFile_def syncDirectory_def renameFile_def removeFile_def holds_ops
      split: option.splits if_splits)

interpretation trace: call_invariant N "always (holds d0 N)" for d0 N
  by unfold_locales
    (auto simp: writeFile_def syncFile_def syncDirectory_def renameFile_def removeFile_def holds_ops always_now
      split: option.splits if_splits)

lemma renameFile_moves:
  assumes "renameFile s a b = (s', True)" "disk_wf (fs_disk s)" "a \<noteq> b"
  shows "file_of (fs_disk s') b = file_of (fs_disk s) a" "data_synced (fs_disk s) a \<Longrightarrow> data_synced (fs_disk s') b"
    "disk_wf (fs_disk s')"
proof -
  have l: "map_of (d_live (fs_disk s)) a \<noteq> None" "s' = fs_do (move_name (fs_disk s) a b) s"
    using assms(1) by (auto simp: renameFile_def split: if_splits)
  obtain i where i: "map_of (d_live (fs_disk s)) a = Some i"
    using l(1) by auto
  have "map_of (d_live (fs_disk s')) b = Some i" "d_nodes (fs_disk s') = d_nodes (fs_disk s)"
    using l(2) i assms(2,3) by (simp_all add: move_name_def disk_wf_def)
  then show "file_of (fs_disk s') b = file_of (fs_disk s) a" "data_synced (fs_disk s) a \<Longrightarrow> data_synced (fs_disk s') b"
    using i by (simp_all add: file_of_def node_of_def data_synced_def)
  show "disk_wf (fs_disk s')"
    using l(2) move_name_wf [OF assms(2)] by simp
qed

theorem writeSst_spec:
  assumes w: "writeSst c z target s path rows = (s', r)" and h: "always (holds d0 N) s"
    and N: "path \<notin> N" "path @ ''.writing'' \<notin> N"
  shows "always (holds d0 N) s'"
    and "r = None \<Longrightarrow> \<exists>f st. sst_image c z target rows = Inr (f, st)
           \<and> file_of (fs_disk s') path = Some f \<and> settled (fs_disk s') path"
proof -
  let ?t = "path @ ''.writing''"
  note h0 = trace.removeFile_keeps [OF h N(2)]
  have "always (holds d0 N) s' \<and> (r = None \<longrightarrow> (\<exists>f st. sst_image c z target rows = Inr (f, st)
           \<and> file_of (fs_disk s') path = Some f \<and> settled (fs_disk s') path))"
  proof (cases "sst_image c z target rows")
    case (Inl e)
    then show ?thesis
      using w trace.writeFile_keeps [OF h0 N(2), OF surjective_pairing] by (auto simp: writeSst_def Let_def)
  next
    case (Inr fst)
    obtain f st where f: "fst = (f, st)"
      by (cases fst)
    obtain s1 ok1 where s1: "writeFile (removeFile s ?t) ?t f = (s1, ok1)"
      by (cases "writeFile (removeFile s ?t) ?t f")
    note h1 = trace.writeFile_keeps [OF h0 N(2) s1]
    have wf1: "disk_wf (fs_disk s1)"
      using always_now [OF h1] by (simp add: holds_def)
    have f1: "ok1 \<Longrightarrow> file_of (fs_disk s1) ?t = Some f"
      using s1 put_file_file always_now [OF h0] by (auto simp: writeFile_def holds_def split: option.splits)
    obtain s2 ok2 where s2: "syncFile s1 ?t = (s2, ok2)"
      by (cases "syncFile s1 ?t")
    note h2 = trace.syncFile_keeps [OF h1 s2]
    have f2: "disk_wf (fs_disk s2)" "file_of (fs_disk s2) ?t = file_of (fs_disk s1) ?t" "ok2 \<Longrightarrow> data_synced (fs_disk s2) ?t"
      using syncFile_only [OF s2] wf1 by (simp_all add: only_syncs_def)
    obtain s3 ok3 where s3: "renameFile s2 ?t path = (s3, ok3)"
      by (cases "renameFile s2 ?t path")
    note h3 = trace.renameFile_keeps [OF h2 N(2,1) s3]
    obtain s4 ok4 where s4: "syncDirectory s3 = (s4, ok4)"
      by (cases "syncDirectory s3")
    note h4 = trace.syncDirectory_keeps [OF h3 s4]
    have f4: "file_of (fs_disk s4) path = Some f \<and> settled (fs_disk s4) path" if "ok1" "ok2" "ok3" "ok4"
      using renameFile_moves [of s2 ?t path s3] s3 f1 f2 s4 that
      by (auto simp: syncDirectory_def sync_names_file sync_names_settled split: if_splits)
    show ?thesis
      using w Inr f s1 s2 s3 s4 h1 h2 h3 h4 f4 by (auto simp: writeSst_def Let_def split: if_splits)
  qed
  then show "always (holds d0 N) s'"
    "r = None \<Longrightarrow> \<exists>f st. sst_image c z target rows = Inr (f, st)
           \<and> file_of (fs_disk s') path = Some f \<and> settled (fs_disk s') path"
    by simp_all
qed

section \<open>A written table read back\<close>

text \<open>However the rows are cut into blocks, the table stays within the limits and its blocks unpack.\<close>

definition image_good :: "json_codec \<Rightarrow> lz4 \<Rightarrow> json list \<Rightarrow> bool" where
  "image_good c z rows \<longleftrightarrow>
     (\<forall>cs tb. concat cs = rows \<longrightarrow> (\<forall>rs \<in> set cs. chunk_ok c rs) \<longrightarrow>
        table_good c z cs \<and> length (table_of c z tb cs) < 2 ^ 64)"

definition rows_decode :: "json_codec \<Rightarrow> json list \<Rightarrow> bool" where
  "rows_decode c rows \<longleftrightarrow> (\<forall>r \<in> set rows. from_msgpack c (to_msgpack c r) = Some r)"

lemma fold_visit_collect: "fold_visit (\<lambda>rs r. (rs @ [r], Go)) xs s = (s @ xs, Finished)"
  by (induction xs arbitrary: s) auto

lemma fold_visit_decode:
  assumes "rows_decode c rows" "\<forall>r \<in> set rows. to_msgpack c r \<noteq> []"
  shows "fold_visit (\<lambda>s row. case row_materialize (from_msgpack c) (row_view row False) of Some j \<Rightarrow> v s j | None \<Rightarrow> (s, Throw))
      (map (to_msgpack c) rows) s = fold_visit v rows s"
  using assms
proof (induction rows arbitrary: s)
  case (Cons r rows)
  have "row_materialize (from_msgpack c) (row_view (to_msgpack c r) False) = Some r"
    using Cons.prems by (simp add: row_materialize_def rows_decode_def row_view_def)
  moreover have "rows_decode c rows"
    using Cons.prems(1) by (simp add: rows_decode_def)
  ultimately show ?case
    using Cons.IH Cons.prems(2) by (simp split: prod.splits visit.splits)
qed simp

lemma isBinarySst_table: "isBinarySst (table_of c z tb cs)"
  by (simp add: isBinarySst_def table_of_def final_header_def sst_header_def)

theorem image_read_back:
  assumes im: "sst_image c z target rows = Inr (f, st)" and good: "image_good c z rows" and dec: "rows_decode c rows"
  shows "sst_rows c z f = Inr rows" "keyed c False rows \<Longrightarrow> verifySst c z f = None"
    "keyed c True rows \<Longrightarrow> findInSst c z f el i =
       (let b = newest_of (view_version c True) el i [keyed_rows c rows]
        in Inr (if nw_found b then from_msgpack c (nw_bytes b) else None))"
proof -
  obtain cs tb where cs: "concat cs = rows" "\<forall>rs \<in> set cs. chunk_ok c rs" "f = table_of c z tb cs"
    using sst_image_table [OF im] by metis
  have tg: "table_good c z cs" "length f < 2 ^ 64"
    using good cs by (simp_all add: image_good_def)
  have ne: "\<forall>r \<in> set rows. to_msgpack c r \<noteq> []"
    using cs(1,2) by (auto simp: chunk_ok_def packed_ok_def)
  have "scanSst c z f v s = fold_visit v rows s" for v :: "json list \<Rightarrow> json \<Rightarrow> json list \<times> visit" and s
    using tg(1) by (simp add: scanSst_def cs(1,3) table_good_def scan_table fold_visit_decode [OF dec ne])
  then show "sst_rows c z f = Inr rows"
    by (simp add: sst_rows_def scanSstRows_def cs(3) isBinarySst_table fold_visit_collect)
  have some: "\<forall>r \<in> set (concat cs). from_msgpack c (to_msgpack c r) \<noteq> None"
    using dec by (simp add: rows_decode_def cs(1))
  then show "keyed c False rows \<Longrightarrow> verifySst c z f = None"
    unfolding cs(3) using verify_table [OF tg(1) _ _ some] tg(2) by (simp add: cs)
  show "findInSst c z f el i = (let b = newest_of (view_version c True) el i [keyed_rows c rows]
        in Inr (if nw_found b then from_msgpack c (nw_bytes b) else None))" if "keyed c True rows"
    using find_table [OF tg(1)] that some unfolding cs(3) by (simp add: cs(1) decodable_def ne)
qed

text \<open>A table of at most \<open>kMaxBlocks\<close> rows with moderate identities is within the limits however it is cut.\<close>

lemma length_concat_le: "\<forall>x \<in> set xs. length (f x) \<le> b \<Longrightarrow> length (concat (map f xs)) \<le> length xs * b"
  by (induction xs) auto

lemma length_chunks: "\<forall>rs \<in> set cs. rs \<noteq> [] \<Longrightarrow> length cs \<le> length (concat cs)"
proof (induction cs)
  case (Cons rs cs)
  then show ?case
    by (cases rs) auto
qed simp

lemma image_good_small:
  assumes z: "\<forall>b. lz4_ok z b" and n: "length rows \<le> kMaxBlocks" and ids: "\<forall>r \<in> set rows. length (rowId c r) \<le> kMaxFieldBytes"
  shows "image_good c z rows"
  unfolding image_good_def
proof (intro allI impI)
  fix cs tb
  assume cs: "concat cs = rows" and ok: "\<forall>rs \<in> set cs. chunk_ok c rs"
  have len: "length cs \<le> kMaxBlocks"
    using length_chunks [of cs] ok n cs by (auto simp: chunk_ok_def)
  have "length (block_of c z rs) \<le> kMaxFieldBytes + 28" if "rs \<in> set cs" for rs
    using that ok pack_block_le [of z "plain_of c rs"]
    by (cases "pack_block z (plain_of c rs)") (fastforce simp: length_block_of chunk_ok_def)
  then have "length (blocks_of c z cs) \<le> length cs * (kMaxFieldBytes + 28)"
    by (simp add: blocks_of_def length_concat_le)
  also have "\<dots> \<le> kMaxBlocks * (kMaxFieldBytes + 28)"
    using len by (rule mult_le_mono1)
  finally have blocks: "length (blocks_of c z cs) \<le> kMaxBlocks * (kMaxFieldBytes + 28)" .
  have ids': "\<forall>rs \<in> set cs. \<forall>r \<in> set rs. length (rowId c r) \<le> kMaxFieldBytes"
    using ids cs by auto
  have "length (entry_bytes e) \<le> 28 + 2 * kMaxFieldBytes" if e: "e \<in> set (entries_from c z 64 cs)" for e
  proof -
    obtain rs where rs: "rs \<in> set cs" "be_firstKey e = rowId c (hd rs)" "be_lastKey e = rowId c (last rs)"
      using e by (rule entries_from_mem) (auto simp: entry_of_def)
    moreover have "rs \<noteq> []"
      using ok rs(1) by (auto simp: chunk_ok_def)
    ultimately have "length (be_firstKey e) \<le> kMaxFieldBytes" "length (be_lastKey e) \<le> kMaxFieldBytes"
      using ids' by simp_all
    then show ?thesis
      by (simp add: entry_bytes_def)
  qed
  then have "length (concat (map entry_bytes (entries_from c z 64 cs))) \<le> length cs * (28 + 2 * kMaxFieldBytes)"
    using length_concat_le [of "entries_from c z 64 cs" entry_bytes] by simp
  also have "\<dots> \<le> kMaxBlocks * (28 + 2 * kMaxFieldBytes)"
    using len by (rule mult_le_mono1)
  finally show "table_good c z cs \<and> length (table_of c z tb cs) < 2 ^ 64"
    using blocks len ids' ok z
    by (auto simp: table_good_def table_fits_def table_of_def index_bytes_def Let_def kSstIndexMagic_def
        kMaxBlocks_def kMaxFieldBytes_def)
qed

end
