(* ===== verification/Lsm_Progress.thy ===== *)
theory Lsm_Progress
  imports Prelude "HOL-Library.Monad_Syntax"
begin

text \<open>
  Two small components of \<open>lsm.cpp\<close>: the namespace key of a collection (\<open>colKey\<close>, \<open>parseColKey\<close>) and the
  record of which WAL records have reached the memtable (\<open>WalApplyProgress\<close>, \<open>markWalApplied\<close>), from which
  a flush takes the boundary up to which the log may be reclaimed.
\<close>

section \<open>Collection keys\<close>

text \<open>\<open>std::to_string\<close> of an unsigned number.\<close>

fun to_string :: "nat \<Rightarrow> string" where
  "to_string n = (if n < 10 then [digit_char n] else to_string (n div 10) @ [digit_char (n mod 10)])"

declare to_string.simps [simp del]

definition colKey :: "string \<Rightarrow> string \<Rightarrow> string \<Rightarrow> string" where
  "colKey userId db coll =
     to_string (length userId) @ '':'' @ userId @ to_string (length db) @ '':'' @ db
       @ to_string (length coll) @ '':'' @ coll"

fun read_length :: "string \<Rightarrow> nat \<Rightarrow> nat option" where
  "read_length [] len = Some len"
| "read_length (ch # cs) len =
     (if \<not> is_digit ch then None
      else if (2 ^ 64 - 1 - digit_val ch) div 10 < len then None
      else read_length cs (len * 10 + digit_val ch))"

definition readComponent :: "string \<Rightarrow> (string \<times> string) option" where
  "readComponent s =
     (let ds = takeWhile (\<lambda>ch. ch \<noteq> CHR '':'') s; rest = dropWhile (\<lambda>ch. ch \<noteq> CHR '':'') s
      in if rest = [] \<or> ds = [] then None
         else do {
           n \<leftarrow> read_length ds 0;
           if length (tl rest) < n then None else Some (take n (tl rest), drop n (tl rest)) })"

definition parseColKey :: "string \<Rightarrow> (string \<times> string \<times> string) option" where
  "parseColKey key = do {
     (userId, r1) \<leftarrow> readComponent key;
     (db, r2) \<leftarrow> readComponent r1;
     (coll, r3) \<leftarrow> readComponent r2;
     if r3 = [] then Some (userId, db, coll) else None }"

lemma to_string_digits: "ch \<in> set (to_string n) \<Longrightarrow> is_digit ch"
proof (induction n rule: to_string.induct)
  case (1 n)
  then show ?case
    by (subst (asm) (2) to_string.simps) (auto split: if_splits)
qed

lemma to_string_not_Nil [simp]: "to_string n \<noteq> []"
  by (subst to_string.simps) simp

lemma dec_val_to_string: "dec_val (to_string n) = n"
proof (induction n rule: to_string.induct)
  case (1 n)
  then show ?case
    by (subst to_string.simps) (auto simp: dec_val_def)
qed

lemma read_length_append:
  "read_length (xs @ ys) len = (case read_length xs len of None \<Rightarrow> None | Some m \<Rightarrow> read_length ys m)"
  by (induction xs arbitrary: len) auto

lemma read_length_to_string: "n < 2 ^ 64 \<Longrightarrow> read_length (to_string n) 0 = Some n"
proof (induction n rule: to_string.induct)
  case (1 n)
  show ?case
  proof (cases "n < 10")
    case True
    then show ?thesis
      by (subst to_string.simps) simp
  next
    case False
    have "\<not> (2 ^ 64 - 1 - n mod 10) div 10 < n div 10"
    proof -
      have "n div 10 * 10 \<le> 2 ^ 64 - 1 - n mod 10"
        using 1(2) by presburger
      then have "n div 10 \<le> (2 ^ 64 - 1 - n mod 10) div 10"
        by (simp only: less_eq_div_iff_mult_less_eq zero_less_numeral)
      then show ?thesis
        by simp
    qed
    moreover have "read_length (to_string (n div 10)) 0 = Some (n div 10)"
      using 1 False by simp
    ultimately show ?thesis
      using False by (subst to_string.simps) (simp add: read_length_append mult.commute)
  qed
qed

lemma readComponent_append:
  assumes "length s < 2 ^ 64"
  shows "readComponent (to_string (length s) @ CHR '':'' # s @ rest) = Some (s, rest)"
proof -
  have nc: "\<forall>ch \<in> set (to_string n). ch \<noteq> CHR '':''" for n
    using to_string_digits by (fastforce simp: is_digit_def)
  have "takeWhile (\<lambda>ch. ch \<noteq> CHR '':'') (to_string n @ CHR '':'' # r) = to_string n"
    "dropWhile (\<lambda>ch. ch \<noteq> CHR '':'') (to_string n @ CHR '':'' # r) = CHR '':'' # r" for n r
    using nc by (simp_all add: takeWhile_append dropWhile_append)
  then show ?thesis
    by (simp add: readComponent_def Let_def read_length_to_string [OF assms])
qed

theorem parseColKey_colKey:
  assumes "length u < 2 ^ 64" "length d < 2 ^ 64" "length k < 2 ^ 64"
  shows "parseColKey (colKey u d k) = Some (u, d, k)"
  using readComponent_append [OF assms(1)] readComponent_append [OF assms(2)]
    readComponent_append [OF assms(3), of "[]"]
  by (simp add: parseColKey_def colKey_def)

section \<open>Which log records are applied\<close>

record WalApplyProgress =
  wp_contiguous :: u64
  wp_intervals :: "(u64 \<times> u64) list" \<comment> \<open>\<open>std::map\<close> from first to last, in key order\<close>

fun absorb_next :: "u64 \<Rightarrow> (u64 \<times> u64) list \<Rightarrow> u64 \<times> (u64 \<times> u64) list" where
  "absorb_next lst [] = (lst, [])"
| "absorb_next lst ((k, v) # ivs) =
     (if k \<le> lst + 1 then absorb_next (max lst v) ivs else (lst, (k, v) # ivs))"

fun drain :: "u64 \<Rightarrow> (u64 \<times> u64) list \<Rightarrow> u64 \<times> (u64 \<times> u64) list" where
  "drain contiguous [] = (contiguous, [])"
| "drain contiguous ((k, v) # ivs) =
     (if k \<le> contiguous + 1 then drain (max contiguous v) ivs else (contiguous, (k, v) # ivs))"

definition merge_interval :: "u64 \<Rightarrow> u64 \<Rightarrow> (u64 \<times> u64) list \<Rightarrow> (u64 \<times> u64) list" where
  "merge_interval first0 last0 ivs =
     (let pre = takeWhile (\<lambda>(k, v). k < first0) ivs; post = dropWhile (\<lambda>(k, v). k < first0) ivs;
          (first1, last1, pre1) =
            (if pre \<noteq> [] \<and> first0 - 1 \<le> snd (last pre)
             then (fst (last pre), max last0 (snd (last pre)), butlast pre) else (first0, last0, pre));
          (last2, post2) = absorb_next last1 post
      in pre1 @ (first1, last2) # post2)"

definition markWalApplied :: "WalApplyProgress \<Rightarrow> u64 \<Rightarrow> u64 \<Rightarrow> WalApplyProgress" where
  "markWalApplied p first0 last0 =
     (if first0 = 0 \<or> last0 < first0 then p
      else if last0 \<le> wp_contiguous p then p
      else
        let (contiguous, ivs) =
              drain (wp_contiguous p)
                (merge_interval (max first0 (wp_contiguous p + 1)) last0 (wp_intervals p))
        in p\<lparr>wp_contiguous := contiguous, wp_intervals := ivs\<rparr>)"

definition no_progress :: WalApplyProgress where
  "no_progress = \<lparr>wp_contiguous = 0, wp_intervals = []\<rparr>"

section \<open>The records that count as applied\<close>

definition iv_set :: "(u64 \<times> u64) list \<Rightarrow> nat set" where
  "iv_set ivs = (\<Union>(k, v) \<in> set ivs. {unat k..unat v})"

definition applied_set :: "WalApplyProgress \<Rightarrow> nat set" where
  "applied_set p = {1..unat (wp_contiguous p)} \<union> iv_set (wp_intervals p)"

text \<open>Intervals in ascending order with a gap of at least one record before each.\<close>

fun iv_wf :: "nat \<Rightarrow> (u64 \<times> u64) list \<Rightarrow> bool" where
  "iv_wf lo [] = True"
| "iv_wf lo ((k, v) # ivs) = (lo < unat k \<and> k \<le> v \<and> v < - 1 \<and> iv_wf (unat v + 1) ivs)"

definition progress_wf :: "WalApplyProgress \<Rightarrow> bool" where
  "progress_wf p \<longleftrightarrow> wp_contiguous p < - 1 \<and> iv_wf (unat (wp_contiguous p) + 1) (wp_intervals p)"

lemma iv_set_simps [simp]:
  "iv_set [] = {}" "iv_set ((k, v) # ivs) = {unat k..unat v} \<union> iv_set ivs"
  "iv_set (xs @ ys) = iv_set xs \<union> iv_set ys"
  by (auto simp: iv_set_def)

lemma unat_max_word: "unat (- 1 :: u64) = 2 ^ 64 - 1"
  by (simp add: unsigned_minus_1_eq_mask mask_eq_exp_minus_1)

lemma unat_Suc: "x < - 1 \<Longrightarrow> unat (x + 1 :: u64) = unat x + 1"
  by (simp add: word_less_nat_alt unat_max_word unat_word_ariths)

lemma unat_pred: "x \<noteq> 0 \<Longrightarrow> unat (x - 1 :: u64) = unat x - 1"
  by (metis One_nat_def Suc_pred add.commute diff_Suc_1 unat_gt_0 unat_minus_one)

lemma unat_max: "unat (max x y :: u64) = max (unat x) (unat y)"
  by (simp add: max_def word_le_nat_alt)

lemmas unat_order = word_le_nat_alt word_less_nat_alt

lemma iv_wf_weaken: "iv_wf lo ivs \<Longrightarrow> lo' \<le> lo \<Longrightarrow> iv_wf lo' ivs"
  by (cases ivs) auto

lemma iv_wf_append:
  "iv_wf lo (xs @ ys) \<longleftrightarrow> iv_wf lo xs \<and> iv_wf (if xs = [] then lo else unat (snd (last xs)) + 1) ys"
  by (induction lo xs rule: iv_wf.induct) auto

lemma iv_wf_bounds: "iv_wf lo ivs \<Longrightarrow> n \<in> iv_set ivs \<Longrightarrow> lo < n"
proof (induction lo ivs rule: iv_wf.induct)
  case (2 lo k v ivs)
  then show ?case
    by (auto simp: word_le_nat_alt dest: order_less_trans)
qed simp

lemma absorb_next_spec:
  assumes "iv_wf lo ivs" "l < - 1" "lo \<le> unat l + 1" "f \<le> l" "\<forall>(k, v) \<in> set ivs. f \<le> k" "absorb_next l ivs = (l', ivs')"
  shows "l' < - 1 \<and> l \<le> l' \<and> iv_wf (unat l' + 1) ivs'
    \<and> {unat f..unat l'} \<union> iv_set ivs' = {unat f..unat l} \<union> iv_set ivs"
  using assms
proof (induction l ivs arbitrary: lo rule: absorb_next.induct)
  case (1 l)
  then show ?case by simp
next
  case (2 l k v ivs)
  show ?case
  proof (cases "k \<le> l + 1")
    case True
    have wf: "k \<le> v" "v < - 1" "iv_wf (unat v + 1) ivs" "f \<le> k"
      using 2(2,6) by auto
    have k: "unat k \<le> unat l + 1"
      using True 2(3) by (simp add: word_le_nat_alt unat_Suc)
    have "l' < - 1 \<and> max l v \<le> l' \<and> iv_wf (unat l' + 1) ivs'
        \<and> {unat f..unat l'} \<union> iv_set ivs' = {unat f..unat (max l v)} \<union> iv_set ivs"
    proof (rule "2.IH" [OF True wf(3)])
      show "max l v < - 1" "f \<le> max l v" "\<forall>(k, v) \<in> set ivs. f \<le> k" "absorb_next (max l v) ivs = (l', ivs')"
        using 2 True wf by (auto simp: max_def)
      show "unat v + 1 \<le> unat (max l v) + 1"
        by (simp add: unat_max)
    qed
    moreover have "{unat f..unat (max l v)} = {unat f..unat l} \<union> {unat k..unat v}"
      using k wf 2(5) by (auto simp: unat_max unat_order)
    ultimately show ?thesis
      by auto
  next
    case False
    then have "unat l + 1 < unat k"
      using 2(3) by (simp add: word_le_nat_alt unat_Suc)
    then show ?thesis
      using 2 False by auto
  qed
qed

lemma drain_spec:
  assumes "iv_wf (unat l) ivs" "l < - 1" "drain l ivs = (l', ivs')"
  shows "l' < - 1 \<and> iv_wf (unat l' + 1) ivs' \<and> {1..unat l'} \<union> iv_set ivs' = {1..unat l} \<union> iv_set ivs"
  using assms
proof (induction l ivs rule: drain.induct)
  case (1 l)
  then show ?case by simp
next
  case (2 l k v ivs)
  show ?case
  proof (cases "k \<le> l + 1")
    case True
    have wf: "unat l < unat k" "k \<le> v" "v < - 1" "iv_wf (unat v + 1) ivs"
      using 2(2) by auto
    have k: "unat k \<le> unat l + 1"
      using True 2(3) by (simp add: word_le_nat_alt unat_Suc)
    have m: "max l v = v"
      using wf by (auto simp: max_def unat_order)
    have "l' < - 1 \<and> iv_wf (unat l' + 1) ivs' \<and> {1..unat l'} \<union> iv_set ivs' = {1..unat v} \<union> iv_set ivs"
      using "2.IH" [OF True] iv_wf_weaken [OF wf(4)] wf 2(4) True m by simp
    moreover have "{1..unat v} = {1..unat l} \<union> {unat k..unat v}"
      using k wf by (auto simp: unat_order)
    ultimately show ?thesis
      by auto
  next
    case False
    then have "unat l + 1 < unat k"
      using 2(3) by (simp add: word_le_nat_alt unat_Suc)
    then show ?thesis
      using 2 False by auto
  qed
qed

lemma iv_wf_mem: "iv_wf lo ivs \<Longrightarrow> x \<in> set ivs \<Longrightarrow> lo < unat (fst x) \<and> fst x \<le> snd x \<and> snd x < - 1"
proof (induction lo ivs rule: iv_wf.induct)
  case (2 lo k v ivs)
  have "unat k \<le> unat v"
    using 2(2) by (simp add: word_le_nat_alt)
  then show ?case
    using 2 by auto
qed simp

lemma iv_wf_sorted: "iv_wf lo ivs \<Longrightarrow> sorted_wrt (\<lambda>x y. fst x < fst y) ivs"
proof (induction lo ivs rule: iv_wf.induct)
  case (2 lo k v ivs)
  have "fst (k, v) < fst x" if "x \<in> set ivs" for x
  proof -
    have "unat v + 1 < unat (fst x)" "unat k \<le> unat v"
      using iv_wf_mem [of "unat v + 1" ivs x] 2(2) that by (auto simp: word_le_nat_alt)
    then show ?thesis
      by (simp add: word_less_nat_alt)
  qed
  then show ?case
    using 2 by auto
qed simp

lemma dropWhile_ge:
  assumes "sorted_wrt (\<lambda>x y. fst x < fst y) ivs" "x \<in> set (dropWhile (\<lambda>(k, v). k < f) ivs)"
  shows "(f :: u64) \<le> fst x"
  using assms by (induction ivs) (auto split: if_splits dest: order.strict_trans2)

text \<open>The list after the new interval has been merged in.\<close>

lemma merge_interval_spec:
  assumes wf: "iv_wf lo ivs" and f: "f \<noteq> 0" "f \<le> l" "l < - 1" and lo: "lo \<le> unat f" "lo' < lo"
  shows "iv_wf lo' (merge_interval f l ivs) \<and> iv_set (merge_interval f l ivs) = iv_set ivs \<union> {unat f..unat l}"
proof -
  define pre where "pre = takeWhile (\<lambda>(k, v). k < f) ivs"
  define post where "post = dropWhile (\<lambda>(k, v). k < f) ivs"
  have ivs: "ivs = pre @ post"
    by (simp add: pre_def post_def)
  have wfs: "iv_wf lo pre" "iv_wf (if pre = [] then lo else unat (snd (last pre)) + 1) post"
    using wf by (simp_all add: ivs iv_wf_append)
  have post_ge: "\<forall>(k, v) \<in> set post. f \<le> k"
    using dropWhile_ge [OF iv_wf_sorted [OF wf]] by (fastforce simp: post_def)
  have pre_lt: "\<forall>(k, v) \<in> set pre. k < f"
    by (auto simp: pre_def dest: set_takeWhileD)
  show ?thesis
  proof (cases "pre \<noteq> [] \<and> f - 1 \<le> snd (last pre)")
    case True
    obtain k v where kv: "last pre = (k, v)"
      by (cases "last pre")
    have pre: "pre = butlast pre @ [(k, v)]"
      using True kv append_butlast_last_id [of pre] by simp
    have "iv_wf lo (butlast pre @ [(k, v)])"
      using wfs(1) by (simp only: pre [symmetric])
    then have wk: "iv_wf lo (butlast pre)" "k \<le> v" "v < - 1"
      "(if butlast pre = [] then lo else unat (snd (last (butlast pre))) + 1) < unat k"
      by (simp_all only: iv_wf_append iv_wf.simps)
    have kf: "k < f"
      using pre_lt True kv last_in_set [of pre] by auto
    have fv: "unat f \<le> unat v + 1"
      using True kv f(1) by (auto simp: word_le_nat_alt unat_pred)
    obtain l2 post2 where ab: "absorb_next (max l v) post = (l2, post2)"
      by (cases "absorb_next (max l v) post")
    have kl: "k \<le> max l v"
      using wk(2) by (simp add: le_max_iff_disj)
    have spec: "l2 < - 1 \<and> max l v \<le> l2 \<and> iv_wf (unat l2 + 1) post2
        \<and> {unat k..unat l2} \<union> iv_set post2 = {unat k..unat (max l v)} \<union> iv_set post"
    proof (rule absorb_next_spec [OF _ _ _ kl _ ab])
      show "iv_wf (unat v + 1) post"
        using wfs(2) True kv by simp
      show "max l v < - 1"
        using f(3) wk(3) by (simp add: max_def)
      show "unat v + 1 \<le> unat (max l v) + 1"
        by (simp add: unat_max)
      show "\<forall>(k', v) \<in> set post. k \<le> k'"
        using post_ge kf by (auto dest: order.strict_trans2 less_imp_le)
    qed
    have res: "merge_interval f l ivs = butlast pre @ (k, l2) # post2"
      unfolding merge_interval_def pre_def [symmetric] post_def [symmetric] Let_def
      using True kv ab by simp
    have kmax: "{unat k..unat (max l v)} = {unat k..unat v} \<union> {unat f..unat l}"
      using fv wk(2) kf f(2) by (auto simp: unat_max unat_order)
    have "iv_set (merge_interval f l ivs) = iv_set ivs \<union> {unat f..unat l}"
    proof -
      have "iv_set pre = iv_set (butlast pre) \<union> {unat k..unat v}"
        by (subst pre) simp
      then have "iv_set ivs = iv_set (butlast pre) \<union> {unat k..unat v} \<union> iv_set post"
        by (simp add: ivs)
      then show ?thesis
        using spec kmax unfolding res by auto
    qed
    moreover have "iv_wf lo' (merge_interval f l ivs)"
    proof -
      have "(if butlast pre = [] then lo' else unat (snd (last (butlast pre))) + 1) < unat k"
        using wk(4) lo(2) by (simp split: if_splits)
      moreover have "k \<le> l2"
        using kl spec by (meson order_trans)
      ultimately show ?thesis
        unfolding res iv_wf_append using spec iv_wf_weaken [OF wk(1)] lo(2) by simp
    qed
    ultimately show ?thesis
      by simp
  next
    case False
    obtain l2 post2 where ab: "absorb_next l post = (l2, post2)"
      by (cases "absorb_next l post")
    have gap: "pre \<noteq> [] \<Longrightarrow> unat (snd (last pre)) + 1 < unat f"
      using False f(1) by (auto simp: word_le_nat_alt unat_pred)
    have spec: "l2 < - 1 \<and> l \<le> l2 \<and> iv_wf (unat l2 + 1) post2
        \<and> {unat f..unat l2} \<union> iv_set post2 = {unat f..unat l} \<union> iv_set post"
    proof (rule absorb_next_spec [OF wfs(2) f(3) _ f(2) post_ge ab])
      show "(if pre = [] then lo else unat (snd (last pre)) + 1) \<le> unat l + 1"
        using gap lo(1) f(2) by (auto simp: word_le_nat_alt)
    qed
    have res: "merge_interval f l ivs = pre @ (f, l2) # post2"
      unfolding merge_interval_def pre_def [symmetric] post_def [symmetric] Let_def
      using False ab by auto
    have "iv_set (merge_interval f l ivs) = iv_set ivs \<union> {unat f..unat l}"
      using spec unfolding res by (auto simp: ivs)
    moreover have "iv_wf lo' (merge_interval f l ivs)"
    proof -
      have "(if pre = [] then lo' else unat (snd (last pre)) + 1) < unat f"
        using gap lo by (simp split: if_splits)
      moreover have "f \<le> l2"
        using f(2) spec by (meson order_trans)
      ultimately show ?thesis
        unfolding res iv_wf_append using spec iv_wf_weaken [OF wfs(1)] lo(2) by simp
    qed
    ultimately show ?thesis
      by simp
  qed
qed

definition mark_set :: "u64 \<times> u64 \<Rightarrow> nat set" where
  "mark_set m = (if fst m = 0 then {} else {unat (fst m)..unat (snd m)})"

theorem markWalApplied_spec:
  assumes wf: "progress_wf p" and l: "l < - 1"
  shows "progress_wf (markWalApplied p f l)"
    and "applied_set (markWalApplied p f l) = applied_set p \<union> mark_set (f, l)"
proof -
  let ?c = "wp_contiguous p"
  have c: "?c < - 1" "iv_wf (unat ?c + 1) (wp_intervals p)"
    using wf by (simp_all add: progress_wf_def)
  have "progress_wf (markWalApplied p f l)
    \<and> applied_set (markWalApplied p f l) = applied_set p \<union> mark_set (f, l)"
  proof (cases "f = 0 \<or> l < f \<or> l \<le> ?c")
    case skip: True
    show ?thesis
    proof -
      have "mark_set (f, l) \<subseteq> {1..unat ?c}"
      proof (cases "f = 0 \<or> l < f")
        case True
        then show ?thesis
          by (auto simp: mark_set_def unat_order)
      next
        case False
        then have "0 < unat f" "unat l \<le> unat ?c"
          using skip by (auto simp: unat_gt_0 word_le_nat_alt)
        then show ?thesis
          by (auto simp: mark_set_def)
      qed
      then show ?thesis
        using wf skip by (auto simp: markWalApplied_def applied_set_def)
    qed
  next
    case False
    let ?f = "max f (?c + 1)"
    have f: "?f \<noteq> 0" "?f \<le> l" "unat ?c + 1 \<le> unat ?f" "unat ?f = max (unat f) (unat ?c + 1)"
    proof -
      have u: "unat (?c + 1) = unat ?c + 1"
        using c(1) by (rule unat_Suc)
      then show "unat ?f = max (unat f) (unat ?c + 1)"
        by (simp add: unat_max)
      then show "unat ?c + 1 \<le> unat ?f" "?f \<noteq> 0"
        by auto
      show "?f \<le> l"
        using False u by (simp add: word_le_nat_alt unat_max word_less_nat_alt)
    qed
    obtain c' ivs' where dr: "drain ?c (merge_interval ?f l (wp_intervals p)) = (c', ivs')"
      by (cases "drain ?c (merge_interval ?f l (wp_intervals p))")
    have mi: "iv_wf (unat ?c) (merge_interval ?f l (wp_intervals p))"
      "iv_set (merge_interval ?f l (wp_intervals p)) = iv_set (wp_intervals p) \<union> {unat ?f..unat l}"
      using merge_interval_spec [OF c(2) f(1,2) l f(3), of "unat ?c"] by simp_all
    have res: "markWalApplied p f l = p\<lparr>wp_contiguous := c', wp_intervals := ivs'\<rparr>"
      using False dr by (simp add: markWalApplied_def)
    have "{1..unat ?c} \<union> {unat ?f..unat l} = {1..unat ?c} \<union> {unat f..unat l}"
    proof -
      have "0 < unat f"
        using False by (simp add: unat_gt_0)
      then show ?thesis
        using f(4) by auto
    qed
    then have "applied_set (markWalApplied p f l) = applied_set p \<union> mark_set (f, l)"
      using drain_spec [OF mi(1) c(1) dr] mi(2) False unfolding res applied_set_def mark_set_def by auto
    then show ?thesis
      using drain_spec [OF mi(1) c(1) dr] by (simp add: res progress_wf_def)
  qed
  then show "progress_wf (markWalApplied p f l)"
    and "applied_set (markWalApplied p f l) = applied_set p \<union> mark_set (f, l)"
    by simp_all
qed

text \<open>In a well-formed record the boundary is the longest applied prefix.\<close>

lemma contiguous_greatest:
  assumes "progress_wf p"
  shows "{1..n} \<subseteq> applied_set p \<longleftrightarrow> n \<le> unat (wp_contiguous p)"
proof
  assume sub: "{1..n} \<subseteq> applied_set p"
  show "n \<le> unat (wp_contiguous p)"
  proof (rule ccontr)
    assume "\<not> n \<le> unat (wp_contiguous p)"
    then have "unat (wp_contiguous p) + 1 \<in> applied_set p"
      using sub by auto
    then have "unat (wp_contiguous p) + 1 \<in> iv_set (wp_intervals p)"
      by (simp add: applied_set_def)
    then show False
      using iv_wf_bounds assms by (auto simp: progress_wf_def)
  qed
qed (auto simp: applied_set_def)

theorem marks_contiguous:
  assumes "\<forall>(f, l) \<in> set ms. l < - 1"
  shows "{1..n} \<subseteq> (\<Union>m \<in> set ms. mark_set m)
    \<longleftrightarrow> n \<le> unat (wp_contiguous (foldl (\<lambda>p (f, l). markWalApplied p f l) no_progress ms))"
proof -
  have "progress_wf (foldl (\<lambda>p (f, l). markWalApplied p f l) p ms)
    \<and> applied_set (foldl (\<lambda>p (f, l). markWalApplied p f l) p ms)
        = applied_set p \<union> (\<Union>m \<in> set ms. mark_set m)" if "progress_wf p" for p
    using assms that by (induction ms arbitrary: p) (auto simp: markWalApplied_spec split: prod.splits)
  moreover have "progress_wf no_progress" "applied_set no_progress = {}"
    by (simp_all add: no_progress_def progress_wf_def applied_set_def word_less_nat_alt unat_max_word)
  ultimately show ?thesis
    using contiguous_greatest by (metis sup_bot_left)
qed

end
