(* ===== verification/Lsm_Collection.thy ===== *)
theory Lsm_Collection
  imports Lsm_Table Lsm_Progress
begin

text \<open>
  One collection of the storage engine (\<open>lsm.cpp\<close>): its memtable, the immutable memtables of running
  flushes, the directory of its tables and the records of its log, with \<open>put\<close>, \<open>putMany\<close>, \<open>flush\<close>, the
  replay of the log at start-up and the reads.  The collection mutex makes each of these one step, except
  \<open>flush\<close>, which holds it to swap the memtable out and again to publish the table; the two halves are
  separate definitions.

  The log enters as the list of its records with their sequence numbers: that scanning the WAL's files
  delivers the records appended, and reclaiming drops covered ones from the front, is shown for the WAL
  itself.  The vector schema check, the index queues and the caches of identities are not part of this state.
\<close>

section \<open>State\<close>

record lsm_config =
  cf_dir :: string
  cf_user :: string
  cf_db :: string
  cf_coll :: string
  cf_blockBytes :: nat
  cf_limit :: nat \<comment> \<open>\<open>MEMTABLE_LIMIT\<close>\<close>
  cf_name :: "nat \<Rightarrow> string" \<comment> \<open>the names \<open>nextSstFileName\<close> returns, one by one\<close>
  cf_accepts :: "json \<Rightarrow> bool" \<comment> \<open>\<open>VectorSchemaRegistry::validateRecord\<close> does not throw\<close>
  cf_dropped :: "(u64 \<times> json) list \<Rightarrow> nat" \<comment> \<open>how many covered records \<open>reclaimThrough\<close> drops\<close>

record coll =
  co_mem :: docs
  co_imm :: "(nat \<times> docs) list" \<comment> \<open>newest first, each with its identity\<close>
  co_tag :: nat
  co_progress :: WalApplyProgress
  co_fs :: fsys
  co_log :: "(u64 \<times> json) list"
  co_lsn :: u64
  co_published :: nat \<comment> \<open>\<open>compactionPublishGeneration\<close>\<close>

section \<open>Writing\<close>

datatype PutIntent = Record | Tombstone

datatype put_error = InvalidTombstone | SchemaRejected | StampFailed | LogFailed

text \<open>The document as it is stored, and its identity; \<open>now\<close> is \<open>std::time\<close>.\<close>

definition stored_doc :: "json_codec \<Rightarrow> lsm_config \<Rightarrow> raft_status \<Rightarrow> u64 \<Rightarrow> nat \<Rightarrow> PutIntent \<Rightarrow> json \<Rightarrow> put_error + string \<times> json" where
  "stored_doc c cfg rs ci now intent doc =
     (if intent = Tombstone \<and> \<not> (jcontains doc ''id'' \<and> isDeletedDoc doc) then Inl InvalidTombstone
      else if intent = Record \<and> \<not> cf_accepts cfg doc then Inl SchemaRejected
      else case stampVisibilityMetadata rs doc ci of
             None \<Rightarrow> Inl StampFailed
           | Some d \<Rightarrow>
               if jcontains d ''id'' then Inr (rowId c d, jput d ''id'' (JStr (rowId c d)))
               else Inr (to_string now, d))"

definition put_entry :: "lsm_config \<Rightarrow> PutIntent \<Rightarrow> string \<Rightarrow> json \<Rightarrow> json" where
  "put_entry cfg intent i doc =
     JObj ([(''collection'', JStr (cf_coll cfg)), (''data'', doc), (''db'', JStr (cf_db cfg))]
       @ (if intent = Tombstone then [(''id'', JStr i)] else [])
       @ [(''op'', JStr (if intent = Tombstone then ''DELETE'' else ''PUT'')), (''userId'', JStr (cf_user cfg))])"

definition batch_entry :: "lsm_config \<Rightarrow> json list \<Rightarrow> json" where
  "batch_entry cfg ds =
     JObj [(''_wal_batch_format'', JInt 1), (''collection'', JStr (cf_coll cfg)), (''data'', JArr ds),
           (''db'', JStr (cf_db cfg)), (''op'', JStr ''PUT_BATCH''), (''userId'', JStr (cf_user cfg))]"

text \<open>An append that throws may or may not have left the record in the log.\<close>

datatype log_io = Logged | LogThrows bool

definition log_append :: "log_io \<Rightarrow> json \<Rightarrow> coll \<Rightarrow> coll \<times> u64 option" where
  "log_append io entry st =
     (let lsn = co_lsn st + 1; st' = st\<lparr>co_lsn := lsn, co_log := co_log st @ [(lsn, entry)]\<rparr>
      in case io of Logged \<Rightarrow> (st', Some lsn) | LogThrows kept \<Rightarrow> (if kept then st' else st, None))"

definition insert_docs :: "(string \<times> json) list \<Rightarrow> docs \<Rightarrow> docs" where
  "insert_docs ds mem = foldl (\<lambda>mem (i, d). obj_insert i d mem) mem ds"

definition apply_docs :: "(string \<times> json) list \<Rightarrow> u64 \<Rightarrow> coll \<Rightarrow> coll" where
  "apply_docs ds lsn st =
     st\<lparr>co_mem := insert_docs ds (co_mem st), co_progress := markWalApplied (co_progress st) lsn lsn\<rparr>"

definition put :: "json_codec \<Rightarrow> lsm_config \<Rightarrow> raft_status \<Rightarrow> u64 \<Rightarrow> nat \<Rightarrow> log_io \<Rightarrow> bool \<Rightarrow> PutIntent \<Rightarrow> json
    \<Rightarrow> coll \<Rightarrow> coll \<times> put_error option" where
  "put c cfg rs ci now io writeWal intent doc st =
     (case stored_doc c cfg rs ci now intent doc of
        Inl e \<Rightarrow> (st, Some e)
      | Inr (i, d) \<Rightarrow>
          if \<not> writeWal then (apply_docs [(i, d)] 0 st, None)
          else case log_append io (put_entry cfg intent i d) st of
                 (st', None) \<Rightarrow> (st', Some LogFailed)
               | (st', Some lsn) \<Rightarrow> (apply_docs [(i, d)] lsn st', None))"

text \<open>
  The batch: every document is checked and stamped before anything is logged; one that is no object is logged
  with the others and not applied.  The identity of a document is not stored back into it here.
\<close>

fun stamp_all :: "lsm_config \<Rightarrow> raft_status \<Rightarrow> u64 \<Rightarrow> json list \<Rightarrow> put_error + json list" where
  "stamp_all cfg rs ci [] = Inr []"
| "stamp_all cfg rs ci (doc # ds) =
     (if \<not> cf_accepts cfg doc then Inl SchemaRejected
      else case (if is_object doc then stampVisibilityMetadata rs doc ci else Some doc) of
             None \<Rightarrow> Inl StampFailed
           | Some d \<Rightarrow> (case stamp_all cfg rs ci ds of Inl e \<Rightarrow> Inl e | Inr ds' \<Rightarrow> Inr (d # ds')))"

definition batch_docs :: "json_codec \<Rightarrow> nat \<Rightarrow> json list \<Rightarrow> (string \<times> json) list" where
  "batch_docs c now ds =
     map (\<lambda>d. (if jcontains d ''id'' then rowId c d else to_string now, d)) (filter is_object ds)"

definition putMany :: "json_codec \<Rightarrow> lsm_config \<Rightarrow> raft_status \<Rightarrow> u64 \<Rightarrow> nat \<Rightarrow> log_io \<Rightarrow> bool \<Rightarrow> json list
    \<Rightarrow> coll \<Rightarrow> coll \<times> put_error option" where
  "putMany c cfg rs ci now io writeWal ds st =
     (if ds = [] then (st, None)
      else case stamp_all cfg rs ci ds of
             Inl e \<Rightarrow> (st, Some e)
           | Inr ds' \<Rightarrow>
              (case (if writeWal then log_append io (batch_entry cfg ds') st else (st, Some 0)) of
                 (st', None) \<Rightarrow> (st', Some LogFailed)
               | (st', Some lsn) \<Rightarrow>
                   (apply_docs (batch_docs c now ds') (if list_all is_object ds' then lsn else 0) st', None)))"

section \<open>Flushing\<close>

datatype flush_error = FlushWrite table_error | FlushLoad manifest_error | FlushRename | FlushPublish manifest_error

record flush_job =
  fj_tag :: nat
  fj_snapshot :: docs
  fj_covered :: u64

text \<open>The first half, under the collection mutex: the memtable becomes immutable.\<close>

definition flush_swap :: "coll \<Rightarrow> (flush_job \<times> coll) option" where
  "flush_swap st =
     (if co_mem st = [] then None
      else Some (\<lparr>fj_tag = co_tag st, fj_snapshot = co_mem st, fj_covered = wp_contiguous (co_progress st)\<rparr>,
                 st\<lparr>co_mem := [], co_imm := (co_tag st, co_mem st) # co_imm st, co_tag := co_tag st + 1\<rparr>))"

text \<open>The rename of a sidecar that may not exist.\<close>

definition rename_if :: "fsys \<Rightarrow> string \<Rightarrow> string \<Rightarrow> fsys \<times> bool" where
  "rename_if s a b = (if file_of (fs_disk s) a = None then (s, True) else renameFile s a b)"

definition finalize_artifacts :: "fsys \<Rightarrow> string \<Rightarrow> string \<Rightarrow> fsys \<times> bool" where
  "finalize_artifacts s a b =
     (let (s1, ok1) = rename_if s (a @ ''.bloom'') (b @ ''.bloom'')
      in if \<not> ok1 then (s1, False)
         else let (s2, ok2) = rename_if s1 (a @ ''.sidx'') (b @ ''.sidx'')
           in if \<not> ok2 then (s2, False) else renameFile s2 a b)"

definition remove_artifacts :: "fsys \<Rightarrow> string \<Rightarrow> fsys" where
  "remove_artifacts s n = foldl removeFile s [n, n @ ''.bloom'', n @ ''.sidx'']"

definition next_manifest :: "manifest_status \<Rightarrow> u64 \<Rightarrow> string list \<Rightarrow> LsmManifest" where
  "next_manifest current covered files =
     \<lparr>mf_formatVersion = 1,
      mf_generation = (case current of Loaded m \<Rightarrow> mf_generation m + 1 | _ \<Rightarrow> 1),
      mf_coveredWalLsn = max covered (case current of Loaded m \<Rightarrow> mf_coveredWalLsn m | _ \<Rightarrow> 0),
      mf_sstFiles = remdups (sort files)\<rparr>"

definition flush_publish :: "json_codec \<Rightarrow> lz4 \<Rightarrow> string \<Rightarrow> string \<Rightarrow> u64 \<Rightarrow> fsys \<Rightarrow> fsys \<times> (flush_error + u64)" where
  "flush_publish c z dir name covered s =
     (let current = load c z (fs_disk s)
      in case current of
           LoadError e \<Rightarrow> (s, Inl (FlushLoad e))
         | _ \<Rightarrow>
          (case publishedSsts c z (fs_disk s) of
             Inl e \<Rightarrow> (s, Inl (FlushLoad e))
           | Inr files \<Rightarrow>
              (let (s1, ok) = finalize_artifacts s (name @ ''.writing'') name
               in if \<not> ok then (remove_artifacts (remove_artifacts s1 (name @ ''.writing'')) name, Inl FlushRename)
                  else let m = next_manifest current covered (files @ [name])
                    in case publish c z dir m [(dir, name)] s1 of
                         (s2, Some e) \<Rightarrow> (remove_artifacts s2 name, Inl (FlushPublish e))
                       | (s2, None) \<Rightarrow> (s2, Inr (mf_coveredWalLsn m)))))"

definition flush_files :: "json_codec \<Rightarrow> lz4 \<Rightarrow> lsm_config \<Rightarrow> flush_job \<Rightarrow> fsys \<Rightarrow> fsys \<times> (flush_error + u64)" where
  "flush_files c z cfg job s =
     (let name = cf_name cfg (fj_tag job); writing = name @ ''.writing''
      in case writeSst c z (cf_blockBytes cfg) s writing (map snd (fj_snapshot job)) of
           (s1, Some e) \<Rightarrow> (s1, Inl (FlushWrite e))
         | (s1, None) \<Rightarrow> flush_publish c z (cf_dir cfg) name (fj_covered job) (buildBloomForSST c z s1 writing))"

definition reclaim_log :: "lsm_config \<Rightarrow> u64 \<Rightarrow> (u64 \<times> json) list \<Rightarrow> (u64 \<times> json) list" where
  "reclaim_log cfg lsn log_records =
     drop (min (cf_dropped cfg log_records) (length (takeWhile (\<lambda>r. fst r \<le> lsn) log_records))) log_records"

text \<open>The second half; a snapshot whose table could not be published stays among the immutable memtables.\<close>

definition flush_finish :: "json_codec \<Rightarrow> lz4 \<Rightarrow> lsm_config \<Rightarrow> bool \<Rightarrow> flush_job \<Rightarrow> coll \<Rightarrow> coll \<times> flush_error option" where
  "flush_finish c z cfg replaying job st =
     (case flush_files c z cfg job (co_fs st) of
        (s, Inl e) \<Rightarrow> (st\<lparr>co_fs := s\<rparr>, Some e)
      | (s, Inr lsn) \<Rightarrow>
          (st\<lparr>co_fs := s, co_imm := filter (\<lambda>x. fst x \<noteq> fj_tag job) (co_imm st),
              co_published := co_published st + 1,
              co_log := (if 0 < lsn \<and> \<not> replaying then reclaim_log cfg lsn (co_log st) else co_log st)\<rparr>, None))"

definition flush :: "json_codec \<Rightarrow> lz4 \<Rightarrow> lsm_config \<Rightarrow> bool \<Rightarrow> coll \<Rightarrow> coll \<times> flush_error option" where
  "flush c z cfg replaying st =
     (case flush_swap st of None \<Rightarrow> (st, None) | Some (job, st') \<Rightarrow> flush_finish c z cfg replaying job st')"

section \<open>Reading\<close>

text \<open>The rows of the published tables, in file order.\<close>

fun table_docs :: "json_codec \<Rightarrow> lz4 \<Rightarrow> disk \<Rightarrow> string list \<Rightarrow> sst_error + json list" where
  "table_docs c z d [] = Inr []"
| "table_docs c z d (n # ns) =
     (case (case file_of d n of Some f \<Rightarrow> sst_rows c z f | None \<Rightarrow> Inl CannotStat) of
        Inl e \<Rightarrow> Inl e
      | Inr rs \<Rightarrow> (case table_docs c z d ns of Inl e \<Rightarrow> Inl e | Inr rs' \<Rightarrow> Inr (rs @ rs')))"

datatype read_error = ReadManifest manifest_error | ReadTable sst_error

definition published_docs :: "json_codec \<Rightarrow> lz4 \<Rightarrow> disk \<Rightarrow> read_error + json list" where
  "published_docs c z d =
     (case publishedSsts c z d of
        Inl e \<Rightarrow> Inl (ReadManifest e)
      | Inr ns \<Rightarrow> (case table_docs c z d ns of Inl e \<Rightarrow> Inl (ReadTable e) | Inr rs \<Rightarrow> Inr rs))"

definition memory_docs :: "coll \<Rightarrow> json list" where
  "memory_docs st = concat (map (\<lambda>x. map snd (snd x)) (rev (co_imm st))) @ map snd (co_mem st)"

definition getAll :: "json_codec \<Rightarrow> lz4 \<Rightarrow> raft_status \<Rightarrow> u64 \<Rightarrow> coll \<Rightarrow> read_error + json list" where
  "getAll c z rs ci st =
     (case published_docs c z (fs_disk (co_fs st)) of
        Inl e \<Rightarrow> Inl e
      | Inr ds \<Rightarrow>
         (let vis = filter (\<lambda>d. docVisibleByCommitIndex rs d ci);
              (latestById, noIdDocs) = merge_docs c (merge_docs c ([], []) (vis ds)) (vis (memory_docs st))
          in Inr (filter (\<lambda>d. \<not> isDeletedDoc d) (noIdDocs @ map snd latestById))))"

section \<open>Replay\<close>

datatype replay_error =
    EntryNotObject | EntryField | NoNamespace | NamespaceChanged | NoDocuments | NoMutations
  | MutationNotObject | MutationNamespace | DeleteWithoutId | NoData | DocumentWithoutId | ReplayRejected
  | ReplayManifest manifest_error | ReplayFlush flush_error

definition with_id :: "json_codec \<Rightarrow> json \<Rightarrow> replay_error + string \<times> json" where
  "with_id c d = (if \<not> jcontains d ''id'' then Inl DocumentWithoutId else Inr (rowId c d, jput d ''id'' (JStr (rowId c d))))"

definition mutation_doc :: "json_codec \<Rightarrow> lsm_config \<Rightarrow> json \<Rightarrow> replay_error + string \<times> json" where
  "mutation_doc c cfg m =
     (if \<not> is_object m then Inl MutationNotObject
      else case (jvalue get_str m ''userId'' (cf_user cfg), jvalue get_str m ''db'' (cf_db cfg),
                 jvalue get_str m ''collection'' (cf_coll cfg), jvalue get_str m ''op'' ''PUT'') of
             (Some u, Some db, Some k, Some op) \<Rightarrow>
               if u \<noteq> cf_user cfg \<or> db \<noteq> cf_db cfg \<or> k \<noteq> cf_coll cfg then Inl MutationNamespace
               else if op = ''DELETE'' then
                (case jvalue get_str m ''id'' [] of
                   None \<Rightarrow> Inl EntryField
                 | Some i \<Rightarrow>
                     if i = [] then Inl DeleteWithoutId
                     else with_id c (case jlookup m ''data'' of
                            Some d \<Rightarrow> if is_object d then d else JObj [(''_deleted'', JBool True), (''id'', JStr i)]
                          | None \<Rightarrow> JObj [(''_deleted'', JBool True), (''id'', JStr i)]))
               else
                (case jlookup m ''data'' of
                   Some d \<Rightarrow>
                     if \<not> is_object d then Inl NoData
                     else (case with_id c d of
                             Inl e \<Rightarrow> Inl e
                           | Inr (i, d') \<Rightarrow> if cf_accepts cfg d' then Inr (i, d') else Inl ReplayRejected)
                 | None \<Rightarrow> Inl NoData)
           | _ \<Rightarrow> Inl EntryField)"

fun mutation_docs :: "json_codec \<Rightarrow> lsm_config \<Rightarrow> json list \<Rightarrow> replay_error + (string \<times> json) list" where
  "mutation_docs c cfg [] = Inr []"
| "mutation_docs c cfg (m # ms) =
     (case mutation_doc c cfg m of
        Inl e \<Rightarrow> Inl e
      | Inr x \<Rightarrow> (case mutation_docs c cfg ms of Inl e \<Rightarrow> Inl e | Inr xs \<Rightarrow> Inr (x # xs)))"

definition array_of :: "json option \<Rightarrow> json list" where
  "array_of v = (case v of Some (JArr xs) \<Rightarrow> xs | _ \<Rightarrow> [])"

text \<open>A document of a batch is replayed like a put of it; the batch is refused as a whole.\<close>

definition replay_documents :: "json_codec \<Rightarrow> lsm_config \<Rightarrow> json \<Rightarrow> replay_error + (string \<times> json) list" where
  "replay_documents c cfg entry =
     (case jvalue get_str entry ''op'' ''PUT'' of
        None \<Rightarrow> Inl EntryField
      | Some op \<Rightarrow>
          if op = ''PUT_BATCH'' then
            (let ds = array_of (jlookup entry ''data'')
             in if ds = [] then Inl NoDocuments
                else mutation_docs c cfg (map (\<lambda>d. JObj [(''data'', d), (''op'', JStr ''PUT'')]) ds))
          else if op = ''WAL_BATCH'' then
            (let ms = array_of (jlookup entry ''mutations'')
             in if ms = [] then Inl NoMutations else mutation_docs c cfg ms)
          else mutation_docs c cfg [entry])"

definition entry_namespace :: "lsm_config \<Rightarrow> json \<Rightarrow> replay_error option" where
  "entry_namespace cfg entry =
     (if \<not> is_object entry then Some EntryNotObject
      else case (jvalue get_str entry ''userId'' [], jvalue get_str entry ''db'' [], jvalue get_str entry ''collection'' []) of
             (Some u, Some db, Some k) \<Rightarrow>
               if u = [] \<or> db = [] \<or> k = [] then Some NoNamespace
               else if u \<noteq> cf_user cfg \<or> db \<noteq> cf_db cfg \<or> k \<noteq> cf_coll cfg then Some NamespaceChanged
               else None
           | _ \<Rightarrow> Some EntryField)"

text \<open>A process that starts on the files and the log; the first record of the log names the collection.\<close>

definition start_coll :: "fsys \<Rightarrow> (u64 \<times> json) list \<Rightarrow> u64 \<Rightarrow> nat \<Rightarrow> coll" where
  "start_coll s log_records lsn tag =
     \<lparr>co_mem = [], co_imm = [], co_tag = tag, co_progress = no_progress, co_fs = s, co_log = log_records,
      co_lsn = lsn, co_published = 0\<rparr>"

definition covered_lsn :: "manifest_status \<Rightarrow> u64" where
  "covered_lsn status = (case status of Loaded m \<Rightarrow> mf_coveredWalLsn m | _ \<Rightarrow> 0)"

definition reclaim_covered :: "json_codec \<Rightarrow> lz4 \<Rightarrow> lsm_config \<Rightarrow> coll \<Rightarrow> coll" where
  "reclaim_covered c z cfg st =
     (case load c z (fs_disk (co_fs st)) of
        Loaded m \<Rightarrow> st\<lparr>co_log := reclaim_log cfg (mf_coveredWalLsn m) (co_log st)\<rparr>
      | _ \<Rightarrow> st)"

text \<open>A flush during replay: a table that cannot be written is reported and nothing else happens.\<close>

definition replay_flush :: "json_codec \<Rightarrow> lz4 \<Rightarrow> lsm_config \<Rightarrow> coll \<Rightarrow> replay_error + coll" where
  "replay_flush c z cfg st =
     (case flush c z cfg True st of
        (st', None) \<Rightarrow> Inr st'
      | (st', Some e) \<Rightarrow> (case e of FlushWrite _ \<Rightarrow> Inr st' | _ \<Rightarrow> Inl (ReplayFlush e)))"

definition replay_record :: "json_codec \<Rightarrow> lz4 \<Rightarrow> lsm_config \<Rightarrow> u64 \<Rightarrow> u64 \<times> json \<Rightarrow> coll \<Rightarrow> replay_error + coll" where
  "replay_record c z cfg coveredLsn r st =
     (case entry_namespace cfg (snd r) of
        Some e \<Rightarrow> Inl e
      | None \<Rightarrow>
          if fst r \<le> coveredLsn then Inr st
          else case replay_documents c cfg (snd r) of
                 Inl e \<Rightarrow> Inl e
               | Inr ds \<Rightarrow>
                  (let st1 = apply_docs ds (fst r) st
                   in if cf_limit cfg \<le> length (co_mem st1) then replay_flush c z cfg st1 else Inr st1))"

fun replay_records :: "json_codec \<Rightarrow> lz4 \<Rightarrow> lsm_config \<Rightarrow> u64 \<Rightarrow> (u64 \<times> json) list \<Rightarrow> coll \<Rightarrow> replay_error + coll" where
  "replay_records c z cfg cov [] st = Inr st"
| "replay_records c z cfg cov (r # rs) st =
     (case replay_record c z cfg cov r st of Inl e \<Rightarrow> Inl e | Inr st' \<Rightarrow> replay_records c z cfg cov rs st')"

definition replayCollectionWal :: "json_codec \<Rightarrow> lz4 \<Rightarrow> lsm_config \<Rightarrow> coll \<Rightarrow> replay_error + coll" where
  "replayCollectionWal c z cfg st =
     (if co_log st = [] then Inr st
      else case entry_namespace cfg (snd (hd (co_log st))) of
        Some e \<Rightarrow> Inl e
      | None \<Rightarrow>
       (case load c z (fs_disk (co_fs st)) of
          LoadError e \<Rightarrow> Inl (ReplayManifest e)
        | status \<Rightarrow>
           (let cov = covered_lsn status;
                st0 = st\<lparr>co_progress := \<lparr>wp_contiguous = cov, wp_intervals = []\<rparr>\<rparr>
            in case replay_records c z cfg cov (co_log st) st0 of
                 Inl e \<Rightarrow> Inl e
               | Inr st1 \<Rightarrow>
                  (case replay_flush c z cfg st1 of
                     Inl e \<Rightarrow> Inl e
                   | Inr st2 \<Rightarrow> Inr (reclaim_covered c z cfg st2)))))"

end
