(* ===== verification/Lsm_Laws.thy ===== *)
theory Lsm_Laws
  imports Lsm_Collection "HOL-Library.Sublist"
begin

text \<open>
  What a collection holds: the document of an identity is the newest over the published tables and the
  memory, in the order a read merges them.  Where the writes of an identity carry versions that do not fall,
  that document is the last one written; a write replaces it and a flush leaves it alone.
\<close>

section \<open>The last element\<close>

definition last_opt :: "'a list \<Rightarrow> 'a option" where
  "last_opt xs = (if xs = [] then None else Some (last xs))"

lemma last_opt_simps [simp]: "last_opt [] = None" "last_opt (xs @ [x]) = Some x" "last_opt [x] = Some x"
  by (simp_all add: last_opt_def)

lemma last_opt_append: "last_opt (xs @ ys) = (case last_opt ys of None \<Rightarrow> last_opt xs | Some y \<Rightarrow> Some y)"
  by (simp add: last_opt_def)

lemma last_opt_None [simp]: "last_opt xs = None \<longleftrightarrow> xs = []"
  by (simp add: last_opt_def)

lemma last_max_sorted:
  assumes "sorted_wrt (\<lambda>a b. f a \<le> f b) xs"
  shows "last_max f xs = last_opt xs"
  using assms
proof (induction xs rule: rev_induct)
  case (snoc x xs)
  then have "last_max f xs = last_opt xs" "\<forall>y \<in> set xs. f y \<le> f x"
    by (auto simp: sorted_wrt_append)
  then show ?case
    by (auto simp: last_max_snoc last_opt_def)
qed simp

section \<open>Versions that do not fall\<close>

definition chain :: "json_codec \<Rightarrow> json list \<Rightarrow> bool" where
  "chain c ds \<longleftrightarrow>
     (\<forall>i. sorted_wrt (\<lambda>a b. extractDocVersionScore a \<le> extractDocVersionScore b) (docs_of c i ds))"

lemma chain_newest: "chain c ds \<Longrightarrow> newest_doc (docs_of c i ds) = last_opt (docs_of c i ds)"
  by (simp add: chain_def last_max_sorted)

lemma sorted_wrt_subseq: "subseq xs ys \<Longrightarrow> sorted_wrt P ys \<Longrightarrow> sorted_wrt P xs"
proof (induction rule: list_emb.induct)
  case (list_emb_Cons2 x y xs ys)
  have "set xs \<subseteq> set ys"
    using list_emb_set [OF list_emb_Cons2(2)] by blast
  then show ?case
    using list_emb_Cons2 by auto
qed simp_all

section \<open>Memtables\<close>

definition mem_ok :: "json_codec \<Rightarrow> docs \<Rightarrow> bool" where
  "mem_ok c mem \<longleftrightarrow> obj_wf mem \<and> (\<forall>(i, d) \<in> set mem. doc_id c d = Some i)"

lemma mem_ok_Nil [simp]: "mem_ok c []"
  by (simp add: mem_ok_def obj_wf_def)

lemma mem_ok_Cons:
  "mem_ok c ((i, d) # mem) \<longleftrightarrow> mem_ok c mem \<and> doc_id c d = Some i \<and> (\<forall>k \<in> fst ` set mem. i < k)"
  by (auto simp: mem_ok_def obj_wf_def)

lemma docs_of_mem:
  "mem_ok c mem \<Longrightarrow> docs_of c i (map snd mem) = (case map_of mem i of None \<Rightarrow> [] | Some d \<Rightarrow> [d])"
proof (induction mem)
  case (Cons x mem)
  obtain k d where x: "x = (k, d)"
    by (cases x)
  have ok: "mem_ok c mem" "doc_id c d = Some k" "\<forall>j \<in> fst ` set mem. k < j"
    using Cons.prems by (simp_all add: x mem_ok_Cons)
  show ?case
  proof (cases "k = i")
    case True
    then have "map_of mem i = None"
      using ok(3) by (auto simp: map_of_eq_None_iff)
    then show ?thesis
      using Cons.IH [OF ok(1)] ok(2) True by (simp add: x)
  next
    case False
    then show ?thesis
      using Cons.IH [OF ok(1)] ok(2) by (simp add: x)
  qed
qed simp

lemma mem_ok_insert:
  assumes "mem_ok c mem" "doc_id c d = Some i"
  shows "mem_ok c (obj_insert i d mem)"
proof -
  have wf: "obj_wf mem" "obj_wf (obj_insert i d mem)"
    using assms(1) by (simp_all add: mem_ok_def)
  have keys: "distinct (map fst (obj_insert i d mem))"
    using wf(2) by (simp add: obj_wf_def strict_sorted_iff)
  have "doc_id c e = Some k" if "(k, e) \<in> set (obj_insert i d mem)" for k e
  proof -
    have "map_of (obj_insert i d mem) k = Some e"
      using that keys by (simp add: map_of_is_SomeI)
    then show ?thesis
      using assms wf(1) by (auto simp: mem_ok_def split: if_splits dest: map_of_SomeD)
  qed
  then show ?thesis
    using wf(2) by (auto simp: mem_ok_def)
qed

abbreviation ids_ok :: "json_codec \<Rightarrow> (string \<times> json) list \<Rightarrow> bool" where
  "ids_ok c ws \<equiv> list_all (\<lambda>(i, d). doc_id c d = Some i) ws"

lemma insert_docs_simps [simp]:
  "insert_docs [] mem = mem" "insert_docs ((i, d) # ws) mem = insert_docs ws (obj_insert i d mem)"
  "insert_docs (ws @ ws') mem = insert_docs ws' (insert_docs ws mem)"
  by (simp_all add: insert_docs_def)

lemma insert_docs_ok: "mem_ok c mem \<Longrightarrow> ids_ok c ws \<Longrightarrow> mem_ok c (insert_docs ws mem)"
  by (induction ws arbitrary: mem) (auto simp: mem_ok_insert)

text \<open>The memtable holds the last document written under each identity.\<close>

lemma insert_docs_last:
  assumes "mem_ok c mem" "ids_ok c ws"
  shows "last_opt (docs_of c i (map snd (insert_docs ws mem))) = last_opt (docs_of c i (map snd mem @ map snd ws))"
  using assms
proof (induction ws arbitrary: mem)
  case (Cons x ws)
  obtain k d where x: "x = (k, d)"
    by (cases x)
  have d: "doc_id c d = Some k" "ids_ok c ws"
    using Cons.prems(2) by (simp_all add: x)
  have ok: "mem_ok c (obj_insert k d mem)"
    using mem_ok_insert Cons.prems(1) d(1) .
  have wf: "obj_wf mem"
    using Cons.prems(1) by (simp add: mem_ok_def)
  have one: "last_opt (docs_of c i (map snd (obj_insert k d mem))) = last_opt (docs_of c i (map snd mem @ [d]))"
    using docs_of_mem [OF ok, of i] docs_of_mem [OF Cons.prems(1), of i] wf d(1)
    by (auto simp: last_opt_append split: option.splits)
  have "last_opt (docs_of c i (map snd (insert_docs ws (obj_insert k d mem))))
      = last_opt (docs_of c i (map snd (obj_insert k d mem)) @ docs_of c i (map snd ws))"
    using Cons.IH [OF ok d(2)] by simp
  also have "\<dots> = last_opt (docs_of c i (map snd mem @ [d]) @ docs_of c i (map snd ws))"
    using one by (simp only: last_opt_append)
  finally show ?case
    by (simp add: x)
qed simp

section \<open>The contents of a collection\<close>

definition view :: "json_codec \<Rightarrow> lz4 \<Rightarrow> coll \<Rightarrow> string \<Rightarrow> json option" where
  "view c z st i =
     (case published_docs c z (fs_disk (co_fs st)) of
        Inl e \<Rightarrow> None
      | Inr ds \<Rightarrow> newest_doc (docs_of c i (ds @ memory_docs st)))"

text \<open>A full read returns exactly the documents of the view that are not deleted, and those without identity.\<close>

theorem getAll_view:
  assumes "published_docs c z (fs_disk (co_fs st)) = Inr ds"
    and "\<forall>d \<in> set (ds @ memory_docs st). docVisibleByCommitIndex rs d ci \<and> doc_id c d \<noteq> None"
    and "getAll c z rs ci st = Inr out"
  shows "d \<in> set out \<longleftrightarrow> (\<exists>i. view c z st i = Some d) \<and> \<not> isDeletedDoc d"
proof -
  let ?m = "merge_docs c ([], []) (ds @ memory_docs st)"
  have vis: "filter (\<lambda>d. docVisibleByCommitIndex rs d ci) ds = ds"
    "filter (\<lambda>d. docVisibleByCommitIndex rs d ci) (memory_docs st) = memory_docs st"
    using assms(2) by (simp_all add: filter_id_conv)
  have noid: "filter (\<lambda>d. doc_id c d = None) (ds @ memory_docs st) = []"
    using assms(2) by (simp add: filter_empty_conv)
  note m = merge_docs_lookup [of "([], [])" c "ds @ memory_docs st"]
  have wf: "obj_wf (fst ?m)" "\<And>i. map_of (fst ?m) i = view c z st i" "snd ?m = []"
    using m noid assms(1) by (simp_all add: obj_wf_def view_def del: foldl_append filter_append)
  have "out = filter (\<lambda>d. \<not> isDeletedDoc d) (map snd (fst ?m))"
    using assms(1,3) wf(3) by (auto simp: getAll_def vis Let_def split: prod.splits)
  moreover have "d \<in> snd ` set (fst ?m) \<longleftrightarrow> (\<exists>i. map_of (fst ?m) i = Some d)"
  proof -
    have "distinct (map fst (fst ?m))"
      using wf(1) by (simp add: obj_wf_def strict_sorted_iff)
    then show ?thesis
      by (force simp: map_of_eq_Some_iff)
  qed
  ultimately show ?thesis
    using wf(2) by auto
qed

section \<open>A write\<close>

definition memory_ok :: "json_codec \<Rightarrow> coll \<Rightarrow> bool" where
  "memory_ok c st \<longleftrightarrow> mem_ok c (co_mem st) \<and> (\<forall>x \<in> set (co_imm st). mem_ok c (snd x))"

definition coll_docs :: "json_codec \<Rightarrow> lz4 \<Rightarrow> coll \<Rightarrow> json list \<Rightarrow> bool" where
  "coll_docs c z st ds \<longleftrightarrow> (\<exists>ts. published_docs c z (fs_disk (co_fs st)) = Inr ts \<and> ds = ts @ memory_docs st)"

lemma view_newest: "coll_docs c z st ds \<Longrightarrow> view c z st i = newest_doc (docs_of c i ds)"
  by (auto simp: coll_docs_def view_def)

lemma view_last: "coll_docs c z st ds \<Longrightarrow> chain c ds \<Longrightarrow> view c z st i = last_opt (docs_of c i ds)"
  by (simp add: view_newest chain_newest)

lemma newest_of_pair:
  "newest_doc (docs_of c i (xs @ map snd mem)) = later extractDocVersionScore (newest_doc (docs_of c i xs)) (map_of mem i)"
  if "mem_ok c mem"
  using that by (simp add: docs_of_mem last_max_append last_max_Cons split: option.splits)

text \<open>One document applied to the memtable replaces the document of its identity unless its version is lower.\<close>

theorem apply_doc_view:
  assumes ok: "memory_ok c st" and ds: "coll_docs c z st ds" and i: "doc_id c d = Some i"
    and mono: "\<And>e. view c z st i = Some e \<Longrightarrow> extractDocVersionScore e \<le> extractDocVersionScore d"
  shows "view c z (apply_docs [(i, d)] lsn st) = (view c z st)(i \<mapsto> d)" "memory_ok c (apply_docs [(i, d)] lsn st)"
proof -
  obtain ts where ts: "published_docs c z (fs_disk (co_fs st)) = Inr ts"
    using ds by (auto simp: coll_docs_def)
  let ?old = "ts @ concat (map (\<lambda>x. map snd (snd x)) (rev (co_imm st)))"
  have mem: "mem_ok c (co_mem st)" "mem_ok c (obj_insert i d (co_mem st))" "obj_wf (co_mem st)"
    using ok i mem_ok_insert by (auto simp: memory_ok_def) (simp add: mem_ok_def)
  have v: "view c z st j = later extractDocVersionScore (newest_doc (docs_of c j ?old)) (map_of (co_mem st) j)" for j
    using ts newest_of_pair [OF mem(1), of j ?old] by (simp add: view_def memory_docs_def)
  have v': "view c z (apply_docs [(i, d)] lsn st) j
      = later extractDocVersionScore (newest_doc (docs_of c j ?old)) (map_of (obj_insert i d (co_mem st)) j)" for j
    using ts newest_of_pair [OF mem(2), of j ?old] by (simp add: view_def memory_docs_def apply_docs_def)
  have "later extractDocVersionScore (newest_doc (docs_of c i ?old)) (Some d) = Some d"
  proof (cases "newest_doc (docs_of c i ?old)")
    case (Some e)
    have "extractDocVersionScore e \<le> extractDocVersionScore d"
    proof (cases "map_of (co_mem st) i")
      case None
      then show ?thesis
        using v [of i] mono Some by simp
    next
      case (Some f)
      then show ?thesis
        using v [of i] mono \<open>newest_doc (docs_of c i ?old) = Some e\<close> by (auto split: if_splits)
    qed
    then show ?thesis
      using Some by simp
  qed simp
  then show "view c z (apply_docs [(i, d)] lsn st) = (view c z st)(i \<mapsto> d)"
    using v v' mem(3) by (auto simp: fun_eq_iff)
  show "memory_ok c (apply_docs [(i, d)] lsn st)"
    using ok mem(2) by (simp add: memory_ok_def apply_docs_def)
qed

end
