(* ===== verification/Lsm_Finalize.thy ===== *)
theory Lsm_Finalize
  imports Lsm_Laws
begin

text \<open>
  The steps of a flush on the files: the names it touches, what writing, finalising and removing a table's files
  leave alone, and that each step goes through when no system call fails.
\<close>

section \<open>The names a new table touches\<close>

text \<open>A table is written under a working name, its own name with the suffix \<open>e\<close>, and moved to its own name.\<close>

definition work_names :: "string \<Rightarrow> string \<Rightarrow> string set" where
  "work_names e name =
     {name, name @ e, name @ e @ ''.writing'', name @ e @ ''.bloom'', name @ e @ ''.bloom.tmp'',
      name @ ''.bloom'', name @ e @ ''.sidx'', name @ ''.sidx''}"

abbreviation suffixes :: "string set" where
  "suffixes \<equiv> {''.writing'', ''.tmp''}"

lemma path_extension_suffix:
  assumes "CHR ''.'' \<notin> set e"
  shows "path_extension (x @ CHR ''.'' # e) = CHR ''.'' # e \<or> path_extension (x @ CHR ''.'' # e) = []"
proof -
  have "takeWhile (\<lambda>ch. ch \<noteq> CHR ''.'') (rev (x @ CHR ''.'' # e)) = rev e"
    using assms by (simp add: takeWhile_append)
  then show ?thesis
    by (simp add: path_extension_def Let_def)
qed

lemma not_sst_suffix: "CHR ''.'' \<notin> set e \<Longrightarrow> e \<noteq> ''sst'' \<Longrightarrow> path_extension (x @ CHR ''.'' # e) \<noteq> ''.sst''"
  using path_extension_suffix [of e x] by auto

lemma work_names_extension: "e \<in> suffixes \<Longrightarrow> n \<in> work_names e name \<Longrightarrow> n \<noteq> name \<Longrightarrow> path_extension n \<noteq> ''.sst''"
  using not_sst_suffix [of "''writing''" name] not_sst_suffix [of "''tmp''" name]
    not_sst_suffix [of "''writing''" "name @ e"] not_sst_suffix [of "''bloom''" "name @ e"]
    not_sst_suffix [of "''tmp''" "name @ e @ ''.bloom''"] not_sst_suffix [of "''sidx''" "name @ e"]
    not_sst_suffix [of "''bloom''" name] not_sst_suffix [of "''sidx''" name]
  by (auto simp: work_names_def)

lemma append_suffix_drop: "a = x @ b \<Longrightarrow> drop (length a - length b) a = b"
  by simp

lemma work_names_manifest:
  assumes "safeSstName name" "e \<in> suffixes"
  shows "kManifestName \<notin> work_names e name"
proof -
  have "name \<noteq> kManifestName"
    using safe_not_special [OF assms(1)] special_names(2) by metis
  moreover have "kManifestName \<noteq> name @ x"
    if "x \<in> {e, e @ ''.writing'', e @ ''.bloom'', e @ ''.bloom.tmp'', ''.bloom'', e @ ''.sidx'', ''.sidx''}" for x
    using that assms(2) append_suffix_drop [of kManifestName name x] by (auto simp: kManifestName_def)
  ultimately show ?thesis
    by (auto simp: work_names_def)
qed

lemma work_names_fresh:
  assumes "safeSstName name" "name \<notin> N" "\<forall>n \<in> N. path_extension n = ''.sst''" "e \<in> suffixes"
  shows "work_names e name \<inter> insert kManifestName (insert name N) = {name}"
proof -
  have "work_names e name \<inter> N = {}" "name \<in> work_names e name"
    using assms work_names_extension by (blast, simp add: work_names_def)
  then show ?thesis
    using work_names_manifest [OF assms(1,4)] by auto
qed

section \<open>Finalising the files\<close>

context call_invariant
begin

lemma writeSst_keeps:
  assumes h: "Q s" and N: "path \<notin> N" "path @ ''.writing'' \<notin> N" and w: "writeSst c z target s path rows = (s', r)"
  shows "Q s'"
proof (cases "sst_image c z target rows")
  case (Inl e)
  then show ?thesis
    using w writeFile_keeps [OF removeFile_keeps [OF h N(2)] N(2), OF surjective_pairing] by (auto simp: writeSst_def Let_def)
next
  case (Inr fi)
  let ?t = "path @ ''.writing''"
  obtain s1 ok1 where s1: "writeFile (removeFile s ?t) ?t (fst fi) = (s1, ok1)"
    by (cases "writeFile (removeFile s ?t) ?t (fst fi)")
  note h1 = writeFile_keeps [OF removeFile_keeps [OF h N(2)] N(2) s1]
  obtain s2 ok2 where s2: "syncFile s1 ?t = (s2, ok2)"
    by (cases "syncFile s1 ?t")
  note h2 = syncFile_keeps [OF h1 s2]
  obtain s3 ok3 where s3: "renameFile s2 ?t path = (s3, ok3)"
    by (cases "renameFile s2 ?t path")
  note h3 = renameFile_keeps [OF h2 N(2,1) s3]
  obtain s4 ok4 where s4: "syncDirectory s3 = (s4, ok4)"
    by (cases "syncDirectory s3")
  note h4 = syncDirectory_keeps [OF h3 s4]
  show ?thesis
    using w Inr s1 s2 s3 s4 h1 h2 h3 h4 by (cases fi) (auto simp: writeSst_def Let_def split: if_splits)
qed

lemma rename_if_keeps: "Q s \<Longrightarrow> a \<notin> N \<Longrightarrow> b \<notin> N \<Longrightarrow> rename_if s a b = (s', ok) \<Longrightarrow> Q s'"
  by (auto simp: rename_if_def intro: renameFile_keeps split: if_splits)

lemma finalize_artifacts_keeps:
  assumes h: "Q s" and N: "{a, b, a @ ''.bloom'', b @ ''.bloom'', a @ ''.sidx'', b @ ''.sidx''} \<inter> N = {}"
    and f: "finalize_artifacts s a b = (s', ok)"
  shows "Q s'"
proof -
  obtain s1 ok1 where s1: "rename_if s (a @ ''.bloom'') (b @ ''.bloom'') = (s1, ok1)"
    by (cases "rename_if s (a @ ''.bloom'') (b @ ''.bloom'')")
  have h1: "Q s1"
    using rename_if_keeps [OF h _ _ s1] N by auto
  obtain s2 ok2 where s2: "rename_if s1 (a @ ''.sidx'') (b @ ''.sidx'') = (s2, ok2)"
    by (cases "rename_if s1 (a @ ''.sidx'') (b @ ''.sidx'')")
  have h2: "Q s2"
    using rename_if_keeps [OF h1 _ _ s2] N by auto
  have "Q s'" if "renameFile s2 a b = (s', ok)"
    using renameFile_keeps [OF h2 _ _ that] N by auto
  then show ?thesis
    using f s1 s2 h1 h2 by (auto simp: finalize_artifacts_def split: if_splits)
qed

lemma remove_artifacts_keeps:
  assumes "Q s" "{n, n @ ''.bloom'', n @ ''.sidx''} \<inter> N = {}"
  shows "Q (remove_artifacts s n)"
  using assms by (auto simp: remove_artifacts_def intro!: removeFile_keeps)

end

text \<open>Which calls fail is not up to the calls.\<close>

interpretation fails: call_invariant N "\<lambda>s. fs_fail s = F" for N F
  by unfold_locales
    (auto simp: writeFile_def syncFile_def syncDirectory_def renameFile_def removeFile_def fs_do_def
      split: option.splits if_splits)

text \<open>The table ends up under its final name with its contents synchronised.\<close>

lemma finalize_artifacts_moves:
  assumes h: "holds d0 {a} (fs_disk s)" "b \<noteq> a" "b \<noteq> a @ ''.bloom''" "b \<noteq> a @ ''.sidx''" "b @ ''.bloom'' \<noteq> a" "b @ ''.sidx'' \<noteq> a"
    and f: "finalize_artifacts s a b = (s', True)"
  shows "file_of (fs_disk s') b = file_of d0 a" "data_synced (fs_disk s') b"
proof -
  obtain s1 where s1: "rename_if s (a @ ''.bloom'') (b @ ''.bloom'') = (s1, True)"
    using f by (cases "rename_if s (a @ ''.bloom'') (b @ ''.bloom'')") (auto simp: finalize_artifacts_def split: if_splits)
  obtain s2 where s2: "rename_if s1 (a @ ''.sidx'') (b @ ''.sidx'') = (s2, True)" "renameFile s2 a b = (s', True)"
    using f s1 by (cases "rename_if s1 (a @ ''.sidx'') (b @ ''.sidx'')") (auto simp: finalize_artifacts_def split: if_splits)
  have "holds d0 {a} (fs_disk s1)"
    using now.rename_if_keeps [OF h(1) _ _ s1] h by auto
  then have "holds d0 {a} (fs_disk s2)"
    using now.rename_if_keeps [OF _ _ _ s2(1)] h by auto
  then have a: "disk_wf (fs_disk s2)" "data_synced (fs_disk s2) a" "file_of (fs_disk s2) a = file_of d0 a"
    by (simp_all add: holds_def settled_def)
  show "file_of (fs_disk s') b = file_of d0 a" "data_synced (fs_disk s') b"
    using renameFile_moves [OF s2(2) a(1)] h(2) a by auto
qed

section \<open>Calls that cannot fail\<close>

definition healthy :: "fsys \<Rightarrow> bool" where
  "healthy s \<longleftrightarrow> fs_fail s = (\<lambda>_. None)"

lemma healthy_do [simp]: "healthy (fs_do d s) = healthy s"
  by (simp add: healthy_def fs_do_def)

lemmas healthy_rename_if_keeps = fails.rename_if_keeps [where N = "{}" and F = "\<lambda>_. None", folded healthy_def]

lemma healthy_fails: "healthy s \<Longrightarrow> fs_fails s = None"
  by (simp add: healthy_def)

lemma file_live: "file_of d n = None \<longleftrightarrow> map_of (d_live d) n = None"
  by (simp add: file_of_def node_of_def)

lemma healthy_writeFile: "healthy s \<Longrightarrow> writeFile s n bs = (fs_do (put_file (fs_disk s) n bs) s, True)"
  by (simp add: writeFile_def healthy_fails)

lemma healthy_syncFile:
  "healthy s \<Longrightarrow> file_of (fs_disk s) n \<noteq> None \<Longrightarrow> syncFile s n = (fs_do (sync_node (fs_disk s) n) s, True)"
  by (simp add: syncFile_def healthy_fails file_live del: not_None_eq)

lemma healthy_syncDirectory: "healthy s \<Longrightarrow> syncDirectory s = (fs_do (sync_names (fs_disk s)) s, True)"
  by (simp add: syncDirectory_def healthy_fails)

lemma healthy_renameFile:
  "healthy s \<Longrightarrow> file_of (fs_disk s) a \<noteq> None \<Longrightarrow> renameFile s a b = (fs_do (move_name (fs_disk s) a b) s, True)"
  by (simp add: renameFile_def healthy_fails file_live del: not_None_eq)

lemmas healthy_calls = healthy_writeFile healthy_syncFile healthy_syncDirectory healthy_renameFile

section \<open>The steps of a flush\<close>

lemma healthy_writeSst:
  assumes "healthy s" "disk_wf (fs_disk s)" "sst_image c z target rows = Inr (f, i)"
  shows "snd (writeSst c z target s path rows) = None"
proof -
  let ?t = "path @ ''.writing''"
  let ?s0 = "removeFile s ?t"
  have h0: "healthy ?s0"
    using assms(1) by (simp add: removeFile_def)
  have wf: "disk_wf (fs_disk ?s0)"
    using assms(2) by (simp add: removeFile_def drop_name_wf)
  let ?d1 = "put_file (fs_disk ?s0) ?t f"
  have d1: "disk_wf ?d1" "file_of ?d1 ?t = Some f"
    using put_file_wf [OF wf] put_file_file [OF wf] by simp_all
  then show ?thesis
    using h0 assms(3) by (simp add: writeSst_def Let_def healthy_calls sync_node_file)
qed

lemma healthy_rename_if: "healthy s \<Longrightarrow> snd (rename_if s a b)"
  by (auto simp: rename_if_def healthy_renameFile)

lemma healthy_finalize:
  assumes h: "healthy s" "holds d0 {a} (fs_disk s)" "file_of d0 a \<noteq> None" "b \<noteq> a" "b @ ''.bloom'' \<noteq> a" "b @ ''.sidx'' \<noteq> a"
  shows "snd (finalize_artifacts s a b)"
proof -
  obtain s1 where s1: "rename_if s (a @ ''.bloom'') (b @ ''.bloom'') = (s1, True)"
    using healthy_rename_if [OF h(1)] by (metis (full_types) prod.collapse)
  have h1: "healthy s1" "holds d0 {a} (fs_disk s1)"
    using healthy_rename_if_keeps [OF h(1) _ _ s1] now.rename_if_keeps [OF h(2) _ _ s1] h by auto
  obtain s2 where s2: "rename_if s1 (a @ ''.sidx'') (b @ ''.sidx'') = (s2, True)"
    using healthy_rename_if [OF h1(1)] by (metis (full_types) prod.collapse)
  have h2: "healthy s2" "holds d0 {a} (fs_disk s2)"
    using healthy_rename_if_keeps [OF h1(1) _ _ s2] now.rename_if_keeps [OF h1(2) _ _ s2] h by auto
  have "file_of (fs_disk s2) a \<noteq> None"
    using h2(2) h(3) by (simp add: holds_def)
  then show ?thesis
    by (simp add: finalize_artifacts_def s1 s2 healthy_renameFile [OF h2(1)])
qed

lemma healthy_sync_sidecars:
  assumes "healthy s" "sync_sidecars s ns = (s', ok)"
  shows "ok \<and> healthy s'"
  using assms
proof (induction ns arbitrary: s)
  case (Cons n ns)
  show ?case
  proof (cases "file_of (fs_disk s) n = None")
    case False
    then have "sync_sidecars (fs_do (sync_node (fs_disk s) n) s) ns = (s', ok)"
      using Cons.prems healthy_syncFile [of s n] by auto
    then show ?thesis
      using Cons.IH [of "fs_do (sync_node (fs_disk s) n) s"] Cons.prems(1) by simp
  qed (use Cons.IH [of s] Cons.prems in simp)
qed simp

lemma healthy_replace: "healthy s \<Longrightarrow> disk_wf (fs_disk s) \<Longrightarrow> snd (replace_manifest c m s) = None"
  by (simp add: replace_manifest_def Let_def healthy_calls put_file_wf put_file_file sync_node_file)

lemma healthy_publish:
  assumes h: "healthy s" "disk_wf (fs_disk s)"
    and may: "may_publish c z (fs_disk s) [name] m" and f: "file_of (fs_disk s) name = Some f" "verifySst c z f = None"
    and name: "path_extension name = ''.sst''"
  shows "snd (publish c z dir m [(dir, name)] s) = None"
proof -
  obtain s1 where s1: "syncFile s name = (s1, True)" "healthy s1"
    using healthy_syncFile [OF h(1), of name] f(1) h(1) by auto
  obtain s2 where s2: "sync_sidecars s1 (sidecar_names name) = (s2, True)" "healthy s2"
    using healthy_sync_sidecars [OF s1(2)] by (metis prod.collapse)
  have wf: "disk_wf (fs_disk s2)"
    using syncFile_only(1) [OF s1(1)] sync_sidecars_only [OF s2(1)] h(2) by (simp add: only_syncs_def)
  have sync: "sync_artifacts c z v s [name] = (s2, None)" for v
    using f s1 s2 name by simp
  have val: "validateManifest c z (fs_disk s) (load c z (fs_disk s) = ABSENT) m = Inr (sorted_manifest m)"
    using may by (simp add: may_publish_def)
  have "publish c z dir m [(dir, name)] s = replace_manifest c (sorted_manifest m) (fs_do (sync_names (fs_disk s2)) s2)"
  proof (cases "load c z (fs_disk s)")
    case ABSENT
    then show ?thesis
      using val sync [of False] name healthy_syncDirectory [OF s2(2)] by (simp add: publish_def Let_def)
  next
    case (Loaded cur)
    then have "mf_generation cur < mf_generation m" "mf_coveredWalLsn cur \<le> mf_coveredWalLsn m"
      "set (mf_sstFiles m) \<subseteq> insert name (set (mf_sstFiles cur))"
      using may by (auto simp: may_publish_def)
    then show ?thesis
      using Loaded val sync [of True] name healthy_syncDirectory [OF s2(2)] by (auto simp: publish_def Let_def not_le not_less)
  next
    case (LoadError e)
    then show ?thesis
      using may by (simp add: may_publish_def)
  qed
  then show ?thesis
    using healthy_replace [of "fs_do (sync_names (fs_disk s2)) s2"] s2(2) wf by (simp add: sync_names_wf)
qed

end
