(* ===== verification/Lsm_Flush.thy ===== *)
theory Lsm_Flush
  imports Lsm_Finalize
begin

text \<open>
  A flush and the crashes that can interrupt it.  A flush that succeeds adds one table after the published ones
  and moves the boundary of the manifest; at every point in between a crash leaves either the old tables with the
  old boundary or the new ones with the new boundary.
\<close>

section \<open>A store that a flush can extend\<close>

text \<open>
  The manifest and the names of \<open>N\<close>, among them the published tables, are safe on the disk and no file has the
  new name.  Without a manifest there is no table in the directory.
\<close>

definition stable_store :: "json_codec \<Rightarrow> lz4 \<Rightarrow> disk \<Rightarrow> string set \<Rightarrow> string \<Rightarrow> string list \<Rightarrow> bool" where
  "stable_store c z d N name files \<longleftrightarrow>
     holds d (insert kManifestName (insert name N)) d \<and> safeSstName name \<and> name \<notin> N \<and> file_of d name = None
     \<and> (\<forall>n \<in> N. path_extension n = ''.sst'') \<and> set files \<subseteq> N
     \<and> (\<forall>e. load c z d \<noteq> LoadError e) \<and> (\<forall>m. load c z d = Loaded m \<longrightarrow> mf_sstFiles m = files)
     \<and> (load c z d = ABSENT \<longrightarrow> files = []
          \<and> (\<forall>n. path_extension n = ''.sst'' \<longrightarrow> n \<in> insert name N \<and> file_of d n = None))"

lemma sst_not_special: "path_extension n = ''.sst'' \<Longrightarrow> n \<notin> special"
  by (auto simp: special_def kManifestName_def kManifestTemporary_def path_extension_def)

lemma load_sorted: "load c z d = Loaded m \<Longrightarrow> sorted (mf_sstFiles m) \<and> distinct (mf_sstFiles m)"
  by (auto simp: load_def validateManifest_def Let_def split: option.splits if_splits sum.splits)

text \<open>The two cases: a manifest whose tables are on the disk, and a directory without any table.\<close>

lemma stable_loaded:
  assumes "store_ok c z d" "load c z d = Loaded m" "safeSstName name" "settled d name" "file_of d name = None"
  shows "stable_store c z d (set (mf_sstFiles m)) name (mf_sstFiles m)"
  using assms load_files [OF assms(2)] by (auto simp: stable_store_def store_ok_def holds_def safeSstName_def)

lemma stable_absent:
  assumes "store_ok c z d" "load c z d = ABSENT" "safeSstName name"
    "\<forall>n. path_extension n = ''.sst'' \<longrightarrow> settled d n \<and> file_of d n = None"
  shows "stable_store c z d ({n. path_extension n = ''.sst''} - {name}) name []"
  using assms by (auto simp: stable_store_def store_ok_def holds_def safeSstName_def)

lemma artifact_names_fresh:
  assumes "stable_store c z d N name files"
  shows "{name, name @ ''.bloom'', name @ ''.sidx''} \<inter> insert kManifestName N = {}"
proof -
  have n: "safeSstName name" "name \<notin> N" "\<forall>n \<in> N. path_extension n = ''.sst''"
    using assms by (simp_all add: stable_store_def)
  have "name @ x \<notin> insert kManifestName N" if "name @ x \<in> work_names ''.tmp'' name" "x \<noteq> []" for x
    using work_names_fresh [OF n, of "''.tmp''"] that by blast
  then have "name @ ''.bloom'' \<notin> insert kManifestName N" "name @ ''.sidx'' \<notin> insert kManifestName N"
    by (simp_all add: work_names_def)
  then show ?thesis
    using n safe_not_special special_names(2) by auto
qed

lemma legacy_ssts_none: "\<forall>n \<in> set ns. path_extension n \<noteq> ''.sst'' \<Longrightarrow> legacy_ssts c z d ns = Inr []"
  by (induction ns) auto

lemma live_file: "n \<in> fst ` set (d_live d) \<Longrightarrow> file_of d n \<noteq> None"
  by (simp add: file_of_def node_of_def map_of_eq_None_iff)

lemma stable_covers: "stable_store c z d N name files \<Longrightarrow> covers c z d N"
  by (simp add: stable_store_def)

lemma stable_same:
  assumes st: "stable_store c z d N name files" and h: "holds d (insert kManifestName (insert name N)) d'"
  shows "load c z d' = load c z d" "publishedSsts c z d' = Inr files"
proof -
  show l: "load c z d' = load c z d"
    by (rule covers_load_same [OF stable_covers [OF st]]) (use h in \<open>simp_all add: holds_def\<close>)
  show "publishedSsts c z d' = Inr files"
  proof (cases "load c z d = ABSENT")
    case True
    have s: "files = []" "path_extension n = ''.sst'' \<Longrightarrow> n \<in> insert name N \<and> file_of d n = None" for n
      using st True by (simp_all add: stable_store_def)
    have "file_of d' n = None" if "path_extension n = ''.sst''" for n
      using h s(2) [OF that] unfolding holds_def by (metis insertCI)
    then have "\<forall>n \<in> set (map fst (d_live d')). path_extension n \<noteq> ''.sst''"
      using live_file by (metis set_map)
    then show ?thesis
      using True l legacy_ssts_none s(1) by (simp add: publishedSsts_def)
  next
    case False
    then show ?thesis
      using st l by (cases "load c z d") (simp_all add: stable_store_def publishedSsts_def)
  qed
qed

section \<open>A table that is about to be published\<close>

text \<open>What the writing of a new table establishes before the publication, the table being under its name.\<close>

definition installed :: "json_codec \<Rightarrow> lz4 \<Rightarrow> nat \<Rightarrow> json list \<Rightarrow> string \<Rightarrow> disk \<Rightarrow> string set \<Rightarrow> fsys \<Rightarrow> bool" where
  "installed c z target rows name d0 N s \<longleftrightarrow>
     always (holds d0 (insert kManifestName N)) s
     \<and> (\<exists>f st. sst_image c z target rows = Inr (f, st) \<and> file_of (fs_disk s) name = Some f)"

text \<open>What a publication starts from.\<close>

lemma installed_facts:
  assumes inst: "installed c z target rows name d0 N s" and st: "stable_store c z d0 N name files"
  shows "always (holds (fs_disk s) (insert kManifestName N)) s" "load c z (fs_disk s) = load c z d0"
    "covers c z (fs_disk s) N" "N \<inter> special = {}" "snd ` set [(dir, name)] \<inter> special = {}"
    "n \<in> N \<Longrightarrow> file_of (fs_disk s) n = file_of d0 n"
proof -
  have a: "always (holds d0 (insert kManifestName N)) s"
    using inst by (simp add: installed_def)
  have h: "file_of (fs_disk s) n = file_of d0 n" if "n \<in> insert kManifestName N" for n
    using always_now [OF a] that by (auto simp: holds_def)
  show "n \<in> N \<Longrightarrow> file_of (fs_disk s) n = file_of d0 n"
    by (simp add: h)
  show "always (holds (fs_disk s) (insert kManifestName N)) s"
    by (rule always_mono [OF a]) (simp add: holds_def h)
  show l: "load c z (fs_disk s) = load c z d0"
    by (rule covers_load_same [OF stable_covers [OF st]]) (simp_all add: h)
  show "covers c z (fs_disk s) N"
    using stable_covers [OF st] by (simp add: l)
  show "N \<inter> special = {}"
    using st sst_not_special by (auto simp: stable_store_def)
  show "snd ` set [(dir, name)] \<inter> special = {}"
    using st safe_not_special by (simp add: stable_store_def)
qed

section \<open>The phases of a flush\<close>

abbreviation prepared :: "json_codec \<Rightarrow> lz4 \<Rightarrow> lsm_config \<Rightarrow> flush_job \<Rightarrow> disk \<Rightarrow> string set \<Rightarrow> fsys \<Rightarrow> bool" where
  "prepared c z cfg job \<equiv> installed c z (cf_blockBytes cfg) (map snd (fj_snapshot job)) (cf_name cfg (fj_tag job))"

abbreviation flush_manifest :: "lsm_config \<Rightarrow> flush_job \<Rightarrow> manifest_status \<Rightarrow> string list \<Rightarrow> LsmManifest" where
  "flush_manifest cfg job status files \<equiv> next_manifest status (fj_covered job) (files @ [cf_name cfg (fj_tag job)])"

lemma table_written:
  assumes w: "writeSst c z target s path rows = (s1, None)" and past: "always (holds d0 M) s"
    and fr: "path \<notin> M" "path @ ''.writing'' \<notin> M" "path @ ''.bloom'' \<notin> M" "path @ ''.bloom.tmp'' \<notin> M"
  obtains f st where "sst_image c z target rows = Inr (f, st)" "file_of (fs_disk s1) path = Some f"
    "holds (fs_disk s1) {path} (fs_disk (buildBloomForSST c z s1 path))"
    "always (holds d0 M) (buildBloomForSST c z s1 path)" "fs_fail (buildBloomForSST c z s1 path) = fs_fail s"
proof -
  note spec = writeSst_spec [OF w past fr(1,2)]
  obtain f st where f: "sst_image c z target rows = Inr (f, st)" "file_of (fs_disk s1) path = Some f"
      "settled (fs_disk s1) path"
    using spec(2) by blast
  have "fs_fail s1 = fs_fail s"
    by (rule fails.writeSst_keeps [where N = "{}", OF _ _ _ w]) simp_all
  then have "fs_fail (buildBloomForSST c z s1 path) = fs_fail s"
    by (rule fails.buildBloomForSST_keeps [where N = "{}"]) simp_all
  moreover have "holds (fs_disk s1) {path} (fs_disk (buildBloomForSST c z s1 path))"
    by (rule now.buildBloomForSST_keeps) (use f(3) always_now [OF spec(1)] in \<open>auto simp: holds_def\<close>)
  ultimately show thesis
    using that f trace.buildBloomForSST_keeps [OF spec(1) fr(3,4)] by blast
qed

lemma flush_files_cases:
  assumes run: "flush_files c z cfg job s = (s', r)"
    and st: "stable_store c z (fs_disk s) N (cf_name cfg (fj_tag job)) files"
    and past: "always (holds (fs_disk s) (insert kManifestName (insert (cf_name cfg (fj_tag job)) N))) s"
  obtains "always (holds (fs_disk s) (insert kManifestName N)) s'" "\<exists>e. r = Inl e \<and> (\<forall>x. e \<noteq> FlushPublish x)"
      "\<And>e. r = Inl (FlushWrite e) \<Longrightarrow> always (holds (fs_disk s) (insert kManifestName (insert (cf_name cfg (fj_tag job)) N))) s'"
      "healthy s \<Longrightarrow> \<exists>e. sst_image c z (cf_blockBytes cfg) (map snd (fj_snapshot job)) = Inl e"
  | s3 s4 e where "prepared c z cfg job (fs_disk s) N s3" "fs_fail s3 = fs_fail s"
      "publish c z (cf_dir cfg) (flush_manifest cfg job (load c z (fs_disk s)) files)
         [(cf_dir cfg, cf_name cfg (fj_tag job))] s3 = (s4, e)"
      "(s', r) = (case e of Some e \<Rightarrow> (remove_artifacts s4 (cf_name cfg (fj_tag job)), Inl (FlushPublish e))
                          | None \<Rightarrow> (s4, Inr (mf_coveredWalLsn (flush_manifest cfg job (load c z (fs_disk s)) files))))"
proof -
  let ?n = "cf_name cfg (fj_tag job)" and ?d = "fs_disk s" and ?N = "insert kManifestName N"
  let ?M = "insert kManifestName (insert ?n N)"
  let ?w = "?n @ ''.writing''" and ?rows = "map snd (fj_snapshot job)"
  have name: "safeSstName ?n" "?n \<notin> N" "\<forall>n \<in> N. path_extension n = ''.sst''"
    using st by (simp_all add: stable_store_def)
  have "n \<noteq> ?n \<Longrightarrow> n \<in> work_names ''.writing'' ?n \<Longrightarrow> n \<notin> ?M" for n
    using work_names_fresh [OF name, of "''.writing''"] by blast
  then have fr: "?w \<notin> ?M" "?w @ ''.writing'' \<notin> ?M" "?w @ ''.bloom'' \<notin> ?M" "?w @ ''.bloom.tmp'' \<notin> ?M"
    "?n @ ''.bloom'' \<notin> ?M" "?w @ ''.sidx'' \<notin> ?M" "?n @ ''.sidx'' \<notin> ?M"
    by (simp_all add: work_names_def)
  have n: "?n \<notin> ?N"
    using name safe_not_special special_names(2) by auto
  have sub: "always (holds ?d ?N) t" if "always (holds ?d ?M) t" for t
    by (rule always_mono [OF that], rule holds_subset) auto
  obtain s1 r1 where s1: "writeSst c z (cf_blockBytes cfg) s ?w ?rows = (s1, r1)"
    by (cases "writeSst c z (cf_blockBytes cfg) s ?w ?rows")
  note w = writeSst_spec [OF s1 past fr(1,2)]
  show thesis
  proof (cases r1)
    case (Some e)
    have "disk_wf (fs_disk s)"
      using always_now [OF past] by (simp add: holds_def)
    then have "healthy s \<Longrightarrow> \<exists>e. sst_image c z (cf_blockBytes cfg) ?rows = Inl e"
      using healthy_writeSst [of s c z "cf_blockBytes cfg" ?rows _ _ ?w] s1 Some
      by (cases "sst_image c z (cf_blockBytes cfg) ?rows") auto
    then show thesis
      using that(1) run s1 Some w(1) sub [OF w(1)] by (auto simp: flush_files_def Let_def)
  next
    case None
    define s2 where "s2 = buildBloomForSST c z s1 ?w"
    obtain f st where f: "sst_image c z (cf_blockBytes cfg) ?rows = Inr (f, st)" "file_of (fs_disk s1) ?w = Some f"
        and w2: "holds (fs_disk s1) {?w} (fs_disk s2)" and h2: "always (holds ?d ?M) s2" and fails2: "fs_fail s2 = fs_fail s"
      using table_written [OF s1 [unfolded None] past fr(1-4)] unfolding s2_def by metis
    have l2: "load c z (fs_disk s2) = load c z ?d" "publishedSsts c z (fs_disk s2) = Inr files"
      using stable_same [OF st always_now [OF h2]] by simp_all
    have no: "\<forall>e. load c z ?d \<noteq> LoadError e"
      using st by (auto simp: stable_store_def)
    obtain s3 ok3 where s3: "finalize_artifacts s2 ?w ?n = (s3, ok3)"
      by (cases "finalize_artifacts s2 ?w ?n")
    have h3: "always (holds ?d ?N) s3"
      by (rule trace.finalize_artifacts_keeps [OF sub [OF h2] _ s3]) (use fr n in auto)
    have "flush_publish c z (cf_dir cfg) ?n (fj_covered job) s2 = (s', r)"
      using run s1 None by (simp add: flush_files_def Let_def s2_def)
    then have run2: "(if \<not> ok3 then (remove_artifacts (remove_artifacts s3 ?w) ?n, Inl FlushRename)
        else case publish c z (cf_dir cfg) (flush_manifest cfg job (load c z ?d) files) [(cf_dir cfg, ?n)] s3 of
               (s2, Some e) \<Rightarrow> (remove_artifacts s2 ?n, Inl (FlushPublish e))
             | (s2, None) \<Rightarrow> (s2, Inr (mf_coveredWalLsn (flush_manifest cfg job (load c z ?d) files)))) = (s', r)"
      using no by (cases "load c z ?d") (auto simp: flush_publish_def Let_def l2 s3)
    show thesis
    proof (cases ok3)
      case False
      have "always (holds ?d ?N) (remove_artifacts (remove_artifacts s3 ?w) ?n)"
        by (intro trace.remove_artifacts_keeps h3) (use fr n in auto)
      moreover have "\<not> healthy s"
        using healthy_finalize [OF _ w2, of ?n] f(2) s3 False fails2 by (auto simp: healthy_def)
      ultimately show thesis
        using that(1) run2 False by auto
    next
      case True
      obtain s4 e where s4: "publish c z (cf_dir cfg) (flush_manifest cfg job (load c z ?d) files) [(cf_dir cfg, ?n)] s3 = (s4, e)"
        by (cases "publish c z (cf_dir cfg) (flush_manifest cfg job (load c z ?d) files) [(cf_dir cfg, ?n)] s3")
      have "fs_fail s3 = fs_fail s"
        using fails2 by (rule fails.finalize_artifacts_keeps [where N = "{}", OF _ _ s3]) simp
      moreover have "prepared c z cfg job ?d N s3"
        using h3 finalize_artifacts_moves [OF w2, of ?n s3] s3 True f by (auto simp: installed_def)
      ultimately show thesis
        using that(2) [OF _ _ s4] run2 s4 True by (auto split: option.splits)
    qed
  qed
qed

section \<open>What a flush publishes\<close>

lemma table_docs_same: "\<forall>n \<in> set ns. file_of d' n = file_of d n \<Longrightarrow> table_docs c z d' ns = table_docs c z d ns"
  by (induction ns) (simp_all cong: sum.case_cong)

lemma table_docs_append:
  "table_docs c z d ns = Inr xs \<Longrightarrow> table_docs c z d ns' = Inr ys \<Longrightarrow> table_docs c z d (ns @ ns') = Inr (xs @ ys)"
  by (induction ns arbitrary: xs) (auto split: sum.splits)

lemma published_docs_files:
  "publishedSsts c z d = Inr ns \<Longrightarrow> published_docs c z d = Inr ds \<longleftrightarrow> table_docs c z d ns = Inr ds"
  by (simp add: published_docs_def split: sum.splits)

lemma next_files:
  assumes "sorted files" "distinct files" "\<forall>n \<in> set files. n < name"
  shows "sort (remdups (sort (files @ [name]))) = files @ [name]"
proof -
  have "sorted (files @ [name])" "distinct (files @ [name])"
    using assms by (auto simp: sorted_append less_imp_le)
  then show ?thesis
    by (simp add: sorted_sort_id distinct_remdups_id)
qed

lemma stable_sorted: "stable_store c z d N name files \<Longrightarrow> sorted files \<and> distinct files"
  using load_sorted [of c z d] by (cases "load c z d") (auto simp: stable_store_def)

text \<open>The directory after the new manifest is in place.\<close>

lemma flushed_docs:
  assumes st: "stable_store c z d0 N (cf_name cfg (fj_tag job)) files" and docs: "published_docs c z d0 = Inr ds"
    and prep: "prepared c z cfg job d0 N s" and good: "image_good c z (map snd (fj_snapshot job))"
      "rows_decode c (map snd (fj_snapshot job))"
    and order: "\<forall>n \<in> set files. n < cf_name cfg (fj_tag job)"
    and m: "m = flush_manifest cfg job (load c z d0) files" "load c z d = Loaded (sorted_manifest m)"
      "\<forall>n \<in> set (mf_sstFiles m). file_of d n = file_of (fs_disk s) n"
  shows "published_docs c z d = Inr (ds @ map snd (fj_snapshot job))"
    "covered_lsn (load c z d) = max (fj_covered job) (covered_lsn (load c z d0))"
proof -
  let ?n = "cf_name cfg (fj_tag job)"
  have files: "set (mf_sstFiles m) = insert ?n (set files)" "sort (mf_sstFiles m) = files @ [?n]"
    using next_files [OF _ _ order] stable_sorted [OF st] by (simp_all add: m(1) next_manifest_def)
  obtain f i where f: "sst_image c z (cf_blockBytes cfg) (map snd (fj_snapshot job)) = Inr (f, i)" "file_of d ?n = Some f"
    using prep m(3) files(1) by (auto simp: installed_def)
  have h: "holds d0 (insert kManifestName N) (fs_disk s)"
    using prep always_now by (auto simp: installed_def)
  have "\<forall>n \<in> set files. file_of d n = file_of d0 n"
    using m(3) files(1) h st by (auto simp: holds_def stable_store_def)
  then have old: "table_docs c z d files = Inr ds"
    using docs table_docs_same [of files d d0] stable_same(2) [OF st] st published_docs_files
    by (metis stable_store_def)
  have "publishedSsts c z d = Inr (files @ [?n])"
    by (simp add: publishedSsts_def m(2) files(2))
  then show "published_docs c z d = Inr (ds @ map snd (fj_snapshot job))"
    using table_docs_append [OF old, of "[?n]"] image_read_back(1) [OF f(1) good] f(2) by (simp add: published_docs_files)
  show "covered_lsn (load c z d) = max (fj_covered job) (covered_lsn (load c z d0))"
    by (simp add: m(1,2) covered_lsn_def next_manifest_def split: manifest_status.splits)
qed

lemma flush_manifest_files:
  assumes "stable_store c z d0 N (cf_name cfg (fj_tag job)) files"
  shows "set (mf_sstFiles (flush_manifest cfg job status files)) \<subseteq> N \<union> snd ` set [(dir, cf_name cfg (fj_tag job))]"
  using assms by (auto simp: stable_store_def next_manifest_def)

text \<open>A flush that succeeds appends the snapshot to the published documents and raises the boundary.\<close>

theorem flush_files_done:
  assumes run: "flush_files c z cfg job s = (s', Inr lsn)"
    and st: "stable_store c z (fs_disk s) N (cf_name cfg (fj_tag job)) files" and docs: "published_docs c z (fs_disk s) = Inr ds"
    and past: "always (holds (fs_disk s) (insert kManifestName (insert (cf_name cfg (fj_tag job)) N))) s"
    and enc: "manifest_text_ok c (sorted_manifest (flush_manifest cfg job (load c z (fs_disk s)) files))"
    and good: "image_good c z (map snd (fj_snapshot job))" "rows_decode c (map snd (fj_snapshot job))"
    and order: "\<forall>n \<in> set files. n < cf_name cfg (fj_tag job)"
  shows "store_ok c z (fs_disk s')" "published_docs c z (fs_disk s') = Inr (ds @ map snd (fj_snapshot job))"
    "covered_lsn (load c z (fs_disk s')) = lsn" "lsn = max (fj_covered job) (covered_lsn (load c z (fs_disk s)))"
    "load c z (fs_disk s') = Loaded (sorted_manifest (flush_manifest cfg job (load c z (fs_disk s)) files))"
    "n \<in> N \<Longrightarrow> settled (fs_disk s') n \<and> file_of (fs_disk s') n = file_of (fs_disk s) n"
proof -
  let ?n = "cf_name cfg (fj_tag job)" and ?m = "flush_manifest cfg job (load c z (fs_disk s)) files"
  obtain s3 where s3: "prepared c z cfg job (fs_disk s) N s3" "publish c z (cf_dir cfg) ?m [(cf_dir cfg, ?n)] s3 = (s', None)"
      "lsn = mf_coveredWalLsn ?m"
  proof (rule flush_files_cases [OF run st past])
    assume "\<exists>e. Inr lsn = Inl e \<and> (\<forall>x. e \<noteq> FlushPublish x)"
    then show thesis
      by simp
  next
    fix s3 s4 e
    assume p: "prepared c z cfg job (fs_disk s) N s3" "publish c z (cf_dir cfg) ?m [(cf_dir cfg, ?n)] s3 = (s4, e)"
      "(s', Inr lsn) = (case e of Some e \<Rightarrow> (remove_artifacts s4 ?n, Inl (FlushPublish e))
         | None \<Rightarrow> (s4, Inr (mf_coveredWalLsn ?m)))"
    show thesis
      by (rule that [OF p(1)]) (use p(2,3) in \<open>simp_all split: option.splits\<close>)
  qed
  note pf = installed_facts [OF s3(1) st]
  have sub: "set (mf_sstFiles ?m) \<subseteq> N \<union> snd ` set [(cf_dir cfg, ?n)]"
    by (rule flush_manifest_files [OF st])
  note pd = publish_done [OF s3(2) pf(1,3,4,5) enc sub]
  show "store_ok c z (fs_disk s')" "load c z (fs_disk s') = Loaded (sorted_manifest ?m)"
    using pd(1,2) by simp_all
  show "n \<in> N \<Longrightarrow> settled (fs_disk s') n \<and> file_of (fs_disk s') n = file_of (fs_disk s) n"
    using pd(4) pf(6) by simp
  have "\<forall>n \<in> set (mf_sstFiles ?m). file_of (fs_disk s') n = file_of (fs_disk s3) n"
    using pd(4) sub by blast
  note docs' = flushed_docs [OF st docs s3(1) good order refl pd(2) this]
  then show "published_docs c z (fs_disk s') = Inr (ds @ map snd (fj_snapshot job))"
    by simp
  show "lsn = max (fj_covered job) (covered_lsn (load c z (fs_disk s)))"
    by (simp add: s3(3) covered_lsn_def next_manifest_def split: manifest_status.splits)
  then show "covered_lsn (load c z (fs_disk s')) = lsn"
    using docs'(2) by simp
qed

text \<open>
  A crash at any point of a flush over a published store.  The one failure left out is the synchronisation of
  the directory after the manifest was renamed: there the table is removed although the manifest names it.
\<close>

theorem flush_files_crash:
  assumes run: "flush_files c z cfg job s = (s', r)" "r \<noteq> Inl (FlushPublish ManifestSync)"
    and st: "stable_store c z (fs_disk s) N (cf_name cfg (fj_tag job)) files" and docs: "published_docs c z (fs_disk s) = Inr ds"
    and cur: "load c z (fs_disk s) = Loaded cur"
    and past: "always (holds (fs_disk s) (insert kManifestName (insert (cf_name cfg (fj_tag job)) N))) s"
    and enc: "manifest_text_ok c (sorted_manifest (flush_manifest cfg job (load c z (fs_disk s)) files))"
    and good: "image_good c z (map snd (fj_snapshot job))" "rows_decode c (map snd (fj_snapshot job))"
    and order: "\<forall>n \<in> set files. n < cf_name cfg (fj_tag job)"
    and d: "d \<in> set (fs_disk s' # fs_past s')" "recovered d d'"
  shows "published_docs c z d' = Inr ds \<and> covered_lsn (load c z d') = mf_coveredWalLsn cur
    \<or> published_docs c z d' = Inr (ds @ map snd (fj_snapshot job))
        \<and> covered_lsn (load c z d') = max (fj_covered job) (mf_coveredWalLsn cur)"
    (is "?old \<or> ?new")
proof -
  let ?n = "cf_name cfg (fj_tag job)" and ?m = "flush_manifest cfg job (load c z (fs_disk s)) files"
  have files: "mf_sstFiles cur = files" "set files \<subseteq> N"
    using st cur by (simp_all add: stable_store_def)
  have same: ?old if "load c z d' = load c z (fs_disk s)" "\<forall>n \<in> N. file_of d' n = file_of (fs_disk s) n"
  proof -
    have "publishedSsts c z d' = publishedSsts c z (fs_disk s)" "table_docs c z d' files = table_docs c z (fs_disk s) files"
      using that files(2) by (simp_all add: publishedSsts_def cur table_docs_same subset_eq)
    then show ?thesis
      using docs that(1) cur files(1) by (simp add: published_docs_def publishedSsts_def covered_lsn_def)
  qed
  have held: ?old if "always (holds (fs_disk s) (insert kManifestName N)) s'"
  proof -
    have h: "holds (fs_disk s) (insert kManifestName N) d"
      using that d(1) by (auto simp: always_def)
    have "\<forall>n \<in> insert kManifestName N. file_of d' n = file_of (fs_disk s) n"
      using h d(2) settled_crash by (metis holds_def recovered_def)
    then show ?thesis
      using same covers_load_same [OF stable_covers [OF st], of d'] by simp
  qed
  show ?thesis
  proof (rule flush_files_cases [OF run(1) st past])
    assume "always (holds (fs_disk s) (insert kManifestName N)) s'"
    then show ?thesis
      using held by simp
  next
    fix s3 s4 e
    assume p: "prepared c z cfg job (fs_disk s) N s3" "publish c z (cf_dir cfg) ?m [(cf_dir cfg, ?n)] s3 = (s4, e)"
      "(s', r) = (case e of Some e \<Rightarrow> (remove_artifacts s4 ?n, Inl (FlushPublish e))
         | None \<Rightarrow> (s4, Inr (mf_coveredWalLsn ?m)))"
    note pf = installed_facts [OF p(1) st]
    show ?thesis
    proof (cases e)
      case None
      then have s4: "s' = s4"
        using p(3) by simp
      have sub: "set (mf_sstFiles ?m) \<subseteq> N \<union> snd ` set [(cf_dir cfg, ?n)]"
        by (rule flush_manifest_files [OF st])
      note crash = publish_crash [OF p(2) pf(1,3,4,5) enc sub d(1) [unfolded s4] d(2)]
      have N: "\<forall>n \<in> N. file_of d' n = file_of (fs_disk s) n"
        using crash(2) pf(6) by simp
      show ?thesis
        using crash(1)
      proof
        assume "load c z d' = load c z (fs_disk s3)"
        then show ?thesis
          using same [OF _ N] pf(2) by simp
      next
        assume new: "load c z d' = Loaded (sorted_manifest ?m) \<and> (\<forall>n \<in> set (mf_sstFiles ?m). file_of d' n = file_of (fs_disk s3) n)"
        have ?new
          using flushed_docs [OF st docs p(1) good order refl conjunct1 [OF new] conjunct2 [OF new]] cur
          by (simp add: covered_lsn_def)
        then show ?thesis ..
      qed
    next
      case (Some x)
      then have x: "x \<noteq> ManifestSync" "s' = remove_artifacts s4 ?n"
        using p(3) run(2) by auto
      have "kManifestTemporary \<notin> insert kManifestName N"
        using pf(4) special_names by auto
      then have "always (holds (fs_disk s) (insert kManifestName N)) s4"
        using publish_failed [OF p(2) [unfolded Some] x(1)] p(1) by (simp add: installed_def)
      moreover have "{?n, ?n @ ''.bloom'', ?n @ ''.sidx''} \<inter> insert kManifestName N = {}"
        by (rule artifact_names_fresh [OF st])
      ultimately show ?thesis
        using held [unfolded x(2), OF trace.remove_artifacts_keeps] by simp
    qed
  qed
qed

section \<open>A flush on a disk that works\<close>

text \<open>The manifest of a flush passes the checks of the publication.\<close>

lemma flush_manifest_may:
  assumes st: "stable_store c z d0 N (cf_name cfg (fj_tag job)) files" and prep: "prepared c z cfg job d0 N s"
    and f: "file_of (fs_disk s) (cf_name cfg (fj_tag job)) = Some f" "verifySst c z f = None"
    and gen: "\<And>m. load c z d0 = Loaded m \<Longrightarrow> mf_generation m < mf_generation m + 1"
  shows "may_publish c z (fs_disk s) [cf_name cfg (fj_tag job)] (flush_manifest cfg job (load c z d0) files)"
proof -
  let ?n = "cf_name cfg (fj_tag job)" and ?m = "flush_manifest cfg job (load c z d0) files"
  have l: "load c z (fs_disk s) = load c z d0"
    by (rule installed_facts(2) [OF prep st])
  have keep: "\<And>n. n \<in> N \<Longrightarrow> file_of (fs_disk s) n = file_of d0 n"
    by (rule installed_facts(6) [OF prep st])
  have files: "set (sort (mf_sstFiles ?m)) = insert ?n (set files)" "distinct (mf_sstFiles ?m)" "safeSstName ?n" "set files \<subseteq> N"
    using st by (simp_all add: next_manifest_def stable_store_def)
  show ?thesis
  proof (cases "load c z d0")
    case ABSENT
    then have "sort (mf_sstFiles ?m) = [?n]"
      using st by (simp add: next_manifest_def stable_store_def)
    then have "check_ssts c z (fs_disk s) True (sort (mf_sstFiles ?m)) = None"
      using f files(3) by simp
    then show ?thesis
      using files(2) l ABSENT by (simp add: may_publish_def validateManifest_def next_manifest_def Let_def)
  next
    case (Loaded m)
    have "\<forall>n \<in> set files. safeSstName n \<and> file_of d0 n \<noteq> None"
      using load_files [OF Loaded] st Loaded by (simp add: stable_store_def)
    then have "check_ssts c z (fs_disk s) False (sort (mf_sstFiles ?m)) = None"
      unfolding check_ssts_None files(1) using files(3,4) f(1) keep by auto
    moreover have "mf_generation m + 1 \<noteq> 0"
      using gen [OF Loaded] by auto
    moreover have "mf_sstFiles m = files"
      using st Loaded by (simp add: stable_store_def)
    ultimately show ?thesis
      using files(1,2) l Loaded gen [OF Loaded]
      by (auto simp: may_publish_def validateManifest_def next_manifest_def Let_def)
  next
    case (LoadError e)
    then show ?thesis
      using st by (simp add: stable_store_def)
  qed
qed

theorem flush_files_ok:
  assumes h: "healthy s" and st: "stable_store c z (fs_disk s) N (cf_name cfg (fj_tag job)) files"
    and past: "always (holds (fs_disk s) (insert kManifestName (insert (cf_name cfg (fj_tag job)) N))) s"
    and image: "sst_image c z (cf_blockBytes cfg) (map snd (fj_snapshot job)) = Inr (f, i)"
    and good: "image_good c z (map snd (fj_snapshot job))" "rows_decode c (map snd (fj_snapshot job))"
      "keyed c False (map snd (fj_snapshot job))"
    and gen: "\<And>m. load c z (fs_disk s) = Loaded m \<Longrightarrow> mf_generation m < mf_generation m + 1"
  shows "\<exists>s' lsn. flush_files c z cfg job s = (s', Inr lsn)"
proof -
  let ?n = "cf_name cfg (fj_tag job)"
  obtain s' r where run: "flush_files c z cfg job s = (s', r)"
    by (cases "flush_files c z cfg job s")
  show ?thesis
  proof (rule flush_files_cases [OF run st past])
    assume "healthy s \<Longrightarrow> \<exists>e. sst_image c z (cf_blockBytes cfg) (map snd (fj_snapshot job)) = Inl e"
    then show ?thesis
      using h image by simp
  next
    fix s3 s4 e
    let ?m = "flush_manifest cfg job (load c z (fs_disk s)) files"
    assume p: "prepared c z cfg job (fs_disk s) N s3" "fs_fail s3 = fs_fail s"
      "publish c z (cf_dir cfg) ?m [(cf_dir cfg, ?n)] s3 = (s4, e)"
      "(s', r) = (case e of Some e \<Rightarrow> (remove_artifacts s4 ?n, Inl (FlushPublish e)) | None \<Rightarrow> (s4, Inr (mf_coveredWalLsn ?m)))"
    have f: "file_of (fs_disk s3) ?n = Some f"
      using p(1) image by (auto simp: installed_def)
    have v: "verifySst c z f = None"
      by (rule image_read_back(2) [OF image good])
    have "holds (fs_disk s) (insert kManifestName N) (fs_disk s3)"
      using p(1) by (auto simp: installed_def intro: always_now)
    then have wf: "disk_wf (fs_disk s3)" "healthy s3"
      using p(2) h by (simp_all add: holds_def healthy_def)
    have "path_extension ?n = ''.sst''"
      using st by (simp add: stable_store_def safeSstName_def)
    then have "e = None"
      using healthy_publish [OF wf(2,1) flush_manifest_may [OF st p(1) f v gen] f v, of "cf_dir cfg"] p(3) by simp
    then show ?thesis
      using run p(4) by auto
  qed
qed

end
