(* ===== verification/Lsm_Restart.thy ===== *)
theory Lsm_Restart
  imports Lsm_Flush
begin

text \<open>
  Writes, flushes and restarts of one collection.  The invariant \<open>durable\<close> ties the memory to the log: the
  records beyond the manifest's boundary, replayed in order, rebuild the memtable.  Every acknowledged write
  and every flush keeps it, and it makes the state after a restart read like the state before it.
\<close>

section \<open>A put and its record\<close>

lemma obj_insert_again [simp]: "obj_insert k v (obj_insert k v xs) = obj_insert k v xs"
  by (induction xs) auto

lemma jput_again [simp]: "jput (jput j k v) k v = jput j k v"
  by (cases j) simp_all

lemma jlookup_jput_same: "json_wf j \<Longrightarrow> is_object j \<Longrightarrow> jlookup (jput j k v) k = Some v"
  by (cases j) simp_all

lemma jcontains_jput: "json_wf j \<Longrightarrow> is_object j \<Longrightarrow> jcontains (jput j k v) k' \<longleftrightarrow> k' = k \<or> jcontains j k'"
  by (cases j) (auto simp: jcontains_def)

lemma stamp_keeps:
  assumes "stampVisibilityMetadata rs doc ci = Some d" "is_object doc" "json_wf doc"
  shows "is_object d \<and> json_wf d \<and> (jcontains d ''id'' \<longleftrightarrow> jcontains doc ''id'')"
  using assms
  by (auto simp: stampVisibilityMetadata_def Let_def jcontains_jput split: if_splits option.splits prod.splits)

lemma stored_doc_cases:
  assumes "stored_doc c cfg rs ci now intent doc = Inr (i, d)" "is_object doc" "json_wf doc"
  obtains "jcontains doc ''id''" "is_object d" "jlookup d ''id'' = Some (JStr i)" "jput d ''id'' (JStr i) = d"
      "intent = Tombstone \<Longrightarrow> isDeletedDoc doc"
  | "\<not> jcontains doc ''id''" "i = to_string now" "is_object d" "\<not> jcontains d ''id''" "intent = Record"
proof -
  obtain e where e: "stampVisibilityMetadata rs doc ci = Some e"
    using assms(1) by (auto simp: stored_doc_def split: if_splits option.splits)
  note k = stamp_keeps [OF e assms(2,3)]
  have int: "intent = Tombstone \<Longrightarrow> jcontains doc ''id'' \<and> isDeletedDoc doc"
    using assms(1) by (auto simp: stored_doc_def split: if_splits)
  show thesis
  proof (cases "jcontains doc ''id''")
    case True
    then have "i = rowId c e" "d = jput e ''id'' (JStr (rowId c e))"
      using assms(1) e k by (auto simp: stored_doc_def split: if_splits)
    then show thesis
      using that(1) True k int jlookup_jput_same by simp
  next
    case False
    then show thesis
      using that(2) assms(1) e k int by (cases intent) (auto simp: stored_doc_def split: if_splits)
  qed
qed

lemma rowId_str [simp]: "jlookup d ''id'' = Some (JStr i) \<Longrightarrow> rowId c d = i"
  by (simp add: rowId_def)

text \<open>The record of a put replays to the document that was stored.\<close>

theorem put_entry_replays:
  assumes "stored_doc c cfg rs ci now intent doc = Inr (i, d)" "is_object doc" "json_wf doc" "jcontains doc ''id''"
    and "intent = Record \<Longrightarrow> cf_accepts cfg d" "intent = Tombstone \<Longrightarrow> i \<noteq> []"
  shows "replay_documents c cfg (put_entry cfg intent i d) = Inr [(i, d)]"
proof -
  have d: "is_object d" "jlookup d ''id'' = Some (JStr i)" "jput d ''id'' (JStr i) = d"
    using stored_doc_cases [OF assms(1-3)] assms(4) by blast+
  then have "with_id c d = Inr (i, d)"
    by (simp add: with_id_def jcontains_def)
  then show ?thesis
    using assms(5,6) d(1)
    by (cases intent) (simp_all add: replay_documents_def put_entry_def mutation_doc_def jvalue_def Let_def)
qed

text \<open>A document without an identity is acknowledged as well, and its record stops the replay.\<close>

theorem put_entry_without_id:
  assumes "stored_doc c cfg rs ci now intent doc = Inr (i, d)" "is_object doc" "json_wf doc" "\<not> jcontains doc ''id''"
  shows "replay_documents c cfg (put_entry cfg intent i d) = Inl DocumentWithoutId"
proof -
  have d: "is_object d" "\<not> jcontains d ''id''" "intent = Record"
    using stored_doc_cases [OF assms(1-3)] assms(4) by blast+
  then show ?thesis
    by (simp add: replay_documents_def put_entry_def mutation_doc_def jvalue_def Let_def with_id_def)
qed

abbreviation named :: "lsm_config \<Rightarrow> bool" where
  "named cfg \<equiv> cf_user cfg \<noteq> [] \<and> cf_db cfg \<noteq> [] \<and> cf_coll cfg \<noteq> []"

lemma put_entry_namespace: "named cfg \<Longrightarrow> entry_namespace cfg (put_entry cfg intent i d) = None"
  by (cases intent) (simp_all add: entry_namespace_def put_entry_def jvalue_def)

section \<open>The documents of a log\<close>

fun log_docs :: "json_codec \<Rightarrow> lsm_config \<Rightarrow> u64 \<Rightarrow> (u64 \<times> json) list \<Rightarrow> (string \<times> json) list option" where
  "log_docs c cfg cov [] = Some []"
| "log_docs c cfg cov (r # rs) =
     (if entry_namespace cfg (snd r) \<noteq> None then None
      else if fst r \<le> cov then log_docs c cfg cov rs
      else case replay_documents c cfg (snd r) of
             Inl e \<Rightarrow> None
           | Inr ds \<Rightarrow> map_option (append ds) (log_docs c cfg cov rs))"

lemma log_docs_append:
  "log_docs c cfg cov xs = Some ws \<Longrightarrow> log_docs c cfg cov ys = Some ws' \<Longrightarrow> log_docs c cfg cov (xs @ ys) = Some (ws @ ws')"
  by (induction xs arbitrary: ws) (auto split: if_splits sum.splits)

lemma log_docs_namespace: "log_docs c cfg cov xs = Some ws \<Longrightarrow> \<forall>r \<in> set xs. entry_namespace cfg (snd r) = None"
  by (induction xs arbitrary: ws) (auto split: if_splits sum.splits)

lemma log_docs_covered:
  "\<forall>r \<in> set xs. entry_namespace cfg (snd r) = None \<and> fst r \<le> cov \<Longrightarrow> log_docs c cfg cov xs = Some []"
  by (induction xs) auto

lemma length_insert_docs: "length (insert_docs ws mem) \<le> length mem + length ws"
proof (induction ws arbitrary: mem)
  case (Cons w ws)
  have len: "length (obj_insert k v xs) \<le> Suc (length xs)" for k and v :: json and xs
    by (induction xs) auto
  show ?case
    using Cons.IH [of "obj_insert (fst w) (snd w) mem"] len [of "fst w" "snd w" mem] by (cases w) simp
qed simp

text \<open>Below the limit of the memtable a replay puts exactly these documents into it.\<close>

lemma replay_records_log:
  assumes "log_docs c cfg cov rs = Some ws" "length (co_mem st) + length ws < cf_limit cfg"
  shows "\<exists>p. replay_records c z cfg cov rs st = Inr (st\<lparr>co_mem := insert_docs ws (co_mem st), co_progress := p\<rparr>)"
  using assms
proof (induction rs arbitrary: ws st)
  case Nil
  then show ?case
    by (auto intro!: exI [of _ "co_progress st"])
next
  case (Cons r rs)
  show ?case
  proof (cases "fst r \<le> cov")
    case True
    then show ?thesis
      using Cons by (auto simp: replay_record_def split: if_splits)
  next
    case False
    obtain ds ws' where ds: "replay_documents c cfg (snd r) = Inr ds" "log_docs c cfg cov rs = Some ws'" "ws = ds @ ws'"
      using Cons.prems(1) False by (auto split: if_splits sum.splits)
    let ?st = "apply_docs ds (fst r) st"
    have len: "length (co_mem ?st) + length ws' < cf_limit cfg"
      using Cons.prems(2) length_insert_docs [of ds "co_mem st"] by (simp add: apply_docs_def ds(3))
    have "replay_record c z cfg cov r st = Inr ?st"
      using Cons.prems(1) False ds(1) len by (auto simp: replay_record_def Let_def split: if_splits)
    then show ?thesis
      using Cons.IH [OF ds(2) len] by (auto simp: apply_docs_def ds(3))
  qed
qed

section \<open>The invariant\<close>

text \<open>
  Nothing waits in a failed flush, the memtable is what the log beyond the boundary rebuilds, and all records up
  to the last one have been applied.
\<close>

definition durable :: "json_codec \<Rightarrow> lz4 \<Rightarrow> lsm_config \<Rightarrow> coll \<Rightarrow> json list \<Rightarrow> (string \<times> json) list \<Rightarrow> bool" where
  "durable c z cfg st ds ws \<longleftrightarrow>
     co_imm st = [] \<and> co_mem st = insert_docs ws [] \<and> ids_ok c ws
     \<and> published_docs c z (fs_disk (co_fs st)) = Inr ds
     \<and> log_docs c cfg (covered_lsn (load c z (fs_disk (co_fs st)))) (co_log st) = Some ws
     \<and> covered_lsn (load c z (fs_disk (co_fs st))) \<le> co_lsn st \<and> (\<forall>r \<in> set (co_log st). fst r \<le> co_lsn st)
     \<and> wp_contiguous (co_progress st) = co_lsn st \<and> wp_intervals (co_progress st) = []"

lemma durable_memory: "durable c z cfg st ds ws \<Longrightarrow> memory_ok c st"
  using insert_docs_ok [of c "[]" ws] by (simp add: durable_def memory_ok_def)

lemma durable_docs: "durable c z cfg st ds ws \<Longrightarrow> coll_docs c z st (ds @ memory_docs st)"
  by (simp add: durable_def coll_docs_def)

lemma view_same:
  assumes "co_fs st' = co_fs st" "co_mem st' = co_mem st" "co_imm st' = co_imm st"
  shows "view c z st' = view c z st"
proof -
  have "memory_docs st' = memory_docs st"
    using assms by (simp add: memory_docs_def)
  then show ?thesis
    using assms(1) by (simp add: view_def fun_eq_iff split: sum.splits)
qed

lemma mark_next:
  assumes "wp_contiguous p = n" "wp_intervals p = []" "n < n + 1"
  shows "wp_contiguous (markWalApplied p (n + 1) (n + 1)) = n + 1 \<and> wp_intervals (markWalApplied p (n + 1) (n + 1)) = []"
proof -
  have "n + 1 \<noteq> 0" "\<not> n + 1 \<le> n"
    using assms(3) by auto
  then show ?thesis
    using assms by (simp add: markWalApplied_def merge_interval_def Let_def)
qed

section \<open>An acknowledged write\<close>

theorem put_durable:
  assumes run: "put c cfg rs ci now io True intent doc st = (st', None)"
    and s: "stored_doc c cfg rs ci now intent doc = Inr (i, d)"
    and st: "durable c z cfg st ds ws" and space: "co_lsn st < co_lsn st + 1"
    and doc: "is_object doc" "json_wf doc" "jcontains doc ''id''" "i \<noteq> []" "cf_accepts cfg d" and cfg: "named cfg"
    and mono: "\<And>e. view c z st i = Some e \<Longrightarrow> extractDocVersionScore e \<le> extractDocVersionScore d"
  shows "durable c z cfg st' ds (ws @ [(i, d)])" "view c z st' = (view c z st)(i \<mapsto> d)"
proof -
  let ?n = "co_lsn st + 1" and ?cov = "covered_lsn (load c z (fs_disk (co_fs st)))"
  let ?st = "st\<lparr>co_lsn := ?n, co_log := co_log st @ [(?n, put_entry cfg intent i d)]\<rparr>"
  have st': "st' = apply_docs [(i, d)] ?n ?st"
    using run s by (cases io) (auto simp: put_def log_append_def Let_def split: if_splits)
  have "is_object d" "jlookup d ''id'' = Some (JStr i)"
    using stored_doc_cases [OF s doc(1,2)] doc(3) by blast+
  then have d: "doc_id c d = Some i"
    using doc(4) by (simp add: doc_id_def jcontains_def)
  have "\<not> ?n \<le> ?cov"
    using st space by (auto simp: durable_def)
  then have "log_docs c cfg ?cov [(?n, put_entry cfg intent i d)] = Some [(i, d)]"
    using put_entry_namespace [OF cfg] put_entry_replays [OF s doc(1-3)] doc(4,5) by simp
  then have log: "log_docs c cfg ?cov (co_log st @ [(?n, put_entry cfg intent i d)]) = Some (ws @ [(i, d)])"
    using st log_docs_append by (simp add: durable_def)
  show "durable c z cfg st' ds (ws @ [(i, d)])"
    using st log d mark_next [of "co_progress st" "co_lsn st", OF _ _ space] space
    by (auto simp: durable_def st' apply_docs_def intro: order_trans less_imp_le)
  have v: "view c z ?st = view c z st"
    by (rule view_same) simp_all
  have "memory_ok c ?st" "coll_docs c z ?st (ds @ memory_docs ?st)"
    using durable_memory [OF st] st by (simp_all add: memory_ok_def coll_docs_def durable_def)
  then show "view c z st' = (view c z st)(i \<mapsto> d)"
    using apply_doc_view(1) [of c ?st z "ds @ memory_docs ?st" d i ?n] d mono unfolding st' v by blast
qed

section \<open>Flushing\<close>

text \<open>What a flush of the memtable needs: a sound store, a new name that sorts last, and rows that can be written.\<close>

definition flush_ready :: "json_codec \<Rightarrow> lz4 \<Rightarrow> lsm_config \<Rightarrow> fsys \<Rightarrow> nat \<Rightarrow> docs \<Rightarrow> string set \<Rightarrow> string list \<Rightarrow> bool" where
  "flush_ready c z cfg s tag mem N files \<longleftrightarrow>
     stable_store c z (fs_disk s) N (cf_name cfg tag) files
     \<and> always (holds (fs_disk s) (insert kManifestName (insert (cf_name cfg tag) N))) s
     \<and> (\<forall>k. manifest_text_ok c (sorted_manifest (next_manifest (load c z (fs_disk s)) k (files @ [cf_name cfg tag]))))
     \<and> image_good c z (map snd mem) \<and> rows_decode c (map snd mem) \<and> (\<forall>n \<in> set files. n < cf_name cfg tag)"

text \<open>A flush, or one that fails before the publication, leaves the sequence of documents as it is.\<close>

lemma stable_docs:
  assumes "stable_store c z d N name files" "published_docs c z d = Inr ds" "holds d (insert kManifestName (insert name N)) d'"
  shows "published_docs c z d' = Inr ds"
proof -
  have "holds d (insert kManifestName (insert name N)) d" "set files \<subseteq> N"
    using assms(1) by (simp_all add: stable_store_def)
  then have p: "publishedSsts c z d = Inr files" "publishedSsts c z d' = Inr files" "\<forall>n \<in> set files. file_of d' n = file_of d n"
    using stable_same(2) [OF assms(1)] assms(3) by (auto simp: holds_def)
  then show ?thesis
    using assms(2) table_docs_same [OF p(3)] by (simp add: published_docs_files)
qed

lemma flush_cases:
  assumes run: "flush c z cfg replaying st = (st', r)" and imm: "co_imm st = []"
    and ready: "flush_ready c z cfg (co_fs st) (co_tag st) (co_mem st) N files"
    and docs: "published_docs c z (fs_disk (co_fs st)) = Inr ds"
    and r: "\<forall>x. r = Some x \<longrightarrow> (\<exists>e. x = FlushWrite e)"
  obtains "co_mem st = []" "st' = st" "r = None"
  | e where "r = Some (FlushWrite e)" "co_mem st' = []" "co_imm st' = [(co_tag st, co_mem st)]"
      "published_docs c z (fs_disk (co_fs st')) = Inr ds" "load c z (fs_disk (co_fs st')) = load c z (fs_disk (co_fs st))"
  | lsn where "r = None" "co_mem st' = []" "co_imm st' = []" "store_ok c z (fs_disk (co_fs st'))"
      "published_docs c z (fs_disk (co_fs st')) = Inr (ds @ map snd (co_mem st))"
      "covered_lsn (load c z (fs_disk (co_fs st'))) = lsn"
      "lsn = max (wp_contiguous (co_progress st)) (covered_lsn (load c z (fs_disk (co_fs st))))"
      "co_log st' = (if 0 < lsn \<and> \<not> replaying then reclaim_log cfg lsn (co_log st) else co_log st)"
      "co_lsn st' = co_lsn st" "co_progress st' = co_progress st"
proof (cases "co_mem st = []")
  case True
  then show thesis
    using that(1) run by (simp add: flush_def flush_swap_def)
next
  case False
  let ?job = "\<lparr>fj_tag = co_tag st, fj_snapshot = co_mem st, fj_covered = wp_contiguous (co_progress st)\<rparr>"
  let ?d = "fs_disk (co_fs st)"
  note rd = ready [unfolded flush_ready_def]
  obtain s1 r1 where s1: "flush_files c z cfg ?job (co_fs st) = (s1, r1)"
    by (cases "flush_files c z cfg ?job (co_fs st)")
  have st: "stable_store c z ?d N (cf_name cfg (fj_tag ?job)) files"
    and past: "always (holds ?d (insert kManifestName (insert (cf_name cfg (fj_tag ?job)) N))) (co_fs st)"
    using rd by simp_all
  show thesis
  proof (cases r1)
    case (Inl e)
    have st': "st' = st\<lparr>co_mem := [], co_imm := [(co_tag st, co_mem st)], co_tag := co_tag st + 1, co_fs := s1\<rparr>" "r = Some e"
      using run False s1 Inl imm by (simp_all add: flush_def flush_swap_def flush_finish_def)
    obtain e' where e': "e = FlushWrite e'"
      using r st'(2) by blast
    have h: "holds ?d (insert kManifestName (insert (cf_name cfg (fj_tag ?job)) N)) (fs_disk s1)"
    proof (rule flush_files_cases [OF s1 st past])
      assume "\<And>e. r1 = Inl (FlushWrite e)
        \<Longrightarrow> always (holds ?d (insert kManifestName (insert (cf_name cfg (fj_tag ?job)) N))) s1"
      then show ?thesis
        using Inl e' by (blast intro: always_now)
    next
      fix s3 s4 x
      assume "(s1, r1) = (case x of Some e \<Rightarrow> (remove_artifacts s4 (cf_name cfg (fj_tag ?job)), Inl (FlushPublish e))
                          | None \<Rightarrow> (s4, Inr (mf_coveredWalLsn (flush_manifest cfg ?job (load c z ?d) files))))"
      then show ?thesis
        using Inl e' by (simp split: option.splits)
    qed
    show thesis
      by (rule that(2) [of e']) (use st' e' stable_docs [OF st docs h] stable_same(1) [OF st h] in simp_all)
  next
    case (Inr lsn)
    have st': "st' = st\<lparr>co_mem := [], co_imm := [], co_tag := co_tag st + 1, co_fs := s1, co_published := co_published st + 1,
        co_log := (if 0 < lsn \<and> \<not> replaying then reclaim_log cfg lsn (co_log st) else co_log st)\<rparr>" "r = None"
      using run False s1 Inr imm by (auto simp: flush_def flush_swap_def flush_finish_def)
    note fd = flush_files_done [OF s1 [unfolded Inr] st docs past]
    show thesis
      by (rule that(3) [of lsn]) (use st' fd rd in simp_all)
  qed
qed

text \<open>On a disk that works a flush of rows that can be written succeeds.\<close>

definition flush_works :: "json_codec \<Rightarrow> lz4 \<Rightarrow> lsm_config \<Rightarrow> fsys \<Rightarrow> docs \<Rightarrow> bool" where
  "flush_works c z cfg s mem \<longleftrightarrow> healthy s \<and> keyed c False (map snd mem)
     \<and> (\<exists>f i. sst_image c z (cf_blockBytes cfg) (map snd mem) = Inr (f, i))
     \<and> (\<forall>m. load c z (fs_disk s) = Loaded m \<longrightarrow> mf_generation m < mf_generation m + 1)"

lemma flush_ok:
  assumes "flush_ready c z cfg (co_fs st) (co_tag st) (co_mem st) N files" "flush_works c z cfg (co_fs st) (co_mem st)"
  shows "\<exists>st'. flush c z cfg replaying st = (st', None)"
proof -
  let ?job = "\<lparr>fj_tag = co_tag st, fj_snapshot = co_mem st, fj_covered = wp_contiguous (co_progress st)\<rparr>"
  obtain f i where f: "sst_image c z (cf_blockBytes cfg) (map snd (co_mem st)) = Inr (f, i)"
    using assms(2) by (auto simp: flush_works_def)
  have "\<exists>s' lsn. flush_files c z cfg ?job (co_fs st) = (s', Inr lsn)"
    by (rule flush_files_ok [where N = N and files = files and f = f and i = i])
      (use assms f in \<open>simp_all add: flush_ready_def flush_works_def\<close>)
  then show ?thesis
    by (cases "co_mem st = []") (auto simp: flush_def flush_swap_def flush_finish_def)
qed

text \<open>A flush keeps the invariant: the documents move from the log to the tables.\<close>

theorem flush_durable:
  assumes run: "flush c z cfg False st = (st', None)" and st: "durable c z cfg st ds ws"
    and ready: "flush_ready c z cfg (co_fs st) (co_tag st) (co_mem st) N files"
  shows "\<exists>ws'. durable c z cfg st' (ds @ map snd (co_mem st)) ws' \<and> co_mem st' = []" "view c z st' = view c z st"
proof -
  let ?cov = "covered_lsn (load c z (fs_disk (co_fs st)))"
  have d: "co_imm st = []" "published_docs c z (fs_disk (co_fs st)) = Inr ds" "log_docs c cfg ?cov (co_log st) = Some ws"
    "?cov \<le> co_lsn st" "\<forall>r \<in> set (co_log st). fst r \<le> co_lsn st" "wp_contiguous (co_progress st) = co_lsn st"
    "wp_intervals (co_progress st) = []"
    using st by (simp_all add: durable_def)
  have "(\<exists>ws'. durable c z cfg st' (ds @ map snd (co_mem st)) ws' \<and> co_mem st' = []) \<and> view c z st' = view c z st"
  proof (rule flush_cases [OF run d(1) ready d(2)])
    assume "co_mem st = []" "st' = st"
    then show ?thesis
      using st by auto
  next
    fix lsn
    assume s: "co_mem st' = []" "co_imm st' = []" "published_docs c z (fs_disk (co_fs st')) = Inr (ds @ map snd (co_mem st))"
      "covered_lsn (load c z (fs_disk (co_fs st'))) = lsn" "lsn = max (wp_contiguous (co_progress st)) ?cov"
      "co_log st' = (if 0 < lsn \<and> \<not> False then reclaim_log cfg lsn (co_log st) else co_log st)"
      "co_lsn st' = co_lsn st" "co_progress st' = co_progress st"
    have lsn: "lsn = co_lsn st"
      using s(5) d(4,6) by (simp add: max_def)
    have sub: "set (co_log st') \<subseteq> set (co_log st)"
      by (auto simp: s(6) reclaim_log_def dest: in_set_dropD)
    have "log_docs c cfg lsn (co_log st') = Some []"
      using log_docs_namespace [OF d(3)] d(5) sub lsn by (intro log_docs_covered) auto
    then have "durable c z cfg st' (ds @ map snd (co_mem st)) []"
      using s d(5,6,7) sub lsn by (auto simp: durable_def)
    moreover have "view c z st' = view c z st"
      using s(1-3) d(1,2) by (simp add: view_def memory_docs_def fun_eq_iff)
    ultimately show ?thesis
      using s(1) by blast
  qed simp_all
  then show "\<exists>ws'. durable c z cfg st' (ds @ map snd (co_mem st)) ws' \<and> co_mem st' = []" "view c z st' = view c z st"
    by simp_all
qed

section \<open>Restarting\<close>

lemma replay_flush_view:
  assumes run: "replay_flush c z cfg st = Inr st'" and imm: "co_imm st = []"
    and ready: "flush_ready c z cfg (co_fs st) (co_tag st) (co_mem st) N files"
    and docs: "published_docs c z (fs_disk (co_fs st)) = Inr ds"
  shows "view c z st' = view c z st"
proof -
  obtain r where r: "flush c z cfg True st = (st', r)" "\<forall>x. r = Some x \<longrightarrow> (\<exists>e. x = FlushWrite e)"
    using run by (auto simp: replay_flush_def split: prod.splits option.splits flush_error.splits)
  show ?thesis
    by (rule flush_cases [OF r(1) imm ready docs r(2)]) (simp_all add: view_def docs memory_docs_def imm fun_eq_iff)
qed

text \<open>
  A process that starts on the files and the log of a durable state reads what the old one read; the start can
  only fail when the rebuilt memtable cannot be written out.
\<close>

theorem restart_view:
  assumes st: "durable c z cfg st ds ws" and lim: "length ws < cf_limit cfg"
    and ready: "flush_ready c z cfg (co_fs st) tag (co_mem st) N files"
  shows "(\<exists>st'. replayCollectionWal c z cfg (start_coll (co_fs st) (co_log st) lsn tag) = Inr st' \<and> view c z st' = view c z st)
    \<or> (\<exists>e. replayCollectionWal c z cfg (start_coll (co_fs st) (co_log st) lsn tag) = Inl (ReplayFlush e)
         \<and> \<not> flush_works c z cfg (co_fs st) (co_mem st))"
proof -
  let ?s0 = "start_coll (co_fs st) (co_log st) lsn tag" and ?d = "fs_disk (co_fs st)"
  let ?cov = "covered_lsn (load c z ?d)"
  have d: "co_imm st = []" "co_mem st = insert_docs ws []" "published_docs c z ?d = Inr ds"
    "log_docs c cfg ?cov (co_log st) = Some ws"
    using st by (simp_all add: durable_def)
  have no: "\<forall>e. load c z ?d \<noteq> LoadError e"
    using ready by (simp add: flush_ready_def stable_store_def)
  show ?thesis
  proof (cases "co_log st = []")
    case True
    then have "view c z ?s0 = view c z st"
      using d by (auto simp: view_def memory_docs_def start_coll_def)
    then show ?thesis
      using True by (simp add: replayCollectionWal_def start_coll_def)
  next
    case False
    let ?s1 = "?s0\<lparr>co_progress := \<lparr>wp_contiguous = ?cov, wp_intervals = []\<rparr>\<rparr>"
    obtain p where p: "replay_records c z cfg ?cov (co_log st) ?s1 = Inr (?s1\<lparr>co_mem := insert_docs ws [], co_progress := p\<rparr>)"
      using replay_records_log [OF d(4), of ?s1] lim by (auto simp: start_coll_def)
    let ?s2 = "?s1\<lparr>co_mem := insert_docs ws [], co_progress := p\<rparr>"
    have v2: "view c z ?s2 = view c z st"
      using d by (simp add: view_def memory_docs_def start_coll_def fun_eq_iff)
    have "entry_namespace cfg (snd (hd (co_log st))) = None"
      using log_docs_namespace [OF d(4)] False by simp
    then have run: "replayCollectionWal c z cfg ?s0
        = (case replay_flush c z cfg ?s2 of Inl e \<Rightarrow> Inl e | Inr s \<Rightarrow> Inr (reclaim_covered c z cfg s))"
      using False no p by (cases "load c z ?d") (simp_all add: replayCollectionWal_def start_coll_def covered_lsn_def Let_def)
    show ?thesis
    proof (cases "replay_flush c z cfg ?s2")
      case (Inl e)
      have "\<not> flush_works c z cfg (co_fs st) (co_mem st)"
      proof
        assume "flush_works c z cfg (co_fs st) (co_mem st)"
        then obtain s where "flush c z cfg True ?s2 = (s, None)"
          using flush_ok [of c z cfg ?s2 N files True] ready d(2) by (auto simp: start_coll_def)
        then show False
          using Inl by (simp add: replay_flush_def)
      qed
      moreover have "\<exists>x. e = ReplayFlush x"
        using Inl by (auto simp: replay_flush_def split: prod.splits option.splits flush_error.splits)
      ultimately show ?thesis
        using run Inl by auto
    next
      case (Inr s)
      have "view c z s = view c z ?s2"
        by (rule replay_flush_view [OF Inr]) (use ready d in \<open>simp_all add: start_coll_def\<close>)
      moreover have "view c z (reclaim_covered c z cfg s) = view c z s"
        by (rule view_same) (simp_all add: reclaim_covered_def split: manifest_status.splits)
      ultimately show ?thesis
        using run Inr v2 by simp
    qed
  qed
qed

end
