(* ===== verification/Lsm_Compact.thy ===== *)
theory Lsm_Compact
  imports Lsm_Restart
begin

text \<open>
  Compaction (\<open>LSM::compact\<close> of \<open>lsm.cpp\<close>): a run of neighbouring tables of similar size is merged into one new
  table, which replaces them in the manifest.  The three phases of the code are the steps of the model: choosing
  the run under the shared lock, reading and merging it without a lock, and writing and publishing the result,
  so that flushes and writes may come in between.  Throttling and statistics are left out.
\<close>

section \<open>Choosing the tables\<close>

record compact_config =
  cc_maxBytes :: u64 \<comment> \<open>\<open>LSM_COMPACT_MAX_SST_BYTES\<close>\<close>
  cc_maxSsts :: nat \<comment> \<open>\<open>LSM_COMPACT_MAX_SSTS_PER_PASS\<close>\<close>
  cc_fanout :: nat \<comment> \<open>\<open>compactionFanout()\<close>\<close>

datatype compact_error =
    CompactSet manifest_error | CompactRead sst_error | CompactWrite table_error | CompactRename
  | CompactLoad manifest_error | CompactInput | CompactPublish manifest_error

definition file_size :: "disk \<Rightarrow> string \<Rightarrow> u64" where
  "file_size d n = (case file_of d n of None \<Rightarrow> 0 | Some f \<Rightarrow> of_nat (length f))"

text \<open>The neighbours from one table on whose size is within a factor of two of its size, at most \<open>fanout\<close>.\<close>

fun tier_run :: "u64 \<Rightarrow> u64 \<Rightarrow> nat \<Rightarrow> (string \<times> u64) list \<Rightarrow> string list" where
  "tier_run maxBytes seedBytes 0 xs = []"
| "tier_run maxBytes seedBytes (Suc k) [] = []"
| "tier_run maxBytes seedBytes (Suc k) ((n, b) # xs) =
     (if b < (seedBytes + 1) div 2 \<or> seedBytes * 2 < b \<or> maxBytes < b then []
      else n # tier_run maxBytes seedBytes k xs)"

fun select_run :: "u64 \<Rightarrow> nat \<Rightarrow> (string \<times> u64) list \<Rightarrow> string list" where
  "select_run maxBytes fanout [] = []"
| "select_run maxBytes fanout ((n, b) # xs) =
     (if b = 0 \<or> maxBytes < b then select_run maxBytes fanout xs
      else let run = tier_run maxBytes b fanout ((n, b) # xs)
           in if length run = fanout then run else select_run maxBytes fanout xs)"

text \<open>The job: the tables to merge, and the bytes of all published tables.\<close>

record compact_job =
  cj_ssts :: "string list"
  cj_total :: u64

definition compact_select :: "json_codec \<Rightarrow> lz4 \<Rightarrow> compact_config \<Rightarrow> disk \<Rightarrow> compact_error + compact_job" where
  "compact_select c z cc d =
     (case publishedSsts c z d of
        Inl e \<Rightarrow> Inl (CompactSet e)
      | Inr files \<Rightarrow>
         (let allSsts = map (\<lambda>n. (n, file_size d n)) (sort files)
          in Inr \<lparr>cj_ssts = select_run (cc_maxBytes cc) (min (cc_fanout cc) (cc_maxSsts cc)) allSsts,
                  cj_total = sum_list (map snd allSsts)\<rparr>))"

section \<open>Merging their rows\<close>

text \<open>One row: rows that are not visible are left out; of two rows of one identity the newer stays.\<close>

definition compact_row :: "json_codec \<Rightarrow> raft_status \<Rightarrow> u64 \<Rightarrow> nat \<Rightarrow> docs \<Rightarrow> json \<Rightarrow> docs" where
  "compact_row c rs ci now merged j =
     (if \<not> docVisibleByCommitIndex rs j ci then merged
      else let i = (if jcontains j ''id'' then rowId c j else to_string now)
           in case map_of merged i of
                None \<Rightarrow> obj_insert i j merged
              | Some cur \<Rightarrow> if isCandidateNewer j cur then obj_insert i j merged else merged)"

text \<open>The rows to write, in the order of the identities; tombstones go when the run has all tables.\<close>

definition compact_rows :: "json_codec \<Rightarrow> raft_status \<Rightarrow> u64 \<Rightarrow> nat \<Rightarrow> bool \<Rightarrow> json list \<Rightarrow> json list" where
  "compact_rows c rs ci now full rows =
     filter (\<lambda>d. \<not> (full \<and> isDeletedDoc d)) (map snd (foldl (compact_row c rs ci now) [] rows))"

definition compact_read :: "json_codec \<Rightarrow> lz4 \<Rightarrow> raft_status \<Rightarrow> u64 \<Rightarrow> nat \<Rightarrow> compact_job \<Rightarrow> disk \<Rightarrow> compact_error + json list" where
  "compact_read c z rs ci now job d =
     (case publishedSsts c z d of
        Inl e \<Rightarrow> Inl (CompactSet e)
      | Inr files \<Rightarrow>
         (case table_docs c z d (cj_ssts job) of
            Inl e \<Rightarrow> Inl (CompactRead e)
          | Inr rows \<Rightarrow>
              Inr (compact_rows c rs ci now (0 < cj_total job \<and> length files = length (cj_ssts job)) rows)))"

section \<open>Publishing the result\<close>

text \<open>The final names; what was already renamed is removed when a later rename fails.\<close>

definition compact_finalize :: "fsys \<Rightarrow> string \<Rightarrow> string \<Rightarrow> fsys \<times> bool" where
  "compact_finalize s a b =
     (let (s1, ok1) = rename_if s (a @ ''.bloom'') (b @ ''.bloom'')
      in if \<not> ok1 then (s1, False)
         else let (s2, ok2) = rename_if s1 (a @ ''.sidx'') (b @ ''.sidx'')
           in if \<not> ok2 then (removeFile s2 (b @ ''.bloom''), False)
              else let (s3, ok3) = renameFile s2 a b
                in if ok3 then (s3, True) else (removeFile (removeFile s3 (b @ ''.bloom'')) (b @ ''.sidx''), False))"

definition compact_publish :: "json_codec \<Rightarrow> lz4 \<Rightarrow> string \<Rightarrow> string \<Rightarrow> string list \<Rightarrow> fsys \<Rightarrow> fsys \<times> compact_error option" where
  "compact_publish c z dir name ssts s =
     (let (s1, ok) = compact_finalize s (name @ ''.tmp'') name; current = load c z (fs_disk s1)
      in if \<not> ok then (s1, Some CompactRename)
         else case current of
                LoadError e \<Rightarrow> (remove_artifacts s1 name, Some (CompactLoad e))
              | _ \<Rightarrow>
               (case publishedSsts c z (fs_disk s1) of
                  Inl e \<Rightarrow> (remove_artifacts s1 name, Some (CompactLoad e))
                | Inr published \<Rightarrow>
                    if \<exists>n \<in> set ssts. n \<notin> set published then (remove_artifacts s1 name, Some CompactInput)
                    else case publish c z dir (next_manifest current 0 (filter (\<lambda>n. n \<notin> set ssts) published @ [name]))
                                [(dir, name)] s1 of
                           (s2, Some e) \<Rightarrow> (remove_artifacts s2 name, Some (CompactPublish e))
                         | (s2, None) \<Rightarrow> (foldl remove_artifacts s2 ssts, None)))"

definition compact_files :: "json_codec \<Rightarrow> lz4 \<Rightarrow> lsm_config \<Rightarrow> string \<Rightarrow> string list \<Rightarrow> json list \<Rightarrow> fsys
    \<Rightarrow> fsys \<times> compact_error option" where
  "compact_files c z cfg name ssts rows s =
     (case writeSst c z (cf_blockBytes cfg) s (name @ ''.tmp'') rows of
        (s1, Some e) \<Rightarrow> (s1, Some (CompactWrite e))
      | (s1, None) \<Rightarrow> compact_publish c z (cf_dir cfg) name ssts (buildBloomForSST c z s1 (name @ ''.tmp'')))"

text \<open>The first two phases, and the last one.\<close>

definition compact_begin :: "json_codec \<Rightarrow> lz4 \<Rightarrow> compact_config \<Rightarrow> raft_status \<Rightarrow> u64 \<Rightarrow> nat \<Rightarrow> coll
    \<Rightarrow> compact_error + (compact_job \<times> json list) option" where
  "compact_begin c z cc rs ci now st =
     (case compact_select c z cc (fs_disk (co_fs st)) of
        Inl e \<Rightarrow> Inl e
      | Inr job \<Rightarrow>
          if cj_ssts job = [] then Inr None
          else case compact_read c z rs ci now job (fs_disk (co_fs st)) of
                 Inl e \<Rightarrow> Inl e
               | Inr rows \<Rightarrow> Inr (Some (job, rows)))"

definition compact_finish :: "json_codec \<Rightarrow> lz4 \<Rightarrow> lsm_config \<Rightarrow> compact_job \<Rightarrow> json list \<Rightarrow> coll \<Rightarrow> coll \<times> compact_error option" where
  "compact_finish c z cfg job rows st =
     (let (s, r) = compact_files c z cfg (cf_name cfg (co_tag st)) (cj_ssts job) rows (co_fs st)
      in (st\<lparr>co_fs := s, co_tag := co_tag st + 1,
             co_published := (if r = None then co_published st + 1 else co_published st)\<rparr>, r))"

text \<open>
  A compaction of an existing directory during which nothing else happens; \<open>ready\<close> is \<open>isRecoveryComplete\<close>.
\<close>

definition compact :: "json_codec \<Rightarrow> lz4 \<Rightarrow> lsm_config \<Rightarrow> compact_config \<Rightarrow> raft_status \<Rightarrow> u64 \<Rightarrow> nat \<Rightarrow> bool \<Rightarrow> coll
    \<Rightarrow> coll \<times> compact_error option" where
  "compact c z cfg cc rs ci now ready st =
     (if \<not> ready then (st, None)
      else case compact_begin c z cc rs ci now st of
             Inl e \<Rightarrow> (st, Some e)
           | Inr None \<Rightarrow> (st, None)
           | Inr (Some (job, rows)) \<Rightarrow> compact_finish c z cfg job rows st)"

section \<open>The chosen tables\<close>

lemma tier_run_prefix: "\<exists>ys. map fst xs = tier_run maxBytes seedBytes k xs @ ys"
  by (induction maxBytes seedBytes k xs rule: tier_run.induct) auto

text \<open>The tables of a job are neighbours in the order of the names.\<close>

lemma select_run_neighbours: "\<exists>as bs. map fst xs = as @ select_run maxBytes fanout xs @ bs"
proof (induction xs)
  case (Cons x xs)
  obtain n b where x: "x = (n, b)"
    by (cases x)
  let ?run = "tier_run maxBytes b fanout ((n, b) # xs)"
  show ?case
  proof (cases "\<not> (b = 0 \<or> maxBytes < b) \<and> length ?run = fanout")
    case True
    then have "select_run maxBytes fanout ((n, b) # xs) = ?run"
      by (simp add: Let_def)
    then show ?thesis
      using tier_run_prefix [of "(n, b) # xs" maxBytes b fanout] unfolding x by (metis append_Nil)
  next
    case False
    then have "select_run maxBytes fanout ((n, b) # xs) = select_run maxBytes fanout xs"
      by (auto simp: Let_def)
    then show ?thesis
      using Cons.IH unfolding x by (metis append_Cons fst_conv list.simps(9))
  qed
qed simp

lemma compact_select_neighbours:
  assumes "compact_select c z cc d = Inr job" "publishedSsts c z d = Inr files" "sorted files"
  obtains as bs where "files = as @ cj_ssts job @ bs"
proof -
  let ?all = "map (\<lambda>n. (n, file_size d n)) files"
  have "cj_ssts job = select_run (cc_maxBytes cc) (min (cc_fanout cc) (cc_maxSsts cc)) ?all"
    using assms by (auto simp: compact_select_def Let_def sorted_sort_id)
  then show thesis
    using that select_run_neighbours [of ?all "cc_maxBytes cc" "min (cc_fanout cc) (cc_maxSsts cc)"] by (auto simp: comp_def)
qed

section \<open>What the merge keeps\<close>

text \<open>Rows that are visible and have an identity are merged as a read merges them.\<close>

lemma compact_row_merge:
  assumes "docVisibleByCommitIndex rs j ci" "doc_id c j \<noteq> None"
  shows "compact_row c rs ci now m j = fst (mergeLatestById c (m, x) j)"
  using assms by (auto simp: compact_row_def mergeLatestById_def doc_id_def Let_def split: option.splits if_splits)

lemma compact_fold_merge:
  assumes "\<forall>d \<in> set ds. docVisibleByCommitIndex rs d ci \<and> doc_id c d \<noteq> None"
  shows "foldl (compact_row c rs ci now) m ds = fst (merge_docs c (m, x) ds)"
  using assms
proof (induction ds arbitrary: m x)
  case (Cons d ds)
  then show ?case
    using compact_row_merge [of rs d ci c now m x] by (metis foldl_Cons list.set_intros prod.collapse)
qed simp

lemma merged_ok:
  assumes "\<forall>d \<in> set ds. docVisibleByCommitIndex rs d ci \<and> doc_id c d \<noteq> None"
  shows "mem_ok c (foldl (compact_row c rs ci now) [] ds)"
    "map_of (foldl (compact_row c rs ci now) [] ds) i = newest_doc (docs_of c i ds)"
proof -
  let ?m = "foldl (compact_row c rs ci now) [] ds"
  have wf: "obj_wf ?m" and m: "map_of ?m i = newest_doc (docs_of c i ds)" for i
    using merge_docs_lookup(1,2) [of "([], [])" c ds] compact_fold_merge [OF assms, of now "[]" "[]"]
    by (simp_all add: obj_wf_def)
  show "map_of ?m i = newest_doc (docs_of c i ds)"
    by (rule m)
  have "doc_id c d = Some k" if "(k, d) \<in> set ?m" for k d
  proof -
    have "distinct (map fst ?m)"
      using wf by (simp add: obj_wf_def strict_sorted_iff)
    then have "newest_doc (docs_of c k ds) = Some d"
      using m [of k] that by simp
    then show ?thesis
      using last_max_in by fastforce
  qed
  then show "mem_ok c ?m"
    using wf by (auto simp: mem_ok_def)
qed

text \<open>The written rows: the newest of every identity, without the tombstones that may go.\<close>

lemma compact_rows_newest:
  assumes "\<forall>d \<in> set ds. docVisibleByCommitIndex rs d ci \<and> doc_id c d \<noteq> None"
  shows "newest_doc (docs_of c i (compact_rows c rs ci now full ds))
    = (case newest_doc (docs_of c i ds) of None \<Rightarrow> None | Some d \<Rightarrow> if full \<and> isDeletedDoc d then None else Some d)"
proof -
  let ?m = "foldl (compact_row c rs ci now) [] ds"
  note m = merged_ok [OF assms]
  have "docs_of c i (compact_rows c rs ci now full ds) = filter (\<lambda>d. \<not> (full \<and> isDeletedDoc d)) (docs_of c i (map snd ?m))"
    by (simp add: compact_rows_def filter_filter conj_commute cong: filter_cong)
  also have "\<dots> = (case newest_doc (docs_of c i ds) of None \<Rightarrow> []
      | Some d \<Rightarrow> if full \<and> isDeletedDoc d then [] else [d])"
    using docs_of_mem [OF m(1)] m(2) by (simp split: option.splits)
  finally show ?thesis
    by (simp add: last_max_Cons split: option.splits)
qed

lemma compact_rows_subset:
  assumes "\<forall>d \<in> set ds. docVisibleByCommitIndex rs d ci \<and> doc_id c d \<noteq> None"
  shows "set (compact_rows c rs ci now full ds) \<subseteq> set ds"
proof
  fix d
  assume "d \<in> set (compact_rows c rs ci now full ds)"
  then obtain k where k: "(k, d) \<in> set (foldl (compact_row c rs ci now) [] ds)"
    by (auto simp: compact_rows_def)
  have "distinct (map fst (foldl (compact_row c rs ci now) [] ds))"
    using merged_ok(1) [OF assms] by (simp add: mem_ok_def obj_wf_def strict_sorted_iff)
  then have "newest_doc (docs_of c k ds) = Some d"
    using merged_ok(2) [OF assms, of now k] k by simp
  then show "d \<in> set ds"
    using last_max_in by fastforce
qed

section \<open>The contents after a compaction\<close>

text \<open>Two documents of one identity and one version are the same document.\<close>

definition no_ties :: "json_codec \<Rightarrow> json list \<Rightarrow> bool" where
  "no_ties c ds \<longleftrightarrow> (\<forall>i. inj_on extractDocVersionScore (set (docs_of c i ds)))"

lemma later_commute:
  assumes "\<And>a b. x = Some a \<Longrightarrow> y = Some b \<Longrightarrow> f a = f b \<Longrightarrow> a = b"
  shows "later f x y = later f y x"
proof (cases "x = None \<or> y = None")
  case False
  then obtain a b where ab: "x = Some a" "y = Some b"
    by auto
  then show ?thesis
    using assms [OF ab] by (cases "f a" "f b" rule: linorder_cases) auto
qed auto

text \<open>Moving the newest rows of a run behind the later tables: only deleted documents can disappear.\<close>

lemma compact_newest:
  assumes ties: "no_ties c (as @ ds @ bs @ ms)" and chain: "chain c (as @ ds @ bs @ ms)"
    and vis: "\<forall>d \<in> set ds. docVisibleByCommitIndex rs d ci \<and> doc_id c d \<noteq> None" and full: "full \<Longrightarrow> as = []"
  shows "newest_doc (docs_of c i (as @ bs @ compact_rows c rs ci now full ds @ ms)) = newest_doc (docs_of c i (as @ ds @ bs @ ms))
    \<or> newest_doc (docs_of c i (as @ bs @ compact_rows c rs ci now full ds @ ms)) = None
      \<and> (\<exists>t. newest_doc (docs_of c i (as @ ds @ bs @ ms)) = Some t \<and> isDeletedDoc t)"
proof -
  let ?l = "later extractDocVersionScore" and ?n = "\<lambda>xs. newest_doc (docs_of c i xs)"
  have app: "?n (xs @ ys) = ?l (?n xs) (?n ys)" for xs ys
    by (simp add: last_max_append)
  have in_docs: "x \<in> set (docs_of c i xs)" if "?n xs = Some x" for xs x
    by (rule last_max_in [OF that])
  have com: "?l (?n ds) (?n bs) = ?l (?n bs) (?n ds)"
  proof (rule later_commute)
    fix a b
    assume ab: "?n ds = Some a" "?n bs = Some b" "extractDocVersionScore a = extractDocVersionScore b"
    show "a = b"
      by (rule inj_onD [OF ties [unfolded no_ties_def, rule_format, of i] ab(3)])
        (use in_docs [OF ab(1)] in_docs [OF ab(2)] in auto)
  qed
  show ?thesis
  proof (cases "?n (compact_rows c rs ci now full ds) = ?n ds")
    case True
    then have "?n (as @ bs @ compact_rows c rs ci now full ds @ ms) = ?l (?n as) (?l (?l (?n bs) (?n ds)) (?n ms))"
      unfolding app by (simp add: later_assoc)
    also have "\<dots> = ?n (as @ ds @ bs @ ms)"
      unfolding app com [symmetric] by (simp add: later_assoc)
    finally show ?thesis
      by simp
  next
    case False
    then obtain t where t: "?n ds = Some t" "full" "isDeletedDoc t" "?n (compact_rows c rs ci now full ds) = None"
      using compact_rows_newest [OF vis, of i now full] by (auto split: option.splits if_splits)
    have as: "as = []"
      by (rule full [OF t(2)])
    have new: "?n (as @ bs @ compact_rows c rs ci now full ds @ ms) = ?n (bs @ ms)"
      unfolding app using t(4) as by simp
    have old: "?n (as @ ds @ bs @ ms) = ?l (Some t) (?n (bs @ ms))"
      unfolding app using t(1) as by simp
    show ?thesis
    proof (cases "?n (bs @ ms)")
      case None
      then show ?thesis
        using new old t(3) by simp
    next
      case (Some u)
      have "sorted_wrt (\<lambda>a b. extractDocVersionScore a \<le> extractDocVersionScore b) (docs_of c i ds @ docs_of c i (bs @ ms))"
        using chain as by (simp add: chain_def)
      then have "extractDocVersionScore t \<le> extractDocVersionScore u"
        using in_docs [OF t(1)] in_docs [OF Some] by (auto simp: sorted_wrt_append)
      then show ?thesis
        using new old Some by simp
    qed
  qed
qed

text \<open>
  Neither condition can be dropped.  On equal versions the merged row, now in the table that sorts last, replaces the
  one of a later table that a read returned before; and a row that is not visible yet is lost.
\<close>

lemma compact_tie_revives:
  assumes "doc_id c a = Some i" "doc_id c b = Some i" "extractDocVersionScore a = extractDocVersionScore b"
    and "docVisibleByCommitIndex rs a ci"
  shows "newest_doc (docs_of c i ([a] @ [b])) = Some b"
    "newest_doc (docs_of c i ([b] @ compact_rows c rs ci now full [a])) = (if full \<and> isDeletedDoc a then Some b else Some a)"
proof -
  show "newest_doc (docs_of c i ([a] @ [b])) = Some b"
    using assms by (simp add: last_max_Cons)
  have "newest_doc (docs_of c i (compact_rows c rs ci now full [a])) = (if full \<and> isDeletedDoc a then None else Some a)"
    using compact_rows_newest [of "[a]" rs ci c i now full] assms by (simp add: last_max_Cons)
  then show "newest_doc (docs_of c i ([b] @ compact_rows c rs ci now full [a])) = (if full \<and> isDeletedDoc a then Some b else Some a)"
    unfolding filter_append last_max_append using assms by (simp add: last_max_Cons)
qed

lemma compact_drops_pending:
  assumes "\<forall>d \<in> set ds. \<not> docVisibleByCommitIndex rs d ci"
  shows "compact_rows c rs ci now full ds = []"
proof -
  have "foldl (compact_row c rs ci now) m ds = m" for m
    using assms by (induction ds arbitrary: m) (simp_all add: compact_row_def)
  then show ?thesis
    by (simp add: compact_rows_def)
qed

section \<open>The files of a compaction\<close>

context call_invariant
begin

lemma compact_finalize_keeps:
  assumes h: "Q s" and N: "{a, b, a @ ''.bloom'', b @ ''.bloom'', a @ ''.sidx'', b @ ''.sidx''} \<inter> N = {}"
    and f: "compact_finalize s a b = (s', ok)"
  shows "Q s'"
proof -
  obtain s1 ok1 where s1: "rename_if s (a @ ''.bloom'') (b @ ''.bloom'') = (s1, ok1)"
    by (cases "rename_if s (a @ ''.bloom'') (b @ ''.bloom'')")
  have h1: "Q s1"
    using rename_if_keeps [OF h _ _ s1] N by auto
  obtain s2 ok2 where s2: "rename_if s1 (a @ ''.sidx'') (b @ ''.sidx'') = (s2, ok2)"
    by (cases "rename_if s1 (a @ ''.sidx'') (b @ ''.sidx'')")
  have h2: "Q s2"
    using rename_if_keeps [OF h1 _ _ s2] N by auto
  obtain s3 ok3 where s3: "renameFile s2 a b = (s3, ok3)"
    by (cases "renameFile s2 a b")
  have h3: "Q s3"
    using renameFile_keeps [OF h2 _ _ s3] N by auto
  have "Q (removeFile s2 (b @ ''.bloom''))" "Q (removeFile (removeFile s3 (b @ ''.bloom'')) (b @ ''.sidx''))"
    using h2 h3 N by (auto intro!: removeFile_keeps)
  then show ?thesis
    using f s1 s2 s3 h1 h3 by (auto simp: compact_finalize_def split: if_splits)
qed

lemma remove_inputs_keep:
  assumes "Q s" "\<forall>n \<in> set ssts. {n, n @ ''.bloom'', n @ ''.sidx''} \<inter> N = {}"
  shows "Q (foldl remove_artifacts s ssts)"
  using assms by (induction ssts arbitrary: s) (simp_all add: remove_artifacts_keeps)

end

text \<open>The states before a point are what they were, those after it keep the names of \<open>N\<close>.\<close>

interpretation since: call_invariant N "\<lambda>s. holds d0 N (fs_disk s) \<and> always (\<lambda>d. P d \<or> holds d0 N d) s" for d0 N P
  by unfold_locales
    (auto simp: writeFile_def syncFile_def syncDirectory_def renameFile_def removeFile_def holds_ops
      split: option.splits if_splits)

lemma compact_finalize_ok: "compact_finalize s a b = (s', True) \<Longrightarrow> finalize_artifacts s a b = (s', True)"
  by (auto simp: compact_finalize_def finalize_artifacts_def split: prod.splits if_splits)

lemma compact_finalize_fails: "compact_finalize s a b = (s', False) \<Longrightarrow> \<not> snd (finalize_artifacts s a b)"
  by (auto simp: compact_finalize_def finalize_artifacts_def split: prod.splits if_splits)

text \<open>The manifest without the merged tables and with the new one.\<close>

abbreviation compact_manifest :: "manifest_status \<Rightarrow> string list \<Rightarrow> string list \<Rightarrow> string \<Rightarrow> LsmManifest" where
  "compact_manifest status ssts files name \<equiv> next_manifest status 0 (filter (\<lambda>n. n \<notin> set ssts) files @ [name])"

lemma compact_files_cases:
  assumes run: "compact_files c z cfg name ssts rows s = (s', r)"
    and st: "stable_store c z (fs_disk s) N name files" and cur: "load c z (fs_disk s) = Loaded cur"
    and ssts: "set ssts \<subseteq> set files"
    and past: "always (holds (fs_disk s) (insert kManifestName (insert name N))) s"
  obtains "always (holds (fs_disk s) (insert kManifestName N)) s'" "\<exists>e. r = Some e \<and> (\<forall>x. e \<noteq> CompactPublish x)"
      "healthy s \<Longrightarrow> \<exists>e. sst_image c z (cf_blockBytes cfg) rows = Inl e"
  | s3 s4 e where "installed c z (cf_blockBytes cfg) rows name (fs_disk s) N s3" "fs_fail s3 = fs_fail s"
      "publish c z (cf_dir cfg) (compact_manifest (Loaded cur) ssts files name) [(cf_dir cfg, name)] s3 = (s4, e)"
      "(s', r) = (case e of Some e \<Rightarrow> (remove_artifacts s4 name, Some (CompactPublish e))
                          | None \<Rightarrow> (foldl remove_artifacts s4 ssts, None))"
proof -
  let ?d = "fs_disk s" and ?N = "insert kManifestName N" and ?M = "insert kManifestName (insert name N)" and ?w = "name @ ''.tmp''"
  have name: "safeSstName name" "name \<notin> N" "\<forall>n \<in> N. path_extension n = ''.sst''"
    using st by (simp_all add: stable_store_def)
  have "n \<noteq> name \<Longrightarrow> n \<in> work_names ''.tmp'' name \<Longrightarrow> n \<notin> ?M" for n
    using work_names_fresh [OF name, of "''.tmp''"] by blast
  then have fr: "?w \<notin> ?M" "?w @ ''.writing'' \<notin> ?M" "?w @ ''.bloom'' \<notin> ?M" "?w @ ''.bloom.tmp'' \<notin> ?M"
    "name @ ''.bloom'' \<notin> ?M" "?w @ ''.sidx'' \<notin> ?M" "name @ ''.sidx'' \<notin> ?M"
    by (simp_all add: work_names_def)
  have n: "name \<notin> ?N"
    using name safe_not_special special_names(2) by auto
  have sub: "always (holds ?d ?N) t" if "always (holds ?d ?M) t" for t
    by (rule always_mono [OF that], rule holds_subset) auto
  obtain s1 r1 where s1: "writeSst c z (cf_blockBytes cfg) s ?w rows = (s1, r1)"
    by (cases "writeSst c z (cf_blockBytes cfg) s ?w rows")
  show thesis
  proof (cases r1)
    case (Some e)
    have "disk_wf (fs_disk s)"
      using always_now [OF past] by (simp add: holds_def)
    then have "healthy s \<Longrightarrow> \<exists>e. sst_image c z (cf_blockBytes cfg) rows = Inl e"
      using healthy_writeSst [of s c z "cf_blockBytes cfg" rows _ _ ?w] s1 Some
      by (cases "sst_image c z (cf_blockBytes cfg) rows") auto
    then show thesis
      using that(1) run s1 Some sub [OF writeSst_spec(1) [OF s1 past fr(1,2)]] by (auto simp: compact_files_def)
  next
    case None
    define s2 where "s2 = buildBloomForSST c z s1 ?w"
    obtain f st where f: "sst_image c z (cf_blockBytes cfg) rows = Inr (f, st)" "file_of (fs_disk s1) ?w = Some f"
        and w2: "holds (fs_disk s1) {?w} (fs_disk s2)" and h2: "always (holds ?d ?M) s2" and fails2: "fs_fail s2 = fs_fail s"
      using table_written [OF s1 [unfolded None] past fr(1-4)] unfolding s2_def by metis
    obtain s3 ok3 where s3: "compact_finalize s2 ?w name = (s3, ok3)"
      by (cases "compact_finalize s2 ?w name")
    have h3: "always (holds ?d ?N) s3"
      by (rule trace.compact_finalize_keeps [OF sub [OF h2] _ s3]) (use fr n in auto)
    have run2: "compact_publish c z (cf_dir cfg) name ssts s2 = (s', r)"
      using run s1 None by (simp add: compact_files_def s2_def)
    show thesis
    proof (cases ok3)
      case False
      have "\<not> healthy s"
        using healthy_finalize [OF _ w2, of name] compact_finalize_fails [of s2 ?w name s3] f(2) s3 False fails2
        by (auto simp: healthy_def)
      then show thesis
        using that(1) run2 s3 False h3 by (auto simp: compact_publish_def)
    next
      case True
      have inst: "installed c z (cf_blockBytes cfg) rows name ?d N s3"
        using h3 finalize_artifacts_moves [OF w2, of name s3] compact_finalize_ok [of s2 ?w name s3] s3 True f
        by (auto simp: installed_def)
      have l: "load c z (fs_disk s3) = Loaded cur" "publishedSsts c z (fs_disk s3) = Inr files"
        using installed_facts(2) [OF inst \<open>stable_store c z ?d N name files\<close>] cur st by (simp_all add: publishedSsts_def stable_store_def)
      let ?m = "compact_manifest (Loaded cur) ssts files name"
      obtain s4 e where s4: "publish c z (cf_dir cfg) ?m [(cf_dir cfg, name)] s3 = (s4, e)"
        by (cases "publish c z (cf_dir cfg) ?m [(cf_dir cfg, name)] s3")
      have "fs_fail s3 = fs_fail s"
        using fails2 by (rule fails.compact_finalize_keeps [where N = "{}", OF _ _ s3]) simp
      moreover have no: "(\<exists>n \<in> set ssts. n \<notin> set files) = False"
        using ssts by blast
      moreover have "(s', r) = (case e of Some e \<Rightarrow> (remove_artifacts s4 name, Some (CompactPublish e))
                          | None \<Rightarrow> (foldl remove_artifacts s4 ssts, None))"
        using run2 s3 True l no s4 by (auto simp: compact_publish_def split: option.splits)
      ultimately show thesis
        using that(2) [OF inst _ s4] by simp
    qed
  qed
qed

section \<open>What a compaction publishes\<close>

lemma table_docs_split:
  "table_docs c z d (ns @ ns') = Inr ds \<Longrightarrow> \<exists>xs ys. ds = xs @ ys \<and> table_docs c z d ns = Inr xs \<and> table_docs c z d ns' = Inr ys"
proof (induction ns arbitrary: ds)
  case (Cons n ns)
  obtain rs ds' where rs: "(case file_of d n of Some f \<Rightarrow> sst_rows c z f | None \<Rightarrow> Inl CannotStat) = Inr rs"
      "table_docs c z d (ns @ ns') = Inr ds'" "ds = rs @ ds'"
    using Cons.prems by (auto split: sum.splits)
  obtain xs ys where "ds' = xs @ ys" "table_docs c z d ns = Inr xs" "table_docs c z d ns' = Inr ys"
    using Cons.IH [OF rs(2)] by blast
  then show ?case
    using rs by (intro exI [of _ "rs @ xs"] exI [of _ ys]) simp
qed simp

lemma remaining_files:
  assumes "distinct (as @ ssts @ bs)"
  shows "filter (\<lambda>n. n \<notin> set ssts) (as @ ssts @ bs) = as @ bs"
proof -
  have "filter (\<lambda>n. n \<notin> set ssts) as = as" "filter (\<lambda>n. n \<notin> set ssts) bs = bs"
    using assms by (auto simp: filter_id_conv)
  then show ?thesis
    by simp
qed

text \<open>The directory after the new manifest is in place: the rows of the other tables, then the merged ones.\<close>

lemma compacted_docs:
  assumes st: "stable_store c z d0 N name (as @ ssts @ bs)"
    and docs: "table_docs c z d0 as = Inr xs" "table_docs c z d0 bs = Inr ys"
    and inst: "installed c z target rows name d0 N s" and good: "image_good c z rows" "rows_decode c rows"
    and order: "\<forall>n \<in> set (as @ ssts @ bs). n < name"
    and m: "m = compact_manifest status ssts (as @ ssts @ bs) name" "load c z d = Loaded (sorted_manifest m)"
      "\<forall>n \<in> set (mf_sstFiles m). file_of d n = file_of (fs_disk s) n"
  shows "published_docs c z d = Inr (xs @ ys @ rows)"
proof -
  have sd: "sorted (as @ ssts @ bs)" "distinct (as @ ssts @ bs)"
    using stable_sorted [OF st] by simp_all
  have rest: "filter (\<lambda>n. n \<notin> set ssts) (as @ ssts @ bs) = as @ bs"
    by (rule remaining_files [OF sd(2)])
  have sorted: "sort (remdups (sort ((as @ bs) @ [name]))) = (as @ bs) @ [name]"
    by (rule next_files) (use sd order in \<open>auto simp: sorted_append\<close>)
  have files: "set (mf_sstFiles m) = insert name (set (as @ bs))" "sort (mf_sstFiles m) = (as @ bs) @ [name]"
    using sorted unfolding m(1) rest by (simp_all add: next_manifest_def)
  obtain f i where f: "sst_image c z target rows = Inr (f, i)" "file_of d name = Some f"
    using inst m(3) files(1) by (auto simp: installed_def)
  have "holds d0 (insert kManifestName N) (fs_disk s)"
    using inst always_now by (auto simp: installed_def)
  then have "\<forall>n \<in> set (as @ bs). file_of d n = file_of d0 n"
    using m(3) files(1) st by (auto simp: holds_def stable_store_def)
  then have "table_docs c z d as = Inr xs" "table_docs c z d bs = Inr ys"
    using docs table_docs_same [of as d d0] table_docs_same [of bs d d0] by simp_all
  then have "table_docs c z d ((as @ bs) @ [name]) = Inr ((xs @ ys) @ rows)"
    using table_docs_append [of c z d as xs bs ys] f(2) image_read_back(1) [OF f(1) good]
    by (intro table_docs_append) simp_all
  moreover have "publishedSsts c z d = Inr ((as @ bs) @ [name])"
    by (simp add: publishedSsts_def m(2) files(2))
  ultimately show ?thesis
    by (simp add: published_docs_files)
qed

text \<open>What the names of the merged tables leave alone.\<close>

lemma inputs_fresh:
  assumes st: "stable_store c z d N name (as @ ssts @ bs)" and cur: "load c z d = Loaded cur" and n: "n \<in> set ssts"
  shows "{n, n @ ''.bloom'', n @ ''.sidx''} \<inter> insert kManifestName (insert name (set (as @ bs))) = {}"
proof -
  let ?N = "insert name (set (as @ bs))"
  have files: "mf_sstFiles cur = as @ ssts @ bs" "set (as @ ssts @ bs) \<subseteq> N" "name \<notin> N" "\<forall>n \<in> N. path_extension n = ''.sst''" "safeSstName name"
    using st cur by (simp_all add: stable_store_def)
  then have safe: "safeSstName n" "n \<notin> ?N" "\<forall>n \<in> ?N. path_extension n = ''.sst''"
    using load_files [OF cur] n stable_sorted [OF st] by (auto simp: safeSstName_def)
  have "work_names ''.tmp'' n \<inter> insert kManifestName (insert n ?N) = {n}"
    by (rule work_names_fresh [OF safe]) simp
  moreover have "n \<noteq> kManifestName"
    using safe_not_special [OF safe(1)] special_names(2) by metis
  ultimately show ?thesis
    using safe(2) by (auto simp: work_names_def)
qed

text \<open>A publication that succeeded, and everything the removal of the merged tables leaves of it.\<close>

lemma compact_published:
  assumes st: "stable_store c z d0 N name (as @ ssts @ bs)" and cur: "load c z d0 = Loaded cur"
    and inst: "installed c z target rows name d0 N s3"
    and pub: "publish c z dir m [(dir, name)] s3 = (s4, None)" and m: "m = compact_manifest (Loaded cur) ssts (as @ ssts @ bs) name"
    and enc: "manifest_text_ok c (sorted_manifest m)"
  shows "holds (fs_disk s4) (insert kManifestName (insert name (set (as @ bs)))) (fs_disk s4)"
    "\<forall>n \<in> insert kManifestName (insert name (set (as @ bs))). file_of d n = file_of (fs_disk s4) n \<Longrightarrow>
       load c z d = Loaded (sorted_manifest m) \<and> (\<forall>n \<in> set (mf_sstFiles m). file_of d n = file_of (fs_disk s3) n)"
proof -
  let ?K = "insert name (set (as @ bs))"
  note pf = installed_facts [OF inst st]
  have files: "set (as @ bs) \<subseteq> N" "set (mf_sstFiles m) = ?K"
    using st remaining_files [of as ssts bs] stable_sorted [OF st] by (auto simp: m next_manifest_def stable_store_def)
  then have sub: "set (mf_sstFiles m) \<subseteq> N \<union> snd ` set [(dir, name)]"
    by auto
  note pd = publish_done [OF pub pf(1,3,4,5) enc sub]
  have s4: "settled (fs_disk s4) n \<and> file_of (fs_disk s4) n = file_of (fs_disk s3) n" if "n \<in> ?K" for n
    using pd(4) that files(1) by auto
  show "holds (fs_disk s4) (insert kManifestName ?K) (fs_disk s4)"
    using pd(1) s4 by (auto simp: holds_def store_ok_def)
  assume d: "\<forall>n \<in> insert kManifestName ?K. file_of d n = file_of (fs_disk s4) n"
  have "load c z d = load c z (fs_disk s4)"
    by (rule covers_load_same [where N = ?K]) (use pd(2) files(2) d in simp_all)
  then show "load c z d = Loaded (sorted_manifest m) \<and> (\<forall>n \<in> set (mf_sstFiles m). file_of d n = file_of (fs_disk s3) n)"
    using pd(2) d s4 files(2) by auto
qed

lemma compact_kept_docs:
  assumes st: "stable_store c z d0 N name files" and cur: "load c z d0 = Loaded cur" and docs: "published_docs c z d0 = Inr ds"
    and keep: "load c z d = Loaded cur" "\<forall>n \<in> N. file_of d n = file_of d0 n"
  shows "published_docs c z d = Inr ds"
proof -
  have files: "mf_sstFiles cur = files" "set files \<subseteq> N"
    using st cur by (simp_all add: stable_store_def)
  then have "table_docs c z d files = table_docs c z d0 files"
    using keep(2) by (auto intro: table_docs_same)
  then show ?thesis
    using docs keep(1) cur files(1) by (simp add: published_docs_def publishedSsts_def)
qed

text \<open>A compaction that did not publish left the store alone, unless the last synchronisation failed.\<close>

lemma compact_files_split:
  assumes run: "compact_files c z cfg name ssts rows s = (s', r)" "r \<noteq> Some (CompactPublish ManifestSync)"
    and st: "stable_store c z (fs_disk s) N name (as @ ssts @ bs)" and cur: "load c z (fs_disk s) = Loaded cur"
    and past: "always (holds (fs_disk s) (insert kManifestName (insert name N))) s"
  obtains "always (holds (fs_disk s) (insert kManifestName N)) s'" "r \<noteq> None"
  | s3 s4 where "installed c z (cf_blockBytes cfg) rows name (fs_disk s) N s3"
      "publish c z (cf_dir cfg) (compact_manifest (Loaded cur) ssts (as @ ssts @ bs) name) [(cf_dir cfg, name)] s3 = (s4, None)"
      "s' = foldl remove_artifacts s4 ssts" "r = None"
proof (rule compact_files_cases [OF run(1) st cur _ past])
  assume "always (holds (fs_disk s) (insert kManifestName N)) s'" "\<exists>e. r = Some e \<and> (\<forall>x. e \<noteq> CompactPublish x)"
  then show thesis
    using that(1) by auto
next
  fix s3 s4 e
  assume p: "installed c z (cf_blockBytes cfg) rows name (fs_disk s) N s3"
    "publish c z (cf_dir cfg) (compact_manifest (Loaded cur) ssts (as @ ssts @ bs) name) [(cf_dir cfg, name)] s3 = (s4, e)"
    "(s', r) = (case e of Some e \<Rightarrow> (remove_artifacts s4 name, Some (CompactPublish e)) | None \<Rightarrow> (foldl remove_artifacts s4 ssts, None))"
  show thesis
  proof (cases e)
    case None
    show thesis
      by (rule that(2) [OF p(1)]) (use p(2,3) None in simp_all)
  next
    case (Some x)
    then have x: "x \<noteq> ManifestSync" "s' = remove_artifacts s4 name" "r \<noteq> None"
      using p(3) run(2) by auto
    have "kManifestTemporary \<notin> insert kManifestName N"
      using installed_facts(4) [OF p(1) st] special_names by auto
    then have "always (holds (fs_disk s) (insert kManifestName N)) s4"
      using publish_failed [OF p(2) [unfolded Some] x(1)] p(1) by (simp add: installed_def)
    then show thesis
      using that(1) x(2,3) trace.remove_artifacts_keeps [OF _ artifact_names_fresh [OF st]] by simp
  qed
qed auto

text \<open>What a compaction that ran to its end leaves.\<close>

theorem compact_files_done:
  assumes run: "compact_files c z cfg name ssts rows s = (s', r)" "r \<noteq> Some (CompactPublish ManifestSync)"
    and st: "stable_store c z (fs_disk s) N name (as @ ssts @ bs)" and cur: "load c z (fs_disk s) = Loaded cur"
    and past: "always (holds (fs_disk s) (insert kManifestName (insert name N))) s"
    and docs: "published_docs c z (fs_disk s) = Inr ds" "table_docs c z (fs_disk s) as = Inr xs" "table_docs c z (fs_disk s) bs = Inr ys"
    and enc: "manifest_text_ok c (sorted_manifest (compact_manifest (Loaded cur) ssts (as @ ssts @ bs) name))"
    and good: "image_good c z rows" "rows_decode c rows" and order: "\<forall>n \<in> set (as @ ssts @ bs). n < name"
  shows "published_docs c z (fs_disk s') = Inr (if r = None then xs @ ys @ rows else ds)
    \<and> covered_lsn (load c z (fs_disk s')) = mf_coveredWalLsn cur"
proof (rule compact_files_split [OF run st cur past])
  assume h: "always (holds (fs_disk s) (insert kManifestName N)) s'" "r \<noteq> None"
  have f: "\<forall>n \<in> insert kManifestName N. file_of (fs_disk s') n = file_of (fs_disk s) n"
    using always_now [OF h(1)] by (simp add: holds_def)
  have l: "load c z (fs_disk s') = Loaded cur"
    using covers_load_same [OF stable_covers [OF st], of "fs_disk s'"] f cur by simp
  show ?thesis
    using compact_kept_docs [OF st cur docs(1) l] f h(2) l by (auto simp: covered_lsn_def)
next
  let ?m = "compact_manifest (Loaded cur) ssts (as @ ssts @ bs) name" and ?K = "insert kManifestName (insert name (set (as @ bs)))"
  fix s3 s4
  assume p: "installed c z (cf_blockBytes cfg) rows name (fs_disk s) N s3"
    "publish c z (cf_dir cfg) ?m [(cf_dir cfg, name)] s3 = (s4, None)" "s' = foldl remove_artifacts s4 ssts" "r = None"
  note pub = compact_published [OF st cur p(1,2) refl enc]
  have "holds (fs_disk s4) ?K (fs_disk s')"
    unfolding p(3) by (rule now.remove_inputs_keep [OF pub(1)]) (use inputs_fresh [OF st cur] in blast)
  then have "\<forall>n \<in> ?K. file_of (fs_disk s') n = file_of (fs_disk s4) n"
    by (auto simp: holds_def)
  note new = pub(2) [OF this, THEN conjunct1] pub(2) [OF this, THEN conjunct2]
  have "covered_lsn (load c z (fs_disk s')) = mf_coveredWalLsn cur"
    unfolding new(1) by (simp add: covered_lsn_def next_manifest_def)
  then show ?thesis
    using compacted_docs [OF st docs(2,3) p(1) good order refl new] p(4) by simp
qed

text \<open>A crash at any point leaves the old tables or the new ones.\<close>

theorem compact_files_crash:
  assumes run: "compact_files c z cfg name ssts rows s = (s', r)" "r \<noteq> Some (CompactPublish ManifestSync)"
    and st: "stable_store c z (fs_disk s) N name (as @ ssts @ bs)" and cur: "load c z (fs_disk s) = Loaded cur"
    and past: "always (holds (fs_disk s) (insert kManifestName (insert name N))) s"
    and docs: "published_docs c z (fs_disk s) = Inr ds" "table_docs c z (fs_disk s) as = Inr xs" "table_docs c z (fs_disk s) bs = Inr ys"
    and enc: "manifest_text_ok c (sorted_manifest (compact_manifest (Loaded cur) ssts (as @ ssts @ bs) name))"
    and good: "image_good c z rows" "rows_decode c rows" and order: "\<forall>n \<in> set (as @ ssts @ bs). n < name"
    and d: "d \<in> set (fs_disk s' # fs_past s')" "recovered d d'"
  shows "published_docs c z d' = Inr ds \<or> published_docs c z d' = Inr (xs @ ys @ rows)"
proof -
  let ?m = "compact_manifest (Loaded cur) ssts (as @ ssts @ bs) name" and ?K = "insert kManifestName (insert name (set (as @ bs)))"
  have keep: "\<forall>n \<in> M. file_of d' n = file_of d0 n" if "holds d0 M d" for M d0
    using that d(2) settled_crash by (metis holds_def recovered_def)
  have old: "published_docs c z d' = Inr ds" if "load c z d' = load c z (fs_disk s)" "\<forall>n \<in> N. file_of d' n = file_of (fs_disk s) n"
    by (rule compact_kept_docs [OF st cur docs(1)]) (use that cur in simp_all)
  show ?thesis
  proof (rule compact_files_split [OF run st cur past])
    assume "always (holds (fs_disk s) (insert kManifestName N)) s'"
    then have "holds (fs_disk s) (insert kManifestName N) d"
      using d(1) by (auto simp: always_def)
    then show ?thesis
      using old covers_load_same [OF stable_covers [OF st], of d'] keep by blast
  next
    fix s3 s4
    assume p: "installed c z (cf_blockBytes cfg) rows name (fs_disk s) N s3"
      "publish c z (cf_dir cfg) ?m [(cf_dir cfg, name)] s3 = (s4, None)" "s' = foldl remove_artifacts s4 ssts"
    note pf = installed_facts [OF p(1) st] and pub = compact_published [OF st cur p(1,2) refl enc]
    have new: "published_docs c z d' = Inr (xs @ ys @ rows)"
      if "load c z d' = Loaded (sorted_manifest ?m) \<and> (\<forall>n \<in> set (mf_sstFiles ?m). file_of d' n = file_of (fs_disk s3) n)"
      by (rule compacted_docs [OF st docs(2,3) p(1) good order refl that [THEN conjunct1] that [THEN conjunct2]])
    have "holds (fs_disk s4) ?K (fs_disk s4) \<and> always (\<lambda>x. x \<in> set (fs_disk s4 # fs_past s4) \<or> holds (fs_disk s4) ?K x) s4"
      using pub(1) by (simp add: always_def)
    then have "holds (fs_disk s4) ?K (fs_disk s') \<and> always (\<lambda>x. x \<in> set (fs_disk s4 # fs_past s4) \<or> holds (fs_disk s4) ?K x) s'"
      unfolding p(3) by (rule since.remove_inputs_keep) (use inputs_fresh [OF st cur] in blast)
    then have "d \<in> set (fs_disk s4 # fs_past s4) \<or> holds (fs_disk s4) ?K d"
      using d(1) by (auto simp: always_def)
    then show ?thesis
    proof
      assume d4: "d \<in> set (fs_disk s4 # fs_past s4)"
      have sub: "set (mf_sstFiles ?m) \<subseteq> N \<union> snd ` set [(cf_dir cfg, name)]"
        using st by (auto simp: stable_store_def next_manifest_def)
      note crash = publish_crash [OF p(2) pf(1,3,4,5) enc sub d4 d(2)]
      show ?thesis
        using crash(1) old new crash(2) pf(2,6) by metis
    qed (use new pub(2) keep in blast)
  qed
qed

text \<open>When no call fails and the rows can be written, the compaction goes through.\<close>

lemma compact_files_ok:
  assumes h: "healthy s" and st: "stable_store c z (fs_disk s) N name (as @ ssts @ bs)" and cur: "load c z (fs_disk s) = Loaded cur"
    and past: "always (holds (fs_disk s) (insert kManifestName (insert name N))) s"
    and image: "sst_image c z (cf_blockBytes cfg) rows = Inr (f, i)" and good: "image_good c z rows" "rows_decode c rows" "keyed c False rows"
    and gen: "mf_generation cur < mf_generation cur + 1"
  shows "\<exists>s'. compact_files c z cfg name ssts rows s = (s', None)"
proof -
  let ?m = "compact_manifest (Loaded cur) ssts (as @ ssts @ bs) name"
  obtain s' r where run: "compact_files c z cfg name ssts rows s = (s', r)"
    by (cases "compact_files c z cfg name ssts rows s")
  show ?thesis
  proof (rule compact_files_cases [OF run st cur _ past])
    assume "healthy s \<Longrightarrow> \<exists>e. sst_image c z (cf_blockBytes cfg) rows = Inl e"
    then show ?thesis
      using h image by simp
  next
    fix s3 s4 e
    assume p: "installed c z (cf_blockBytes cfg) rows name (fs_disk s) N s3" "fs_fail s3 = fs_fail s"
      "publish c z (cf_dir cfg) ?m [(cf_dir cfg, name)] s3 = (s4, e)"
      "(s', r) = (case e of Some e \<Rightarrow> (remove_artifacts s4 name, Some (CompactPublish e)) | None \<Rightarrow> (foldl remove_artifacts s4 ssts, None))"
    note pf = installed_facts [OF p(1) st]
    have f: "file_of (fs_disk s3) name = Some f"
      using p(1) image by (auto simp: installed_def)
    have v: "verifySst c z f = None"
      by (rule image_read_back(2) [OF image good])
    have wf: "disk_wf (fs_disk s3)" "healthy s3"
      using always_now [OF pf(1)] p(2) h by (simp_all add: holds_def healthy_def)
    have name: "safeSstName name" "mf_sstFiles cur = as @ ssts @ bs" "set (as @ ssts @ bs) \<subseteq> N"
      using st cur by (simp_all add: stable_store_def)
    have files: "set (sort (mf_sstFiles ?m)) \<subseteq> insert name (set (mf_sstFiles cur))" "distinct (mf_sstFiles ?m)"
      by (auto simp: next_manifest_def name(2))
    have "check_ssts c z (fs_disk s3) False (sort (mf_sstFiles ?m)) = None"
    proof (unfold check_ssts_None, intro ballI)
      fix n
      assume "n \<in> set (sort (mf_sstFiles ?m))"
      then have "n = name \<or> n \<in> set (mf_sstFiles cur)"
        using files(1) by blast
      then show "safeSstName n \<and> file_of (fs_disk s3) n \<noteq> None"
      proof
        assume n: "n \<in> set (mf_sstFiles cur)"
        then have "n \<in> N"
          using name(2,3) by auto
        then show ?thesis
          using load_files [OF cur] n pf(6) by simp
      qed (use name(1) f in simp)
    qed
    moreover have "mf_formatVersion ?m = 1" "mf_generation ?m = mf_generation cur + 1" "mf_generation ?m \<noteq> 0"
        "mf_coveredWalLsn ?m = mf_coveredWalLsn cur"
      using gen by (auto simp: next_manifest_def)
    ultimately have "may_publish c z (fs_disk s3) [name] ?m"
      unfolding may_publish_def validateManifest_def Let_def using files pf(2) cur gen
      by (simp del: set_sort not_None_eq) (simp add: set_sort)
    then have "e = None"
      using healthy_publish [OF wf(2,1) _ f v, of ?m "cf_dir cfg"] name(1) p(3) by (simp add: safeSstName_def)
    then show ?thesis
      using run p(4) by auto
  qed auto
qed

section \<open>A collection under compaction\<close>

lemma compact_rows_length: "length (compact_rows c rs ci now full ds) \<le> length ds"
proof -
  have ins: "length (obj_insert k v xs) \<le> Suc (length xs)" for k and v :: json and xs
    by (induction xs) auto
  have step: "length (compact_row c rs ci now m j) \<le> Suc (length m)" for m j
    using ins by (simp add: compact_row_def Let_def le_SucI split: option.splits)
  have "length (foldl (compact_row c rs ci now) m ds) \<le> length m + length ds" for m
  proof (induction ds arbitrary: m)
    case (Cons d ds)
    then show ?case
      using order_trans [OF Cons [of "compact_row c rs ci now m d"]] step [of m d] by simp
  qed simp
  then have "length (foldl (compact_row c rs ci now) [] ds) \<le> length ds"
    by (metis add_0 list.size(3))
  then show ?thesis
    unfolding compact_rows_def by (intro order_trans [OF length_filter_le]) simp
qed

text \<open>The documents a table can be written from: they decode, and their number and identities are within limits.\<close>

definition writable :: "json_codec \<Rightarrow> json list \<Rightarrow> bool" where
  "writable c ds \<longleftrightarrow> rows_decode c ds \<and> length ds \<le> kMaxBlocks \<and> (\<forall>d \<in> set ds. length (rowId c d) \<le> kMaxFieldBytes)"

text \<open>The first half of a compaction: what it has read when it comes to write.\<close>

lemma compact_begin_rows:
  assumes run: "compact_begin c z cc rs ci now st = Inr (Some (job, rows))"
    and files: "publishedSsts c z (fs_disk (co_fs st)) = Inr files" "sorted files"
    and docs: "published_docs c z (fs_disk (co_fs st)) = Inr ds"
  obtains as bs xs js ys full where "files = as @ cj_ssts job @ bs" "ds = xs @ js @ ys"
    "table_docs c z (fs_disk (co_fs st)) as = Inr xs" "table_docs c z (fs_disk (co_fs st)) (cj_ssts job) = Inr js"
    "table_docs c z (fs_disk (co_fs st)) bs = Inr ys" "rows = compact_rows c rs ci now full js" "full \<longrightarrow> as = []"
proof -
  let ?d = "fs_disk (co_fs st)"
  have sel: "compact_select c z cc ?d = Inr job" and rd: "compact_read c z rs ci now job ?d = Inr rows"
    using run by (simp_all add: compact_begin_def split: sum.splits if_splits)
  obtain as bs where f: "files = as @ cj_ssts job @ bs"
    by (rule compact_select_neighbours [OF sel files])
  have t: "table_docs c z ?d (as @ cj_ssts job @ bs) = Inr ds"
    using docs published_docs_files [OF files(1)] by (simp add: f)
  obtain xs zs where x: "ds = xs @ zs" "table_docs c z ?d as = Inr xs" "table_docs c z ?d (cj_ssts job @ bs) = Inr zs"
    using table_docs_split [OF t] by blast
  obtain js ys where j: "zs = js @ ys" "table_docs c z ?d (cj_ssts job) = Inr js" "table_docs c z ?d bs = Inr ys"
    using table_docs_split [OF x(3)] by blast
  let ?full = "0 < cj_total job \<and> length files = length (cj_ssts job)"
  have rows: "rows = compact_rows c rs ci now ?full js"
    using rd files(1) j(2) by (simp add: compact_read_def)
  have full: "?full \<longrightarrow> as = []"
    by (simp add: f)
  show thesis
    by (rule that [OF f _ x(2) j(2,3) rows full]) (use x(1) j(1) in simp_all)
qed

text \<open>What the second half of a compaction needs of the store it publishes to.\<close>

definition compact_ready :: "json_codec \<Rightarrow> lz4 \<Rightarrow> lsm_config \<Rightarrow> coll \<Rightarrow> string list \<Rightarrow> string set \<Rightarrow> string list \<Rightarrow> bool" where
  "compact_ready c z cfg st ssts N files \<longleftrightarrow>
     (let s = co_fs st; name = cf_name cfg (co_tag st)
      in stable_store c z (fs_disk s) N name files \<and> load c z (fs_disk s) \<noteq> ABSENT
         \<and> always (holds (fs_disk s) (insert kManifestName (insert name N))) s
         \<and> manifest_text_ok c (sorted_manifest (compact_manifest (load c z (fs_disk s)) ssts files name))
         \<and> (\<forall>n \<in> set files. n < name))"

text \<open>
  Tables that were published and documents that were written between the two halves stand behind the
  tables the first half saw.
\<close>

lemma compact_finish_docs:
  assumes run: "compact_finish c z cfg job rows st = (st', r)" "r \<noteq> Some (CompactPublish ManifestSync)"
    and ready: "compact_ready c z cfg st (cj_ssts job) N (as @ cj_ssts job @ bs)"
    and docs: "published_docs c z (fs_disk (co_fs st)) = Inr (xs @ js @ ys)"
      "table_docs c z (fs_disk (co_fs st)) as = Inr xs" "table_docs c z (fs_disk (co_fs st)) bs = Inr ys"
    and rows: "rows = compact_rows c rs ci now full js" and w: "writable c (xs @ js @ ys)" "\<forall>b. lz4_ok z b"
    and vis: "\<forall>d \<in> set js. docVisibleByCommitIndex rs d ci \<and> doc_id c d \<noteq> None"
  shows "published_docs c z (fs_disk (co_fs st')) = Inr (if r = None then xs @ ys @ rows else xs @ js @ ys)"
    "memory_docs st' = memory_docs st"
    "d \<in> set (fs_disk (co_fs st') # fs_past (co_fs st')) \<Longrightarrow> recovered d d' \<Longrightarrow>
       published_docs c z d' = Inr (xs @ js @ ys) \<or> published_docs c z d' = Inr (xs @ ys @ rows)"
proof -
  obtain s r' where s: "compact_files c z cfg (cf_name cfg (co_tag st)) (cj_ssts job) rows (co_fs st) = (s, r')"
    by (cases "compact_files c z cfg (cf_name cfg (co_tag st)) (cj_ssts job) rows (co_fs st)")
  then have st': "co_fs st' = s" "r' = r" "memory_docs st' = memory_docs st"
    using run(1) by (auto simp: compact_finish_def memory_docs_def)
  show "memory_docs st' = memory_docs st"
    by (rule st'(3))
  note rd = ready [unfolded compact_ready_def Let_def]
  obtain cur where cur: "load c z (fs_disk (co_fs st)) = Loaded cur"
    using rd by (cases "load c z (fs_disk (co_fs st))") (auto simp: stable_store_def)
  have sub: "set rows \<subseteq> set (xs @ js @ ys)" "length rows \<le> length (xs @ js @ ys)"
    using compact_rows_subset [OF vis, of now full] compact_rows_length [of c rs ci now full js] by (auto simp: rows)
  then have good: "image_good c z rows" "rows_decode c rows"
    using w by (auto simp: writable_def rows_decode_def intro!: image_good_small)
  have st: "stable_store c z (fs_disk (co_fs st)) N (cf_name cfg (co_tag st)) (as @ cj_ssts job @ bs)"
    and past: "always (holds (fs_disk (co_fs st)) (insert kManifestName (insert (cf_name cfg (co_tag st)) N))) (co_fs st)"
    and enc: "manifest_text_ok c (sorted_manifest (compact_manifest (Loaded cur) (cj_ssts job) (as @ cj_ssts job @ bs) (cf_name cfg (co_tag st))))"
    and order: "\<forall>n \<in> set (as @ cj_ssts job @ bs). n < cf_name cfg (co_tag st)"
    using rd cur by simp_all
  note fs = s [unfolded st'(2)] run(2) st cur past docs enc good order
  show "published_docs c z (fs_disk (co_fs st')) = Inr (if r = None then xs @ ys @ rows else xs @ js @ ys)"
    using compact_files_done [OF fs] by (simp add: st'(1))
  show "published_docs c z d' = Inr (xs @ js @ ys) \<or> published_docs c z d' = Inr (xs @ ys @ rows)"
    if "d \<in> set (fs_disk (co_fs st') # fs_past (co_fs st'))" "recovered d d'"
    by (rule compact_files_crash [OF fs that(1) [unfolded st'(1)] that(2)])
qed

text \<open>A read gives the same documents whether it sees the merged tables or the result.\<close>

lemma compact_reads:
  assumes docs: "published_docs c z (fs_disk (co_fs st)) = Inr (xs @ js @ ys)"
      "published_docs c z (fs_disk (co_fs st')) = Inr (xs @ ys @ compact_rows c rs ci now full js)"
    and mem: "memory_docs st' = memory_docs st" and full: "full \<Longrightarrow> xs = []"
    and vis: "\<forall>d \<in> set (xs @ js @ ys @ memory_docs st). docVisibleByCommitIndex rs d ci \<and> doc_id c d \<noteq> None"
    and chain: "chain c (xs @ js @ ys @ memory_docs st)" and ties: "no_ties c (xs @ js @ ys @ memory_docs st)"
  shows "\<exists>out out'. getAll c z rs ci st = Inr out \<and> getAll c z rs ci st' = Inr out' \<and> set out' = set out"
proof -
  let ?rows = "compact_rows c rs ci now full js"
  have visj: "\<forall>d \<in> set js. docVisibleByCommitIndex rs d ci \<and> doc_id c d \<noteq> None"
    using vis by simp
  obtain out out' where out: "getAll c z rs ci st = Inr out" "getAll c z rs ci st' = Inr out'"
    using docs by (simp add: getAll_def Let_def split_beta)
  have vis1: "\<forall>d \<in> set ((xs @ js @ ys) @ memory_docs st). docVisibleByCommitIndex rs d ci \<and> doc_id c d \<noteq> None"
    using vis by simp
  have vis2: "\<forall>d \<in> set ((xs @ ys @ ?rows) @ memory_docs st'). docVisibleByCommitIndex rs d ci \<and> doc_id c d \<noteq> None"
    using vis compact_rows_subset [OF visj, of now full] by (auto simp: mem)
  have v: "view c z st i = newest_doc (docs_of c i (xs @ js @ ys @ memory_docs st))"
    "view c z st' i = newest_doc (docs_of c i (xs @ ys @ ?rows @ memory_docs st))" for i
    using docs by (simp_all add: view_def mem)
  have same: "view c z st' i = view c z st i \<or> view c z st' i = None \<and> (\<exists>t. view c z st i = Some t \<and> isDeletedDoc t)" for i
    unfolding v by (rule compact_newest [OF ties chain visj full])
  have "d \<in> set out' \<longleftrightarrow> d \<in> set out" for d
    using getAll_view [OF docs(1) vis1 out(1), of d] getAll_view [OF docs(2) vis2 out(2), of d] same
    by (metis option.distinct(1) option.inject)
  then show ?thesis
    using out by blast
qed

text \<open>The state a restart would find: the crashed directory under the documents of the memory.\<close>

theorem compact_keeps_reads:
  assumes begin1: "compact_begin c z cc rs ci now st = Inr (Some (job, rows))"
    and files: "publishedSsts c z (fs_disk (co_fs st)) = Inr files" "sorted files"
    and docs: "published_docs c z (fs_disk (co_fs st)) = Inr ds"
    and kept: "\<forall>n \<in> set files. file_of (fs_disk (co_fs st1)) n = file_of (fs_disk (co_fs st)) n"
    and more: "table_docs c z (fs_disk (co_fs st1)) ns = Inr es" and ready: "compact_ready c z cfg st1 (cj_ssts job) N (files @ ns)"
    and run: "compact_finish c z cfg job rows st1 = (st2, r)" "r \<noteq> Some (CompactPublish ManifestSync)"
    and w: "writable c (ds @ es)" "\<forall>b. lz4_ok z b"
    and vis: "\<forall>d \<in> set (ds @ es @ memory_docs st1). docVisibleByCommitIndex rs d ci \<and> doc_id c d \<noteq> None"
    and chain: "chain c (ds @ es @ memory_docs st1)" and ties: "no_ties c (ds @ es @ memory_docs st1)"
    and d: "d' = fs_disk (co_fs st2) \<or> (\<exists>d \<in> set (fs_disk (co_fs st2) # fs_past (co_fs st2)). recovered d d')"
    and st3: "fs_disk (co_fs st3) = d'" "memory_docs st3 = memory_docs st1"
  shows "\<exists>out out'. getAll c z rs ci st1 = Inr out \<and> getAll c z rs ci st3 = Inr out' \<and> set out' = set out"
proof -
  let ?d = "fs_disk (co_fs st)" and ?d1 = "fs_disk (co_fs st1)"
  obtain as bs xs js ys full where b: "files = as @ cj_ssts job @ bs" "ds = xs @ js @ ys" "table_docs c z ?d as = Inr xs"
      "table_docs c z ?d (cj_ssts job) = Inr js" "table_docs c z ?d bs = Inr ys" "rows = compact_rows c rs ci now full js"
      "full \<longrightarrow> as = []"
    by (rule compact_begin_rows [OF begin1 files docs])
  have t1: "table_docs c z ?d1 as = Inr xs" "table_docs c z ?d1 (cj_ssts job) = Inr js" "table_docs c z ?d1 bs = Inr ys"
    using b(3-5) table_docs_same [of as ?d1 ?d] table_docs_same [of "cj_ssts job" ?d1 ?d] table_docs_same [of bs ?d1 ?d] kept b(1)
    by simp_all
  have tb: "table_docs c z ?d1 (bs @ ns) = Inr (ys @ es)"
    by (rule table_docs_append [OF t1(3) more])
  have fm: "files @ ns = as @ cj_ssts job @ (bs @ ns)" "ds @ es = xs @ js @ (ys @ es)"
    by (simp_all add: b(1,2))
  have st: "stable_store c z ?d1 N (cf_name cfg (co_tag st1)) (files @ ns)"
    using ready by (simp add: compact_ready_def Let_def)
  have "publishedSsts c z ?d1 = Inr (files @ ns)"
    using stable_same(2) [OF st] st by (simp add: stable_store_def)
  moreover have "table_docs c z ?d1 (as @ cj_ssts job @ (bs @ ns)) = Inr (xs @ js @ (ys @ es))"
    by (intro table_docs_append t1 tb)
  ultimately have p1: "published_docs c z ?d1 = Inr (xs @ js @ (ys @ es))"
    unfolding fm by (simp add: published_docs_files)
  have visj: "\<forall>d \<in> set js. docVisibleByCommitIndex rs d ci \<and> doc_id c d \<noteq> None"
    using vis by (simp add: b(2))
  note fin = compact_finish_docs [OF run ready [unfolded fm] p1 t1(1) tb b(6) w [unfolded fm] visj]
  have full: "full \<Longrightarrow> xs = []"
    using b(3,7) by simp
  have cases: "published_docs c z d' = Inr (xs @ js @ (ys @ es)) \<or> published_docs c z d' = Inr (xs @ (ys @ es) @ rows)"
    using d fin(1) fin(3) by (auto split: if_splits)
  show ?thesis
  proof (cases "published_docs c z d' = Inr (xs @ js @ (ys @ es))")
    case True
    then have "getAll c z rs ci st3 = getAll c z rs ci st1"
      using p1 st3 by (simp add: getAll_def)
    moreover have "\<exists>out. getAll c z rs ci st1 = Inr out"
      using p1 by (simp add: getAll_def Let_def split_beta)
    ultimately show ?thesis
      by auto
  next
    case False
    then have "published_docs c z (fs_disk (co_fs st3)) = Inr (xs @ (ys @ es) @ compact_rows c rs ci now full js)"
      using cases st3(1) b(6) by simp
    then show ?thesis
      by (rule compact_reads [OF p1 _ st3(2) full]) (use vis chain ties b(2) in simp_all)
  qed
qed

end
