(* ===== verification/Storage_Props.thy ===== *)
theory Storage_Props
  imports Lsm_Compact
begin

text \<open>
  Properties of the storage engine: the table files, the manifest, and a collection under writes, flushes,
  crashes and restarts.
\<close>

section \<open>A small collection\<close>

text \<open>
  The setting of the witnesses: one document, MessagePack as the engine writes it, a decoder for that document,
  a text for its first manifests, and no compression.
\<close>

definition sample_row :: json where
  "sample_row = JObj [(''_visibility_state'', JStr ''COMMITTED_VISIBLE''), (''id'', JStr ''a'')]"

definition sample_manifest :: "bytes \<Rightarrow> LsmManifest" where
  "sample_manifest bs =
     \<lparr>mf_formatVersion = 1, mf_generation = ucast (hd bs), mf_coveredWalLsn = le_word (drop 2 bs),
      mf_sstFiles = (if hd bs = 3 then [''3.sst''] else take (unat (bs ! 1)) [''1.sst'', ''2.sst''])\<rparr>"

definition sample_text :: "json \<Rightarrow> bytes" where
  "sample_text j =
     (case (jlookup j ''generation'', jlookup j ''coveredWalLsn'', jlookup j ''sstFiles'') of
        (Some (JUInt g), Some (JUInt w), Some (JArr fs)) \<Rightarrow> ucast g # of_nat (length fs) # le_bytes 8 w
      | _ \<Rightarrow> [])"

definition sample_codec :: json_codec where
  "sample_codec =
     \<lparr>to_msgpack = write_msgpack (\<lambda>_. []),
      from_msgpack = (\<lambda>_. Some sample_row),
      jdump = sample_text, jparse = (\<lambda>bs. Some (manifest_json (sample_manifest bs)))\<rparr>"

definition sample_lz4 :: lz4 where
  "sample_lz4 = \<lparr>lz_bound = (\<lambda>_. 0), lz_compress = (\<lambda>_. None), lz_decompress = (\<lambda>_ _. None)\<rparr>"

definition sample_cfg :: lsm_config where
  "sample_cfg =
     \<lparr>cf_dir = ''d'', cf_user = ''u'', cf_db = ''b'', cf_coll = ''k'', cf_blockBytes = 4096, cf_limit = 100,
      cf_name = (\<lambda>n. if n = 0 then ''1.sst'' else if n = 1 then ''2.sst'' else ''3.sst''), cf_accepts = (\<lambda>_. True), cf_dropped = (\<lambda>_. 0)\<rparr>"

definition sample_fs :: fsys where
  "sample_fs =
     \<lparr>fs_disk = \<lparr>d_nodes = [], d_live = [], d_durable = [], d_pending = []\<rparr>, fs_past = [], fs_fail = (\<lambda>_. None), fs_calls = 0\<rparr>"

definition sample_raft :: raft_status where
  "sample_raft = \<lparr>rs_enabled = False, rs_leader = False, rs_peers = 0, rs_bypass_off = False\<rparr>"

abbreviation sample_rows :: "json list" where
  "sample_rows \<equiv> [sample_row]"

abbreviation sample_job :: "nat \<Rightarrow> flush_job" where
  "sample_job k \<equiv> \<lparr>fj_tag = k, fj_snapshot = [(''a'', sample_row)], fj_covered = 1\<rparr>"

lemma sample_row_ok: "row_ok (from_msgpack sample_codec) (\<lambda>_. [])
    [(''_visibility_state'', JStr ''COMMITTED_VISIBLE''), (''id'', JStr ''a'')]"
  by (simp add: row_ok_def sample_codec_def readMsgpackString_write)

lemma sample_row_fields: "rowId sample_codec sample_row = ''a''" "doc_id sample_codec sample_row = Some ''a''"
  by (simp_all add: rowId_def doc_id_def sample_row_def jcontains_def)

lemma sample_bytes: "to_msgpack sample_codec sample_row \<noteq> []" "length (to_msgpack sample_codec sample_row) = 42"
  by (simp_all add: sample_codec_def sample_row_def mp_map_head_def mp_string_def mp_str_head_def)

lemma sample_decode: "rows_decode sample_codec sample_rows"
  by (simp add: rows_decode_def sample_codec_def)

lemma sample_good: "image_good sample_codec sample_lz4 sample_rows"
  by (rule image_good_small) (simp_all add: lz4_ok_def sample_lz4_def sample_row_fields kMaxBlocks_def kMaxFieldBytes_def)

lemma sample_limits: "\<forall>b. lz4_ok sample_lz4 b" "length sample_rows \<le> kMaxBlocks"
  "\<forall>r \<in> set sample_rows. length (rowId sample_codec r) \<le> kMaxFieldBytes"
  by (simp_all add: lz4_ok_def sample_lz4_def sample_row_fields kMaxBlocks_def kMaxFieldBytes_def)

lemma sample_keyed: "keyed sample_codec ix sample_rows"
  using row_field_write [OF sample_row_ok, of ix "''id''"] sample_row_fields(1)
  by (simp add: keyed_def packed_id_def sample_codec_def sample_row_def id_text_def del: write_msgpack.simps)

lemma sample_image: "\<exists>f i. sst_image sample_codec sample_lz4 4096 sample_rows = Inr (f, i)"
  using sample_bytes by (simp add: sst_image_def Let_def add_row_def writer_init_def kMaxFieldBytes_def)

lemma sample_empty:
  "load sample_codec sample_lz4 (fs_disk sample_fs) = ABSENT" "published_docs sample_codec sample_lz4 (fs_disk sample_fs) = Inr []"
  "store_ok sample_codec sample_lz4 (fs_disk sample_fs)" "settled (fs_disk sample_fs) n" "file_of (fs_disk sample_fs) n = None"
proof -
  show f: "file_of (fs_disk sample_fs) n = None" and s: "settled (fs_disk sample_fs) n" for n
    by (simp_all add: sample_fs_def file_of_def node_of_def settled_def may_bind_def data_synced_def)
  show l: "load sample_codec sample_lz4 (fs_disk sample_fs) = ABSENT"
    by (simp add: load_def f)
  show "published_docs sample_codec sample_lz4 (fs_disk sample_fs) = Inr []"
    using l by (simp add: published_docs_def publishedSsts_def) (simp add: sample_fs_def)
  show "store_ok sample_codec sample_lz4 (fs_disk sample_fs)"
    using l s by (simp add: store_ok_def) (simp add: sample_fs_def disk_wf_def may_bind_def obj_wf_def)
qed

lemma sample_names: "safeSstName ''1.sst''" "safeSstName ''2.sst''" "path_extension ''1.sst'' = ''.sst''" "path_extension ''2.sst'' = ''.sst''"
  by (simp_all add: safeSstName_def path_extension_def Let_def)

abbreviation sample_others :: "string set" where
  "sample_others \<equiv> {n. path_extension n = ''.sst''} - {''1.sst''}"

lemma sample_ready:
  "flush_ready sample_codec sample_lz4 sample_cfg sample_fs 0 [(''a'', sample_row)] sample_others []"
  "flush_works sample_codec sample_lz4 sample_cfg sample_fs [(''a'', sample_row)]"
proof -
  have st: "stable_store sample_codec sample_lz4 (fs_disk sample_fs) sample_others ''1.sst'' []"
    using sample_empty sample_names by (intro stable_absent) auto
  moreover have "always (holds (fs_disk sample_fs) (insert kManifestName (insert ''1.sst'' sample_others))) sample_fs"
    using st by (simp add: stable_store_def always_def sample_fs_def)
  moreover have "manifest_text_ok sample_codec (sorted_manifest (next_manifest ABSENT k [''1.sst'']))" for k
    using le_word_le_bytes [of 8 k]
    by (simp add: manifest_text_ok_def Let_def sample_codec_def sample_text_def manifest_json_def next_manifest_def
        sample_manifest_def kMaxManifestBytes_def take_bit_word_eq_self)
  ultimately show "flush_ready sample_codec sample_lz4 sample_cfg sample_fs 0 [(''a'', sample_row)] sample_others []"
    using sample_good sample_decode sample_empty(1) by (simp add: flush_ready_def sample_cfg_def)
  show "flush_works sample_codec sample_lz4 sample_cfg sample_fs [(''a'', sample_row)]"
    using sample_keyed sample_image sample_empty(1) by (simp add: flush_works_def sample_cfg_def healthy_def) (simp add: sample_fs_def)
qed

text \<open>The collection after its first flush, with a process that has just opened it.\<close>

lemma sample_flushed:
  "\<exists>s lsn m. flush_files sample_codec sample_lz4 sample_cfg (sample_job 0) sample_fs = (s, Inr lsn)
     \<and> store_ok sample_codec sample_lz4 (fs_disk s) \<and> published_docs sample_codec sample_lz4 (fs_disk s) = Inr sample_rows
     \<and> load sample_codec sample_lz4 (fs_disk s) = Loaded m \<and> mf_generation m = 1 \<and> mf_sstFiles m = [''1.sst'']
     \<and> settled (fs_disk s) ''2.sst'' \<and> file_of (fs_disk s) ''2.sst'' = None"
proof -
  let ?c = sample_codec and ?z = sample_lz4
  note rd = sample_ready(1) [unfolded flush_ready_def]
  have n: "cf_name sample_cfg 0 = ''1.sst''"
    by (simp add: sample_cfg_def)
  obtain f i where f: "sst_image ?c ?z (cf_blockBytes sample_cfg) sample_rows = Inr (f, i)"
    using sample_image by (auto simp: sample_cfg_def)
  have "\<exists>s lsn. flush_files ?c ?z sample_cfg (sample_job 0) sample_fs = (s, Inr lsn)"
    by (rule flush_files_ok [where N = sample_others and files = "[]" and f = f and i = i])
      (use rd f sample_keyed sample_empty(1) in \<open>simp_all add: n healthy_def\<close>, simp add: sample_fs_def)
  then obtain s lsn where s: "flush_files ?c ?z sample_cfg (sample_job 0) sample_fs = (s, Inr lsn)"
    by blast
  have st: "stable_store ?c ?z (fs_disk sample_fs) sample_others (cf_name sample_cfg (fj_tag (sample_job 0))) []"
    and past: "always (holds (fs_disk sample_fs) (insert kManifestName (insert (cf_name sample_cfg (fj_tag (sample_job 0))) sample_others))) sample_fs"
    and enc: "manifest_text_ok ?c (sorted_manifest (flush_manifest sample_cfg (sample_job 0) (load ?c ?z (fs_disk sample_fs)) []))"
    and good: "image_good ?c ?z (map snd (fj_snapshot (sample_job 0)))" "rows_decode ?c (map snd (fj_snapshot (sample_job 0)))"
    using rd by simp_all
  note fd = flush_files_done [OF s st sample_empty(2) past enc good]
  have "''2.sst'' \<in> sample_others"
    using sample_names(4) by simp
  then show ?thesis
    using s fd sample_empty(1,5) n by (simp add: next_manifest_def)
qed

section \<open>A collection under writes, flushes and restarts\<close>


abbreviation sample_doc :: json where
  "sample_doc \<equiv> JObj [(''id'', JStr ''a'')]"

abbreviation sample_start :: coll where
  "sample_start \<equiv> start_coll sample_fs [] 0 0"

lemma sample_stored: "stored_doc sample_codec sample_cfg sample_raft 0 0 Record sample_doc = Inr (''a'', sample_row)"
  by (simp add: stored_doc_def sample_cfg_def sample_raft_def stampVisibilityMetadata_def jcontains_def settled_state_def
      isDeletedDoc_def jvalue_def rowId_def sample_row_def)

lemma sample_start_durable: "durable sample_codec sample_lz4 sample_cfg sample_start [] []"
  using sample_empty(1,2) by (simp add: durable_def start_coll_def covered_lsn_def no_progress_def)

lemma sample_put: "\<exists>st. put sample_codec sample_cfg sample_raft 0 0 Logged True Record sample_doc sample_start = (st, None)
    \<and> co_fs st = sample_fs \<and> co_mem st = [(''a'', sample_row)] \<and> co_tag st = 0 \<and> co_imm st = []"
  using sample_stored by (simp add: put_def log_append_def Let_def apply_docs_def start_coll_def)

lemma sample_lsn: "co_lsn sample_start = 0"
  by (simp add: start_coll_def)

lemma sample_view: "view sample_codec sample_lz4 sample_start i = None"
  using sample_empty(2) by (simp add: view_def start_coll_def memory_docs_def)


text \<open>C9: A flush on a disk whose calls succeed is published: the documents of the memtable follow the earlier ones
  in the published tables, the collection stays durable, and every read sees what it saw before.\<close>

theorem lsm_flush_keeps_contents:
  assumes "durable c z cfg st ds ws"
    and "flush_ready c z cfg (co_fs st) (co_tag st) (co_mem st) N files" "flush_works c z cfg (co_fs st) (co_mem st)"
  shows "\<exists>st' ws'. flush c z cfg False st = (st', None) \<and> durable c z cfg st' (ds @ map snd (co_mem st)) ws'
      \<and> co_mem st' = [] \<and> view c z st' = view c z st"
proof -
  obtain st' where st': "flush c z cfg False st = (st', None)"
    using flush_ok [OF assms(2,3)] by blast
  then show ?thesis
    using flush_durable [OF st' assms(1,2)] by auto
qed

lemma sample_put_durable:
  "\<exists>st. durable sample_codec sample_lz4 sample_cfg st [] [(''a'', sample_row)] \<and> co_fs st = sample_fs
     \<and> co_mem st = [(''a'', sample_row)] \<and> co_tag st = 0"
proof -
  obtain st where st: "put sample_codec sample_cfg sample_raft 0 0 Logged True Record sample_doc sample_start = (st, None)"
      "co_fs st = sample_fs" "co_mem st = [(''a'', sample_row)]" "co_tag st = 0"
    using sample_put by blast
  have "durable sample_codec sample_lz4 sample_cfg st [] ([] @ [(''a'', sample_row)])"
    by (rule put_durable(1) [OF st(1) sample_stored sample_start_durable])
      (simp_all add: sample_view sample_lsn jcontains_def sample_cfg_def obj_wf_def)
  then show ?thesis
    using st by auto
qed

theorem lsm_flush_keeps_contents_witness:
  "\<exists>st st' ws'. flush sample_codec sample_lz4 sample_cfg False st = (st', None)
     \<and> durable sample_codec sample_lz4 sample_cfg st' [sample_row] ws'
     \<and> view sample_codec sample_lz4 st' = view sample_codec sample_lz4 st"
proof -
  obtain st where st: "durable sample_codec sample_lz4 sample_cfg st [] [(''a'', sample_row)]" "co_fs st = sample_fs"
      "co_mem st = [(''a'', sample_row)]" "co_tag st = 0"
    using sample_put_durable by blast
  show ?thesis
    using lsm_flush_keeps_contents [OF st(1)] sample_ready st(2-4) by fastforce
qed





section \<open>Compaction\<close>
















section \<open>The manifest\<close>

text \<open>C12: Publishing a manifest is atomic and durable: whatever call a crash interrupts, the directory loads the
  old manifest or the new one with all its tables as they were written, and after a successful publication
  it loads the new one.\<close>

theorem manifest_publish_atomic:
  assumes "publish c z dir m arts s = (s', r)" "store_ok c z (fs_disk s)" "fs_past s = []"
    and "load c z (fs_disk s) = Loaded cur" "snd ` set arts \<inter> special = {}" "manifest_text_ok c (sorted_manifest m)"
    and "d \<in> set (fs_disk s' # fs_past s')" "recovered d d'"
  shows "(load c z d' = Loaded cur \<and> (\<forall>n \<in> set (mf_sstFiles cur). file_of d' n = file_of (fs_disk s) n)
      \<or> load c z d' = Loaded (sorted_manifest m) \<and> (\<forall>n \<in> set (mf_sstFiles m). file_of d' n = file_of (fs_disk s) n))
    \<and> (r = None \<longrightarrow> d = fs_disk s' \<longrightarrow> load c z d' = Loaded (sorted_manifest m))"
proof -
  let ?N = "set (mf_sstFiles cur)"
  have ok: "disk_wf (fs_disk s)" "\<forall>n \<in> insert kManifestName ?N. settled (fs_disk s) n"
    using assms(2,4) by (auto simp: store_ok_def)
  then have past: "always (holds (fs_disk s) (insert kManifestName ?N)) s"
    using assms(3) by (simp add: always_def holds_def)
  have cov: "covers c z (fs_disk s) ?N"
    by (simp add: assms(4))
  have N: "?N \<inter> special = {}"
    using load_files [OF assms(4)] safe_not_special by auto
  have absent: "load c z (fs_disk s) = ABSENT \<Longrightarrow> set (mf_sstFiles m) \<subseteq> ?N \<union> snd ` set arts"
    by (simp add: assms(4))
  note crash = publish_crash [OF assms(1) past cov N assms(5,6) absent assms(7,8)]
  show ?thesis
    using crash assms(4) by auto
qed

theorem manifest_publish_atomic_witness:
  "\<exists>s s' cur d'. load sample_codec sample_lz4 (fs_disk s) = Loaded cur
     \<and> publish sample_codec sample_lz4 ''d'' (cur\<lparr>mf_generation := 2\<rparr>) [] s = (s', None)
     \<and> recovered (fs_disk s') d' \<and> load sample_codec sample_lz4 d' = Loaded (cur\<lparr>mf_generation := 2\<rparr>)"
proof -
  let ?c = sample_codec and ?z = sample_lz4
  obtain s1 :: fsys and cur where s1: "store_ok ?c ?z (fs_disk s1)" "load ?c ?z (fs_disk s1) = Loaded cur"
      "mf_generation cur = 1" "mf_sstFiles cur = [''1.sst'']"
    using sample_flushed by blast
  let ?m = "cur\<lparr>mf_generation := 2\<rparr>"
  define s where "s = sample_fs\<lparr>fs_disk := fs_disk s1\<rparr>"
  have s: "fs_disk s = fs_disk s1" "fs_past s = []" "healthy s"
    by (simp_all add: s_def sample_fs_def healthy_def)
  have v: "mf_formatVersion cur = 1" "file_of (fs_disk s1) ''1.sst'' \<noteq> None"
    using s1(2,4) load_files [OF s1(2)]
    by (auto simp: load_def validateManifest_def Let_def split: option.splits if_splits sum.splits)
  have "validateManifest ?c ?z (fs_disk s) False ?m = Inr ?m"
    using v s1(4) sample_names(1) by (auto simp: validateManifest_def s(1))
  then have "publish ?c ?z ''d'' ?m [] s = replace_manifest ?c ?m (fs_do (sync_names (fs_disk s)) s)"
    using s1(2,3,4) s(1) healthy_syncDirectory [OF s(3)] by (simp add: publish_def Let_def word_le_nat_alt)
  moreover have "disk_wf (fs_disk s)"
    using s1(1) s(1) by (simp add: store_ok_def)
  ultimately obtain s' where run: "publish ?c ?z ''d'' ?m [] s = (s', None)"
    using healthy_replace [of "fs_do (sync_names (fs_disk s)) s" ?c ?m] s(3) by (metis fs_disk_do healthy_do prod.collapse sync_names_wf)
  have sorted: "sorted_manifest ?m = ?m"
    by (simp add: s1(4))
  have enc: "manifest_text_ok ?c (sorted_manifest ?m)"
    unfolding sorted using le_word_le_bytes [of 8 "mf_coveredWalLsn cur"] s1(4) v(1)
    by (simp add: manifest_text_ok_def Let_def sample_codec_def sample_text_def manifest_json_def
        sample_manifest_def kMaxManifestBytes_def take_bit_word_eq_self)
  have "load ?c ?z ((fs_disk s')\<lparr>d_live := d_durable (fs_disk s')\<rparr>) = Loaded (sorted_manifest ?m)"
    using manifest_publish_atomic [OF run _ s(2) _ _ enc _ recovered_durable, of cur "fs_disk s'"] s1(1,2) s(1) by simp
  then show ?thesis
    using run recovered_durable s1(2) s(1) unfolding sorted by metis
qed

section \<open>Reading a collection\<close>



section \<open>Table files\<close>

text \<open>C14: A written table is read back: scanning the file delivers the rows it was written from, in order, and
  the verification of the file accepts it.\<close>

theorem sst_write_scan_verify:
  assumes "sst_image c z target rows = Inr (f, stats)"
    and "\<forall>b. lz4_ok z b" "rows_decode c rows" "keyed c False rows"
    and "length rows \<le> kMaxBlocks" "\<forall>r \<in> set rows. length (rowId c r) \<le> kMaxFieldBytes"
  shows "sst_rows c z f = Inr rows \<and> verifySst c z f = None"
  using image_read_back(1,2) [OF assms(1) image_good_small [OF assms(2,5,6)] assms(3)] assms(4) by simp

theorem sst_write_scan_verify_witness:
  "\<exists>f stats. sst_image sample_codec sample_lz4 4096 [sample_row] = Inr (f, stats)
     \<and> sst_rows sample_codec sample_lz4 f = Inr [sample_row] \<and> verifySst sample_codec sample_lz4 f = None"
proof -
  obtain f stats where f: "sst_image sample_codec sample_lz4 4096 sample_rows = Inr (f, stats)"
    using sample_image by blast
  show ?thesis
    using sst_write_scan_verify [OF f sample_limits(1) sample_decode sample_keyed sample_limits(2,3)] f by blast
qed

text \<open>C15: The lookup by binary search over the block index finds what a search through all rows finds: of the rows
  of the identity that the caller accepts, the one of the highest version, the later one on a tie.\<close>

theorem sst_find_newest:
  assumes "sst_image c z target rows = Inr (f, stats)"
    and "\<forall>b. lz4_ok z b" "rows_decode c rows" "keyed c True rows"
    and "length rows \<le> kMaxBlocks" "\<forall>r \<in> set rows. length (rowId c r) \<le> kMaxFieldBytes"
  shows "\<exists>b. chosen (view_version c True) el (candidates i [keyed_rows c rows]) b
    \<and> findInSst c z f el i = Inr (if nw_found b then from_msgpack c (nw_bytes b) else None)"
  using image_read_back(3) [OF assms(1) image_good_small [OF assms(2,5,6)] assms(3,4)] newest_chosen
  by (metis (no_types, lifting))

theorem sst_find_newest_witness:
  "\<exists>f stats. sst_image sample_codec sample_lz4 4096 [sample_row] = Inr (f, stats)
     \<and> findInSst sample_codec sample_lz4 f (\<lambda>_. True) ''a'' = Inr (Some sample_row)
     \<and> findInSst sample_codec sample_lz4 f (\<lambda>_. True) ''b'' = Inr None"
proof -
  obtain f stats where f: "sst_image sample_codec sample_lz4 4096 sample_rows = Inr (f, stats)"
    using sample_image by blast
  note find = sst_find_newest [OF f sample_limits(1) sample_decode sample_keyed sample_limits(2,3)]
  have cand: "candidates ''a'' [keyed_rows sample_codec sample_rows] = [(0, to_msgpack sample_codec sample_row)]"
    "candidates ''b'' [keyed_rows sample_codec sample_rows] = []"
    by (simp_all add: candidates_def keyed_rows_def sample_row_fields)
  have "findInSst sample_codec sample_lz4 f (\<lambda>_. True) ''a'' = Inr (Some sample_row)"
    using find [of "\<lambda>_. True" "''a''"] sample_decode unfolding cand by (auto simp: chosen_def rows_decode_def)
  moreover have "findInSst sample_codec sample_lz4 f (\<lambda>_. True) ''b'' = Inr None"
    using find [of "\<lambda>_. True" "''b''"] unfolding cand by (auto simp: chosen_def nothing_def)
  ultimately show ?thesis
    using f by blast
qed

text \<open>C16: The merge over the tables of a collection ends on every input: arbitrary and damaged files, any visitor
  and any filter.\<close>

theorem sst_merge_returns: "\<exists>r. visitLatestSstRows c z fs ix inc el v s = Some r"
  by (rule visitLatestSstRows_returns)



text \<open>C18: The Bloom sidecar of a table has no false negatives: a key it was built from is always reported as
  possibly present, so a lookup never skips the table that holds the row.\<close>

theorem bloom_no_false_negative:
  assumes "length keys < 2 ^ 50" "key \<in> set keys" "file_of d (path @ ''.bloom'') = Some (buildBloom keys)"
  shows "mayExistInSST d path key"
  using bloom_member [OF assms(1,2)] assms(3) by (simp add: mayExistInSST_def)

theorem bloom_no_false_negative_witness:
  "mayExistInSST (put_file (fs_disk sample_fs) ''1.sst.bloom'' (buildBloom [''a'', ''b''])) ''1.sst'' ''b''"
proof (rule bloom_no_false_negative [of "[''a'', ''b'']"])
  have "disk_wf (fs_disk sample_fs)"
    using sample_empty(3) by (simp add: store_ok_def)
  then show "file_of (put_file (fs_disk sample_fs) ''1.sst.bloom'' (buildBloom [''a'', ''b''])) (''1.sst'' @ ''.bloom'')
      = Some (buildBloom [''a'', ''b''])"
    using put_file_file by simp
qed simp_all

section \<open>The log boundary\<close>

text \<open>C19: However the applied log records are reported, singly or in ranges, in any order and repeatedly, the
  boundary a flush takes is the end of the longest unbroken run of applied records from the first one on.\<close>

theorem lsm_boundary_contiguous:
  assumes "\<forall>(f, l) \<in> set ms. l < - 1"
  shows "{1..n} \<subseteq> (\<Union>m \<in> set ms. mark_set m)
    \<longleftrightarrow> n \<le> unat (wp_contiguous (foldl (\<lambda>p (f, l). markWalApplied p f l) no_progress ms))"
  by (rule marks_contiguous [OF assms])

theorem lsm_boundary_contiguous_witness:
  "{1..3} \<subseteq> (\<Union>m \<in> set [(2 :: u64, 3 :: u64), (5, 6), (1, 1)]. mark_set m)
    \<longleftrightarrow> 3 \<le> unat (wp_contiguous (foldl (\<lambda>p (f, l). markWalApplied p f l) no_progress [(2, 3), (5, 6), (1, 1)]))"
  by (rule lsm_boundary_contiguous) (simp add: word_less_nat_alt unat_max_word)

end
