(* ===== verification/Spec2Isabelle.thy ===== *)
theory Spec2Isabelle
  imports Wal_Props Raft_Props Raft_Log_Props Vector_Props Media_Props Storage_Props
begin

text \<open>
  A verification library of the PacificDB engine (the C++ sources under \<open>engine/src\<close> and
  \<open>engine/include\<close>).

  \<^bold>\<open>The program.\<close>  PacificDB is a replicated document store.  A write enters the server, is replicated by
  the consensus core (\<open>raft_core.cpp\<close>) through its log file, and is applied in order to the storage engine
  (\<open>lsm.cpp\<close>), which first appends it to the write-ahead log of its collection (\<open>wal.cpp\<close>).  A mutation is
  announced to the freshness counters and the change journals of the vector subsystem, from which derived
  vector indexes are kept up to date; queries accept an index only under a certificate.  The catalog of the
  community edition (\<open>community_catalog.cpp\<close>) keeps uploads of large objects in ordinary collections.

  \<^bold>\<open>Theories and sources.\<close>

  \<^item> \<open>Prelude\<close>, \<open>Json\<close>, \<open>Checksum\<close>: machine words, little-endian codecs and decimal names; the JSON value
    the engine passes around (\<open>nlohmann::json\<close>, whose text form and MessagePack decoder are a parameter
    \<open>json_codec\<close>); the checksums of \<open>data_durability.cpp\<close> and the FNV hash of the WAL.
  \<^item> \<open>Wal_Format\<close>, \<open>Wal_Scan\<close>, \<open>Wal_Log\<close>, \<open>Wal_Record\<close>: the collection WAL, from the frame codec and the
    scanner \<open>scanWalFiles\<close> to \<open>initializeLogicalWal\<close>, \<open>appendEntries\<close>, \<open>reclaimThrough\<close>, recovery and
    clearing.  A log is a file system of byte strings (\<open>wal_fs\<close>) and a record of the in-memory state; every
    system call may fail and a write may stop after any byte.  \<open>Wal_Scan_Laws\<close>, \<open>Wal_Layout\<close>,
    \<open>Wal_Recovery\<close>, \<open>Wal_Append\<close> and \<open>Wal_Reclaim\<close> hold the lemmas; \<open>Durable_Log\<close> is the contract of a log
    (locale \<open>durable_log\<close>, interpreted on the WAL); \<open>Wal_Props\<close> the properties.
  \<^item> \<open>Msgpack\<close>, \<open>Msgpack_Row\<close>: the encoder of \<open>binary_writer.hpp\<close> and the row views of \<open>storage_format_v2.cpp\<close>
    that read single fields out of encoded rows.  \<open>Sst_Format\<close>, \<open>Sst_Laws\<close>, \<open>Sst_Cursor\<close>, \<open>Sst_Merge\<close>,
    \<open>Sst_Find\<close>, \<open>Sst_Bloom\<close>: the table files of the same source, from the block codec to scans, cursors, the merge
    over tables, the binary search, verification and the Bloom sidecars.
  \<^item> \<open>Durable_Dir\<close> (\<open>durable_file_ops.cpp\<close>): a directory in which names and contents become durable separately, so
    that a crash may undo a rename or leave an unsynced file with any contents; every call may fail and the states
    it passes through are recorded.  \<open>Lsm_Manifest\<close> (\<open>lsm_manifest.cpp\<close>): loading and publishing the manifest.
    \<open>Lsm_Progress\<close>, \<open>Lsm_Version\<close>, \<open>Lsm_Visibility\<close>, \<open>Lsm_Table\<close>, \<open>Lsm_Collection\<close> (\<open>lsm.cpp\<close>): the log boundary and
    the collection keys, newest-version merging, commit-index visibility, the table files of a collection, and the
    operations \<open>put\<close>, \<open>putMany\<close>, \<open>flush\<close>, \<open>replayCollectionWal\<close> and \<open>getAll\<close> on the record \<open>coll\<close>, in which the log
    is the list of its records (what \<open>Wal_Props\<close> shows the WAL to be).  \<open>Lsm_Compact\<close>: compaction in the three phases
    of the code, with its lemmas.  \<open>Lsm_Laws\<close>, \<open>Lsm_Finalize\<close>, \<open>Lsm_Flush\<close> and
    \<open>Lsm_Restart\<close> hold the lemmas: locale \<open>call_invariant\<close> is the contract of a sequence of file operations
    (interpreted on the current state, on the recorded states, on the states from a point on and
    on the schedule of failures), \<open>view\<close> the abstract
    contents of a collection, \<open>durable\<close> the invariant that a restart rebuilds it.  \<open>Storage_Props\<close> holds the
    properties.
  \<^item> \<open>Raft_Log\<close>, \<open>Raft_File\<close>, \<open>Raft_Index\<close>: the log file \<open>raft/log.bin\<close>, its append path, compaction, trimming,
    the term cache and the range reader.  \<open>Raft_Apply\<close>: the applier.  \<open>Raft_Node\<close>, \<open>Raft_Election\<close>,
    \<open>Raft_Cluster\<close>, \<open>Raft_Race\<close>: the state of a node, its persistence, vote handling, and a cluster as a step
    relation (locale \<open>quorum_system\<close>, interpreted on majorities).  \<open>Raft_Follower\<close>, \<open>Raft_Follower_Laws\<close>,
    \<open>Raft_Match\<close>: heartbeats, AppendEntries and WAL shipping.  \<open>Raft_Quorum\<close>: the leader's quorum index and its
    waiters.  \<open>Raft_Props\<close> and \<open>Raft_Log_Props\<close> hold the properties.
  \<^item> \<open>Vector_Budget\<close> (\<open>vector_memory_budget.hpp\<close>), \<open>Std_Heap\<close> and \<open>Vector_Top_K\<close> (\<open>vector_top_k.hpp\<close>, locales
    \<open>std_heap\<close> and \<open>collector\<close>), \<open>Vector_Freshness\<close> (\<open>vector_freshness.hpp\<close>), \<open>Vector_Journal\<close>
    (\<open>vector_change_journal.cpp\<close>), \<open>Vector_Registry\<close> (\<open>vector_change_registry.cpp\<close>), \<open>Vector_Generation\<close>
    (\<open>vector_index_generation.cpp\<close>, \<open>vector_index_incremental.cpp\<close>), \<open>Vector_Source\<close> and \<open>Vector_Index\<close>: the
    vector subsystem.  \<open>Vector_Source\<close> states what a source of vectors promises to an index (locale
    \<open>change_source\<close>); \<open>Vector_Registry\<close> interprets it on a collection that reports its edits;
    \<open>Vector_Index\<close> runs the index manager beside such a source, one step per locked section.
    \<open>Vector_Props\<close> holds the properties.
  \<^item> \<open>Media_Upload\<close> (\<open>media_upload_state.cpp\<close>), \<open>Media_Catalog\<close> (the upload operations of
    \<open>community_catalog.cpp\<close>), \<open>Media_Laws\<close> and \<open>Media_Props\<close>: uploads at the granularity of durable writes.

  \<^bold>\<open>What is shown.\<close>  \<^emph>\<open>WAL\<close>: an append cut at any byte recovers to a prefix of the batch, an acknowledged
  append survives any later crash, reclaiming removes only covered records, scans deliver increasing LSNs,
  a flipped payload byte is detected.  \<^emph>\<open>Storage\<close>: an acknowledged put survives a restart, a flush changes
  neither the contents nor their recoverability and is atomic under a crash at any of its calls, a compaction leaves every
  read as it was, the manifest is the
  old or the new one, a read returns the newest version of every identity; a table is read back as it was written,
  binary search and merge agree with the plain search through all rows, the merge ends on damaged files too, a
  Bloom filter has no false negatives, the log boundary is the longest unbroken prefix.  \<^emph>\<open>Consensus\<close>: at most one winner per term, committed entries survive
  every message, a successful AppendEntries leaves the follower with the batch, entries are applied once and
  in order, the quorum index is held by a majority, no waiter is stranded; log rewriting, caches and range
  reads agree with the plain reading of the file.  \<^emph>\<open>Vectors\<close>: an index handed to a query holds exactly the
  vectors of its collection, the journal refines the list of all mutations, equal certificates bracket a
  quiet interval, top-\<open>k\<close> selection equals sorting, the memory budget is never exceeded.  \<^emph>\<open>Media\<close>: an
  upload marked ready is complete, statuses move only along \<open>canTransition\<close>, progress is exact.
  A few theorems and lemmas exhibit behaviour the code should not have; they are listed as findings in the
  manifest (two leaders through the unlocked leader flag, a quorum of an even cluster, a torn append
  that hides the next one, the short CRC table, the reconciliation races of uploads, and others).

  \<^bold>\<open>Concurrency and failure.\<close>  Where the code takes a lock, the locked section is one step; where it uses
  atomics (budget, freshness) each atomic operation is a step under sequential consistency, the default
  memory order of the code.  Crashes keep the durable state and lose the rest.

  \<^bold>\<open>Bounds.\<close>  Counters and identifiers are 64-bit words that wrap.  Properties that need it assume fewer
  than \<open>2\<^sup>6\<^sup>4\<close> LSNs, journal entries or revision bumps and fewer than \<open>2\<^sup>3\<^sup>2\<close> threads.  No model uses fuel:
  loops are structural, have a measure, or are partial functions with a theorem that they return.

  \<^bold>\<open>Not modelled.\<close>  Of the storage engine: column and secondary indexes, caches, filtered and range
  reads, the dense scores on row views.  Further: query evaluation, approximate search itself (a graph is the map it indexes), the server, TLS, start-up, shells, security and tenants, backup,
  task queues, TTL, sharding, metrics, and the clients in other languages.  External code (LZ4, OpenSSL,
  JSON text and MessagePack, \<open>std::hash\<close>, the operating system) enters as parameters.

  \<^bold>\<open>Plan.\<close>  Next: the filtered reads of the storage engine over the merge, then the column indexes, the
  database engine on top of them, and TTL, limits and the task queues.
\<close>

end
